(* ===== verification/Prelude.thy ===== *)
theory Prelude
  imports Main "HOL-Library.Word"
begin

text \<open>
  Shared vocabulary of the development: the names of the machine types, the result
  type of operations that can throw, little-endian byte images of machine words (the
  layout every raw \<open>memcpy\<close>, socket transfer and block-cipher call of the program
  relies on), and the lemmas on words, lists and sums the component theories share.
\<close>

unbundle bit_operations_syntax

type_synonym u8 = "8 word"
type_synonym u16 = "16 word"
type_synonym u32 = "32 word"
type_synonym u64 = "64 word"
type_synonym u128 = "128 word"
type_synonym bytes = "u8 list"

text \<open>C++ exceptions the program throws; an operation that may throw returns \<open>error + 'a\<close>.\<close>

datatype error =
    InvalidArgument string
  | RuntimeError string
  | LogicError string

text \<open>Facts about unsigned values, and facts used to run loops over index ranges.\<close>

named_theorems unat_simps
named_theorems loop_simps

subsection \<open>Word arithmetic read as natural numbers\<close>

lemma unat_add_no_overflow [unat_simps]:
  fixes a b :: "'a::len word"
  shows "unat a + unat b < 2 ^ LENGTH('a) \<Longrightarrow> unat (a + b) = unat a + unat b"
  by (simp add: unat_word_ariths)

lemma unat_sub_no_borrow [unat_simps]:
  fixes a b :: "'a::len word"
  shows "unat b \<le> unat a \<Longrightarrow> unat (a - b) = unat a - unat b"
  by (simp add: unat_sub word_le_nat_alt)

lemma unat_mult_no_overflow [unat_simps]:
  fixes a b :: "'a::len word"
  shows "unat a * unat b < 2 ^ LENGTH('a) \<Longrightarrow> unat (a * b) = unat a * unat b"
  by (simp add: unat_word_ariths)

lemma unat_less_exp: "unat (w :: 'a::len word) < 2 ^ LENGTH('a)"
  by (rule unsigned_less)

lemma unat_mod_word [unat_simps]:
  fixes a b :: "'a::len word"
  shows "unat (a mod b) = unat a mod unat b"
  by (simp add: unat_mod)

lemma unat_shiftr [unat_simps]:
  fixes w :: "'a::len word"
  shows "unat (drop_bit n w) = unat w div 2 ^ n"
  unfolding unat_drop_bit_eq by (rule drop_bit_eq_div)

lemma unat_shiftr_one [unat_simps]: "unat (drop_bit 1 w) = unat w div 2"
  for w :: "'a::len word"
  using unat_shiftr[of 1 w] by (simp only: power_one_right)

lemma unat_neg_word [unat_simps]:
  fixes x :: "'a::len word"
  shows "x \<noteq> 0 \<Longrightarrow> unat (- x) = 2 ^ LENGTH('a) - unat x"
  using unat_sub_if'[of 0 x] by (simp add: unat_gt_0)

lemma uint_gt_0_iff: "0 < uint w \<longleftrightarrow> w \<noteq> 0" for w :: "'a::len word"
  using uint_ge_0[of w] uint_0_iff[of w] by linarith

lemma unat_two_power [unat_simps]:
  assumes "n < LENGTH('a)"
  shows "unat (2 ^ n :: 'a::len word) = 2 ^ n"
proof -
  have "unat (of_nat (2 ^ n) :: 'a word) = 2 ^ n"
    using assms by (simp only: unat_of_nat) (simp add: take_bit_nat_eq_self)
  then show ?thesis by simp
qed

lemma mod_add_once:
  fixes a b m :: nat
  assumes "a < m" "b < m"
  shows "(a + b) mod m = (if a + b \<ge> m then a + b - m else a + b)"
  using assms by (simp add: mod_if)

lemma mod_sub_once:
  fixes a b m :: nat
  assumes "a < m" "b < m"
  shows "(a + m - b) mod m = (if b \<le> a then a - b else a + m - b)"
proof (cases "b \<le> a")
  case True
  then have e: "a + m - b = (a - b) + m" by simp
  have "(a + m - b) mod m = (a - b) mod m" unfolding e by simp
  with assms True show ?thesis by simp
next
  case False
  with assms show ?thesis by simp
qed

lemma digit_mod: "0 \<le> a \<Longrightarrow> a < B \<Longrightarrow> (a + B * b) mod B = a" for a b B :: int
  by (simp add: mod_pos_pos_trivial)

lemma digit_div: "0 \<le> a \<Longrightarrow> a < B \<Longrightarrow> (a + B * b) div B = b" for a b B :: int
  by (simp add: div_pos_pos_trivial)

lemma div_less_of_less_mult:
  fixes a p B :: int
  assumes "0 < p" "a < B * p"
  shows "a div p < B"
proof -
  have "a div p * p \<le> a" using div_mult_mod_eq[of a p] pos_mod_sign[OF assms(1), of a] by linarith
  then have "a div p * p < B * p" using assms(2) by linarith
  then show ?thesis using assms(1) by simp
qed

lemma high_digit_zero:
  fixes a b B :: int
  assumes "a + B * b = z" "z < B" "0 \<le> a" "0 \<le> b" "0 < B"
  shows "b = 0"
proof (rule ccontr)
  assume "b \<noteq> 0"
  then have "B * 1 \<le> B * b" using assms by (intro mult_left_mono) auto
  then have "B \<le> B * b" by simp
  then show False using assms by linarith
qed

lemma uint64_lt: "uint w < 2 ^ 64" for w :: u64
  using uint_lt2p[of w] by simp

lemma uint32_lt: "uint w < 2 ^ 32" for w :: u32
  using uint_lt2p[of w] by simp

subsection \<open>Single-correction modular addition and subtraction\<close>

lemma uint_add_no_overflow:
  fixes a b :: "'a::len word"
  shows "uint a + uint b < 2 ^ LENGTH('a) \<Longrightarrow> uint (a + b) = uint a + uint b"
  by (simp add: uint_word_ariths)

lemma uint_sub_no_borrow:
  fixes a b :: "'a::len word"
  shows "b \<le> a \<Longrightarrow> uint (a - b) = uint a - uint b"
  by (simp add: word_le_def uint_sub_lem)

lemma mod_neg_residue:
  fixes a p :: int
  assumes "0 < a" "a < p"
  shows "(- a) mod p = p - a"
proof -
  have "(p - a) mod p = p - a" by (rule mod_pos_pos_trivial) (use assms in auto)
  then show ?thesis by simp
qed

lemma uint_mod_add_cases:
  fixes x y m :: "'a::len word"
  assumes x: "uint x < uint m" and y: "uint y < uint m"
  shows "uint (if y \<ge> m - x then y - (m - x) else x + y) = (uint x + uint y) mod uint m"
proof -
  have mx: "uint (m - x) = uint m - uint x"
    by (rule uint_sub_no_borrow) (use x in \<open>simp add: word_le_def\<close>)
  show ?thesis
  proof (cases "m - x \<le> y")
    case True
    then have "uint (y - (m - x)) = uint y - (uint m - uint x)"
      using uint_sub_no_borrow[OF True] mx by simp
    moreover have "(uint x + uint y) mod uint m = uint x + uint y - uint m"
      using True x y mx mod_add_if_z[of "uint x" "uint m" "uint y"] by (simp add: word_le_def)
    ultimately show ?thesis using True by simp
  next
    case False
    then have lt: "uint x + uint y < uint m" using mx by (simp add: word_le_def)
    then have "uint (x + y) = uint x + uint y"
      using uint_lt2p[of m] by (intro uint_add_no_overflow) linarith
    with False lt show ?thesis by simp
  qed
qed

lemma uint_mod_less:
  fixes v m :: "'a::len word"
  assumes "m \<noteq> 0"
  shows "uint (v mod m) < uint m"
  unfolding uint_mod using assms by (intro pos_mod_bound) (simp add: uint_gt_0_iff del: word_neq_0_conv)

lemma uint_mod_sub_cases:
  fixes x y m :: "'a::len word"
  assumes x: "uint x < uint m" and y: "uint y < uint m"
  shows "uint (if x \<ge> y then x - y else m - (y - x)) = (uint x - uint y) mod uint m"
proof (cases "y \<le> x")
  case True
  then have "(uint x - uint y) mod uint m = uint x - uint y"
    using x uint_ge_0[of y] unfolding word_le_def by (intro mod_pos_pos_trivial) linarith+
  with True uint_sub_no_borrow[OF True] show ?thesis by simp
next
  case False
  then have d: "uint (y - x) = uint y - uint x" by (intro uint_sub_no_borrow) simp
  have "y - x \<le> m" unfolding word_le_def d using y uint_ge_0[of x] by linarith
  then have "uint (m - (y - x)) = uint m - (uint y - uint x)"
    using uint_sub_no_borrow[of "y - x" m] d by simp
  moreover have "(uint x - uint y) mod uint m = uint x - uint y + uint m"
    using False x y mod_sub_if_z[of "uint x" "uint m" "uint y"] by (simp add: word_le_def)
  ultimately show ?thesis using False by simp
qed

subsection \<open>Little-endian byte images\<close>

definition le_bytes :: "nat \<Rightarrow> 'a::len word \<Rightarrow> bytes" where
  "le_bytes n w = map (\<lambda>i. ucast (drop_bit (8 * i) w)) [0..<n]"

fun le_word :: "bytes \<Rightarrow> 'a::len word" where
  "le_word [] = 0"
| "le_word (b # bs) = ucast b OR push_bit 8 (le_word bs)"

lemma length_le_bytes [simp]: "length (le_bytes n w) = n"
  by (simp add: le_bytes_def)

lemma bit_le_word:
  "bit (le_word bs :: 'a::len word) i \<longleftrightarrow>
     i < LENGTH('a) \<and> i div 8 < length bs \<and> bit (bs ! (i div 8)) (i mod 8)"
proof (induction bs arbitrary: i)
  case Nil
  then show ?case by simp
next
  case (Cons b bs)
  show ?case
  proof (cases "i < 8")
    case True
    then show ?thesis
      by (auto simp: bit_simps dest: bit_imp_le_length)
  next
    case False
    then obtain j where j: "i = j + 8" by (metis add.commute le_Suc_ex not_less)
    have "i div 8 = Suc (j div 8)" "i mod 8 = j mod 8" using j by simp_all
    then show ?thesis
      using Cons.IH[of j] j by (auto simp: bit_simps dest: bit_imp_le_length)
  qed
qed

lemma le_word_le_bytes:
  fixes w :: "'a::len word"
  assumes "LENGTH('a) \<le> 8 * n"
  shows "le_word (le_bytes n w) = w"
proof (rule bit_word_eqI)
  fix i assume i: "i < LENGTH('a)"
  with assms have n: "i div 8 < n" by (simp add: less_mult_imp_div_less mult.commute)
  have "8 * (i div 8) + i mod 8 = i" by simp
  with i n show "bit (le_word (le_bytes n w) :: 'a word) i = bit w i"
    by (simp add: bit_le_word le_bytes_def bit_simps)
qed

lemma le_bytes_le_word:
  fixes bs :: bytes
  assumes "LENGTH('a) = 8 * length bs"
  shows "le_bytes (length bs) (le_word bs :: 'a::len word) = bs"
proof (rule nth_equalityI)
  fix i assume i: "i < length (le_bytes (length bs) (le_word bs :: 'a word))"
  show "le_bytes (length bs) (le_word bs :: 'a word) ! i = bs ! i"
  proof (rule bit_word_eqI)
    fix j assume j: "j < LENGTH(8)"
    with i have "8 * i + j < LENGTH('a)" using assms by simp
    with i j show "bit (le_bytes (length bs) (le_word bs :: 'a word) ! i) j = bit (bs ! i) j"
      by (simp add: le_bytes_def bit_simps bit_le_word)
  qed
qed simp

subsection \<open>Lists and sums\<close>

lemma sum_list_map_upt:
  "sum_list (map f [0..<n]) = (\<Sum>k<n. f k)" for f :: "nat \<Rightarrow> 'a::comm_monoid_add"
  by (simp add: interv_sum_list_conv_sum_set_nat lessThan_atLeast0)

lemma fold_upt_Suc [loop_simps]:
  "fold f [0..<Suc n] s = f n (fold f [0..<n] s)"
  by simp

lemma fold_upt_invariant:
  assumes "P 0 s" and "\<And>k s. k < n \<Longrightarrow> P k s \<Longrightarrow> P (Suc k) (f k s)"
  shows "P n (fold f [0..<n] s)"
  using assms by (induction n) auto

lemma card_filter_upt: "length (filter P [0..<n]) = card {k. k < n \<and> P k}"
proof -
  have "card {k. k < n \<and> P k} = card (set (filter P [0..<n]))"
    by (rule arg_cong[of _ _ card]) auto
  also have "\<dots> = length (filter P [0..<n])" by (rule distinct_card) simp
  finally show ?thesis by simp
qed

lemma sum_remove_one:
  fixes f :: "nat \<Rightarrow> int"
  assumes "finite S" "j \<in> S"
  shows "(\<Sum>k\<in>S. f k) = f j + (\<Sum>k\<in>S - {j}. f k)"
  using assms by (rule sum.remove)

subsection \<open>Loops that can stop\<close>

text \<open>A loop whose body may trap: \<open>None\<close> ends it.\<close>

fun foldM :: "('a \<Rightarrow> 's \<Rightarrow> 's option) \<Rightarrow> 'a list \<Rightarrow> 's \<Rightarrow> 's option" where
  "foldM f [] s = Some s"
| "foldM f (x # xs) s = (case f x s of None \<Rightarrow> None | Some s' \<Rightarrow> foldM f xs s')"

lemma foldM_append [loop_simps]:
  "foldM f (xs @ ys) s = (case foldM f xs s of None \<Rightarrow> None | Some s' \<Rightarrow> foldM f ys s')"
  by (induction xs arbitrary: s) (auto split: option.splits)

lemma foldM_upt_Suc [loop_simps]:
  "foldM f [0..<Suc n] s = (case foldM f [0..<n] s of None \<Rightarrow> None | Some s' \<Rightarrow> f n s')"
  by (simp add: foldM_append split: option.splits)

lemma foldM_invariant:
  assumes "P 0 s" and "\<And>k s. k < n \<Longrightarrow> P k s \<Longrightarrow> \<exists>s'. f k s = Some s' \<and> P (Suc k) s'"
  shows "\<exists>s'. foldM f [0..<n] s = Some s' \<and> P n s'"
  using assms
proof (induction n)
  case (Suc n)
  then obtain s' where "foldM f [0..<n] s = Some s'" "P n s'" by (metis less_SucI)
  with Suc.prems(2)[of n s'] show ?case by (auto simp: foldM_upt_Suc simp del: upt_Suc)
qed simp

text \<open>Collecting the values of operations that may throw: the first exception wins.\<close>

fun sum_those :: "('e + 'a) list \<Rightarrow> 'e + 'a list" where
  "sum_those [] = Inr []"
| "sum_those (Inl e # xs) = Inl e"
| "sum_those (Inr x # xs) = map_sum id (Cons x) (sum_those xs)"

lemma sum_those_Inr: "sum_those (map (\<lambda>x. Inr (f x)) xs) = Inr (map f xs)"
  by (induction xs) auto

end
