(* ===== verification/Utils.thy ===== *)
theory Utils
  imports Prelude Complex_Main "HOL-Library.While_Combinator"
begin

text \<open>
  \<open>src/src/utils.cpp\<close> and the constants of \<open>src/src/include/utils.h\<close>: protocol
  constants and their validation, the rejection sampler over the CSPRNG, the signed
  modular addition of the answer noise, the ring-degree selection and the database
  array. The CSPRNG (Crypto++) is an argument: \<open>rng i\<close> is the \<open>i\<close>-th 64-bit draw,
  and an operation that draws returns the index of the next draw.
\<close>

subsection \<open>Protocol constants\<close>

definition LAMBDA :: nat where "LAMBDA = 30"
definition PPFE_COEFF_MODULUS_BITS :: u32 where "PPFE_COEFF_MODULUS_BITS = 54"
definition PPFE_PLAIN_MODULUS_BITS :: u32 where "PPFE_PLAIN_MODULUS_BITS = 20"
definition PPFE_ANSWER_NOISE_SIGMA_BITS :: nat where "PPFE_ANSWER_NOISE_SIGMA_BITS = 22"
definition PPFE_ANSWER_NOISE_SIGMA :: u64 where
  "PPFE_ANSWER_NOISE_SIGMA = push_bit PPFE_ANSWER_NOISE_SIGMA_BITS 1"
definition PPFE_MIN_POLY_MODULUS_DEGREE :: u32 where "PPFE_MIN_POLY_MODULUS_DEGREE = 2048"
definition PPFE_MAX_POLY_MODULUS_DEGREE :: u32 where "PPFE_MAX_POLY_MODULUS_DEGREE = 32768"

lemmas ppfe_constants = PPFE_COEFF_MODULUS_BITS_def PPFE_PLAIN_MODULUS_BITS_def
  PPFE_ANSWER_NOISE_SIGMA_BITS_def PPFE_ANSWER_NOISE_SIGMA_def
  PPFE_MIN_POLY_MODULUS_DEGREE_def PPFE_MAX_POLY_MODULUS_DEGREE_def

subsection \<open>Bit length\<close>

function BitLength_loop :: "u64 \<Rightarrow> u32 \<Rightarrow> u32" where
  "BitLength_loop v bits =
     (if v \<noteq> 0 then BitLength_loop (drop_bit 1 v) (bits + 1) else bits)"
  by pat_completeness auto
termination
  by (relation "measure (\<lambda>(v, bits). unat v)")
     (auto simp: unat_drop_bit_eq drop_bit_eq_div unat_gt_0 unat_div)

declare BitLength_loop.simps [simp del]

definition BitLength :: "u64 \<Rightarrow> u32" where
  "BitLength v = BitLength_loop v 0"

lemma BitLength_loop_bounds:
  assumes "unat v < 2 ^ m" "unat bits + m < 2 ^ 32"
  shows "\<exists>n \<le> m. unat (BitLength_loop v bits) = unat bits + n \<and>
           (v \<noteq> 0 \<longrightarrow> 0 < n \<and> 2 ^ (n - 1) \<le> unat v) \<and> unat v < 2 ^ n"
  using assms
proof (induction v bits arbitrary: m rule: BitLength_loop.induct)
  case (1 v b)
  show ?case
  proof (cases "v = 0")
    case True
    then show ?thesis by (intro exI[of _ 0]) (simp add: BitLength_loop.simps)
  next
    case False
    then have vpos: "0 < unat v" by (simp add: unat_gt_0)
    with "1.prems" obtain k where k: "m = Suc k" by (cases m) auto
    have half: "unat (drop_bit 1 v) = unat v div 2"
      by (rule unat_shiftr_one)
    have b1: "unat (b + 1) = unat b + 1"
      using "1.prems" k by (simp add: unat_simps)
    have "unat (drop_bit 1 v) < 2 ^ k" unfolding half using "1.prems" k by simp
    moreover have "unat (b + 1) + k < 2 ^ 32" using "1.prems" k b1 by simp
    ultimately obtain n where n: "n \<le> k"
      "unat (BitLength_loop (drop_bit 1 v) (b + 1)) = unat (b + 1) + n"
      "drop_bit 1 v \<noteq> 0 \<longrightarrow> 0 < n \<and> 2 ^ (n - 1) \<le> unat (drop_bit 1 v)"
      "unat (drop_bit 1 v) < 2 ^ n"
      using "1.IH"[OF False] by blast
    have up: "unat v < 2 ^ Suc n" using n(4) half by simp
    have lo: "2 ^ (Suc n - 1) \<le> unat v"
    proof (cases "drop_bit 1 v = 0")
      case True
      then have "unat v div 2 = 0" using half by simp
      then have "unat v = 1" using vpos by simp
      show ?thesis
      proof (cases n)
        case 0 then show ?thesis using vpos by simp
      next
        case (Suc n')
        have "BitLength_loop (drop_bit 1 v) (b + 1) = b + 1"
          using True by (subst BitLength_loop.simps) simp
        with n(2) Suc show ?thesis by simp
      qed
    next
      case nz: False
      with n(3) have "0 < n" "2 ^ (n - 1) \<le> unat v div 2" using half by auto
      then have "2 * 2 ^ (n - 1) \<le> unat v" by simp
      moreover have "2 * 2 ^ (n - 1) = (2::nat) ^ n"
        using \<open>0 < n\<close> by (simp flip: power_Suc)
      ultimately show ?thesis by simp
    qed
    have step: "BitLength_loop v b = BitLength_loop (drop_bit 1 v) (b + 1)"
      using False by (subst BitLength_loop.simps) simp
    show ?thesis
      using n(1,2) up lo b1 k step by (intro exI[of _ "Suc n"]) simp
  qed
qed

lemma BitLength_iff:
  assumes "0 < n"
  shows "unat (BitLength v) = n \<longleftrightarrow> 2 ^ (n - 1) \<le> unat v \<and> unat v < 2 ^ n"
proof -
  have "unat v < 2 ^ 64" using unat_less_exp[of v] by simp
  then obtain k where k: "unat (BitLength v) = k"
    "v \<noteq> 0 \<longrightarrow> 0 < k \<and> 2 ^ (k - 1) \<le> unat v" "unat v < 2 ^ k"
    using BitLength_loop_bounds[of v 64 0] by (auto simp: BitLength_def)
  show ?thesis
  proof
    assume "unat (BitLength v) = n"
    with k assms have "n = k" by simp
    moreover have "v \<noteq> 0"
    proof
      assume "v = 0"
      then have "BitLength v = 0" by (simp add: BitLength_def BitLength_loop.simps)
      with \<open>unat (BitLength v) = n\<close> assms show False by simp
    qed
    ultimately show "2 ^ (n - 1) \<le> unat v \<and> unat v < 2 ^ n" using k by simp
  next
    assume r: "2 ^ (n - 1) \<le> unat v \<and> unat v < 2 ^ n"
    have "(0::nat) < 2 ^ (n - 1)" by simp
    with r have "0 < unat v" by (meson order_less_le_trans)
    then have "v \<noteq> 0" by auto
    with k have k': "0 < k" "2 ^ (k - 1) \<le> unat v" by auto
    from r k(3) have "(2::nat) ^ (n - 1) < 2 ^ k" by (meson le_less_trans)
    moreover from r k'(2) have "(2::nat) ^ (k - 1) < 2 ^ n" by (meson le_less_trans)
    ultimately have "n - 1 < k" "k - 1 < n" by simp_all
    with assms k'(1) have "n = k" by simp
    with k(1) show "unat (BitLength v) = n" by simp
  qed
qed

subsection \<open>The rejection sampler\<close>

definition SecureRandomUint64 :: "(nat \<Rightarrow> u64) \<Rightarrow> nat \<Rightarrow> u64 \<times> nat" where
  "SecureRandomUint64 rng i = (rng i, Suc i)"

definition rejection_threshold :: "u64 \<Rightarrow> u64" where
  "rejection_threshold upper_bound = (- upper_bound) mod upper_bound"

partial_function (option) SecureRandomUint64Below_loop ::
  "(nat \<Rightarrow> u64) \<Rightarrow> nat \<Rightarrow> u64 \<Rightarrow> (u64 \<times> nat) option" where
  "SecureRandomUint64Below_loop rng i threshold =
     (let v = fst (SecureRandomUint64 rng i); i' = snd (SecureRandomUint64 rng i)
      in if v < threshold then SecureRandomUint64Below_loop rng i' threshold
         else Some (v, i'))"

declare SecureRandomUint64Below_loop.simps [code]

definition SecureRandomUint64Below ::
  "(nat \<Rightarrow> u64) \<Rightarrow> nat \<Rightarrow> u64 \<Rightarrow> (error + u64 \<times> nat) option" where
  "SecureRandomUint64Below rng i upper_bound =
     (if upper_bound = 0 then Some (Inl (InvalidArgument ''upper_bound must be positive''))
      else map_option (\<lambda>(v, i'). Inr (v mod upper_bound, i'))
             (SecureRandomUint64Below_loop rng i (rejection_threshold upper_bound)))"

definition SecureRandomBit :: "(nat \<Rightarrow> u64) \<Rightarrow> nat \<Rightarrow> bool \<times> nat" where
  "SecureRandomBit rng i =
     (let (v, i') = SecureRandomUint64 rng i in (v AND 1 \<noteq> 0, i'))"

lemma SecureRandomUint64Below_loop_first:
  assumes "\<forall>k. i \<le> k \<and> k < j \<longrightarrow> rng k < t" "i \<le> j" "t \<le> rng j"
  shows "SecureRandomUint64Below_loop rng i t = Some (rng j, Suc j)"
  using assms
proof (induction "j - i" arbitrary: i)
  case 0
  then have "i = j" by simp
  with 0 show ?case
    by (subst SecureRandomUint64Below_loop.simps)
       (simp add: SecureRandomUint64_def Let_def leD)
next
  case (Suc d)
  then have "rng i < t" by simp
  moreover have "SecureRandomUint64Below_loop rng (Suc i) t = Some (rng j, Suc j)"
    using Suc by (intro Suc.hyps(1)) auto
  ultimately show ?case
    by (subst SecureRandomUint64Below_loop.simps) (simp add: SecureRandomUint64_def Let_def)
qed

lemma unat_rejection_threshold:
  assumes "upper_bound \<noteq> 0"
  shows "unat (rejection_threshold upper_bound) = 2 ^ 64 mod unat upper_bound"
proof -
  have u: "unat upper_bound \<le> 2 ^ 64" using unat_less_exp[of upper_bound] by simp
  have "unat (- upper_bound) = 2 ^ 64 - unat upper_bound"
    using assms by (simp add: unat_neg_word)
  then have "unat (rejection_threshold upper_bound) = (2 ^ 64 - unat upper_bound) mod unat upper_bound"
    by (simp add: rejection_threshold_def unat_mod)
  also have "\<dots> = 2 ^ 64 mod unat upper_bound"
    using u by (metis le_mod_geq)
  finally show ?thesis .
qed

lemma card_words_with:
  "card {v :: u64. P (unat v)} = card {n. n < 2 ^ 64 \<and> P n}"
proof (rule bij_betw_same_card[of unat])
  show "bij_betw unat {v :: u64. P (unat v)} {n. n < 2 ^ 64 \<and> P n}"
    unfolding bij_betw_def
  proof
    show "inj_on unat {v :: u64. P (unat v)}" by (auto simp: inj_on_def word_unat_eq_iff)
    show "unat ` {v :: u64. P (unat v)} = {n. n < 2 ^ 64 \<and> P n}"
    proof (intro equalityI subsetI)
      fix n assume "n \<in> {n. n < 2 ^ 64 \<and> P n}"
      then have "unat (of_nat n :: u64) = n" "P n" by (simp_all add: unat_of_nat take_bit_nat_eq_self)
      then show "n \<in> unat ` {v :: u64. P (unat v)}" by (metis imageI mem_Collect_eq)
    qed (use unat_less_exp[where 'a=64] in auto)
  qed
qed

lemma card_residue_block:
  fixes u k t r :: nat
  assumes "r < u" "t < u"
  shows "card {n. t \<le> n \<and> n < t + u * k \<and> n mod u = r} = k"
proof -
  define c where "c = (if t \<le> r then r else r + u)"
  have c: "t \<le> c" "c < t + u" "c mod u = r" using assms by (auto simp: c_def)
  have "{n. t \<le> n \<and> n < t + u * k \<and> n mod u = r} = (\<lambda>j. c + u * j) ` {..<k}"
  proof (intro equalityI subsetI)
    fix n assume "n \<in> {n. t \<le> n \<and> n < t + u * k \<and> n mod u = r}"
    then have n: "t \<le> n" "n < t + u * k" "n mod u = c mod u" using c by auto
    have cn: "c \<le> n"
    proof (rule ccontr)
      assume "\<not> c \<le> n"
      with n(3) obtain q where q: "c = n + u * q" by (metis mod_eq_nat1E nat_le_linear)
      with \<open>\<not> c \<le> n\<close> have "0 < q" by (cases q) auto
      with q n(1) c(2) show False by (cases q) auto
    qed
    with n(3) obtain q where q: "n = c + u * q" by (metis mod_eq_nat1E)
    have "u * q < u * k" using q n(2) c(1) by linarith
    with q show "n \<in> (\<lambda>j. c + u * j) ` {..<k}" by auto
  next
    fix n assume "n \<in> (\<lambda>j. c + u * j) ` {..<k}"
    then obtain j where j: "n = c + u * j" "j < k" by auto
    have "u * j + u \<le> u * k" using j(2) by (metis Suc_leI mult_Suc_right add.commute mult_le_mono2)
    with j c show "n \<in> {n. t \<le> n \<and> n < t + u * k \<and> n mod u = r}" by auto
  qed
  moreover have "inj_on (\<lambda>j. c + u * j) {..<k}" using assms by (auto simp: inj_on_def)
  ultimately show ?thesis by (simp add: card_image)
qed

lemma SecureRandomUint64Below_loop_advances:
  "SecureRandomUint64Below_loop rng i t = Some r \<Longrightarrow> i < snd r"
proof (induction rule: SecureRandomUint64Below_loop.raw_induct[rotated, consumes 1])
  case (1 loop rng i t r)
  show ?case
  proof (cases "rng i < t")
    case True
    then have "loop rng (Suc i) t = Some r" using 1(2) by (simp add: SecureRandomUint64_def Let_def)
    from 1(1)[OF this] show ?thesis by simp
  qed (use 1(2) in \<open>auto simp: SecureRandomUint64_def Let_def\<close>)
qed

lemma SecureRandomUint64Below_step:
  "SecureRandomUint64Below rng i upper_bound =
    (if upper_bound \<noteq> 0 \<and> \<not> rng i < rejection_threshold upper_bound then Some (Inr (rng i mod upper_bound, Suc i))
     else SecureRandomUint64Below rng (Suc i) upper_bound)"
  unfolding SecureRandomUint64Below_def
  by (subst SecureRandomUint64Below_loop.simps) (simp add: SecureRandomUint64_def Let_def)

lemma SecureRandomUint64Below_first:
  assumes "upper_bound \<noteq> 0"
  shows "SecureRandomUint64Below rng i upper_bound = Some (Inr (r, Suc i)) \<longleftrightarrow>
    \<not> rng i < rejection_threshold upper_bound \<and> rng i mod upper_bound = r"
proof (cases "rng i < rejection_threshold upper_bound")
  case True
  have "SecureRandomUint64Below rng (Suc i) upper_bound \<noteq> Some (Inr (r, Suc i))"
    using assms SecureRandomUint64Below_loop_advances[of rng "Suc i" "rejection_threshold upper_bound"]
    by (auto simp: SecureRandomUint64Below_def)
  then show ?thesis using True by (subst SecureRandomUint64Below_step) simp
next
  case False
  then show ?thesis using assms by (subst SecureRandomUint64Below_step) simp
qed

text \<open>
  C34: The rejection sampler is exactly uniform: whatever the generator does otherwise, each residue
  below the bound is the result of the first draw for the same number of 64-bit values of
  that draw, namely \<open>2^64 div upper_bound\<close>; for all other values of the draw the sampler goes on as if it
  started with the next one.
\<close>

theorem SecureRandomUint64Below_uniform:
  assumes "r < upper_bound"
  shows "card {v. SecureRandomUint64Below (rng(i := v)) i upper_bound = Some (Inr (r, Suc i))} = 2 ^ 64 div unat upper_bound \<and>
    (\<forall>v. (\<nexists>s. SecureRandomUint64Below (rng(i := v)) i upper_bound = Some (Inr (s, Suc i))) \<longrightarrow>
      SecureRandomUint64Below (rng(i := v)) i upper_bound = SecureRandomUint64Below (rng(i := v)) (Suc i) upper_bound)"
proof
  let ?u = "unat upper_bound" and ?r = "unat r"
  let ?t = "(2 ^ 64) mod ?u" and ?k = "(2 ^ 64) div ?u"
  have u: "0 < ?u" "?r < ?u" and nz: "upper_bound \<noteq> 0" using assms by (auto simp: word_less_nat_alt)
  have "{v. SecureRandomUint64Below (rng(i := v)) i upper_bound = Some (Inr (r, Suc i))}
          = {v. ?t \<le> unat v \<and> unat v mod ?u = ?r}"
    using unat_rejection_threshold[OF nz]
    by (auto simp: SecureRandomUint64Below_first[OF nz] word_less_nat_alt word_unat_eq_iff unat_mod not_less)
  then have "card {v. SecureRandomUint64Below (rng(i := v)) i upper_bound = Some (Inr (r, Suc i))}
          = card {n. n < 2 ^ 64 \<and> ?t \<le> n \<and> n mod ?u = ?r}"
    by (simp only: card_words_with[where P = "\<lambda>n. ?t \<le> n \<and> n mod ?u = ?r"])
  also have "{n. n < 2 ^ 64 \<and> ?t \<le> n \<and> n mod ?u = ?r}
          = {n. ?t \<le> n \<and> n < ?t + ?u * ?k \<and> n mod ?u = ?r}"
    by auto
  also have "card \<dots> = ?k"
    by (rule card_residue_block) (use u in auto)
  finally show "card {v. SecureRandomUint64Below (rng(i := v)) i upper_bound = Some (Inr (r, Suc i))} = ?k" .
  show "\<forall>v. (\<nexists>s. SecureRandomUint64Below (rng(i := v)) i upper_bound = Some (Inr (s, Suc i))) \<longrightarrow>
      SecureRandomUint64Below (rng(i := v)) i upper_bound = SecureRandomUint64Below (rng(i := v)) (Suc i) upper_bound"
    using SecureRandomUint64Below_step by metis
qed

theorem SecureRandomUint64Below_uniform_witness:
  "card {v. SecureRandomUint64Below ((\<lambda>_. 0)(5 := v)) 5 10007 = Some (Inr (42, 6))} = 2 ^ 64 div 10007"
  using SecureRandomUint64Below_uniform[of 42 10007 "\<lambda>_. 0" 5] by simp

text \<open>
  the sampler returns as soon as the generator produces a draw at or above the
  rejection threshold, and what it returns is that first accepted draw reduced below the
  bound; a zero bound is an error before anything is drawn.
\<close>

theorem SecureRandomUint64Below_returns:
  assumes "upper_bound \<noteq> 0" "i \<le> j" "\<not> rng j < rejection_threshold upper_bound"
  shows "\<exists>k. i \<le> k \<and> k \<le> j \<and> \<not> rng k < rejection_threshold upper_bound \<and>
           (\<forall>l. i \<le> l \<and> l < k \<longrightarrow> rng l < rejection_threshold upper_bound) \<and>
           SecureRandomUint64Below rng i upper_bound = Some (Inr (rng k mod upper_bound, Suc k)) \<and>
           rng k mod upper_bound < upper_bound"
proof -
  define k where "k = (LEAST k. i \<le> k \<and> \<not> rng k < rejection_threshold upper_bound)"
  have k: "i \<le> k \<and> \<not> rng k < rejection_threshold upper_bound"
    unfolding k_def by (rule LeastI[of _ j]) (use assms in blast)
  have kj: "k \<le> j" unfolding k_def by (rule Least_le) (use assms in blast)
  have least: "\<forall>l. i \<le> l \<and> l < k \<longrightarrow> rng l < rejection_threshold upper_bound"
    using not_less_Least unfolding k_def by blast
  have "SecureRandomUint64Below_loop rng i (rejection_threshold upper_bound) = Some (rng k, Suc k)"
    by (rule SecureRandomUint64Below_loop_first) (use k least in auto)
  moreover have "rng k mod upper_bound < upper_bound"
    using assms(1) by (simp add: word_less_nat_alt unat_mod unat_gt_0)
  ultimately show ?thesis
    using k kj least assms(1) by (intro exI[of _ k]) (auto simp: SecureRandomUint64Below_def)
qed

text \<open>For the bound \<open>2^63 + 1\<close> almost half of all draws are rejected: here the first two are.\<close>

theorem SecureRandomUint64Below_returns_witness:
  "\<exists>k. 0 \<le> k \<and> k \<le> 2 \<and> \<not> of_nat k * 0x4000000000000000 < rejection_threshold 0x8000000000000001 \<and>
     (\<forall>l. 0 \<le> l \<and> l < k \<longrightarrow> of_nat l * 0x4000000000000000 < rejection_threshold 0x8000000000000001) \<and>
     SecureRandomUint64Below (\<lambda>i. of_nat i * 0x4000000000000000) 0 0x8000000000000001 =
       Some (Inr (of_nat k * 0x4000000000000000 mod 0x8000000000000001, Suc k)) \<and>
     of_nat k * 0x4000000000000000 mod 0x8000000000000001 < (0x8000000000000001 :: u64)"
  using SecureRandomUint64Below_returns[of "0x8000000000000001" 0 2 "\<lambda>i. of_nat i * 0x4000000000000000"]
  by (simp add: rejection_threshold_def)

lemma SecureRandomUint64Below_zero:
  "SecureRandomUint64Below rng i 0 = Some (Inl (InvalidArgument ''upper_bound must be positive''))"
  by (simp add: SecureRandomUint64Below_def)

subsection \<open>Signed modular addition\<close>

text \<open>\<open>int64_t\<close> values are 64-bit words read by \<open>sint\<close>.\<close>

definition AddSignedMod :: "u64 \<Rightarrow> u64 \<Rightarrow> u64 \<Rightarrow> error + u64" where
  "AddSignedMod v delta modulus =
     (if modulus = 0 then Inl (InvalidArgument ''modulus must be positive'')
      else let v = v mod modulus in
        if 0 \<le> sint delta then
          let addend = delta mod modulus in
            Inr (if addend \<ge> modulus - v then addend - (modulus - v) else v + addend)
        else
          let magnitude = - (delta + 1) + 1;
              subtrahend = magnitude mod modulus in
            Inr (if v \<ge> subtrahend then v - subtrahend else modulus - (subtrahend - v)))"

lemma uint_as_sint_mod: "uint d = sint d mod 2 ^ 64" for d :: u64
proof -
  have "uint d = take_bit LENGTH(64) (sint d)" by (rule uint_sint)
  then show ?thesis unfolding take_bit_eq_mod by simp
qed

lemma sint_nonneg_uint:
  fixes d :: u64
  assumes "0 \<le> sint d"
  shows "sint d = uint d"
proof -
  have "sint d < 2 ^ 63" using sint_lt[of d] by simp
  then have "sint d mod 2 ^ 64 = sint d" using assms by (intro mod_pos_pos_trivial) auto
  then show ?thesis using uint_as_sint_mod[of d] by simp
qed

lemma sint_neg_magnitude:
  fixes d :: u64
  assumes "sint d < 0"
  shows "uint (- (d + 1) + 1) = - sint d"
proof -
  have e: "- (d + 1) + 1 = - d" by simp
  have b: "- (2 ^ 63) \<le> sint d" using sint_ge[of d] by simp
  have "uint (- d) = (- uint d) mod 2 ^ 64" by (simp add: uint_word_ariths)
  then have "uint (- d) = (- sint d) mod 2 ^ 64"
    unfolding uint_as_sint_mod[of d] by (simp only: mod_minus_eq)
  also have "\<dots> = - sint d" using assms b by simp
  finally show ?thesis unfolding e .
qed

lemma AddSignedMod_value:
  assumes "modulus \<noteq> 0"
  shows "\<exists>r. AddSignedMod v delta modulus = Inr r \<and>
           uint r = (uint v + sint delta) mod uint modulus"
proof -
  let ?m = "uint modulus" and ?v = "v mod modulus"
  have v: "uint ?v < ?m" using assms by (rule uint_mod_less)
  show ?thesis
  proof (cases "0 \<le> sint delta")
    case True
    let ?d = "delta mod modulus"
    let ?r = "if ?d \<ge> modulus - ?v then ?d - (modulus - ?v) else ?v + ?d"
    have "uint ?r = (uint ?v + uint ?d) mod ?m"
      by (rule uint_mod_add_cases[OF v uint_mod_less[OF assms]])
    also have "\<dots> = (uint v + sint delta) mod ?m"
      unfolding sint_nonneg_uint[OF True] uint_mod by (rule mod_add_eq)
    finally have "uint ?r = (uint v + sint delta) mod ?m" .
    moreover have "AddSignedMod v delta modulus = Inr ?r"
      using assms True by (simp add: AddSignedMod_def Let_def)
    ultimately show ?thesis by blast
  next
    case False
    let ?g = "- (delta + 1) + 1"
    let ?s = "?g mod modulus"
    have g: "uint ?g = - sint delta" using False by (intro sint_neg_magnitude) simp
    let ?r = "if ?v \<ge> ?s then ?v - ?s else modulus - (?s - ?v)"
    have "uint ?r = (uint ?v - uint ?s) mod ?m"
      by (rule uint_mod_sub_cases[OF v uint_mod_less[OF assms]])
    also have "\<dots> = (uint v - uint ?g) mod ?m"
      unfolding uint_mod by (rule mod_diff_eq)
    also have "\<dots> = (uint v + sint delta) mod ?m"
      unfolding g by simp
    finally have "uint ?r = (uint v + sint delta) mod ?m" .
    moreover have "AddSignedMod v delta modulus = Inr ?r"
      using assms False by (simp add: AddSignedMod_def Let_def)
    ultimately show ?thesis by blast
  qed
qed

text \<open>
  C35: adding a signed 64-bit delta modulo any positive 64-bit modulus never overflows:
  the result is the mathematical \<open>(value + delta) mod modulus\<close>, for \<open>INT64_MIN\<close> too.
\<close>

theorem AddSignedMod_correct:
  assumes "modulus \<noteq> 0"
  shows "\<exists>r. AddSignedMod v delta modulus = Inr r \<and>
           uint r = (uint v + sint delta) mod uint modulus"
  by (rule AddSignedMod_value[OF assms])

theorem AddSignedMod_correct_witness:
  "\<exists>r. AddSignedMod 3 (-5) 11 = Inr r \<and> uint r = (3 + (-5)) mod 11"
  using AddSignedMod_correct[of 11 3 "-5"] by simp

lemma AddSignedMod_zero:
  "AddSignedMod v delta 0 = Inl (InvalidArgument ''modulus must be positive'')"
  by (simp add: AddSignedMod_def)

subsection \<open>Answer noise\<close>

text \<open>
  The floating-point steps are read over the reals: \<open>SecureUnitInterval53\<close> and \<open>1 - u\<close>
  are exact in an IEEE double (53 random bits), while \<open>sqrt\<close>, \<open>log\<close>, \<open>cos\<close> and the
  products are the real functions the library calls approximate. \<open>llround\<close> rounds half
  away from zero.
\<close>

definition SecureUnitInterval53 :: "u64 \<Rightarrow> real" where
  "SecureUnitInterval53 draw = real (unat (drop_bit 11 draw)) * (1 / 9007199254740992)"

definition kTwoPi :: real where
  "kTwoPi = 6.283185307179586476925286766559"

definition llround :: "real \<Rightarrow> int" where
  "llround x = (if x < 0 then - \<lfloor>- x + 1 / 2\<rfloor> else \<lfloor>x + 1 / 2\<rfloor>)"

definition SampleAnswerNoise :: "(nat \<Rightarrow> u64) \<Rightarrow> nat \<Rightarrow> int \<times> nat" where
  "SampleAnswerNoise rng i =
     (let (d1, i1) = SecureRandomUint64 rng i;
          (d2, i2) = SecureRandomUint64 rng i1;
          u1 = 1 - SecureUnitInterval53 d1;
          u2 = SecureUnitInterval53 d2;
          standard_normal = sqrt (-2 * ln u1) * cos (kTwoPi * u2)
      in (llround (standard_normal * real (unat PPFE_ANSWER_NOISE_SIGMA)), i2))"

lemma SecureUnitInterval53_range:
  "0 \<le> SecureUnitInterval53 d" "SecureUnitInterval53 d \<le> 1 - 1 / 2 ^ 53"
proof -
  have "unat (drop_bit 11 d) < 2 ^ 53"
    unfolding unat_shiftr using unat_less_exp[of d] by (simp add: less_mult_imp_div_less)
  then have "unat (drop_bit 11 d) \<le> 9007199254740991" by simp
  then have "real (unat (drop_bit 11 d)) \<le> real 9007199254740991" by (simp only: of_nat_le_iff)
  then show "SecureUnitInterval53 d \<le> 1 - 1 / 2 ^ 53"
    by (simp add: SecureUnitInterval53_def)
  show "0 \<le> SecureUnitInterval53 d" by (simp add: SecureUnitInterval53_def del: of_nat_unat)
qed

lemma llround_bound: "\<bar>x\<bar> \<le> B \<Longrightarrow> real_of_int \<bar>llround x\<bar> \<le> B + 1 / 2"
  unfolding llround_def by (auto simp: abs_if) linarith+

lemma ln_two_le_one: "ln (2::real) \<le> 1"
  using ln_le_minus_one[of 2] by simp

text \<open>
  the noise is bounded: whatever the generator draws, the sample has magnitude below
  \<open>2^26\<close>, so it fits the signed 64-bit type it is cast to and is tiny next to the 54-bit
  modulus it is added to.
\<close>

theorem SampleAnswerNoise_bound: "\<bar>fst (SampleAnswerNoise rng i)\<bar> < 2 ^ 26"
proof -
  define u1 where "u1 = 1 - SecureUnitInterval53 (rng i)"
  define c where "c = cos (kTwoPi * SecureUnitInterval53 (rng (Suc i)))"
  have u1: "1 / 2 ^ 53 \<le> u1" "u1 \<le> 1"
    using SecureUnitInterval53_range[of "rng i"] by (simp_all add: u1_def)
  have "ln (1 / 2 ^ 53) \<le> ln u1" using u1 by (intro ln_mono) auto
  moreover have "ln (1 / 2 ^ 53) = - (53 * ln (2::real))"
    by (simp only: ln_div ln_one ln_realpow zero_less_power zero_less_numeral zero_less_one) simp
  ultimately have "- ln u1 \<le> 53 * ln 2" by simp
  then have "-2 * ln u1 \<le> 121" using ln_two_le_one by simp
  then have "sqrt (-2 * ln u1) \<le> sqrt 121" by (rule real_sqrt_le_mono)
  also have "sqrt 121 = (11::real)" using real_sqrt_abs[of 11] by simp
  finally have s: "sqrt (-2 * ln u1) \<le> 11" .
  have nn: "0 \<le> sqrt (-2 * ln u1)" using u1 by (simp add: ln_le_zero_iff)
  have "\<bar>sqrt (-2 * ln u1) * c\<bar> \<le> 11 * 1"
    unfolding abs_mult by (rule mult_mono) (use s nn in \<open>auto simp: c_def\<close>)
  then have "\<bar>sqrt (-2 * ln u1) * c * 4194304\<bar> \<le> 11 * 4194304"
    by (simp add: abs_mult mult.commute)
  then have "real_of_int \<bar>llround (sqrt (-2 * ln u1) * c * 4194304)\<bar> \<le> 11 * 4194304 + 1 / 2"
    by (rule llround_bound)
  then have "real_of_int \<bar>llround (sqrt (-2 * ln u1) * c * 4194304)\<bar> < real_of_int (2 ^ 26)" by simp
  then have "\<bar>llround (sqrt (-2 * ln u1) * c * 4194304)\<bar> < 2 ^ 26" by (simp only: of_int_less_iff)
  then show ?thesis
    by (simp add: SampleAnswerNoise_def SecureRandomUint64_def Let_def u1_def c_def
        PPFE_ANSWER_NOISE_SIGMA_def PPFE_ANSWER_NOISE_SIGMA_BITS_def)
qed

subsection \<open>Parameter validation\<close>

definition ValidateProtocolParameters :: "u32 \<Rightarrow> u32 \<Rightarrow> u64 \<Rightarrow> u64 \<Rightarrow> error + unit" where
  "ValidateProtocolParameters coeff_modulus_bits plain_modulus_bits coeff_modulus plain_modulus =
     (if coeff_modulus_bits \<noteq> PPFE_COEFF_MODULUS_BITS \<or>
         plain_modulus_bits \<noteq> PPFE_PLAIN_MODULUS_BITS
      then Inl (InvalidArgument ''configured HE modulus bit sizes do not match PPFE Table 2'')
      else if BitLength coeff_modulus \<noteq> PPFE_COEFF_MODULUS_BITS \<or>
              BitLength plain_modulus \<noteq> PPFE_PLAIN_MODULUS_BITS
      then Inl (InvalidArgument ''generated HE moduli do not have the configured bit sizes'')
      else if plain_modulus \<ge> coeff_modulus
      then Inl (InvalidArgument ''plaintext modulus must be smaller than ciphertext modulus'')
      else if PPFE_ANSWER_NOISE_SIGMA \<ge> coeff_modulus
      then Inl (InvalidArgument ''answer-noise sigma must fit in the ciphertext modulus'')
      else Inr ())"

lemma BitLength_eq_iff:
  assumes "0 < unat n"
  shows "BitLength v = n \<longleftrightarrow> 2 ^ (unat n - 1) \<le> unat v \<and> unat v < 2 ^ unat n"
  using BitLength_iff[OF assms, of v] by (simp add: word_unat_eq_iff)

text \<open>
  The validation accepts exactly the Table 2 parameters: configured sizes 54 and 20,
  a 54-bit ciphertext modulus and a 20-bit plaintext modulus; its last two checks never
  reject anything the size checks accept.
\<close>

theorem ValidateProtocolParameters_accepts_iff:
  "ValidateProtocolParameters qb pb q p = Inr () \<longleftrightarrow>
     qb = 54 \<and> pb = 20 \<and> 2 ^ 53 \<le> unat q \<and> unat q < 2 ^ 54 \<and> 2 ^ 19 \<le> unat p \<and> unat p < 2 ^ 20"
  using BitLength_eq_iff[of 54 q] BitLength_eq_iff[of 20 p]
  by (auto simp: ValidateProtocolParameters_def ppfe_constants word_le_nat_alt not_le)

definition degree_loop :: "u32 \<Rightarrow> u32 \<Rightarrow> u32" where
  "degree_loop part_size degree =
     while (\<lambda>d. d < part_size \<and> d < PPFE_MAX_POLY_MODULUS_DEGREE) (push_bit 1) degree"

definition SelectPolyModulusDegree :: "u32 \<Rightarrow> error + u32" where
  "SelectPolyModulusDegree log_db_size =
     (if log_db_size \<ge> 32 then Inl (InvalidArgument ''Log2DBSize must be smaller than 32'')
      else let part_size = push_bit (unat (log_db_size div 2 + log_db_size mod 2)) 1;
               degree = degree_loop part_size PPFE_MIN_POLY_MODULUS_DEGREE
           in if degree < part_size
              then Inl (InvalidArgument ''database partition exceeds maximum polynomial degree'')
              else Inr degree)"

definition ValidatePolyModulusDegree :: "u32 \<Rightarrow> u32 \<Rightarrow> error + unit" where
  "ValidatePolyModulusDegree log_db_size poly_modulus_degree =
     (case SelectPolyModulusDegree log_db_size of
        Inl e \<Rightarrow> Inl e
      | Inr d \<Rightarrow> if poly_modulus_degree \<noteq> d
          then Inl (InvalidArgument ''polynomial degree does not match the PPFE database partition'')
          else Inr ())"

lemma degree_loop_step:
  "degree_loop ps d = (if d < ps \<and> d < 32768 then degree_loop ps (push_bit 1 d) else d)"
  unfolding degree_loop_def PPFE_MAX_POLY_MODULUS_DEGREE_def by (subst while_unfold) simp

lemma degree_loop_from_min:
  "degree_loop ps 2048 =
     (if 2048 < ps then if 4096 < ps then if 8192 < ps then if 16384 < ps
        then 32768 else 16384 else 8192 else 4096 else 2048)"
  by (simp add: degree_loop_step[of ps 2048] degree_loop_step[of ps 4096]
      degree_loop_step[of ps 8192] degree_loop_step[of ps 16384] degree_loop_step[of ps 32768])

lemma SelectPolyModulusDegree_table:
  "\<forall>k \<in> set [0..<31]. SelectPolyModulusDegree (of_nat k) = Inr (max 2048 (2 ^ ((k + 1) div 2)))"
  unfolding SelectPolyModulusDegree_def PPFE_MIN_POLY_MODULUS_DEGREE_def degree_loop_from_min Let_def
  by (simp add: upt_rec max_def word_le_nat_alt word_less_nat_alt)

text \<open>
  the ring degree selected for a database of \<open>2^log_db_size\<close> entries is the smallest
  admissible power of two that holds a partition, \<open>max 2048 2^ceil(log_db_size/2)\<close>; size
  31 is refused because its partitions exceed the largest degree, 32 and above outright.
\<close>

theorem SelectPolyModulusDegree_spec:
  "SelectPolyModulusDegree l =
     (if 32 \<le> l then Inl (InvalidArgument ''Log2DBSize must be smaller than 32'')
      else if l = 31 then Inl (InvalidArgument ''database partition exceeds maximum polynomial degree'')
      else Inr (max 2048 (2 ^ ((unat l + 1) div 2))))"
proof (cases "unat l < 31")
  case True
  then have "SelectPolyModulusDegree (of_nat (unat l)) = Inr (max 2048 (2 ^ ((unat l + 1) div 2)))"
    using SelectPolyModulusDegree_table by (metis atLeastLessThan_iff le0 set_upt)
  moreover from True have "\<not> 32 \<le> l" "l \<noteq> 31" by (auto simp: word_le_nat_alt)
  ultimately show ?thesis by simp
next
  case False
  show ?thesis
  proof (cases "l = 31")
    case True
    then show ?thesis
      by (simp add: SelectPolyModulusDegree_def PPFE_MIN_POLY_MODULUS_DEGREE_def degree_loop_from_min)
  next
    case ne: False
    then have "unat l \<noteq> 31" by (simp add: word_unat_eq_iff)
    with False have "32 \<le> l" by (simp add: word_le_nat_alt)
    then show ?thesis by (simp add: SelectPolyModulusDegree_def)
  qed
qed

lemma ValidatePolyModulusDegree_iff:
  "ValidatePolyModulusDegree l d = Inr () \<longleftrightarrow> SelectPolyModulusDegree l = Inr d"
  by (auto simp: ValidatePolyModulusDegree_def split: sum.splits if_splits)

end
