(* ===== verification/Database.thy ===== *)
theory Database
  imports Utils
begin

text \<open>
  The plaintext database of \<open>src/src/utils.cpp\<close> (\<open>initDatabase\<close>, \<open>getEntryFromDB\<close>):
  an array of 64-bit words read through its little-endian byte image. The three builds of
  the Makefile (default, \<open>-DSimLargeServer\<close>, \<open>-DDEBUG\<close>) read it differently. A read that
  leaves the array is undefined behaviour in C++ and is \<open>None\<close> here.
\<close>

datatype build = Default | SimLargeServer | Debug

definition memory :: "u64 list \<Rightarrow> bytes" where
  "memory ws = concat (map (le_bytes 8) ws)"

definition memcpy_from :: "u64 list \<Rightarrow> nat \<Rightarrow> nat \<Rightarrow> bytes option" where
  "memcpy_from ws off n =
     (if off + n \<le> 8 * length ws then Some (take n (drop off (memory ws))) else None)"

text \<open>
  \<open>DB + index * (EntrySize / 8)\<close> is a product of two \<open>uint32_t\<close> values, so it wraps at
  \<open>2^32\<close> before it is scaled to bytes.
\<close>

definition getEntryFromDB :: "build \<Rightarrow> u64 list \<Rightarrow> u32 \<Rightarrow> u32 \<Rightarrow> bytes option" where
  "getEntryFromDB b DB index EntrySize =
     (case b of
        Debug \<Rightarrow> (let dummyData = push_bit 1 (ucast index :: u64)
                  in Some (memory (map (\<lambda>l. dummyData + of_nat l) [0..<unat (EntrySize div 8)])))
      | SimLargeServer \<Rightarrow> memcpy_from DB (unat index) (unat EntrySize)
      | Default \<Rightarrow> memcpy_from DB (8 * unat (index * (EntrySize div 8))) (unat EntrySize))"

definition DBSizeInUint64 :: "build \<Rightarrow> u64 \<Rightarrow> u64 \<Rightarrow> u64" where
  "DBSizeInUint64 b kLogDBSize kEntrySize =
     (case b of
        SimLargeServer \<Rightarrow> push_bit (unat (kLogDBSize - 3)) 1 + kEntrySize
      | _ \<Rightarrow> push_bit (unat kLogDBSize) (kEntrySize div 8))"

definition initDatabase :: "build \<Rightarrow> u64 \<Rightarrow> u64 \<Rightarrow> u64 \<Rightarrow> u64 list" where
  "initDatabase b kLogDBSize kEntrySize plainModulus =
     map (\<lambda>i. (999999999999 + of_nat i) mod plainModulus)
       [0..<unat (DBSizeInUint64 b kLogDBSize kEntrySize)]"

lemma length_memory [simp]: "length (memory ws) = 8 * length ws"
  by (induction ws) (simp_all add: memory_def)

lemma memory_Cons: "memory (w # ws) = le_bytes 8 w @ memory ws"
  by (simp add: memory_def)

lemma memory_slice: "i < length ws \<Longrightarrow> take 8 (drop (8 * i) (memory ws)) = le_bytes 8 (ws ! i)"
proof (induction ws arbitrary: i)
  case Nil
  then show ?case by simp
next
  case (Cons w ws)
  then show ?case by (cases i) (simp_all add: memory_Cons)
qed

lemma memcpy_word:
  "i < length ws \<Longrightarrow> map_option le_word (memcpy_from ws (8 * i) 8) = Some (ws ! i)"
  by (simp add: memcpy_from_def memory_slice le_word_le_bytes)

text \<open>
  in the default build with the 8-byte entries the programs insist on, reading entry
  \<open>index\<close> of the database that \<open>initDatabase\<close> allocates yields exactly its word: no
  index below \<open>2^log\<close> wraps or leaves the array, for every database up to \<open>2^31\<close> entries.
\<close>

theorem getEntryFromDB_initDatabase:
  assumes "unat lg < 32" "unat index < 2 ^ unat lg"
  shows "map_option le_word (getEntryFromDB Default (initDatabase Default lg 8 p) index 8)
           = Some ((999999999999 + (of_nat (unat index) :: u64)) mod p)"
proof -
  have "unat (push_bit (unat lg) (1::u64)) = 2 ^ unat lg"
    using assms(1) by (simp add: push_bit_eq_mult unat_two_power)
  then have len: "unat (DBSizeInUint64 Default lg 8) = 2 ^ unat lg"
    by (simp add: DBSizeInUint64_def)
  let ?DB = "initDatabase Default lg 8 p"
  have "length ?DB = 2 ^ unat lg" by (simp add: initDatabase_def len)
  then have i: "unat index < length ?DB" using assms(2) by simp
  have "map_option le_word (getEntryFromDB Default ?DB index 8) = Some (?DB ! unat index)"
    using memcpy_word[OF i] by (simp add: getEntryFromDB_def)
  also have "?DB ! unat index = (999999999999 + of_nat (unat index)) mod p"
    using assms(2) by (simp add: initDatabase_def len del: of_nat_unat)
  finally show ?thesis .
qed

theorem getEntryFromDB_initDatabase_witness:
  "map_option le_word (getEntryFromDB Default (initDatabase Default 4 8 17) 5 8)
     = Some ((999999999999 + (of_nat (unat (5::u32)) :: u64)) mod 17)"
  by (rule getEntryFromDB_initDatabase) simp_all

lemma initDatabase_less:
  assumes "p \<noteq> 0" "v \<in> set (initDatabase b lg es p)"
  shows "v < p"
  using assms by (auto simp: initDatabase_def word_less_nat_alt unat_mod unat_gt_0)

end
