(* ===== verification/Uint64.thy ===== *)
theory Uint64
  imports Prelude
begin

text \<open>
  The single-word primitives of \<open>src/encryption/utils/basics.h\<close>: carry and borrow
  propagation, 64x64 to 128-bit products, 128-by-64 division, bit counts, bit reversal.
  An output reference of the C++ function is a component of the result.
\<close>

definition of_flag :: "bool \<Rightarrow> u8" where
  "of_flag b = (if b then 1 else 0)"

lemma of_flag_simps [simp]:
  "of_flag True = 1" "of_flag False = 0"
  "uint (of_flag b) = of_bool b" "of_flag b = 0 \<longleftrightarrow> \<not> b"
  by (simp_all add: of_flag_def)

subsection \<open>Carry and borrow\<close>

definition add_uint64_carry :: "u64 \<Rightarrow> u64 \<Rightarrow> u8 \<Rightarrow> u64 \<times> u8" where
  "add_uint64_carry operand1 operand2 carry =
     (let temp = operand1 + operand2
      in (temp + ucast carry, of_flag (temp < operand2 \<or> NOT temp < ucast carry)))"

definition add_uint64 :: "u64 \<Rightarrow> u64 \<Rightarrow> u64 \<times> u8" where
  "add_uint64 operand1 operand2 =
     (operand1 + operand2, of_flag (operand1 + operand2 < operand1))"

definition sub_uint64_borrow :: "u64 \<Rightarrow> u64 \<Rightarrow> u8 \<Rightarrow> u64 \<times> u8" where
  "sub_uint64_borrow operand1 operand2 borrow =
     (let temp = operand1 - operand2
      in (temp - ucast (of_flag (borrow \<noteq> 0)), of_flag (temp > operand1 \<or> temp < ucast borrow)))"

definition sub_uint64 :: "u64 \<Rightarrow> u64 \<Rightarrow> u64 \<times> u8" where
  "sub_uint64 operand1 operand2 =
     (operand1 - operand2, of_flag (operand1 - operand2 > operand1))"

lemma uint_add_overflow_iff: "a + b < a \<longleftrightarrow> 2 ^ 64 \<le> uint a + uint b" for a b :: u64
  using uint_lt2p[of a] uint_lt2p[of b] uint_ge_0[of b]
  by (auto simp: word_less_def uint_plus_if')

lemma uint_add_wrap: "uint (a + b) = uint a + uint b - 2 ^ 64 * of_bool (a + b < a)" for a b :: u64
  unfolding uint_add_overflow_iff by (simp add: uint_plus_if')

lemma uint_sub_wrap: "uint (a - b) = uint a - uint b + 2 ^ 64 * of_bool (a < b)" for a b :: u64
  by (simp add: uint_sub_if' word_less_def)

lemma sub_gt_iff: "a - b > a \<longleftrightarrow> a < b" for a b :: u64
  using uint_lt2p[of a] uint_lt2p[of b] uint_ge_0[of a] uint_ge_0[of b]
  by (auto simp: word_less_def uint_sub_if')

lemma add_uint64_sum:
  "add_uint64 a b = (r, c) \<Longrightarrow> uint r + 2 ^ 64 * uint c = uint a + uint b \<and> c \<in> {0, 1}"
  using uint_add_wrap[of a b] by (auto simp: add_uint64_def of_flag_def)

lemma sub_uint64_diff:
  "sub_uint64 a b = (r, c) \<Longrightarrow> uint r - 2 ^ 64 * uint c = uint a - uint b \<and> c \<in> {0, 1}"
  using uint_sub_wrap[of a b] sub_gt_iff[of a b] by (auto simp: sub_uint64_def of_flag_def)

lemma uint_NOT: "uint (NOT t) = 2 ^ 64 - 1 - uint t" for t :: u64
proof -
  have "NOT t = - 1 - t" by (simp add: not_eq_complement)
  moreover have "t \<le> - 1" by simp
  ultimately have "uint (NOT t) = uint (- 1 :: u64) - uint t"
    using uint_sub_no_borrow[of t "- 1"] by simp
  then show ?thesis by (simp add: unsigned_minus_1_eq_mask mask_eq_exp_minus_1)
qed

lemma add_uint64_carry_sum:
  assumes "add_uint64_carry a b k = (r, c)" "k \<in> {0, 1}"
  shows "uint r + 2 ^ 64 * uint c = uint a + uint b + uint k \<and> c \<in> {0, 1}"
proof -
  let ?t = "a + b"
  have t: "uint ?t = uint a + uint b - 2 ^ 64 * of_bool (?t < b)"
    using uint_add_wrap[of b a] by (simp add: add.commute)
  have r: "r = ?t + ucast k" and c: "c = of_flag (?t < b \<or> NOT ?t < ucast k)"
    using assms(1) by (auto simp: add_uint64_carry_def Let_def)
  show ?thesis
  proof (cases "k = 0")
    case True
    then show ?thesis using t r c by (auto simp: of_flag_def)
  next
    case False
    then have k: "k = 1" using assms(2) by simp
    have over: "NOT ?t < 1 \<longleftrightarrow> uint ?t = 2 ^ 64 - 1"
      using uint_lt2p[of ?t] by (auto simp: word_less_def uint_NOT)
    have "uint (?t + 1) = (if uint ?t = 2 ^ 64 - 1 then 0 else uint ?t + 1)"
      using uint_lt2p[of ?t] by (auto simp: uint_plus_if')
    moreover have "\<not> (?t < b \<and> uint ?t = 2 ^ 64 - 1)"
      using uint_lt2p[of b] by (auto simp: word_less_def)
    ultimately show ?thesis using t r c k over by (auto simp: of_flag_def)
  qed
qed

lemma sub_uint64_borrow_diff:
  assumes "sub_uint64_borrow a b k = (r, c)" "k \<in> {0, 1}"
  shows "uint r - 2 ^ 64 * uint c = uint a - uint b - uint k \<and> c \<in> {0, 1}"
proof -
  let ?t = "a - b"
  have t: "uint ?t = uint a - uint b + 2 ^ 64 * of_bool (a < b)" by (rule uint_sub_wrap)
  have r: "r = ?t - ucast (of_flag (k \<noteq> 0))" and c: "c = of_flag (a < b \<or> ?t < ucast k)"
    using assms(1) by (auto simp: sub_uint64_borrow_def Let_def sub_gt_iff)
  show ?thesis
  proof (cases "k = 0")
    case True
    then show ?thesis using t r c by (auto simp: of_flag_def)
  next
    case False
    then have k: "k = 1" using assms(2) by simp
    have under: "?t < 1 \<longleftrightarrow> uint ?t = 0"
      unfolding word_less_def using uint_ge_0[of ?t] by (simp only: uint_1_eq) linarith
    have "uint (?t - 1) = (if uint ?t = 0 then 2 ^ 64 - 1 else uint ?t - 1)"
      using uint_ge_0[of ?t] by (auto simp: uint_sub_if')
    moreover have "\<not> (a < b \<and> uint ?t = 0)"
    proof
      assume A: "a < b \<and> uint ?t = 0"
      then have z: "uint ?t = 0" by (rule conjunct2)
      from A have o: "of_bool (a < b) = (1 :: int)" by simp
      from t have "uint ?t = uint a - uint b + 2 ^ 64 * 1" unfolding o .
      then have "uint a - uint b + 2 ^ 64 = 0" using z by linarith
      moreover have "uint b < 2 ^ 64" using uint_lt2p[of b] by simp
      ultimately show False using uint_ge_0[of a] by linarith
    qed
    ultimately show ?thesis using t r c k under by (auto simp: of_flag_def)
  qed
qed

subsection \<open>128-bit products and quotients\<close>

definition multiply_uint64_high_word :: "u64 \<Rightarrow> u64 \<Rightarrow> u64" where
  "multiply_uint64_high_word operand1 operand2 =
     ucast (drop_bit 64 (ucast operand1 * ucast operand2 :: u128))"

definition multiply_uint64_uint64 :: "u64 \<Rightarrow> u64 \<Rightarrow> u64 \<times> u64" where
  "multiply_uint64_uint64 operand1 operand2 =
     (let temp_result = (ucast operand1 * ucast operand2 :: u128)
      in (ucast temp_result, ucast (drop_bit 64 temp_result)))"

lemma uint_ucast_u128: "uint (ucast a :: u128) = uint a" for a :: u64
  using uint_lt2p[of a] by (simp add: unsigned_ucast_eq take_bit_int_eq_self)

lemma uint_product_bound: "uint a * uint b \<le> (2 ^ 64 - 1) * (2 ^ 64 - 1)" for a b :: u64
  by (rule mult_mono) (use uint_lt2p[of a] uint_lt2p[of b] in auto)

lemma uint_product: "uint (ucast a * ucast b :: u128) = uint a * uint b" for a b :: u64
  using uint_product_bound[of a b] by (simp add: uint_word_ariths uint_ucast_u128)

lemma uint_low64: "uint (ucast x :: u64) = uint x mod 2 ^ 64" for x :: u128
  by (simp add: unsigned_ucast_eq take_bit_eq_mod)

lemma uint_high64: "uint (ucast (drop_bit 64 x) :: u64) = uint x div 2 ^ 64" for x :: u128
proof -
  have "uint (drop_bit 64 x) = drop_bit 64 (take_bit LENGTH(128) (uint x))"
    by (rule unsigned_drop_bit_eq)
  also have "take_bit LENGTH(128) (uint x) = uint x" unfolding take_bit_eq_mod by (rule uint_idem)
  also have "drop_bit 64 (uint x) = uint x div 2 ^ 64" by (rule drop_bit_eq_div)
  finally have "uint (drop_bit 64 x) = uint x div 2 ^ 64" .
  moreover have "uint x div 2 ^ 64 < 2 ^ 64" using uint_lt2p[of x] by simp
  moreover have "0 \<le> uint x div 2 ^ 64" by (simp add: pos_imp_zdiv_nonneg_iff)
  ultimately show ?thesis unfolding uint_low64 by (simp only: mod_pos_pos_trivial)
qed

lemma multiply_uint64_high_word_eq:
  "uint (multiply_uint64_high_word a b) = uint a * uint b div 2 ^ 64"
  by (simp add: multiply_uint64_high_word_def uint_high64 uint_product)

lemma multiply_uint64_uint64_split:
  assumes "multiply_uint64_uint64 a b = (lo, hi)"
  shows "uint lo = uint a * uint b mod 2 ^ 64" "uint hi = uint a * uint b div 2 ^ 64"
proof -
  have "lo = ucast (ucast a * ucast b :: u128)" "hi = ucast (drop_bit 64 (ucast a * ucast b :: u128))"
    using assms by (simp_all add: multiply_uint64_uint64_def Let_def)
  then show "uint lo = uint a * uint b mod 2 ^ 64" "uint hi = uint a * uint b div 2 ^ 64"
    unfolding uint_product[symmetric] by (simp_all only: uint_high64) (simp_all only: uint_low64)
qed

text \<open>Division by 0 traps; the numerator becomes the remainder: \<open>((n0, n1), (q0, q1))\<close>.\<close>

definition divide_uint128_uint64_inplace ::
  "u64 \<times> u64 \<Rightarrow> u64 \<Rightarrow> ((u64 \<times> u64) \<times> (u64 \<times> u64)) option" where
  "divide_uint128_uint64_inplace numerator denominator =
     (if denominator = 0 then None else
      let n = push_bit 64 (ucast (snd numerator)) OR ucast (fst numerator) :: u128;
          d = ucast denominator :: u128;
          q = n div d;
          n' = n - q * d
      in Some ((ucast n', ucast (drop_bit 64 n')), (ucast q, ucast (drop_bit 64 q))))"

lemma uint_join128:
  "uint (push_bit 64 (ucast h) OR ucast l :: u128) = uint l + 2 ^ 64 * uint h" for h l :: u64
proof -
  have d: "(push_bit 64 (ucast h) :: u128) AND ucast l = 0"
    by (rule bit_word_eqI) (auto simp: bit_simps dest: bit_imp_le_length)
  then have "push_bit 64 (ucast h) OR ucast l = push_bit 64 (ucast h) + (ucast l :: u128)"
    by (rule disjunctive_add_eq_or[symmetric])
  moreover have "uint (push_bit 64 (ucast h) :: u128) = 2 ^ 64 * uint h"
    using uint_lt2p[of h] by (simp add: push_bit_eq_mult uint_word_ariths uint_ucast_u128 mult.commute)
  ultimately show ?thesis
    using uint_lt2p[of h] uint_lt2p[of l]
    by (simp add: uint_word_ariths uint_ucast_u128)
qed

lemma divide_uint128_uint64_inplace_correct:
  assumes "divide_uint128_uint64_inplace (n0, n1) d = Some ((r0, r1), (q0, q1))"
  shows "uint q0 + 2 ^ 64 * uint q1 = (uint n0 + 2 ^ 64 * uint n1) div uint d"
    and "uint r0 + 2 ^ 64 * uint r1 = (uint n0 + 2 ^ 64 * uint n1) mod uint d"
proof -
  let ?n = "push_bit 64 (ucast n1) OR ucast n0 :: u128"
  let ?q = "?n div ucast d"
  have d: "d \<noteq> 0" using assms by (auto simp: divide_uint128_uint64_inplace_def split: if_splits)
  have n: "uint ?n = uint n0 + 2 ^ 64 * uint n1" by (rule uint_join128)
  have r: "?n - ?q * ucast d = ?n mod ucast d"
    by (metis minus_div_mult_eq_mod)
  have split: "uint (ucast x :: u64) + 2 ^ 64 * uint (ucast (drop_bit 64 x) :: u64) = uint x" for x :: u128
    unfolding uint_high64 unfolding uint_low64 by simp
  have e: "q0 = ucast ?q" "q1 = ucast (drop_bit 64 ?q)"
    "r0 = ucast (?n mod ucast d)" "r1 = ucast (drop_bit 64 (?n mod ucast d))"
    using assms d r by (auto simp: divide_uint128_uint64_inplace_def Let_def)
  show "uint q0 + 2 ^ 64 * uint q1 = (uint n0 + 2 ^ 64 * uint n1) div uint d"
    unfolding e split uint_div n uint_ucast_u128 ..
  show "uint r0 + 2 ^ 64 * uint r1 = (uint n0 + 2 ^ 64 * uint n1) mod uint d"
    unfolding e split uint_mod n uint_ucast_u128 ..
qed

subsection \<open>Multi-word values\<close>

text \<open>The number a little-endian sequence of 64-bit limbs stands for.\<close>

fun limbs :: "u64 list \<Rightarrow> int" where
  "limbs [] = 0"
| "limbs (x # xs) = uint x + 2 ^ 64 * limbs xs"

lemma limbs_nonneg [simp]: "0 \<le> limbs xs"
  by (induction xs) simp_all

lemma limbs_bound: "limbs xs < 2 ^ (64 * length xs)"
proof (induction xs)
  case (Cons x xs)
  have "limbs xs + 1 \<le> 2 ^ (64 * length xs)" using Cons by linarith
  then have "2 ^ 64 * (limbs xs + 1) \<le> 2 ^ 64 * 2 ^ (64 * length xs)" by (intro mult_left_mono) auto
  then have "2 ^ 64 * limbs xs + 2 ^ 64 \<le> 2 ^ 64 * 2 ^ (64 * length xs)" by (simp add: algebra_simps)
  with uint64_lt[of x] have "uint x + 2 ^ 64 * limbs xs < 2 ^ 64 * 2 ^ (64 * length xs)" by linarith
  then show ?case by (simp add: power_add)
qed simp

lemma limbs_append: "limbs (xs @ ys) = limbs xs + 2 ^ (64 * length xs) * limbs ys"
  by (induction xs) (simp_all add: power_add algebra_simps)

lemma limbs_replicate_zero [simp]: "limbs (replicate n 0) = 0"
  by (induction n) simp_all

end
