(* ===== verification/Small_Mod.thy ===== *)
theory Small_Mod
  imports Uint64
begin

text \<open>
  Arithmetic modulo a 61-bit word: class \<open>Modulus\<close> (\<open>src/encryption/modulus.h\<close>) with its
  Barrett reductions and the inline functions of \<open>src/encryption/utils/uint_small_mod.h\<close>.
  Every routine is proved equal to the mathematical operation modulo \<open>value\<close>.
\<close>

record modulus =
  mod_value :: u64
  ratio0 :: u64
  ratio1 :: u64
  ratio2 :: u64
  mod_bit_count :: nat
  mod_is_prime :: bool

definition HE_MOD_BIT_COUNT_MAX :: nat where "HE_MOD_BIT_COUNT_MAX = 61"

text \<open>
  What \<open>Modulus::set_value\<close> establishes for a non-zero value: at most 61 bits, not 1, and
  \<open>const_ratio = floor(2^128 / value)\<close> with the remainder in the third limb.
\<close>

definition wf_modulus :: "modulus \<Rightarrow> bool" where
  "wf_modulus m \<longleftrightarrow> 1 < uint (mod_value m) \<and> uint (mod_value m) < 2 ^ 61 \<and>
     uint (ratio0 m) + 2 ^ 64 * uint (ratio1 m) = 2 ^ 128 div uint (mod_value m) \<and>
     uint (ratio2 m) = 2 ^ 128 mod uint (mod_value m)"

lemma wf_modulusD:
  assumes "wf_modulus m"
  shows "1 < uint (mod_value m)" "0 < uint (mod_value m)" "uint (mod_value m) < 2 ^ 61" "mod_value m \<noteq> 0"
    "2 * uint (mod_value m) < 2 ^ 64"
  using assms by (auto simp: wf_modulus_def)

text \<open>The constants of a given value, for concrete instances.\<close>

definition sample_modulus :: "u64 \<Rightarrow> modulus" where
  "sample_modulus v = \<lparr>mod_value = v, ratio0 = word_of_int (2 ^ 128 div uint v mod 2 ^ 64),
     ratio1 = word_of_int (2 ^ 128 div uint v div 2 ^ 64), ratio2 = word_of_int (2 ^ 128 mod uint v),
     mod_bit_count = 0, mod_is_prime = True\<rparr>"

lemma sample_modulus_value [simp]: "mod_value (sample_modulus v) = v"
  by (simp add: sample_modulus_def)

lemma wf_sample_modulus:
  assumes "1 < uint v" "uint v < 2 ^ 61"
  shows "wf_modulus (sample_modulus v)"
proof -
  have "2 ^ 128 div uint v \<le> (2 ^ 128 :: int) div 2" using assms(1) by (intro zdiv_mono2) auto
  then have "2 ^ 128 div uint v < 2 ^ 64 * 2 ^ 64" by simp
  then have "2 ^ 128 div uint v div 2 ^ 64 < 2 ^ 64" by (simp add: div_less_iff_less_mult)
  moreover have "0 \<le> 2 ^ 128 div uint v div 2 ^ 64" using assms(1) by (simp add: pos_imp_zdiv_nonneg_iff)
  moreover have "2 ^ 128 mod uint v < uint v" using assms(1) by (intro pos_mod_bound) simp
  then have "2 ^ 128 mod uint v < 2 ^ 64" by (rule less_trans) (use assms in simp)
  moreover have "0 \<le> 2 ^ 128 mod uint v" using assms by simp
  ultimately show ?thesis
    using assms by (simp add: wf_modulus_def sample_modulus_def uint_word_of_int take_bit_eq_mod)
qed

subsection \<open>The arithmetic of quotient estimates\<close>

text \<open>
  Both Barrett's and Shoup's reductions estimate a quotient with a precomputed
  \<open>floor(y B / m)\<close>; the estimate is at most one too small.
\<close>

lemma quotient_estimate:
  fixes x y m B :: int
  assumes "0 \<le> x" "x < B" "0 < m" "0 \<le> y"
  defines "r \<equiv> (y * B) div m"
  defines "t \<equiv> (x * r) div B"
  shows "0 \<le> x * y - t * m" "x * y - t * m < 2 * m"
proof -
  define s where "s = (y * B) mod m"
  define u where "u = (x * r) mod B"
  have B: "0 < B" using assms by linarith
  have s: "y * B = r * m + s" "0 \<le> s" "s < m"
    using \<open>0 < m\<close> by (simp_all add: r_def s_def)
  have u: "x * r = t * B + u" "0 \<le> u" "u < B"
    using B by (simp_all add: t_def u_def)
  have key: "(x * y - t * m) * B = u * m + x * s"
  proof -
    have "(x * y - t * m) * B = x * (y * B) - t * B * m" by (simp add: algebra_simps)
    also have "\<dots> = x * (r * m + s) - (x * r - u) * m" using s(1) u(1) by simp
    also have "\<dots> = u * m + x * s" by (simp add: algebra_simps)
    finally show ?thesis .
  qed
  have nn: "0 \<le> u * m + x * s" using assms u s by simp
  show "0 \<le> x * y - t * m"
  proof (rule ccontr)
    assume "\<not> 0 \<le> x * y - t * m"
    then have "(x * y - t * m) * B < 0" using B by (intro mult_neg_pos) auto
    with key nn show False by simp
  qed
  have "u * m < B * m" using u(3) \<open>0 < m\<close> by simp
  moreover have "x * s \<le> B * m" using assms s by (intro mult_mono) auto
  ultimately have "(x * y - t * m) * B < (2 * m) * B" using key by (simp add: algebra_simps)
  then show "x * y - t * m < 2 * m" using B by (simp add: mult_less_cancel_right)
qed

lemma sub_mult_mod_self: "(x - t * p) mod p = x mod p" for x t p :: int
proof -
  have "x - t * p = x + (- t) * p" by simp
  then show ?thesis by (simp only: mod_mult_self1)
qed

text \<open>One conditional subtraction finishes a reduction whose residue is below \<open>2 m\<close>.\<close>

lemma one_more_subtraction:
  fixes w p :: u64
  assumes "uint w = z" "z < 2 * uint p" "(z :: int) mod uint p = c mod uint p"
  shows "uint (if w \<ge> p then w - p else w) = c mod uint p"
proof (cases "p \<le> w")
  case True
  then have "uint (w - p) = z - uint p" using uint_sub_no_borrow[OF True] assms(1) by simp
  moreover have "z mod uint p = z - uint p"
  proof -
    have "uint p \<le> z" using True assms(1) by (simp add: word_le_def)
    then have "(z - uint p) mod uint p = z - uint p" using assms(2) by (intro mod_pos_pos_trivial) auto
    then show ?thesis by simp
  qed
  ultimately show ?thesis using True assms(3) by simp
next
  case False
  then have "z mod uint p = z"
    using assms(1) uint_ge_0[of w] by (intro mod_pos_pos_trivial) (auto simp: word_le_def)
  with False assms show ?thesis by simp
qed

subsection \<open>Barrett reduction\<close>

definition reduce :: "modulus \<Rightarrow> u64 \<Rightarrow> u64" where
  "reduce m input =
     (let tmp1 = multiply_uint64_high_word input (ratio1 m);
          tmp0 = input - tmp1 * mod_value m
      in if tmp0 \<ge> mod_value m then tmp0 - mod_value m else tmp0)"

definition reduce_uint128_limbs :: "modulus \<Rightarrow> u64 \<times> u64 \<Rightarrow> u64" where
  "reduce_uint128_limbs m input =
     (let (input0, input1) = input;
          carry = multiply_uint64_high_word input0 (ratio0 m);
          (tmp2_0, tmp2_1) = multiply_uint64_uint64 input0 (ratio1 m);
          (tmp1, c) = add_uint64 tmp2_0 carry;
          tmp3 = tmp2_1 + ucast c;
          (tmp2_0, tmp2_1) = multiply_uint64_uint64 input1 (ratio0 m);
          (tmp1, c) = add_uint64 tmp1 tmp2_0;
          carry = tmp2_1 + ucast c;
          tmp1 = input1 * ratio1 m + tmp3 + carry;
          tmp3 = input0 - tmp1 * mod_value m
      in if tmp3 \<ge> mod_value m then tmp3 - mod_value m else tmp3)"

definition reduce_uint128 :: "modulus \<Rightarrow> u128 \<Rightarrow> u64" where
  "reduce_uint128 m v = reduce_uint128_limbs m (ucast v, ucast (drop_bit 64 v))"

definition reduce_mul_uint64 :: "modulus \<Rightarrow> u64 \<Rightarrow> u64 \<Rightarrow> u64" where
  "reduce_mul_uint64 m operand1 operand2 =
     reduce_uint128_limbs m (multiply_uint64_uint64 operand1 operand2)"

lemma ratio1_eq:
  assumes "wf_modulus m"
  shows "uint (ratio1 m) = 2 ^ 64 div uint (mod_value m)"
proof -
  have "uint (ratio1 m) = (uint (ratio0 m) + 2 ^ 64 * uint (ratio1 m)) div 2 ^ 64"
    using uint_lt2p[of "ratio0 m"] by simp
  also have "\<dots> = 2 ^ 128 div uint (mod_value m) div 2 ^ 64" using assms by (simp add: wf_modulus_def)
  also have "\<dots> = 2 ^ 128 div 2 ^ 64 div uint (mod_value m)"
    by (simp add: zdiv_zmult2_eq[symmetric] mult.commute flip: div_mult2_eq)
  finally show ?thesis by simp
qed

lemma uint_sub_mult_mod:
  "uint (a - b * c) = (uint a - uint b * uint c) mod 2 ^ 64" for a b c :: u64
  by (simp add: uint_word_ariths mod_diff_right_eq)

lemma reduce_correct:
  assumes "wf_modulus m"
  shows "uint (reduce m x) = uint x mod uint (mod_value m)"
proof -
  let ?p = "uint (mod_value m)" and ?r = "2 ^ 64 div uint (mod_value m)"
  let ?t = "uint x * ?r div 2 ^ 64"
  let ?w = "x - multiply_uint64_high_word x (ratio1 m) * mod_value m"
  note p = wf_modulusD[OF assms]
  have est: "0 \<le> uint x - ?t * ?p" "uint x - ?t * ?p < 2 * ?p"
    using quotient_estimate[of "uint x" "2 ^ 64" ?p 1] p uint_lt2p[of x] by simp_all
  have "uint (multiply_uint64_high_word x (ratio1 m)) = ?t"
    unfolding multiply_uint64_high_word_eq ratio1_eq[OF assms] ..
  then have "uint ?w = (uint x - ?t * ?p) mod 2 ^ 64" unfolding uint_sub_mult_mod by simp
  also have "\<dots> = uint x - ?t * ?p" using est p by (intro mod_pos_pos_trivial) linarith+
  finally have w: "uint ?w = uint x - ?t * ?p" .
  have "uint (if ?w \<ge> mod_value m then ?w - mod_value m else ?w) = uint x mod ?p"
    by (rule one_more_subtraction[OF w est(2)]) (rule sub_mult_mod_self)
  then show ?thesis by (simp add: reduce_def Let_def)
qed

text \<open>The value of a 128-bit input given as two limbs.\<close>

definition limbs2 :: "u64 \<times> u64 \<Rightarrow> int" where
  "limbs2 x = uint (fst x) + 2 ^ 64 * uint (snd x)"

lemma limbs2_bound: "0 \<le> limbs2 x" "limbs2 x < 2 ^ 128"
  using uint_lt2p[of "fst x"] uint_lt2p[of "snd x"] by (simp_all add: limbs2_def)

lemma limbs2_mult: "limbs2 (multiply_uint64_uint64 a b) = uint a * uint b"
proof -
  obtain lo hi where e: "multiply_uint64_uint64 a b = (lo, hi)" by fastforce
  show ?thesis
    unfolding e limbs2_def fst_conv snd_conv multiply_uint64_uint64_split[OF e] by simp
qed

lemma reduce128_quotient:
  fixes x0 x1 r0 r1 :: int
  assumes "0 \<le> x0" "0 \<le> r0"
  defines "c0 \<equiv> x0 * r0 div 2 ^ 64"
  defines "a \<equiv> x0 * r1 + c0"
  defines "b \<equiv> x1 * r0 + a mod 2 ^ 64"
  shows "(x0 + 2 ^ 64 * x1) * (r0 + 2 ^ 64 * r1) div 2 ^ 128 = x1 * r1 + a div 2 ^ 64 + b div 2 ^ 64"
proof -
  have "(x0 + 2 ^ 64 * x1) * (r0 + 2 ^ 64 * r1)
      = x0 * r0 + 2 ^ 64 * (x0 * r1 + x1 * r0 + 2 ^ 64 * (x1 * r1))" by (simp add: algebra_simps)
  then have "(x0 + 2 ^ 64 * x1) * (r0 + 2 ^ 64 * r1) div 2 ^ 64 = c0 + (x0 * r1 + x1 * r0 + 2 ^ 64 * (x1 * r1))"
    by (simp add: c0_def)
  also have "\<dots> = b + 2 ^ 64 * (x1 * r1 + a div 2 ^ 64)"
    using mult_div_mod_eq[of "2 ^ 64" a] by (simp add: a_def b_def algebra_simps)
  finally have "(x0 + 2 ^ 64 * x1) * (r0 + 2 ^ 64 * r1) div 2 ^ 64 div 2 ^ 64
      = b div 2 ^ 64 + (x1 * r1 + a div 2 ^ 64)" by simp
  then show ?thesis by (simp add: zdiv_zmult2_eq[symmetric])
qed

lemma reduce128_estimate:
  "reduce_uint128_limbs m (x0, x1) =
     (let t = word_of_int ((uint x0 + 2 ^ 64 * uint x1) * (uint (ratio0 m) + 2 ^ 64 * uint (ratio1 m)) div 2 ^ 128);
          w = x0 - t * mod_value m
      in if w \<ge> mod_value m then w - mod_value m else w)"
proof -
  let ?r0 = "ratio0 m" and ?r1 = "ratio1 m"
  define carry where "carry = multiply_uint64_high_word x0 ?r0"
  obtain lo hi where m1: "multiply_uint64_uint64 x0 ?r1 = (lo, hi)" by fastforce
  obtain t1 c1 where a1: "add_uint64 lo carry = (t1, c1)" by fastforce
  obtain lo' hi' where m2: "multiply_uint64_uint64 x1 ?r0 = (lo', hi')" by fastforce
  obtain t2 c2 where a2: "add_uint64 t1 lo' = (t2, c2)" by fastforce
  let ?c0 = "uint x0 * uint ?r0 div 2 ^ 64"
  let ?a = "uint x0 * uint ?r1 + ?c0"
  let ?b = "uint x1 * uint ?r0 + ?a mod 2 ^ 64"
  have carry: "uint carry = ?c0" unfolding carry_def by (rule multiply_uint64_high_word_eq)
  have p1: "uint lo + 2 ^ 64 * uint hi = uint x0 * uint ?r1"
    unfolding multiply_uint64_uint64_split[OF m1] by simp
  have s1: "uint t1 + 2 ^ 64 * uint c1 = uint lo + uint carry" using add_uint64_sum[OF a1] by blast
  have a: "?a = uint t1 + 2 ^ 64 * (uint hi + uint c1)" using p1 s1 carry by (simp add: algebra_simps)
  have amod: "?a mod 2 ^ 64 = uint t1" and adiv: "?a div 2 ^ 64 = uint hi + uint c1"
    unfolding a by (rule digit_mod[OF uint_ge_0 uint64_lt], rule digit_div[OF uint_ge_0 uint64_lt])
  have p2: "uint lo' + 2 ^ 64 * uint hi' = uint x1 * uint ?r0"
    unfolding multiply_uint64_uint64_split[OF m2] by simp
  have s2: "uint t2 + 2 ^ 64 * uint c2 = uint t1 + uint lo'" using add_uint64_sum[OF a2] by blast
  have b: "?b = uint t2 + 2 ^ 64 * (uint hi' + uint c2)" unfolding amod using p2 s2 by (simp add: algebra_simps)
  have bdiv: "?b div 2 ^ 64 = uint hi' + uint c2" unfolding b by (rule digit_div[OF uint_ge_0 uint64_lt])
  have Q: "(uint x0 + 2 ^ 64 * uint x1) * (uint ?r0 + 2 ^ 64 * uint ?r1) div 2 ^ 128
      = uint x1 * uint ?r1 + (uint hi + uint c1) + (uint hi' + uint c2)"
    using reduce128_quotient[of "uint x0" "uint ?r0" "uint x1" "uint ?r1"] amod adiv bdiv by simp
  have cast: "(ucast c :: u64) = word_of_int (uint c)" for c :: u8
    by (simp add: word_eq_iff_unsigned unsigned_ucast_eq)
  have "x1 * ?r1 + (hi + ucast c1) + (hi' + ucast c2)
      = word_of_int ((uint x0 + 2 ^ 64 * uint x1) * (uint ?r0 + 2 ^ 64 * uint ?r1) div 2 ^ 128)"
    unfolding Q cast by (simp flip: wi_hom_add wi_hom_mult)
  then show ?thesis
    by (simp add: reduce_uint128_limbs_def Let_def m1 a1 m2 a2 flip: carry_def)
qed

lemma reduce_uint128_limbs_correct:
  assumes "wf_modulus m"
  shows "uint (reduce_uint128_limbs m x) = limbs2 x mod uint (mod_value m)"
proof -
  obtain x0 x1 where x: "x = (x0, x1)" by fastforce
  let ?p = "uint (mod_value m)" and ?X = "limbs2 x"
  note p = wf_modulusD[OF assms]
  have X: "uint x0 + 2 ^ 64 * uint x1 = ?X" by (simp add: limbs2_def x)
  let ?t = "?X * (2 ^ 128 div ?p) div 2 ^ 128"
  have r: "uint (ratio0 m) + 2 ^ 64 * uint (ratio1 m) = 2 ^ 128 div ?p"
    using assms by (simp add: wf_modulus_def)
  have est: "0 \<le> ?X - ?t * ?p" "?X - ?t * ?p < 2 * ?p"
    using quotient_estimate[of ?X "2 ^ 128" ?p 1] p(2) limbs2_bound[of x] by simp_all
  let ?w = "x0 - word_of_int ?t * mod_value m"
  have "uint ?w = (uint x0 - uint (word_of_int ?t :: u64) * ?p) mod 2 ^ 64" by (rule uint_sub_mult_mod)
  also have "\<dots> = (uint x0 - ?t * ?p) mod 2 ^ 64"
    by (rule mod_diff_cong) (simp_all add: uint_word_of_int mod_mult_left_eq)
  also have "\<dots> = (?X - ?t * ?p) mod 2 ^ 64"
  proof -
    have "?X - ?t * ?p = (uint x0 - ?t * ?p) + uint x1 * 2 ^ 64" using X by simp
    then show ?thesis by (simp only: mod_mult_self1)
  qed
  also have "\<dots> = ?X - ?t * ?p" using est p by (intro mod_pos_pos_trivial) linarith+
  finally have w: "uint ?w = ?X - ?t * ?p" .
  have "uint (if ?w \<ge> mod_value m then ?w - mod_value m else ?w) = ?X mod ?p"
    by (rule one_more_subtraction[OF w est(2)]) (rule sub_mult_mod_self)
  then show ?thesis unfolding x reduce128_estimate X[unfolded x] r Let_def by (simp only: x)
qed

lemma reduce_uint128_correct:
  assumes "wf_modulus m"
  shows "uint (reduce_uint128 m v) = uint v mod uint (mod_value m)"
proof -
  have "limbs2 (ucast v, ucast (drop_bit 64 v)) = uint v"
    unfolding limbs2_def fst_conv snd_conv uint_high64 unfolding uint_low64 by simp
  then show ?thesis by (simp add: reduce_uint128_def reduce_uint128_limbs_correct[OF assms])
qed

subsection \<open>Single additions, subtractions and halving\<close>

definition increment_uint64_mod :: "u64 \<Rightarrow> modulus \<Rightarrow> u64" where
  "increment_uint64_mod operand m =
     (let operand = operand + 1
      in if operand \<ge> mod_value m then operand - mod_value m else operand)"

definition decrement_uint64_mod :: "u64 \<Rightarrow> modulus \<Rightarrow> u64" where
  "decrement_uint64_mod operand m = (if operand = 0 then mod_value m - 1 else operand - 1)"

definition negate_uint64_mod :: "u64 \<Rightarrow> modulus \<Rightarrow> u64" where
  "negate_uint64_mod operand m = (if operand = 0 then 0 else mod_value m - operand)"

definition divide2_uint64_mod :: "u64 \<Rightarrow> modulus \<Rightarrow> u64" where
  "divide2_uint64_mod operand m =
     (if operand AND 1 > 0 then
        let (temp, carry) = add_uint64 operand (mod_value m);
            operand = drop_bit 1 temp
        in if carry > 0 then operand OR push_bit 63 1 else operand
      else drop_bit 1 operand)"

definition add_uint64_mod :: "u64 \<Rightarrow> u64 \<Rightarrow> modulus \<Rightarrow> u64" where
  "add_uint64_mod operand1 operand2 m =
     (let operand1 = operand1 + operand2
      in if operand1 \<ge> mod_value m then operand1 - mod_value m else operand1)"

definition sub_uint64_mod :: "u64 \<Rightarrow> u64 \<Rightarrow> modulus \<Rightarrow> u64" where
  "sub_uint64_mod operand1 operand2 m =
     (let (temp, borrow) = sub_uint64 operand1 operand2
      in if borrow > 0 then temp + mod_value m else temp)"

definition barrett_reduce_uint128 :: "u64 \<times> u64 \<Rightarrow> modulus \<Rightarrow> u64" where
  "barrett_reduce_uint128 input m = reduce_uint128_limbs m input"

definition barrett_reduce_uint64 :: "u64 \<Rightarrow> modulus \<Rightarrow> u64" where
  "barrett_reduce_uint64 input m = reduce m input"

definition multiply_uint64_mod :: "u64 \<Rightarrow> u64 \<Rightarrow> modulus \<Rightarrow> u64" where
  "multiply_uint64_mod operand1 operand2 m =
     reduce_uint128_limbs m (multiply_uint64_uint64 operand1 operand2)"

text \<open>A residue: an operand the routines expect to be reduced already.\<close>

definition residue :: "modulus \<Rightarrow> u64 \<Rightarrow> bool" where
  "residue m x \<longleftrightarrow> uint x < uint (mod_value m)"

lemma residue_mod: "residue m x \<Longrightarrow> uint x mod uint (mod_value m) = uint x"
  by (simp add: residue_def)

lemma add_uint64_mod_correct:
  assumes "wf_modulus m" "residue m a" "residue m b"
  shows "uint (add_uint64_mod a b m) = (uint a + uint b) mod uint (mod_value m)"
proof -
  note p = wf_modulusD[OF assms(1)]
  have lt: "uint a + uint b < 2 * uint (mod_value m)" using assms by (simp add: residue_def)
  then have "uint (a + b) = uint a + uint b" using p(5) by (intro uint_add_no_overflow) simp
  then have "uint (if a + b \<ge> mod_value m then a + b - mod_value m else a + b) = (uint a + uint b) mod uint (mod_value m)"
    by (rule one_more_subtraction) (use lt in simp_all)
  then show ?thesis by (simp add: add_uint64_mod_def Let_def)
qed

lemma sub_uint64_mod_correct:
  assumes "wf_modulus m" "residue m a" "residue m b"
  shows "uint (sub_uint64_mod a b m) = (uint a - uint b) mod uint (mod_value m)"
proof -
  note p = wf_modulusD[OF assms(1)]
  have r: "sub_uint64_mod a b m = (if a < b then a - b + mod_value m else a - b)"
    by (simp add: sub_uint64_mod_def sub_uint64_def sub_gt_iff of_flag_def)
  show ?thesis
  proof (cases "a < b")
    case True
    then have d: "uint a - uint b < 0" by (simp add: word_less_def)
    have b: "uint b < uint (mod_value m)" using assms(3) by (simp add: residue_def)
    have "uint (a - b + mod_value m) = (uint a - uint b + uint (mod_value m)) mod 2 ^ 64"
      by (simp add: uint_word_ariths mod_add_left_eq)
    also have "\<dots> = uint a - uint b + uint (mod_value m)"
      using d b p(5) uint_ge_0[of a] by (intro mod_pos_pos_trivial) linarith+
    also have "\<dots> = (uint a - uint b + uint (mod_value m)) mod uint (mod_value m)"
      using d b uint_ge_0[of a] by (intro mod_pos_pos_trivial[symmetric]) linarith+
    finally show ?thesis using True r by simp
  next
    case False
    then have "uint (a - b) = uint a - uint b" by (intro uint_sub_no_borrow) simp
    moreover have "0 \<le> uint a - uint b" "uint a - uint b < uint (mod_value m)"
      using False assms(2) uint_ge_0[of b] unfolding word_less_def residue_def by linarith+
    ultimately show ?thesis using False r by simp
  qed
qed

lemma negate_uint64_mod_correct:
  assumes "wf_modulus m" "residue m a"
  shows "uint (negate_uint64_mod a m) = (- uint a) mod uint (mod_value m)"
proof (cases "a = 0")
  case False
  then have a: "0 < uint a" "uint a < uint (mod_value m)"
    using assms(2) by (simp_all add: residue_def uint_gt_0_iff)
  then have "uint (mod_value m - a) = uint (mod_value m) - uint a"
    by (intro uint_sub_no_borrow) (simp add: word_le_def)
  moreover have "(- uint a) mod uint (mod_value m) = uint (mod_value m) - uint a"
    using mod_neg_residue[of "uint a" "uint (mod_value m)"] a by simp
  ultimately show ?thesis using False by (simp add: negate_uint64_mod_def)
qed (simp add: negate_uint64_mod_def)

lemma increment_uint64_mod_correct:
  assumes "wf_modulus m" "residue m a"
  shows "uint (increment_uint64_mod a m) = (uint a + 1) mod uint (mod_value m)"
proof -
  have "increment_uint64_mod a m = add_uint64_mod a 1 m"
    by (simp add: increment_uint64_mod_def add_uint64_mod_def)
  moreover have "residue m 1" using wf_modulusD(1)[OF assms(1)] by (simp add: residue_def)
  ultimately show ?thesis using add_uint64_mod_correct[OF assms] by simp
qed

lemma decrement_uint64_mod_correct:
  assumes "wf_modulus m" "residue m a"
  shows "uint (decrement_uint64_mod a m) = (uint a - 1) mod uint (mod_value m)"
proof -
  note p = wf_modulusD[OF assms(1)]
  have one: "uint (mod_value m - 1) = uint (mod_value m) - 1"
    using p(1) uint_sub_no_borrow[of 1 "mod_value m"] by (simp add: word_le_def)
  show ?thesis
  proof (cases "a = 0")
    case True
    have "(uint a - 1) mod uint (mod_value m) = uint (mod_value m) - 1"
      using True p(1) mod_neg_residue[of 1 "uint (mod_value m)"] by simp
    with True one show ?thesis by (simp add: decrement_uint64_mod_def)
  next
    case False
    then have "1 \<le> a" by (simp add: word_le_def uint_gt_0_iff[symmetric] int_one_le_iff_zero_less del: word_neq_0_conv)
    then have "uint (a - 1) = uint a - 1" "0 \<le> uint a - 1"
      using uint_sub_no_borrow[of 1 a] by (simp_all add: word_le_def)
    then show ?thesis using False assms(2) by (simp add: decrement_uint64_mod_def residue_def)
  qed
qed

lemma multiply_uint64_mod_correct:
  assumes "wf_modulus m"
  shows "uint (multiply_uint64_mod a b m) = uint a * uint b mod uint (mod_value m)"
  by (simp add: multiply_uint64_mod_def reduce_uint128_limbs_correct[OF assms] limbs2_mult)

text \<open>
  C36: Barrett reduction is exact, not only congruent: for every 64-bit, 128-bit and product input
  the single conditional subtraction at the end is enough.
\<close>

theorem barrett_reduction_exact:
  assumes "wf_modulus m"
  shows "uint (reduce m x) = uint x mod uint (mod_value m) \<and>
    uint (reduce_uint128 m y) = uint y mod uint (mod_value m) \<and>
    uint (reduce_mul_uint64 m a b) = uint a * uint b mod uint (mod_value m)"
  using reduce_correct[OF assms] reduce_uint128_correct[OF assms] reduce_uint128_limbs_correct[OF assms]
  by (simp add: reduce_mul_uint64_def limbs2_mult)

theorem barrett_reduction_exact_witness:
  "uint (reduce (sample_modulus 10007) (- 1)) = (2 ^ 64 - 1) mod 10007 \<and>
    uint (reduce_uint128 (sample_modulus 10007) (- 1)) = (2 ^ 128 - 1) mod 10007 \<and>
    uint (reduce_mul_uint64 (sample_modulus 10007) (- 1) (- 1)) = (2 ^ 64 - 1) * (2 ^ 64 - 1) mod 10007"
  using barrett_reduction_exact[OF wf_sample_modulus[of 10007], of "- 1" "- 1" "- 1" "- 1"]
  by (simp add: unsigned_minus_1_eq_mask mask_eq_exp_minus_1)

text \<open>
  Arithmetic on residues: each operation returns the residue of the mathematical result, so the
  conditional subtractions and borrows neither overflow nor leave a value out of range.
\<close>

theorem residue_arithmetic:
  assumes "wf_modulus m" "residue m a" "residue m b"
  shows "uint (add_uint64_mod a b m) = (uint a + uint b) mod uint (mod_value m) \<and>
    uint (sub_uint64_mod a b m) = (uint a - uint b) mod uint (mod_value m) \<and>
    uint (negate_uint64_mod a m) = (- uint a) mod uint (mod_value m) \<and>
    uint (increment_uint64_mod a m) = (uint a + 1) mod uint (mod_value m) \<and>
    uint (decrement_uint64_mod a m) = (uint a - 1) mod uint (mod_value m) \<and>
    uint (multiply_uint64_mod a b m) = uint a * uint b mod uint (mod_value m)"
  using add_uint64_mod_correct[OF assms] sub_uint64_mod_correct[OF assms] negate_uint64_mod_correct[OF assms(1,2)]
    increment_uint64_mod_correct[OF assms(1,2)] decrement_uint64_mod_correct[OF assms(1,2)]
    multiply_uint64_mod_correct[OF assms(1)]
  by blast

theorem residue_arithmetic_witness:
  "uint (add_uint64_mod 10000 10006 (sample_modulus 10007)) = 9999 \<and>
    uint (sub_uint64_mod 10000 10006 (sample_modulus 10007)) = 10001"
  using residue_arithmetic[OF wf_sample_modulus[of 10007], of 10000 10006] by (simp add: residue_def)

end
