(* ===== verification/Mod_Ops.thy ===== *)
theory Mod_Ops
  imports Small_Mod
begin

text \<open>
  The composite routines of \<open>src/encryption/utils/uint_small_mod.h\<close>: halving, multiplication by
  a prepared operand (Shoup), reduction of multi-word values, fused multiply-add,
  exponentiation and dot products modulo a small modulus.
\<close>

subsection \<open>Halving\<close>

lemma and_one_gt_zero: "x AND 1 > 0 \<longleftrightarrow> odd (uint x)" for x :: u64
proof -
  have "x AND 1 > 0 \<longleftrightarrow> odd x" by (simp add: and_one_eq word_gt_0 odd_iff_mod_2_eq_one)
  also have "\<dots> \<longleftrightarrow> odd (uint x)" by (simp add: bit_unsigned_iff flip: bit_0)
  finally show ?thesis .
qed

lemma uint_half: "uint (drop_bit 1 x) = uint x div 2" for x :: u64
proof -
  have "uint (drop_bit 1 x) = drop_bit 1 (take_bit LENGTH(64) (uint x))" by (rule unsigned_drop_bit_eq)
  also have "take_bit LENGTH(64) (uint x) = uint x" unfolding take_bit_eq_mod by (rule uint_idem)
  also have "drop_bit 1 (uint x) = uint x div 2" using drop_bit_eq_div[of 1 "uint x"] by simp
  finally show ?thesis .
qed

lemma divide2_uint64_mod_value:
  assumes "wf_modulus m" "residue m a" "odd (uint (mod_value m))"
  shows "2 * uint (divide2_uint64_mod a m) mod uint (mod_value m) = uint a"
    and "residue m (divide2_uint64_mod a m)"
proof -
  note p = wf_modulusD[OF assms(1)]
  have a: "uint a < uint (mod_value m)" using assms(2) by (simp add: residue_def)
  have s: "uint (a + mod_value m) = uint a + uint (mod_value m)"
    by (rule uint_add_no_overflow) (use a p(5) in simp)
  have le: "\<not> a + mod_value m < a" using s uint_ge_0[of "mod_value m"] by (simp add: word_less_def)
  have e: "divide2_uint64_mod a m = (if odd (uint a) then drop_bit 1 (a + mod_value m) else drop_bit 1 a)"
    unfolding divide2_uint64_mod_def and_one_gt_zero using le by (simp add: add_uint64_def)
  have d: "2 * uint (divide2_uint64_mod a m) = (if odd (uint a) then uint a + uint (mod_value m) else uint a)"
    unfolding e using assms(3) uint_half[of a] uint_half[of "a + mod_value m"] s
    by (auto simp del: One_nat_def drop_bit_Suc)
  then show "2 * uint (divide2_uint64_mod a m) mod uint (mod_value m) = uint a" using a by simp
  have "uint a + uint (mod_value m) < 2 * uint (mod_value m)" "uint a < 2 * uint (mod_value m)"
    using a p(2) by linarith+
  then have "2 * uint (divide2_uint64_mod a m) < 2 * uint (mod_value m)" unfolding d by simp
  then show "residue m (divide2_uint64_mod a m)" by (simp add: residue_def)
qed

subsection \<open>Prepared operands\<close>

record MultiplyUint64Operand =
  op_operand :: u64
  op_quotient :: u64

definition set_quotient :: "MultiplyUint64Operand \<Rightarrow> modulus \<Rightarrow> MultiplyUint64Operand option" where
  "set_quotient y m =
     (case divide_uint128_uint64_inplace (0, op_operand y) (mod_value m) of
        None \<Rightarrow> None
      | Some (_, (wide0, _)) \<Rightarrow> Some (y\<lparr>op_quotient := wide0\<rparr>))"

definition make_operand :: "u64 \<Rightarrow> modulus \<Rightarrow> MultiplyUint64Operand option" where
  "make_operand operand m = set_quotient \<lparr>op_operand = operand, op_quotient = 0\<rparr> m"

definition multiply_uint64operand_mod_lazy :: "u64 \<Rightarrow> MultiplyUint64Operand \<Rightarrow> modulus \<Rightarrow> u64" where
  "multiply_uint64operand_mod_lazy y x m =
     (let p = mod_value m;
          tmp1 = multiply_uint64_high_word y (op_quotient x)
      in op_operand x * y - tmp1 * p)"

definition multiply_uint64operand_mod :: "u64 \<Rightarrow> MultiplyUint64Operand \<Rightarrow> modulus \<Rightarrow> u64" where
  "multiply_uint64operand_mod x y m =
     (let p = mod_value m;
          tmp1 = multiply_uint64_high_word x (op_quotient y);
          tmp2 = op_operand y * x - tmp1 * p
      in if tmp2 \<ge> p then tmp2 - p else tmp2)"

text \<open>What \<open>set_quotient\<close> leaves behind.\<close>

definition wf_operand :: "modulus \<Rightarrow> MultiplyUint64Operand \<Rightarrow> bool" where
  "wf_operand m y \<longleftrightarrow> residue m (op_operand y) \<and>
     uint (op_quotient y) = uint (op_operand y) * 2 ^ 64 div uint (mod_value m)"

lemma make_operand_correct:
  assumes "wf_modulus m" "residue m x"
  shows "\<exists>y. make_operand x m = Some y \<and> op_operand y = x \<and> wf_operand m y"
proof -
  note p = wf_modulusD[OF assms(1)]
  obtain r0 r1 q0 q1 where d: "divide_uint128_uint64_inplace (0, x) (mod_value m) = Some ((r0, r1), (q0, q1))"
    using p(4) by (simp add: divide_uint128_uint64_inplace_def Let_def)
  have q: "uint q0 + 2 ^ 64 * uint q1 = 2 ^ 64 * uint x div uint (mod_value m)"
    using divide_uint128_uint64_inplace_correct(1)[OF d] by simp
  have "2 ^ 64 * uint x div uint (mod_value m) < 2 ^ 64"
    by (rule div_less_of_less_mult) (use p(2) assms(2) in \<open>simp_all add: residue_def\<close>)
  then have "uint q1 = 0" by (rule high_digit_zero[OF q]) simp_all
  then have "uint q0 = uint x * 2 ^ 64 div uint (mod_value m)" using q by (simp add: mult.commute)
  then show ?thesis using assms(2) by (simp add: make_operand_def set_quotient_def d wf_operand_def)
qed

lemma shoup_estimate:
  fixes x :: u64
  assumes "wf_modulus m" "wf_operand m y"
  defines "t \<equiv> uint x * uint (op_quotient y) div 2 ^ 64"
  defines "z \<equiv> uint x * uint (op_operand y) - t * uint (mod_value m)"
  shows "0 \<le> z" "z < 2 * uint (mod_value m)"
    and "uint (op_operand y * x - multiply_uint64_high_word x (op_quotient y) * mod_value m) = z"
    and "z mod uint (mod_value m) = uint x * uint (op_operand y) mod uint (mod_value m)"
proof -
  note p = wf_modulusD[OF assms(1)]
  have q: "uint (op_quotient y) = uint (op_operand y) * 2 ^ 64 div uint (mod_value m)"
    using assms(2) by (simp add: wf_operand_def)
  show z: "0 \<le> z" "z < 2 * uint (mod_value m)"
    unfolding z_def t_def q
    using quotient_estimate[OF uint_ge_0 uint64_lt p(2) uint_ge_0, of x "op_operand y"] by blast+
  let ?h = "multiply_uint64_high_word x (op_quotient y)"
  have "uint (op_operand y * x - ?h * mod_value m)
      = (uint (op_operand y) * uint x - uint ?h * uint (mod_value m)) mod 2 ^ 64"
    by (simp add: uint_word_ariths mod_diff_eq)
  also have "\<dots> = z mod 2 ^ 64" by (simp add: z_def t_def multiply_uint64_high_word_eq mult.commute)
  also have "\<dots> = z" using z p(5) by (intro mod_pos_pos_trivial) linarith+
  finally show "uint (op_operand y * x - ?h * mod_value m) = z" .
  show "z mod uint (mod_value m) = uint x * uint (op_operand y) mod uint (mod_value m)"
    unfolding z_def by (rule sub_mult_mod_self)
qed

lemma multiply_uint64operand_mod_correct:
  assumes "wf_modulus m" "wf_operand m y"
  shows "uint (multiply_uint64operand_mod x y m) = uint x * uint (op_operand y) mod uint (mod_value m)"
  unfolding multiply_uint64operand_mod_def Let_def
  by (rule one_more_subtraction[OF shoup_estimate(3)[OF assms] shoup_estimate(2)[OF assms]
      shoup_estimate(4)[OF assms]])

lemma multiply_uint64operand_mod_lazy_correct:
  assumes "wf_modulus m" "wf_operand m y"
  shows "uint (multiply_uint64operand_mod_lazy x y m) < 2 * uint (mod_value m)"
    and "uint (multiply_uint64operand_mod_lazy x y m) mod uint (mod_value m)
       = uint x * uint (op_operand y) mod uint (mod_value m)"
  unfolding multiply_uint64operand_mod_lazy_def Let_def shoup_estimate(3)[OF assms]
  by (rule shoup_estimate(2,4)[OF assms])+

subsection \<open>Reduction of multi-word values\<close>

text \<open>An empty slice is read out of range by the code; the model has no value for it.\<close>

definition modulo_uint :: "u64 list \<Rightarrow> modulus \<Rightarrow> u64 option" where
  "modulo_uint val m =
     (if val = [] then None
      else if length val = 1 then
        (if val ! 0 < mod_value m then Some (val ! 0) else Some (reduce m (val ! 0)))
      else Some (fold (\<lambda>i temp1. reduce_uint128_limbs m (val ! i, temp1)) (rev [0..<length val - 1])
        (val ! (length val - 1))))"

definition modulo_uint_inplace :: "u64 list \<Rightarrow> modulus \<Rightarrow> u64 list" where
  "modulo_uint_inplace val m =
     (if length val = 1 \<and> val ! 0 < mod_value m then val else
      let val = (if length val = 1 then val[0 := reduce m (val ! 0)] else val)
      in fold (\<lambda>i v. v[i := reduce_uint128_limbs m (v ! i, v ! (i + 1)), i + 1 := 0])
           (rev [0..<length val - 1]) val)"

lemma reduce_single:
  assumes "wf_modulus m"
  shows "uint (if x < mod_value m then x else reduce m x) = uint x mod uint (mod_value m)"
  by (simp add: reduce_correct[OF assms] word_less_def)

lemma limbs_take_Suc:
  assumes "k < length v"
  shows "limbs (take (Suc k) v) = limbs (take k v) + 2 ^ (64 * k) * uint (v ! k)"
  using assms by (simp add: take_Suc_conv_app_nth limbs_append)

lemma horner_step:
  fixes P A x t t' p :: int
  assumes "t' = (x + 2 ^ 64 * t) mod p"
  shows "(A + P * t') mod p = (A + P * x + P * 2 ^ 64 * t) mod p"
proof -
  have "(A + P * t') mod p = (A + P * (x + 2 ^ 64 * t)) mod p"
    unfolding assms by (rule mod_add_cong[OF refl]) (rule mod_mult_right_eq)
  then show ?thesis by (simp add: algebra_simps)
qed

lemma modulo_uint_loop:
  assumes "wf_modulus m" "k \<le> length val"
  shows "uint (fold (\<lambda>i temp1. reduce_uint128_limbs m (val ! i, temp1)) (rev [0..<k]) t) mod uint (mod_value m)
       = (limbs (take k val) + 2 ^ (64 * k) * uint t) mod uint (mod_value m)"
  using assms(2)
proof (induction k arbitrary: t)
  case (Suc k)
  let ?t' = "reduce_uint128_limbs m (val ! k, t)"
  have t': "uint ?t' = (uint (val ! k) + 2 ^ 64 * uint t) mod uint (mod_value m)"
    by (simp add: reduce_uint128_limbs_correct[OF assms(1)] limbs2_def)
  have "uint (fold (\<lambda>i temp1. reduce_uint128_limbs m (val ! i, temp1)) (rev [0..<Suc k]) t) mod uint (mod_value m)
      = (limbs (take k val) + 2 ^ (64 * k) * uint ?t') mod uint (mod_value m)"
    using Suc by simp
  also have "\<dots> = (limbs (take k val) + 2 ^ (64 * k) * uint (val ! k) + 2 ^ (64 * k) * 2 ^ 64 * uint t)
      mod uint (mod_value m)"
    by (rule horner_step[OF t'])
  finally show ?case using Suc.prems by (simp add: limbs_take_Suc power_add mult.commute)
qed simp

text \<open>
  Horner reduction of a number of any positive count of limbs gives its residue.
\<close>

theorem modulo_uint_correct:
  assumes "wf_modulus m" "val \<noteq> []"
  shows "\<exists>r. modulo_uint val m = Some r \<and> uint r = limbs val mod uint (mod_value m)"
proof (cases "length val = 1")
  case True
  then obtain x where "val = [x]" by (auto simp: length_Suc_conv)
  with assms show ?thesis by (simp add: modulo_uint_def reduce_correct[OF assms(1)] word_less_def)
next
  case False
  then obtain n where n: "length val = Suc (Suc n)" using assms(2)
    by (metis One_nat_def length_0_conv not0_implies_Suc)
  define r where "r = fold (\<lambda>i temp1. reduce_uint128_limbs m (val ! i, temp1)) (rev [0..<length val - 1])
      (val ! (length val - 1))"
  have e: "modulo_uint val m = Some r" using False assms(2) by (simp add: modulo_uint_def r_def)
  have "uint r < uint (mod_value m)"
  proof -
    have "r = reduce_uint128_limbs m (val ! 0, fold (\<lambda>i temp1. reduce_uint128_limbs m (val ! i, temp1))
        (rev [1..<Suc n]) (val ! (length val - 1)))"
      by (simp only: r_def n diff_Suc_1 upt_conv_Cons zero_less_Suc rev.simps fold_append fold_simps o_apply) simp
    then have "\<exists>x. uint r = limbs2 x mod uint (mod_value m)"
      using reduce_uint128_limbs_correct[OF assms(1)] by blast
    then show ?thesis using wf_modulusD(2)[OF assms(1)] by auto
  qed
  then have "uint r = uint r mod uint (mod_value m)" by simp
  also have "\<dots> = (limbs (take (length val - 1) val) + 2 ^ (64 * (length val - 1)) * uint (val ! (length val - 1)))
      mod uint (mod_value m)"
    unfolding r_def by (rule modulo_uint_loop[OF assms(1)]) simp
  also have "\<dots> = limbs (take (Suc (length val - 1)) val) mod uint (mod_value m)"
    by (subst limbs_take_Suc) (simp_all add: n)
  also have "take (Suc (length val - 1)) val = val" using n by simp
  finally show ?thesis using e by simp
qed

theorem modulo_uint_correct_witness:
  "\<exists>r. modulo_uint [1, 2, 3] (sample_modulus 10007) = Some r \<and> uint r = limbs [1, 2, 3] mod 10007"
  using modulo_uint_correct[OF wf_sample_modulus[of 10007], of "[1, 2, 3]"] by simp

lemma modulo_uint_inplace_loop:
  assumes "wf_modulus m" "k < length v"
  shows "\<exists>r. fold (\<lambda>i v. v[i := reduce_uint128_limbs m (v ! i, v ! (i + 1)), i + 1 := 0]) (rev [0..<k]) v
      = r # replicate k 0 @ drop (Suc k) v
    \<and> uint r mod uint (mod_value m) = limbs (take (Suc k) v) mod uint (mod_value m)
    \<and> (0 < k \<longrightarrow> uint r < uint (mod_value m))"
  using assms(2)
proof (induction k arbitrary: v)
  case 0
  then show ?case by (cases v) simp_all
next
  case (Suc k)
  let ?f = "\<lambda>i v. v[i := reduce_uint128_limbs m (v ! i, v ! (i + 1)), i + 1 := 0]"
  let ?t = "reduce_uint128_limbs m (v ! k, v ! Suc k)"
  let ?v = "?f k v"
  have k: "k < length ?v" using Suc.prems by simp
  have t: "uint ?t = (uint (v ! k) + 2 ^ 64 * uint (v ! Suc k)) mod uint (mod_value m)"
    by (simp add: reduce_uint128_limbs_correct[OF assms(1)] limbs2_def)
  obtain r where r: "fold ?f (rev [0..<k]) ?v = r # replicate k 0 @ drop (Suc k) ?v"
    "uint r mod uint (mod_value m) = limbs (take (Suc k) ?v) mod uint (mod_value m)"
    "0 < k \<longrightarrow> uint r < uint (mod_value m)"
    using Suc.IH[OF k] by blast
  have drop: "drop (Suc k) ?v = 0 # drop (Suc (Suc k)) v"
    using Suc.prems by (intro nth_equalityI) (auto simp: nth_Cons nth_list_update split: nat.splits)
  have take: "limbs (take (Suc k) ?v) = limbs (take k v) + 2 ^ (64 * k) * uint ?t"
    using Suc.prems by (subst limbs_take_Suc) simp_all
  have "limbs (take (Suc k) ?v) mod uint (mod_value m)
      = (limbs (take k v) + 2 ^ (64 * k) * uint (v ! k) + 2 ^ (64 * k) * 2 ^ 64 * uint (v ! Suc k)) mod uint (mod_value m)"
    unfolding take by (rule horner_step[OF t])
  also have "\<dots> = limbs (take (Suc (Suc k)) v) mod uint (mod_value m)"
    using Suc.prems by (simp add: limbs_take_Suc power_add mult.commute)
  finally have val: "uint r mod uint (mod_value m) = limbs (take (Suc (Suc k)) v) mod uint (mod_value m)"
    using r(2) by simp
  have "uint r < uint (mod_value m)"
  proof (cases "k = 0")
    case True
    then have "r = ?t" using r(1) Suc.prems by (cases v) auto
    then have "uint r = (uint (v ! k) + 2 ^ 64 * uint (v ! Suc k)) mod uint (mod_value m)" using t by simp
    then show ?thesis using wf_modulusD(2)[OF assms(1)] by simp
  qed (use r(3) in simp)
  then show ?case using r(1) drop val by (simp add: replicate_append_same)
qed

text \<open>
  The in-place variant leaves the residue in the lowest limb and clears all others.
\<close>

theorem modulo_uint_inplace_correct:
  assumes "wf_modulus m" "val \<noteq> []"
  shows "\<exists>r. modulo_uint_inplace val m = r # replicate (length val - 1) 0 \<and>
    uint r = limbs val mod uint (mod_value m)"
proof (cases "length val = 1")
  case True
  then obtain x where "val = [x]" by (auto simp: length_Suc_conv)
  then show ?thesis
    by (simp add: modulo_uint_inplace_def Let_def reduce_correct[OF assms(1)] word_less_def)
next
  case False
  with assms(2) have len: "length val - 1 < length val" "0 < length val - 1" by (cases val; simp)+
  obtain r where r: "modulo_uint_inplace val m = r # replicate (length val - 1) 0 @ drop (Suc (length val - 1)) val"
    "uint r mod uint (mod_value m) = limbs (take (Suc (length val - 1)) val) mod uint (mod_value m)"
    "uint r < uint (mod_value m)"
    using modulo_uint_inplace_loop[OF assms(1) len(1)] len(2) False
    by (auto simp: modulo_uint_inplace_def Let_def)
  have "Suc (length val - 1) = length val" using len by simp
  with r show ?thesis by simp
qed

theorem modulo_uint_inplace_correct_witness:
  "\<exists>r. modulo_uint_inplace [1, 2, 3] (sample_modulus 10007) = r # replicate (length [1, 2, 3 :: u64] - 1) 0 \<and> uint r = limbs [1, 2, 3] mod 10007"
  using modulo_uint_inplace_correct[OF wf_sample_modulus[of 10007], of "[1, 2, 3]"] by simp

subsection \<open>Fused multiply-add\<close>

definition multiply_add_uint64_mod :: "u64 \<Rightarrow> u64 \<Rightarrow> u64 \<Rightarrow> modulus \<Rightarrow> u64" where
  "multiply_add_uint64_mod operand1 operand2 operand3 m =
     (let (temp0, temp1) = multiply_uint64_uint64 operand1 operand2;
          (temp0, carry) = add_uint64 temp0 operand3;
          temp1 = temp1 + ucast carry
      in reduce_uint128_limbs m (temp0, temp1))"

definition multiply_uint64operand_add_uint64_mod ::
  "u64 \<Rightarrow> MultiplyUint64Operand \<Rightarrow> u64 \<Rightarrow> modulus \<Rightarrow> u64" where
  "multiply_uint64operand_add_uint64_mod operand1 operand2 operand3 m =
     add_uint64_mod (multiply_uint64operand_mod operand1 operand2 m) (reduce m operand3) m"

lemma uint_ucast_u8: "uint (ucast c :: u64) = uint c" for c :: u8
  using uint_lt2p[of c] by (simp add: unsigned_ucast_eq take_bit_int_eq_self)

text \<open>
  A fused multiply-add reduces \<open>a b + c\<close> for any three words: the carry into the high word cannot overflow.
\<close>

theorem multiply_add_uint64_mod_correct:
  assumes "wf_modulus m"
  shows "uint (multiply_add_uint64_mod a b c m) = (uint a * uint b + uint c) mod uint (mod_value m)"
proof -
  obtain lo hi where p: "multiply_uint64_uint64 a b = (lo, hi)" by fastforce
  obtain t k where s: "add_uint64 lo c = (t, k)" by fastforce
  have lohi: "uint lo + 2 ^ 64 * uint hi = uint a * uint b"
    unfolding multiply_uint64_uint64_split[OF p] by simp
  have sum: "uint t + 2 ^ 64 * uint k = uint lo + uint c" using add_uint64_sum[OF s] by blast
  have hi: "uint hi \<le> 2 ^ 64 - 2"
  proof -
    have "uint a * uint b < (2 ^ 64 - 1) * 2 ^ 64" using uint_product_bound[of a b] by simp
    then have "uint a * uint b div 2 ^ 64 < 2 ^ 64 - 1" by (intro div_less_of_less_mult) simp_all
    then show ?thesis using multiply_uint64_uint64_split(2)[OF p] by simp
  qed
  have k: "uint k \<le> 1" using add_uint64_sum[OF s] by auto
  have "uint (hi + ucast k) = uint hi + uint (ucast k :: u64)"
    by (rule uint_add_no_overflow) (use hi k in \<open>simp add: uint_ucast_u8\<close>)
  then have "limbs2 (t, hi + ucast k) = uint a * uint b + uint c"
    using lohi sum by (simp add: limbs2_def uint_ucast_u8 algebra_simps)
  then show ?thesis
    by (simp add: multiply_add_uint64_mod_def p s reduce_uint128_limbs_correct[OF assms])
qed

theorem multiply_add_uint64_mod_correct_witness:
  "uint (multiply_add_uint64_mod (- 1) (- 1) (- 1) (sample_modulus 10007)) = (uint (- 1 :: u64) * uint (- 1 :: u64) + uint (- 1 :: u64)) mod 10007"
  using multiply_add_uint64_mod_correct[OF wf_sample_modulus[of 10007], of "- 1" "- 1" "- 1"] by simp

lemma residue_intro:
  assumes "wf_modulus m" "uint x = z mod uint (mod_value m)"
  shows "residue m x"
  using wf_modulusD(2)[OF assms(1)] assms(2) by (simp add: residue_def)

lemma multiply_uint64operand_add_uint64_mod_correct:
  assumes "wf_modulus m" "wf_operand m y"
  shows "uint (multiply_uint64operand_add_uint64_mod x y c m)
       = (uint x * uint (op_operand y) + uint c) mod uint (mod_value m)"
  unfolding multiply_uint64operand_add_uint64_mod_def
  by (subst add_uint64_mod_correct[OF assms(1) residue_intro[OF assms(1)] residue_intro[OF assms(1)]])
    (simp_all add: multiply_uint64operand_mod_correct[OF assms] reduce_correct[OF assms(1)] mod_add_eq)

subsection \<open>Exponentiation\<close>

lemma drop_bit_less: "drop_bit 1 e \<noteq> 0 \<Longrightarrow> unat (drop_bit 1 e) < unat e" for e :: u64
  using unat_shiftr_one[of e] by (cases "e = 0") (simp_all add: unat_gt_0 del: drop_bit_Suc)

function exponentiate_loop :: "modulus \<Rightarrow> u64 \<Rightarrow> u64 \<Rightarrow> u64 \<Rightarrow> u64" where
  "exponentiate_loop m power' exponent intermediate =
     (let intermediate = (if exponent AND 1 > 0 then multiply_uint64_mod power' intermediate m else intermediate);
          exponent = drop_bit 1 exponent
      in if exponent = 0 then intermediate
         else exponentiate_loop m (multiply_uint64_mod power' power' m) exponent intermediate)"
  by pat_completeness auto
termination
  by (relation "measure (\<lambda>(m, b, e, i). unat e)") (simp_all add: drop_bit_less del: drop_bit_Suc One_nat_def)

declare exponentiate_loop.simps [simp del]

definition exponentiate_uint64_mod :: "u64 \<Rightarrow> u64 \<Rightarrow> modulus \<Rightarrow> u64" where
  "exponentiate_uint64_mod operand exponent m =
     (if exponent = 0 then 1
      else if exponent = 1 then operand
      else exponentiate_loop m operand exponent 1)"

lemma power_halve: "b ^ e = (if odd e then b * (b * b) ^ (e div 2) else (b * b) ^ (e div 2))" for b :: int
proof -
  have "(b * b) ^ (e div 2) = b ^ (2 * (e div 2))" by (simp add: power_mult power2_eq_square)
  moreover have "odd e \<Longrightarrow> b ^ e = b * b ^ (2 * (e div 2))" using odd_two_times_div_two_succ[of e]
    by (metis power_Suc Suc_eq_plus1)
  ultimately show ?thesis by simp
qed

lemma exponentiate_loop_correct:
  assumes "wf_modulus m"
  shows "e \<noteq> 0 \<Longrightarrow>
    uint (exponentiate_loop m b e i) = uint b ^ unat e * uint i mod uint (mod_value m)"
proof (induction "unat e" arbitrary: b e i rule: less_induct)
  case less
  let ?p = "uint (mod_value m)" and ?e = "drop_bit 1 e"
  let ?i = "if e AND 1 > 0 then multiply_uint64_mod b i m else i"
  let ?b = "multiply_uint64_mod b b m"
  have half: "unat ?e = unat e div 2" by (rule unat_shiftr_one)
  have odd: "(e AND 1 > 0) = odd (unat e)"
    unfolding and_one_gt_zero using even_of_nat[of "unat e", where 'a = int] by simp
  note mul = multiply_uint64_mod_correct[OF assms]
  have step: "exponentiate_loop m b e i = (if ?e = 0 then ?i else exponentiate_loop m ?b ?e ?i)"
    by (subst exponentiate_loop.simps) (simp only: Let_def)
  show ?case
  proof (cases "?e = 0")
    case True
    then have "unat e div 2 = 0" using half by simp
    then have "unat e < 2" by simp
    moreover have "0 < unat e" using less.prems by (simp add: unat_gt_0)
    ultimately have "unat e = 1" by linarith
    then show ?thesis using True odd step by (simp add: mul)
  next
    case False
    have "uint (exponentiate_loop m ?b ?e ?i) = uint ?b ^ unat ?e * uint ?i mod ?p"
      using less.hyps[OF drop_bit_less[OF False] False] by simp
    also have "\<dots> = (uint b * uint b) ^ (unat e div 2) * uint ?i mod ?p"
      unfolding half mul by (rule mod_mult_cong[OF power_mod refl])
    also have "\<dots> = uint b ^ unat e * uint i mod ?p"
      unfolding odd power_halve[of "uint b" "unat e"] 
      by (simp add: mul mod_mult_left_eq mod_mult_right_eq mult_ac)
    finally show ?thesis using False step by simp
  qed
qed

text \<open>
  Square-and-multiply computes the power of a residue for every 64-bit exponent.
\<close>

theorem exponentiate_uint64_mod_correct:
  assumes "wf_modulus m" "residue m b"
  shows "uint (exponentiate_uint64_mod b e m) = uint b ^ unat e mod uint (mod_value m)"
proof -
  consider "e = 0" | "e = 1" | "e \<noteq> 0" "e \<noteq> 1" by blast
  then show ?thesis
    using wf_modulusD(1)[OF assms(1)] assms(2) exponentiate_loop_correct[OF assms(1), of e b 1]
    by cases (simp_all add: exponentiate_uint64_mod_def residue_mod)
qed

theorem exponentiate_uint64_mod_correct_witness:
  "uint (exponentiate_uint64_mod 3 20 (sample_modulus 10007)) = 3 ^ 20 mod 10007"
  using exponentiate_uint64_mod_correct[OF wf_sample_modulus[of 10007], of 3 20] by (simp add: residue_def)

subsection \<open>Dot products\<close>

definition add_uint128 :: "u64 \<times> u64 \<Rightarrow> u64 \<times> u64 \<Rightarrow> (u64 \<times> u64) \<times> u8" where
  "add_uint128 operand1 operand2 =
     (let (r0, carry) = add_uint64 (fst operand1) (fst operand2);
          (r1, carry) = add_uint64_carry (snd operand1) (snd operand2) carry
      in ((r0, r1), carry))"

definition dot_product_mod :: "u64 list \<Rightarrow> u64 list \<Rightarrow> modulus \<Rightarrow> u64" where
  "dot_product_mod operand1 operand2 m =
     reduce_uint128_limbs m
       (fold (\<lambda>i accumulator.
           fst (add_uint128 accumulator (multiply_uint64_uint64 (operand1 ! i) (operand2 ! i))))
         [0..<length operand1] (0, 0))"

lemma add_uint128_sum:
  assumes "add_uint128 x y = (r, c)"
  shows "limbs2 r + 2 ^ 128 * uint c = limbs2 x + limbs2 y \<and> c \<in> {0, 1}"
proof -
  obtain r0 k where a: "add_uint64 (fst x) (fst y) = (r0, k)" by fastforce
  obtain r1 c' where b: "add_uint64_carry (snd x) (snd y) k = (r1, c')" by fastforce
  have e: "r = (r0, r1)" "c = c'" using assms a b by (simp_all add: add_uint128_def)
  have k: "uint r0 + 2 ^ 64 * uint k = uint (fst x) + uint (fst y)" "k \<in> {0, 1}"
    using add_uint64_sum[OF a] by blast+
  have "uint r1 + 2 ^ 64 * uint c' = uint (snd x) + uint (snd y) + uint k" "c' \<in> {0, 1}"
    using add_uint64_carry_sum[OF b k(2)] by blast+
  with k show ?thesis by (simp add: limbs2_def e algebra_simps)
qed

lemma dot_product_loop:
  assumes "(\<Sum>i<n. uint (a ! i) * uint (b ! i)) < 2 ^ 128"
  shows "limbs2 (fold (\<lambda>i accumulator.
           fst (add_uint128 accumulator (multiply_uint64_uint64 (a ! i) (b ! i)))) [0..<n] (0, 0))
       = (\<Sum>i<n. uint (a ! i) * uint (b ! i))"
  using assms
proof (induction n)
  case (Suc n)
  let ?acc = "fold (\<lambda>i accumulator.
      fst (add_uint128 accumulator (multiply_uint64_uint64 (a ! i) (b ! i)))) [0..<n] (0, 0)"
  let ?q = "multiply_uint64_uint64 (a ! n) (b ! n)"
  obtain r c where rc: "add_uint128 ?acc ?q = (r, c)" by fastforce
  have "(\<Sum>i<n. uint (a ! i) * uint (b ! i)) < 2 ^ 128"
  proof -
    have "0 \<le> uint (a ! n) * uint (b ! n)" by simp
    moreover have "(\<Sum>i<n. uint (a ! i) * uint (b ! i)) + uint (a ! n) * uint (b ! n) < 2 ^ 128"
      using Suc.prems by simp
    ultimately show ?thesis by linarith
  qed
  then have acc: "limbs2 ?acc = (\<Sum>i<n. uint (a ! i) * uint (b ! i))" by (rule Suc.IH)
  have s: "limbs2 r + 2 ^ 128 * uint c = (\<Sum>i<Suc n. uint (a ! i) * uint (b ! i))"
    using add_uint128_sum[OF rc] acc by (simp add: limbs2_mult)
  have "uint c = 0"
    by (rule high_digit_zero[OF s Suc.prems]) (simp_all add: limbs2_bound)
  with s rc show ?case by simp
qed (simp add: limbs2_def)

lemma dot_product_mod_value:
  assumes "wf_modulus m" "(\<Sum>i<length a. uint (a ! i) * uint (b ! i)) < 2 ^ 128"
  shows "uint (dot_product_mod a b m) = (\<Sum>i<length a. uint (a ! i) * uint (b ! i)) mod uint (mod_value m)"
  unfolding dot_product_mod_def reduce_uint128_limbs_correct[OF assms(1)] dot_product_loop[OF assms(2)] ..

text \<open>
  C37: Shoup multiplication with a precomputed quotient: \<open>make_operand\<close> succeeds for every residue, the
  product is the exact residue for any 64-bit factor, and the lazy variant is below \<open>2 m\<close>.
\<close>

theorem shoup_multiplication_exact:
  assumes "wf_modulus m" "residue m y"
  shows "\<exists>z. make_operand y m = Some z \<and>
    uint (multiply_uint64operand_mod x z m) = uint x * uint y mod uint (mod_value m) \<and>
    uint (multiply_uint64operand_mod_lazy x z m) < 2 * uint (mod_value m) \<and>
    uint (multiply_uint64operand_mod_lazy x z m) mod uint (mod_value m) = uint x * uint y mod uint (mod_value m)"
proof -
  obtain z where z: "make_operand y m = Some z" "op_operand z = y" "wf_operand m z"
    using make_operand_correct[OF assms] by blast
  then show ?thesis
    using multiply_uint64operand_mod_correct[OF assms(1) z(3)] multiply_uint64operand_mod_lazy_correct[OF assms(1) z(3)] by auto
qed

theorem shoup_multiplication_exact_witness:
  "\<exists>z. make_operand 10006 (sample_modulus 10007) = Some z \<and>
    uint (multiply_uint64operand_mod (- 1) z (sample_modulus 10007)) = uint (- 1 :: u64) * 10006 mod 10007"
  using shoup_multiplication_exact[OF wf_sample_modulus[of 10007], of 10006 "- 1"] by (auto simp: residue_def)

text \<open>
  A dot product whose exact value fits 128 bits is accumulated without loss and reduced once.
\<close>

theorem dot_product_mod_correct:
  assumes "wf_modulus m" "(\<Sum>i<length a. uint (a ! i) * uint (b ! i)) < 2 ^ 128"
  shows "uint (dot_product_mod a b m) = (\<Sum>i<length a. uint (a ! i) * uint (b ! i)) mod uint (mod_value m)"
  by (rule dot_product_mod_value[OF assms])

theorem dot_product_mod_correct_witness:
  "uint (dot_product_mod [0xFFFFFFFFFFFFFFFF, 5] [2, 0xFFFFFFFFFFFFFFFF] (sample_modulus 10007)) = 7 * 18446744073709551615 mod 10007"
  using dot_product_mod_correct[OF wf_sample_modulus[of 10007], of "[0xFFFFFFFFFFFFFFFF, 5]" "[2, 0xFFFFFFFFFFFFFFFF]"]
  by (simp add: lessThan_Suc)

text \<open>
  Halving modulo an odd modulus: doubling the result gives the operand back, with no overflow in
  \<open>a + m\<close>, and the result is again a residue.
\<close>

theorem divide2_uint64_mod_correct:
  assumes "wf_modulus m" "residue m a" "odd (uint (mod_value m))"
  shows "2 * uint (divide2_uint64_mod a m) mod uint (mod_value m) = uint a \<and> residue m (divide2_uint64_mod a m)"
  using divide2_uint64_mod_value[OF assms] by blast

theorem divide2_uint64_mod_correct_witness:
  "2 * uint (divide2_uint64_mod 5 (sample_modulus 10007)) mod 10007 = 5"
  using divide2_uint64_mod_correct[OF wf_sample_modulus[of 10007], of 5] by (simp add: residue_def)

end
