(* ===== verification/Poly.thy ===== *)
theory Poly
  imports Mod_Ops
begin

text \<open>
  Polynomial arithmetic over small moduli on the host path of
  \<open>src/encryption/utils/poly_small_mod.cu\<close>. A \<open>ps\<close> argument is a flat array of
  \<open>pcount\<close> polynomials with \<open>degree\<close> coefficients for each of the moduli. Every routine is the
  triple loop of the code, writing into the \<open>result\<close> buffer it is given; the lemmas
  then read each result coefficient as ring arithmetic.
\<close>

subsection \<open>The triple loop\<close>

definition for_ps :: "nat \<Rightarrow> nat \<Rightarrow> nat \<Rightarrow> (nat \<Rightarrow> nat \<Rightarrow> nat \<Rightarrow> 'a \<Rightarrow> 'a) \<Rightarrow> 'a \<Rightarrow> 'a" where
  "for_ps pcount msize degree body =
     fold (\<lambda>i. fold (\<lambda>j. fold (\<lambda>k. body i j k) [0..<degree]) [0..<msize]) [0..<pcount]"

definition ps_idx :: "nat \<Rightarrow> nat \<Rightarrow> nat \<Rightarrow> nat \<Rightarrow> nat \<Rightarrow> nat" where
  "ps_idx msize degree i j k = i * msize * degree + j * degree + k"

definition host_add_ps :: "u64 list \<Rightarrow> u64 list \<Rightarrow> nat \<Rightarrow> nat \<Rightarrow> modulus list \<Rightarrow> u64 list \<Rightarrow> u64 list" where
  "host_add_ps polys1 polys2 pcount degree moduli =
     for_ps pcount (length moduli) degree (\<lambda>i j k result.
       let idx = ps_idx (length moduli) degree i j k;
           p = polys1 ! idx + polys2 ! idx
       in result[idx := if p \<ge> mod_value (moduli ! j) then p - mod_value (moduli ! j) else p])"

definition host_sub_ps :: "u64 list \<Rightarrow> u64 list \<Rightarrow> nat \<Rightarrow> nat \<Rightarrow> modulus list \<Rightarrow> u64 list \<Rightarrow> u64 list" where
  "host_sub_ps polys1 polys2 pcount degree moduli =
     for_ps pcount (length moduli) degree (\<lambda>i j k result.
       let idx = ps_idx (length moduli) degree i j k
       in result[idx := if polys1 ! idx \<ge> polys2 ! idx then polys1 ! idx - polys2 ! idx
                        else mod_value (moduli ! j) - polys2 ! idx + polys1 ! idx])"

definition host_negate_ps :: "u64 list \<Rightarrow> nat \<Rightarrow> nat \<Rightarrow> modulus list \<Rightarrow> u64 list \<Rightarrow> u64 list" where
  "host_negate_ps polys pcount degree moduli =
     for_ps pcount (length moduli) degree (\<lambda>i j k result.
       let idx = ps_idx (length moduli) degree i j k
       in result[idx := if polys ! idx = 0 then 0 else mod_value (moduli ! j) - polys ! idx])"

definition host_multiply_scalar_ps :: "u64 list \<Rightarrow> u64 \<Rightarrow> nat \<Rightarrow> nat \<Rightarrow> modulus list \<Rightarrow> u64 list \<Rightarrow> u64 list" where
  "host_multiply_scalar_ps polys scalar pcount degree moduli =
     for_ps pcount (length moduli) degree (\<lambda>i j k result.
       let idx = ps_idx (length moduli) degree i j k
       in result[idx := multiply_uint64_mod (polys ! idx) scalar (moduli ! j)])"

definition host_multiply_uint64operand_ps ::
  "u64 list \<Rightarrow> MultiplyUint64Operand list \<Rightarrow> nat \<Rightarrow> nat \<Rightarrow> modulus list \<Rightarrow> u64 list \<Rightarrow> u64 list" where
  "host_multiply_uint64operand_ps polys operand pcount degree moduli =
     for_ps pcount (length moduli) degree (\<lambda>i j k result.
       let idx = ps_idx (length moduli) degree i j k
       in result[idx := multiply_uint64operand_mod (polys ! idx) (operand ! j) (moduli ! j)])"

text \<open>
  The product of coefficients inlines Barrett's reduction with a single final subtraction.
\<close>

definition host_dyadic_product_ps ::
  "u64 list \<Rightarrow> u64 list \<Rightarrow> nat \<Rightarrow> nat \<Rightarrow> modulus list \<Rightarrow> u64 list \<Rightarrow> u64 list" where
  "host_dyadic_product_ps polys1 polys2 pcount degree moduli =
     for_ps pcount (length moduli) degree (\<lambda>i j k result.
       let modulus_value = mod_value (moduli ! j);
           cr0 = ratio0 (moduli ! j);
           cr1 = ratio1 (moduli ! j);
           idx = ps_idx (length moduli) degree i j k;
           (z0, z1) = multiply_uint64_uint64 (polys1 ! idx) (polys2 ! idx);
           carry = multiply_uint64_high_word z0 cr0;
           (tmp2_0, tmp2_1) = multiply_uint64_uint64 z0 cr1;
           (tmp1, c) = add_uint64 tmp2_0 carry;
           tmp3 = tmp2_1 + ucast c;
           (tmp2_0, tmp2_1) = multiply_uint64_uint64 z1 cr0;
           (tmp1, c) = add_uint64 tmp1 tmp2_0;
           carry = tmp2_1 + ucast c;
           tmp1 = z1 * cr1 + tmp3 + carry;
           tmp3 = z0 - tmp1 * modulus_value
       in result[idx := if tmp3 \<ge> modulus_value then tmp3 - modulus_value else tmp3])"

text \<open>
  Multiplication by \<open>x^shift\<close> in \<open>Z_q[x]/(x^degree + 1)\<close>; \<open>degree\<close> is a power of two, so the
  masks pick the target index and the sign.
\<close>

definition host_negacyclic_shift_ps ::
  "u64 list \<Rightarrow> nat \<Rightarrow> nat \<Rightarrow> nat \<Rightarrow> modulus list \<Rightarrow> u64 list \<Rightarrow> u64 list" where
  "host_negacyclic_shift_ps polys shift pcount degree moduli result =
     (let total = pcount * length moduli * degree in
      if shift = 0 then take total polys @ drop total result else
      for_ps pcount (length moduli) degree (\<lambda>i j k result.
       let index_raw = shift + k;
           mask = degree - 1;
           modulus_value = mod_value (moduli ! j);
           index = index_raw AND mask;
           idx = ps_idx (length moduli) degree i j k;
           result_index = ps_idx (length moduli) degree i j index
       in if polys ! idx = 0 \<or> index_raw AND degree = 0
          then result[result_index := polys ! idx]
          else result[result_index := modulus_value - polys ! idx]) result)"

subsection \<open>What the triple loop writes\<close>

definition ps_triples :: "nat \<Rightarrow> nat \<Rightarrow> nat \<Rightarrow> (nat \<times> nat \<times> nat) list" where
  "ps_triples pcount msize degree =
     concat (map (\<lambda>i. concat (map (\<lambda>j. map (\<lambda>k. (i, j, k)) [0..<degree]) [0..<msize])) [0..<pcount])"

lemma fold_concat_map: "fold f (concat (map g xs)) = fold (\<lambda>x. fold f (g x)) xs"
  by (induction xs) auto

lemma for_ps_triples:
  "for_ps pcount msize degree body = fold (\<lambda>(i, j, k). body i j k) (ps_triples pcount msize degree)"
  by (simp add: for_ps_def ps_triples_def fold_concat_map fold_map o_def)

lemma set_ps_triples [simp]:
  "(i, j, k) \<in> set (ps_triples pcount msize degree) \<longleftrightarrow> i < pcount \<and> j < msize \<and> k < degree"
  by (force simp: ps_triples_def)

lemma length_fold_update [simp]: "length (fold (\<lambda>x r. r[f x := g x]) xs r) = length r"
  by (induction xs arbitrary: r) auto

lemma fold_length_preserved:
  "(\<And>x r. length (f x r) = length r) \<Longrightarrow> length (fold f xs r) = length r"
  by (induction xs arbitrary: r) auto

lemma fold_update_other:
  "(\<And>y. y \<in> set xs \<Longrightarrow> f y \<noteq> n) \<Longrightarrow> fold (\<lambda>x r. r[f x := g x]) xs r ! n = r ! n"
  by (induction xs arbitrary: r) auto

lemma fold_update_nth:
  assumes "x \<in> set xs" "inj_on f (set xs)" "f x < length r"
  shows "fold (\<lambda>x r. r[f x := g x]) xs r ! f x = g x"
  using assms
proof (induction xs arbitrary: r)
  case (Cons y ys)
  show ?case
  proof (cases "x \<in> set ys")
    case True
    with Cons show ?thesis by (simp add: inj_on_def)
  next
    case False
    then have "x = y" using Cons.prems(1) by simp
    moreover have "f z \<noteq> f x" if "z \<in> set ys" for z
      using that False Cons.prems(2) \<open>x = y\<close> by (auto simp: inj_on_def)
    ultimately show ?thesis using Cons.prems(3) fold_update_other[of ys f "f x" g "r[f x := g x]"] by simp
  qed
qed simp

lemma ps_idx_inject:
  assumes "j < m" "k < d" "j' < m" "k' < d" "ps_idx m d i j k = ps_idx m d i' j' k'"
  shows "i = i' \<and> j = j' \<and> k = k'"
proof -
  have e: "ps_idx m d i j k = (i * m + j) * d + k" for i j k
    by (simp add: ps_idx_def algebra_simps)
  have k: "k = k'" using assms(2,4) arg_cong[OF assms(5)[unfolded e], of "\<lambda>x. x mod d"] by simp
  have ij: "i * m + j = i' * m + j'"
    using assms(2,4) arg_cong[OF assms(5)[unfolded e], of "\<lambda>x. x div d"] by simp
  have "j = j'" using assms(1,3) arg_cong[OF ij, of "\<lambda>x. x mod m"] by simp
  moreover have "i = i'" using assms(1,3) arg_cong[OF ij, of "\<lambda>x. x div m"] by simp
  ultimately show ?thesis using k by simp
qed

lemma ps_idx_bound:
  assumes "i < p" "j < m" "k < d"
  shows "ps_idx m d i j k < p * m * d"
proof -
  have "ps_idx m d i j k < (i * m + j) * d + d" using assms(3) by (simp add: ps_idx_def algebra_simps)
  also have "\<dots> = (i * m + j + 1) * d" by simp
  also have "\<dots> \<le> (i * m + m) * d" using assms(2) by (intro mult_right_mono) simp_all
  also have "\<dots> = (i + 1) * m * d" by simp
  also have "\<dots> \<le> p * m * d" using assms(1) by (intro mult_right_mono) simp_all
  finally show ?thesis .
qed

lemma for_ps_cong:
  assumes "\<And>i j k r. i < pcount \<Longrightarrow> j < msize \<Longrightarrow> k < degree \<Longrightarrow> b i j k r = b' i j k r"
  shows "for_ps pcount msize degree b r = for_ps pcount msize degree b' r"
  unfolding for_ps_triples by (rule fold_cong) (auto simp: assms)

text \<open>A loop that writes each target once leaves there what was written.\<close>

lemma for_ps_nth:
  assumes "i < pcount" "j < msize" "k < degree"
    and "inj_on \<pi> {..<degree}" "\<And>k. k < degree \<Longrightarrow> \<pi> k < degree"
    and "pcount * msize * degree \<le> length r"
  shows "for_ps pcount msize degree (\<lambda>i j k r. r[ps_idx msize degree i j (\<pi> k) := g i j k]) r
           ! ps_idx msize degree i j (\<pi> k) = g i j k"
    and "length (for_ps pcount msize degree (\<lambda>i j k r. r[ps_idx msize degree i j (\<pi> k) := g i j k]) r) = length r"
proof -
  let ?f = "\<lambda>(i, j, k). ps_idx msize degree i j (\<pi> k)" and ?g = "\<lambda>(i, j, k). g i j k"
  have e: "for_ps pcount msize degree (\<lambda>i j k r. r[ps_idx msize degree i j (\<pi> k) := g i j k]) r
      = fold (\<lambda>x r. r[?f x := ?g x]) (ps_triples pcount msize degree) r"
    unfolding for_ps_triples by (rule arg_cong[of _ _ "\<lambda>h. fold h _ r"]) auto
  have inj: "inj_on ?f (set (ps_triples pcount msize degree))"
  proof (rule inj_onI, clarsimp)
    fix i j k i' j' k'
    assume A: "j < msize" "k < degree" "j' < msize" "k' < degree"
      "ps_idx msize degree i j (\<pi> k) = ps_idx msize degree i' j' (\<pi> k')"
    then have "i = i' \<and> j = j' \<and> \<pi> k = \<pi> k'" using assms(5) by (intro ps_idx_inject) auto
    then show "i = i' \<and> j = j' \<and> k = k'" using A assms(4) by (auto simp: inj_on_def)
  qed
  have "ps_idx msize degree i j (\<pi> k) < length r"
    using ps_idx_bound[OF assms(1,2) assms(5)[OF assms(3)]] assms(6) by linarith
  then show "for_ps pcount msize degree (\<lambda>i j k r. r[ps_idx msize degree i j (\<pi> k) := g i j k]) r
           ! ps_idx msize degree i j (\<pi> k) = g i j k"
    using fold_update_nth[OF _ inj, of "(i, j, k)" r ?g] assms(1-3) unfolding e by simp
  show "length (for_ps pcount msize degree (\<lambda>i j k r. r[ps_idx msize degree i j (\<pi> k) := g i j k]) r) = length r"
    unfolding e by simp
qed

subsection \<open>Coefficients of arrays over one modulus\<close>

text \<open>
  The program uses one coefficient modulus. Coefficient \<open>k\<close> of polynomial \<open>i\<close> is then entry
  \<open>i * degree + k\<close>; an array is well formed when every entry is a residue.
\<close>

definition coeff :: "nat \<Rightarrow> u64 list \<Rightarrow> nat \<Rightarrow> nat \<Rightarrow> int" where
  "coeff degree data i k = uint (data ! (i * degree + k))"

definition wf_polys :: "modulus \<Rightarrow> nat \<Rightarrow> nat \<Rightarrow> u64 list \<Rightarrow> bool" where
  "wf_polys m degree pcount data \<longleftrightarrow> length data = pcount * degree \<and> list_all (residue m) data"

lemma ps_idx_one: "ps_idx (Suc 0) degree i 0 k = i * degree + k"
  by (simp add: ps_idx_def)

text \<open>What a loop over one modulus writes, for any body that is such an update.\<close>

lemma for_one:
  assumes body: "\<And>i k r. i < pcount \<Longrightarrow> k < degree \<Longrightarrow> body i 0 k r = r[i * degree + \<pi> k := g i k]"
    and \<pi>: "inj_on \<pi> {..<degree}" "\<And>k. k < degree \<Longrightarrow> \<pi> k < degree"
    and len: "length r = pcount * degree"
  shows "length (for_ps pcount (Suc 0) degree body r) = pcount * degree"
    and "i < pcount \<Longrightarrow> k < degree \<Longrightarrow> for_ps pcount (Suc 0) degree body r ! (i * degree + \<pi> k) = g i k"
proof -
  let ?b = "\<lambda>i j k r. r[ps_idx 1 degree i j (\<pi> k) := g i k]"
  have e: "for_ps pcount (Suc 0) degree body r = for_ps pcount 1 degree ?b r"
    unfolding for_ps_triples
    by (rule fold_cong) (auto simp: body ps_idx_one)
  show "length (for_ps pcount (Suc 0) degree body r) = pcount * degree"
    unfolding e unfolding for_ps_triples len[symmetric] by (rule fold_length_preserved) (auto split: prod.splits)
  show "i < pcount \<Longrightarrow> k < degree \<Longrightarrow> for_ps pcount (Suc 0) degree body r ! (i * degree + \<pi> k) = g i k"
    using for_ps_nth(1)[of i pcount 0 1 k degree \<pi> r "\<lambda>i j k. g i k"] \<pi> len unfolding e
    by (simp add: ps_idx_one)
qed

lemma for_one_id:
  assumes "\<And>i k r. i < pcount \<Longrightarrow> k < degree \<Longrightarrow> body i 0 k r = r[i * degree + k := g i k]"
    and "length r = pcount * degree"
  shows "length (for_ps pcount (Suc 0) degree body r) = pcount * degree"
    and "i < pcount \<Longrightarrow> k < degree \<Longrightarrow> for_ps pcount (Suc 0) degree body r ! (i * degree + k) = g i k"
  by (rule for_one(1)[where \<pi> = "\<lambda>k. k" and g = g]; simp add: assms)
    (rule for_one(2)[where \<pi> = "\<lambda>k. k" and g = g]; simp add: assms)

lemma wf_polys_residue:
  assumes "wf_polys m degree pcount data" "i < pcount" "k < degree"
  shows "residue m (data ! (i * degree + k))"
proof -
  have "i * degree + k < length data"
    using ps_idx_bound[OF assms(2) zero_less_one assms(3)] assms(1) by (simp add: ps_idx_def wf_polys_def)
  with assms(1) show ?thesis by (simp add: wf_polys_def list_all_length)
qed

lemma wf_polys_intro:
  assumes "length data = pcount * degree" "0 < degree"
    and "\<And>i k. i < pcount \<Longrightarrow> k < degree \<Longrightarrow> residue m (data ! (i * degree + k))"
  shows "wf_polys m degree pcount data"
  unfolding wf_polys_def list_all_length
proof (intro conjI assms(1) allI impI)
  fix n assume "n < length data"
  then have "n div degree < pcount" using assms(1) by (simp add: less_mult_imp_div_less)
  moreover have "n mod degree < degree" using assms(2) by simp
  ultimately show "residue m (data ! n)" using assms(3)[of "n div degree" "n mod degree"] by simp
qed

lemma add_entry: "(let p = a + b in if p \<ge> mod_value m then p - mod_value m else p) = add_uint64_mod a b m"
  by (simp add: add_uint64_mod_def)

lemma sub_entry_correct:
  assumes "wf_modulus m" "residue m a" "residue m b"
  shows "uint (if a \<ge> b then a - b else mod_value m - b + a) = (uint a - uint b) mod uint (mod_value m)"
proof -
  have "mod_value m - b + a = mod_value m - (b - a)" by simp
  then show ?thesis
    using uint_mod_sub_cases[of a "mod_value m" b] assms(2,3) by (simp only: residue_def)
qed

text \<open>A routine whose entries are \<open>z\<close> modulo the modulus yields well-formed coefficients \<open>z\<close>.\<close>

lemma for_one_mod:
  assumes "wf_modulus m" "length r = pcount * degree" "0 < degree"
    and "\<And>i k r. i < pcount \<Longrightarrow> k < degree \<Longrightarrow> body i 0 k r = r[i * degree + k := g i k]"
    and "\<And>i k. i < pcount \<Longrightarrow> k < degree \<Longrightarrow> uint (g i k) = z i k mod uint (mod_value m)"
  shows "wf_polys m degree pcount (for_ps pcount (Suc 0) degree body r)"
    and "i < pcount \<Longrightarrow> k < degree \<Longrightarrow>
      coeff degree (for_ps pcount (Suc 0) degree body r) i k = z i k mod uint (mod_value m)"
proof -
  have l: "length (for_ps pcount (Suc 0) degree body r) = pcount * degree"
    by (rule for_one_id(1)[where g = g]) (simp_all add: assms)
  have n: "for_ps pcount (Suc 0) degree body r ! (i * degree + k) = g i k" if "i < pcount" "k < degree" for i k
    by (rule for_one_id(2)[where g = g]) (simp_all add: assms that)
  show "wf_polys m degree pcount (for_ps pcount (Suc 0) degree body r)"
    by (rule wf_polys_intro[OF l assms(3)])
      (simp_all add: n residue_intro[OF assms(1) assms(5)])
  show "i < pcount \<Longrightarrow> k < degree \<Longrightarrow>
      coeff degree (for_ps pcount (Suc 0) degree body r) i k = z i k mod uint (mod_value m)"
    by (simp add: coeff_def n assms(5))
qed

lemma host_add_ps_correct:
  assumes "wf_modulus m" "wf_polys m degree pcount a" "wf_polys m degree pcount b"
    and "length r = pcount * degree" "0 < degree"
  shows "wf_polys m degree pcount (host_add_ps a b pcount degree [m] r)"
    and "i < pcount \<Longrightarrow> k < degree \<Longrightarrow> coeff degree (host_add_ps a b pcount degree [m] r) i k
       = (coeff degree a i k + coeff degree b i k) mod uint (mod_value m)"
proof -
  have "uint (add_uint64_mod (a ! (i * degree + k)) (b ! (i * degree + k)) m)
      = (coeff degree a i k + coeff degree b i k) mod uint (mod_value m)" if "i < pcount" "k < degree" for i k
    unfolding coeff_def
    by (rule add_uint64_mod_correct[OF assms(1) wf_polys_residue[OF assms(2) that] wf_polys_residue[OF assms(3) that]])
  note R = for_one_mod[OF assms(1,4,5) _ this]
  show "wf_polys m degree pcount (host_add_ps a b pcount degree [m] r)"
    unfolding host_add_ps_def length_Cons list.size
    by (rule R(1)) (simp_all add: ps_idx_one Let_def add_uint64_mod_def)
  show "i < pcount \<Longrightarrow> k < degree \<Longrightarrow> coeff degree (host_add_ps a b pcount degree [m] r) i k
       = (coeff degree a i k + coeff degree b i k) mod uint (mod_value m)"
    unfolding host_add_ps_def length_Cons list.size
    by (rule R(2)) (simp_all add: ps_idx_one Let_def add_uint64_mod_def)
qed

lemma host_sub_ps_correct:
  assumes "wf_modulus m" "wf_polys m degree pcount a" "wf_polys m degree pcount b"
    and "length r = pcount * degree" "0 < degree"
  shows "wf_polys m degree pcount (host_sub_ps a b pcount degree [m] r)"
    and "i < pcount \<Longrightarrow> k < degree \<Longrightarrow> coeff degree (host_sub_ps a b pcount degree [m] r) i k
       = (coeff degree a i k - coeff degree b i k) mod uint (mod_value m)"
proof -
  let ?g = "\<lambda>i k. let x = a ! (i * degree + k); y = b ! (i * degree + k)
    in if x \<ge> y then x - y else mod_value m - y + x"
  have "uint (?g i k) = (coeff degree a i k - coeff degree b i k) mod uint (mod_value m)"
    if "i < pcount" "k < degree" for i k
    unfolding coeff_def Let_def
    by (rule sub_entry_correct[OF assms(1) wf_polys_residue[OF assms(2) that] wf_polys_residue[OF assms(3) that]])
  note R = for_one_mod[where g = ?g, OF assms(1,4,5) _ this]
  show "wf_polys m degree pcount (host_sub_ps a b pcount degree [m] r)"
    unfolding host_sub_ps_def length_Cons list.size by (rule R(1)) (simp_all add: ps_idx_one Let_def)
  show "i < pcount \<Longrightarrow> k < degree \<Longrightarrow> coeff degree (host_sub_ps a b pcount degree [m] r) i k
       = (coeff degree a i k - coeff degree b i k) mod uint (mod_value m)"
    unfolding host_sub_ps_def length_Cons list.size by (rule R(2)) (simp_all add: ps_idx_one Let_def)
qed

lemma host_negate_ps_correct:
  assumes "wf_modulus m" "wf_polys m degree pcount a" "length r = pcount * degree" "0 < degree"
  shows "wf_polys m degree pcount (host_negate_ps a pcount degree [m] r)"
    and "i < pcount \<Longrightarrow> k < degree \<Longrightarrow> coeff degree (host_negate_ps a pcount degree [m] r) i k
       = (- coeff degree a i k) mod uint (mod_value m)"
proof -
  have "uint (negate_uint64_mod (a ! (i * degree + k)) m) = (- coeff degree a i k) mod uint (mod_value m)"
    if "i < pcount" "k < degree" for i k
    unfolding coeff_def by (rule negate_uint64_mod_correct[OF assms(1) wf_polys_residue[OF assms(2) that]])
  note R = for_one_mod[OF assms(1,3,4) _ this]
  show "wf_polys m degree pcount (host_negate_ps a pcount degree [m] r)"
    unfolding host_negate_ps_def length_Cons list.size
    by (rule R(1)) (simp_all add: ps_idx_one Let_def negate_uint64_mod_def)
  show "i < pcount \<Longrightarrow> k < degree \<Longrightarrow> coeff degree (host_negate_ps a pcount degree [m] r) i k
       = (- coeff degree a i k) mod uint (mod_value m)"
    unfolding host_negate_ps_def length_Cons list.size
    by (rule R(2)) (simp_all add: ps_idx_one Let_def negate_uint64_mod_def)
qed

lemma host_multiply_scalar_ps_correct:
  assumes "wf_modulus m" "length r = pcount * degree" "0 < degree"
  shows "wf_polys m degree pcount (host_multiply_scalar_ps a c pcount degree [m] r)"
    and "i < pcount \<Longrightarrow> k < degree \<Longrightarrow> coeff degree (host_multiply_scalar_ps a c pcount degree [m] r) i k
       = (coeff degree a i k * uint c) mod uint (mod_value m)"
proof -
  have "uint (multiply_uint64_mod (a ! (i * degree + k)) c m) = (coeff degree a i k * uint c) mod uint (mod_value m)"
    for i k unfolding coeff_def by (rule multiply_uint64_mod_correct[OF assms(1)])
  note R = for_one_mod[OF assms _ this]
  show "wf_polys m degree pcount (host_multiply_scalar_ps a c pcount degree [m] r)"
    unfolding host_multiply_scalar_ps_def length_Cons list.size
    by (rule R(1)) (simp_all add: ps_idx_one Let_def)
  show "i < pcount \<Longrightarrow> k < degree \<Longrightarrow> coeff degree (host_multiply_scalar_ps a c pcount degree [m] r) i k
       = (coeff degree a i k * uint c) mod uint (mod_value m)"
    unfolding host_multiply_scalar_ps_def length_Cons list.size
    by (rule R(2)) (simp_all add: ps_idx_one Let_def)
qed

lemma host_multiply_uint64operand_ps_correct:
  assumes "wf_modulus m" "wf_operand m y" "length r = pcount * degree" "0 < degree"
  shows "wf_polys m degree pcount (host_multiply_uint64operand_ps a [y] pcount degree [m] r)"
    and "i < pcount \<Longrightarrow> k < degree \<Longrightarrow>
       coeff degree (host_multiply_uint64operand_ps a [y] pcount degree [m] r) i k
       = (coeff degree a i k * uint (op_operand y)) mod uint (mod_value m)"
proof -
  have "uint (multiply_uint64operand_mod (a ! (i * degree + k)) y m)
      = (coeff degree a i k * uint (op_operand y)) mod uint (mod_value m)" for i k
    unfolding coeff_def by (rule multiply_uint64operand_mod_correct[OF assms(1,2)])
  note R = for_one_mod[OF assms(1,3,4) _ this]
  show "wf_polys m degree pcount (host_multiply_uint64operand_ps a [y] pcount degree [m] r)"
    unfolding host_multiply_uint64operand_ps_def length_Cons list.size
    by (rule R(1)) (simp_all add: ps_idx_one Let_def)
  show "i < pcount \<Longrightarrow> k < degree \<Longrightarrow>
       coeff degree (host_multiply_uint64operand_ps a [y] pcount degree [m] r) i k
       = (coeff degree a i k * uint (op_operand y)) mod uint (mod_value m)"
    unfolding host_multiply_uint64operand_ps_def length_Cons list.size
    by (rule R(2)) (simp_all add: ps_idx_one Let_def)
qed

text \<open>The inlined reduction of the dyadic product is \<open>reduce_uint128_limbs\<close>.\<close>

lemma host_dyadic_product_ps_correct:
  assumes "wf_modulus m" "length r = pcount * degree" "0 < degree"
  shows "wf_polys m degree pcount (host_dyadic_product_ps a b pcount degree [m] r)"
    and "i < pcount \<Longrightarrow> k < degree \<Longrightarrow> coeff degree (host_dyadic_product_ps a b pcount degree [m] r) i k
       = (coeff degree a i k * coeff degree b i k) mod uint (mod_value m)"
proof -
  have "uint (multiply_uint64_mod (a ! (i * degree + k)) (b ! (i * degree + k)) m)
      = (coeff degree a i k * coeff degree b i k) mod uint (mod_value m)" for i k
    unfolding coeff_def by (rule multiply_uint64_mod_correct[OF assms(1)])
  note R = for_one_mod[OF assms _ this]
  show "wf_polys m degree pcount (host_dyadic_product_ps a b pcount degree [m] r)"
    unfolding host_dyadic_product_ps_def length_Cons list.size
    by (rule R(1)) (simp_all add: ps_idx_one Let_def split_def multiply_uint64_mod_def reduce_uint128_limbs_def)
  show "i < pcount \<Longrightarrow> k < degree \<Longrightarrow> coeff degree (host_dyadic_product_ps a b pcount degree [m] r) i k
       = (coeff degree a i k * coeff degree b i k) mod uint (mod_value m)"
    unfolding host_dyadic_product_ps_def length_Cons list.size
    by (rule R(2)) (simp_all add: ps_idx_one Let_def split_def multiply_uint64_mod_def reduce_uint128_limbs_def)
qed

subsection \<open>The negacyclic shift\<close>

lemma and_mask_mod: "n AND (2 ^ d - 1) = n mod 2 ^ d" for n :: nat
  by (simp add: take_bit_eq_mask mask_eq_exp_minus_1 flip: take_bit_eq_mod)

lemma and_power_zero: "n AND 2 ^ d = 0 \<longleftrightarrow> even (n div 2 ^ d)" for n :: nat
proof -
  have "n AND 2 ^ d = of_bool (bit n d) * 2 ^ d"
    by (rule bit_eqI) (auto simp: bit_simps)
  then show ?thesis by (simp add: bit_iff_odd)
qed

lemma rotate_inj: "inj_on (\<lambda>k. (s + k) mod n) {..<n}" for s n :: nat
proof (rule inj_onI)
  fix x y assume A: "x \<in> {..<n}" "y \<in> {..<n}" "(s + x) mod n = (s + y) mod n"
  have "(int s + int x) mod int n = (int s + int y) mod int n"
    using arg_cong[OF A(3), of int] by (simp add: zmod_int)
  then have "(int s + int x - int s) mod int n = (int s + int y - int s) mod int n"
    by (rule mod_diff_cong[OF _ refl])
  then show "x = y" using A(1,2) by (simp flip: zmod_int)
qed

lemma host_negacyclic_shift_ps_correct:
  assumes "wf_modulus m" "wf_polys m degree pcount a" "length r = pcount * degree" "degree = 2 ^ d"
  shows "wf_polys m degree pcount (host_negacyclic_shift_ps a shift pcount degree [m] r)"
    and "i < pcount \<Longrightarrow> k < degree \<Longrightarrow>
       coeff degree (host_negacyclic_shift_ps a shift pcount degree [m] r) i ((shift + k) mod degree)
       = (if even ((shift + k) div degree) then coeff degree a i k else - coeff degree a i k)
         mod uint (mod_value m)"
proof -
  let ?g = "\<lambda>i k. let x = a ! (i * degree + k) in
    if even ((shift + k) div degree) then x else negate_uint64_mod x m"
  let ?z = "\<lambda>i k. if even ((shift + k) div degree) then coeff degree a i k else - coeff degree a i k"
  let ?\<pi> = "\<lambda>k. (shift + k) mod degree"
  let ?res = "host_negacyclic_shift_ps a shift pcount degree [m] r"
  have pos: "0 < degree" using assms(4) by simp
  have g: "uint (?g i k) = ?z i k mod uint (mod_value m)" if "i < pcount" "k < degree" for i k
    using negate_uint64_mod_correct[OF assms(1) wf_polys_residue[OF assms(2) that]]
      residue_mod[OF wf_polys_residue[OF assms(2) that]]
    by (simp add: coeff_def Let_def)
  have nonzero: "?res = for_ps pcount (Suc 0) degree (\<lambda>i j k result. result[i * degree + ?\<pi> k := ?g i k]) r"
    if "shift \<noteq> 0"
  proof -
    have body: "(let index_raw = shift + k; mask = degree - 1; modulus_value = mod_value ([m] ! 0);
           index = index_raw AND mask; idx = ps_idx (length [m]) degree i 0 k;
           result_index = ps_idx (length [m]) degree i 0 index
       in if a ! idx = 0 \<or> index_raw AND degree = 0 then result[result_index := a ! idx]
          else result[result_index := modulus_value - a ! idx])
       = result[i * degree + ?\<pi> k := ?g i k]" for i k result
      unfolding assms(4) by (auto simp: Let_def ps_idx_one and_mask_mod[simplified] and_power_zero negate_uint64_mod_def)
    have "?res = for_ps pcount (length [m]) degree (\<lambda>i j k result.
       let index_raw = shift + k; mask = degree - 1; modulus_value = mod_value ([m] ! j);
           index = index_raw AND mask; idx = ps_idx (length [m]) degree i j k;
           result_index = ps_idx (length [m]) degree i j index
       in if a ! idx = 0 \<or> index_raw AND degree = 0 then result[result_index := a ! idx]
          else result[result_index := modulus_value - a ! idx]) r"
      using that unfolding host_negacyclic_shift_ps_def by (simp only: Let_def if_False)
    also have "\<dots> = for_ps pcount (length [m]) degree
        (\<lambda>i j k result. result[i * degree + ?\<pi> k := ?g i k]) r"
    proof (rule for_ps_cong)
      fix i j k result assume "j < length [m]"
      then have "j = 0" by simp
      then show "(let index_raw = shift + k; mask = degree - 1; modulus_value = mod_value ([m] ! j);
           index = index_raw AND mask; idx = ps_idx (length [m]) degree i j k;
           result_index = ps_idx (length [m]) degree i j index
       in if a ! idx = 0 \<or> index_raw AND degree = 0 then result[result_index := a ! idx]
          else result[result_index := modulus_value - a ! idx])
       = result[i * degree + ?\<pi> k := ?g i k]" by (simp only: body)
    qed
    finally show ?thesis by (simp only: list.size One_nat_def add_0)
  qed
  have loop: "length ?res = pcount * degree"
    "\<And>i k. i < pcount \<Longrightarrow> k < degree \<Longrightarrow> ?res ! (i * degree + ?\<pi> k) = ?g i k"
  proof -
    show "length ?res = pcount * degree"
    proof (cases "shift = 0")
      case False
      show ?thesis unfolding nonzero[OF False]
        by (rule for_one(1)[where \<pi> = ?\<pi> and g = ?g]) (use pos assms(3) rotate_inj in auto)
    qed (use assms(2,3) in \<open>simp add: host_negacyclic_shift_ps_def wf_polys_def\<close>)
    show "?res ! (i * degree + ?\<pi> k) = ?g i k" if "i < pcount" "k < degree" for i k
    proof (cases "shift = 0")
      case True
      have "i * degree + k < pcount * degree"
        using ps_idx_bound[OF that(1) zero_less_one that(2)] by (simp add: ps_idx_def)
      then show ?thesis using True that(2) assms(2,3)
        by (simp add: host_negacyclic_shift_ps_def wf_polys_def nth_append Let_def)
    next
      case False
      show ?thesis unfolding nonzero[OF False]
        by (rule for_one(2)[where \<pi> = ?\<pi> and g = ?g]) (use pos assms(3) rotate_inj that in auto)
    qed
  qed
  have surj: "\<exists>k<degree. t = ?\<pi> k" if "t < degree" for t
  proof -
    have "?\<pi> ` {..<degree} = {..<degree}"
      by (rule endo_inj_surj) (use pos rotate_inj in auto)
    with that show ?thesis by (auto simp: image_iff)
  qed
  show "wf_polys m degree pcount ?res"
  proof (rule wf_polys_intro[OF loop(1) pos])
    fix i t assume i: "i < pcount" and t: "t < degree"
    obtain k where k: "k < degree" "t = ?\<pi> k" using surj[OF t] by blast
    show "residue m (?res ! (i * degree + t))"
      unfolding k(2) loop(2)[OF i k(1)] by (rule residue_intro[OF assms(1) g[OF i k(1)]])
  qed
  show "i < pcount \<Longrightarrow> k < degree \<Longrightarrow> coeff degree ?res i (?\<pi> k) = ?z i k mod uint (mod_value m)"
    unfolding coeff_def by (simp add: loop(2) g[unfolded coeff_def])
qed

end
