(* ===== verification/Negacyclic.thy ===== *)
theory Negacyclic
  imports Poly
begin

text \<open>
  The ring \<open>Z[x]/(x^n + 1)\<close> on coefficient functions: the signed periodic extension of a
  coefficient function, the negacyclic product, and how shifting by \<open>x^r\<close> passes through it.
  This is the mathematics the polynomial routines and the number-theoretic transform of
  \<open>src/encryption\<close> implement.
\<close>

definition ext :: "nat \<Rightarrow> (nat \<Rightarrow> int) \<Rightarrow> int \<Rightarrow> int" where
  "ext n a i = (if even (i div int n) then a (nat (i mod int n)) else - a (nat (i mod int n)))"

definition nmul :: "nat \<Rightarrow> (nat \<Rightarrow> int) \<Rightarrow> (nat \<Rightarrow> int) \<Rightarrow> nat \<Rightarrow> int" where
  "nmul n a b k = (\<Sum>i<n. a i * ext n b (int k - int i))"

definition nshift :: "nat \<Rightarrow> nat \<Rightarrow> (nat \<Rightarrow> int) \<Rightarrow> nat \<Rightarrow> int" where
  "nshift n r a k = ext n a (int k - int r)"

lemma ext_below: "i < n \<Longrightarrow> ext n a (int i) = a i"
  by (simp add: ext_def)

lemma ext_add_n: "0 < n \<Longrightarrow> ext n a (i + int n) = - ext n a i"
  using div_add_self2[of "int n" i] by (simp add: ext_def)

lemma ext_sub_n: "0 < n \<Longrightarrow> ext n a (i - int n) = - ext n a i"
  using ext_add_n[of n a "i - int n"] by simp

lemma ext_add_multiple: "0 < n \<Longrightarrow> ext n a (i + int n * q) = (if even q then ext n a i else - ext n a i)"
  by (simp add: ext_def)

lemma ext_ext_shift:
  assumes "0 < n"
  shows "ext n (nshift n r a) i = ext n a (i - int r)"
proof -
  have "i - int r = (i mod int n - int r) + int n * (i div int n)"
    using mult_div_mod_eq[of "int n" i] by simp
  then have "ext n a (i - int r) = (if even (i div int n) then ext n a (i mod int n - int r)
      else - ext n a (i mod int n - int r))"
    using ext_add_multiple[OF assms, of a "i mod int n - int r" "i div int n"] by (simp only:)
  moreover have "0 \<le> i mod int n" using assms by simp
  ultimately show ?thesis using assms by (simp add: ext_def[of n "nshift n r a"] nshift_def)
qed

lemma periodic_window:
  fixes h :: "int \<Rightarrow> int"
  assumes "\<And>j. h (j + int n) = h j"
  shows "(\<Sum>i<n. h (int i - int r)) = (\<Sum>i<n. h (int i))"
proof (induction r)
  case (Suc r)
  show ?case
  proof (cases n)
    case (Suc n')
    have "(\<Sum>i<n. h (int i - int (Suc r))) = h (- int (Suc r)) + (\<Sum>i<n'. h (int i - int r))"
      unfolding Suc sum.lessThan_Suc_shift by simp
    also have "h (- int (Suc r)) = h (int n' - int r)"
      using assms[of "- int (Suc r)"] Suc by (simp add: algebra_simps)
    also have "h (int n' - int r) + (\<Sum>i<n'. h (int i - int r)) = (\<Sum>i<n. h (int i - int r))"
      by (simp add: Suc)
    finally show ?thesis using Suc.IH by simp
  qed simp
qed simp

text \<open>Multiplying by \<open>x^r\<close> commutes with the negacyclic product.\<close>

lemma nmul_nshift:
  assumes "0 < n"
  shows "nmul n (nshift n r a) b k = ext n (nmul n a b) (int k - int r)"
proof -
  let ?c = "int k - int r"
  let ?h = "\<lambda>j. ext n a j * ext n b (?c - j)"
  have period: "?h (j + int n) = ?h j" for j
    using ext_sub_n[OF assms, of b "?c - j"] by (simp add: ext_add_n[OF assms] algebra_simps)
  have "nmul n (nshift n r a) b k = (\<Sum>i<n. ?h (int i - int r))"
    by (simp add: nmul_def nshift_def)
  also have "\<dots> = (\<Sum>i<n. ?h (int i))" using periodic_window[where h = ?h, of n r] period by simp
  also have "\<dots> = (\<Sum>i<n. a i * ext n b (?c - int i))" by (rule sum.cong) (simp_all add: ext_below)
  also have "\<dots> = ext n (nmul n a b) ?c"
  proof -
    have "ext n b (?c - int i) = (if even (?c div int n) then ext n b (?c mod int n - int i)
        else - ext n b (?c mod int n - int i))" for i
    proof -
      have "?c - int i = (?c mod int n - int i) + int n * (?c div int n)"
        using mult_div_mod_eq[of "int n" ?c] by simp
      then show ?thesis using ext_add_multiple[OF assms, of b "?c mod int n - int i" "?c div int n"] by (simp only:)
    qed
    moreover have "0 \<le> ?c mod int n" using assms by simp
    ultimately show ?thesis by (simp add: ext_def[of n "nmul n a b"] nmul_def sum_negf)
  qed
  finally show ?thesis .
qed

lemma nmul_add_left: "nmul n (\<lambda>k. a k + a' k) b k = nmul n a b k + nmul n a' b k"
  by (simp add: nmul_def distrib_right sum.distrib)

lemma nmul_cong: "(\<And>i. i < n \<Longrightarrow> a i = a' i) \<Longrightarrow> nmul n a b k = nmul n a' b k"
  by (simp add: nmul_def)

lemma ext_cong_mod:
  assumes "0 < n" "\<And>i. i < n \<Longrightarrow> a i mod m = a' i mod m"
  shows "ext n a i mod m = ext n a' i mod m"
proof -
  have "nat (i mod int n) < n" using assms(1) by (simp add: nat_less_iff)
  then show ?thesis using assms(2)[of "nat (i mod int n)"] by (auto simp: ext_def) (metis mod_minus_eq)
qed

lemma nmul_cong_mod:
  assumes "\<And>i. i < n \<Longrightarrow> a i mod m = a' i mod m"
  shows "nmul n a b k mod m = nmul n a' b k mod m"
proof -
  have "(\<Sum>i<n. a i * ext n b (int k - int i)) mod m = (\<Sum>i<n. a' i * ext n b (int k - int i)) mod m"
    by (subst (1 2) mod_sum_eq[symmetric], rule arg_cong[of _ _ "\<lambda>x. x mod m"], rule sum.cong)
      (auto intro: mod_mult_cong assms)
  then show ?thesis by (simp add: nmul_def)
qed

lemma nmul_cong_mod2:
  assumes "0 < n" "\<And>i. i < n \<Longrightarrow> b i mod m = b' i mod m"
  shows "nmul n a b k mod m = nmul n a b' k mod m"
proof -
  have "(\<Sum>i<n. a i * ext n b (int k - int i)) mod m = (\<Sum>i<n. a i * ext n b' (int k - int i)) mod m"
    by (subst (1 2) mod_sum_eq[symmetric], rule arg_cong[of _ _ "\<lambda>x. x mod m"], rule sum.cong)
      (auto intro: mod_mult_cong ext_cong_mod[OF assms])
  then show ?thesis by (simp add: nmul_def)
qed

text \<open>A bound on product coefficients, for noise estimates.\<close>

lemma ext_bound: "0 < n \<Longrightarrow> (\<And>i. i < n \<Longrightarrow> \<bar>a i\<bar> \<le> A) \<Longrightarrow> \<bar>ext n a i\<bar> \<le> A"
  by (auto simp: ext_def nat_less_iff)

lemma nmul_bound:
  assumes "0 < n" "\<And>i. i < n \<Longrightarrow> \<bar>a i\<bar> \<le> A" "\<And>i. i < n \<Longrightarrow> \<bar>b i\<bar> \<le> B"
  shows "\<bar>nmul n a b k\<bar> \<le> int n * (A * B)"
proof -
  have "\<bar>nmul n a b k\<bar> \<le> (\<Sum>i<n. \<bar>a i * ext n b (int k - int i)\<bar>)"
    unfolding nmul_def by (rule sum_abs)
  also have "\<dots> \<le> (\<Sum>i<n. A * B)"
  proof (rule sum_mono)
    fix i assume "i \<in> {..<n}"
    then have "\<bar>a i\<bar> \<le> A" "\<bar>ext n b (int k - int i)\<bar> \<le> B" using assms ext_bound[OF assms(1,3)] by auto
    then show "\<bar>a i * ext n b (int k - int i)\<bar> \<le> A * B" unfolding abs_mult by (intro mult_mono) auto
  qed
  finally show ?thesis by simp
qed

end
