(* ===== verification/Bfv.thy ===== *)
theory Bfv
  imports Negacyclic
begin

text \<open>
  BFV ciphertexts over one coefficient modulus, as the program uses them: the context constants
  of \<open>context_data.cu\<close>, plaintext scaling (\<open>fgk/translate_plain.cu\<close>), the evaluator operations
  \<open>translate_inplace\<close>, \<open>negacyclic_shift\<close> and \<open>translate_plain_inplace\<close>, and the decryption
  phase \<open>c_0 + c_1 s\<close> (\<open>decryptor.cu\<close>). The flag checks (device, NTT form, parameter level,
  scale) hold for every ciphertext of the program and are not modelled.
\<close>

text \<open>\<open>None\<close> is a hardware trap (division by 0), \<open>Inl\<close> a C++ exception.\<close>

type_synonym 'a outcome = "(error + 'a) option"

record he_context =
  he_degree :: nat
  he_q :: modulus
  he_t :: modulus
  coeff_div_plain_modulus :: MultiplyUint64Operand
  coeff_modulus_mod_plain_modulus :: u64
  plain_upper_half_threshold :: u64

text \<open>The BFV constants of \<open>ContextData::validate\<close>.\<close>

definition bfv_context :: "nat \<Rightarrow> modulus \<Rightarrow> modulus \<Rightarrow> he_context option" where
  "bfv_context degree q t =
     (if mod_value t = 0 then None else
      case make_operand (mod_value q div mod_value t) q of
        None \<Rightarrow> None
      | Some delta \<Rightarrow> Some \<lparr>he_degree = degree, he_q = q, he_t = t, coeff_div_plain_modulus = delta,
          coeff_modulus_mod_plain_modulus = mod_value q mod mod_value t,
          plain_upper_half_threshold = drop_bit 1 (mod_value t + 1)\<rparr>)"

abbreviation "q_of C \<equiv> uint (mod_value (he_q C))"
abbreviation "t_of C \<equiv> uint (mod_value (he_t C))"

definition wf_context :: "he_context \<Rightarrow> bool" where
  "wf_context C \<longleftrightarrow> wf_modulus (he_q C) \<and> wf_modulus (he_t C) \<and> t_of C < q_of C \<and>
     (\<exists>d. he_degree C = 2 ^ d) \<and>
     wf_operand (he_q C) (coeff_div_plain_modulus C) \<and>
     uint (op_operand (coeff_div_plain_modulus C)) = q_of C div t_of C \<and>
     uint (coeff_modulus_mod_plain_modulus C) = q_of C mod t_of C \<and>
     uint (plain_upper_half_threshold C) = (t_of C + 1) div 2"

lemma bfv_context_wf:
  assumes "wf_modulus q" "wf_modulus t" "uint (mod_value t) < uint (mod_value q)"
  shows "\<exists>C. bfv_context (2 ^ d) q t = Some C \<and> wf_context C \<and>
    he_degree C = 2 ^ d \<and> he_q C = q \<and> he_t C = t"
proof -
  note q = wf_modulusD[OF assms(1)] and t = wf_modulusD[OF assms(2)]
  have "uint (mod_value q div mod_value t) \<le> uint (mod_value q) div 2"
    unfolding uint_div using q(2) t(1) by (intro zdiv_mono2) auto
  then have "residue q (mod_value q div mod_value t)" using q(2) by (simp add: residue_def)
  then obtain y where y: "make_operand (mod_value q div mod_value t) q = Some y"
    "op_operand y = mod_value q div mod_value t" "wf_operand q y"
    using make_operand_correct[OF assms(1)] by blast
  have "uint (mod_value t + 1) = uint (mod_value t) + 1"
    using t(5) by (subst uint_add_no_overflow) simp_all
  then have "uint (drop_bit 1 (mod_value t + 1)) = (uint (mod_value t) + 1) div 2" by (simp only: uint_half)
  then show ?thesis using assms t(4) y by (auto simp: bfv_context_def wf_context_def uint_div uint_mod)
qed

subsection \<open>Plaintext scaling\<close>

text \<open>The coefficient \<open>floor((q m + floor((t+1)/2)) / t)\<close> that encodes \<open>m\<close>.\<close>

definition scaled_rounded_coeff :: "he_context \<Rightarrow> u64 \<Rightarrow> u64 option" where
  "scaled_rounded_coeff C m =
     (let (prod0, prod1) = multiply_uint64_uint64 m (coeff_modulus_mod_plain_modulus C);
          (numerator0, carry) = add_uint64 prod0 (plain_upper_half_threshold C);
          numerator1 = prod1 + ucast carry
      in case divide_uint128_uint64_inplace (numerator0, numerator1) (mod_value (he_t C)) of
           None \<Rightarrow> None
         | Some (_, (fix0, _)) \<Rightarrow>
             Some (multiply_uint64operand_add_uint64_mod m (coeff_div_plain_modulus C) fix0 (he_q C)))"

text \<open>The scaled plaintext is added to, subtracted from or stands in for (null \<open>from\<close>) the source.\<close>

definition multiply_translate_plain ::
  "he_context \<Rightarrow> u64 list option \<Rightarrow> u64 list \<Rightarrow> nat \<Rightarrow> nat \<Rightarrow> bool \<Rightarrow> u64 list option" where
  "multiply_translate_plain C src plain destination_size coeff_count subtract =
     map_option (\<lambda>head. head @ (case src of Some f \<Rightarrow> drop coeff_count f
                                | None \<Rightarrow> replicate (destination_size - coeff_count) 0))
       (those (map (\<lambda>i.
          if i < length plain then
            map_option (\<lambda>s. case src of
                Some f \<Rightarrow> if \<not> subtract then add_uint64_mod (f ! i) s (he_q C)
                          else sub_uint64_mod (f ! i) s (he_q C)
              | None \<Rightarrow> if \<not> subtract then s else negate_uint64_mod s (he_q C))
              (scaled_rounded_coeff C (plain ! i))
          else Some (case src of Some f \<Rightarrow> f ! i | None \<Rightarrow> 0)) [0..<coeff_count]))"

definition scale_up ::
  "he_context \<Rightarrow> u64 list \<Rightarrow> nat \<Rightarrow> nat \<Rightarrow> u64 list option \<Rightarrow> bool \<Rightarrow> u64 list outcome" where
  "scale_up C plain destination_size destination_coeff_count add_to subtract =
     (if destination_coeff_count < length plain then
        Some (Inl (InvalidArgument ''destination_coeff_count should no less than plain_coeff_count.''))
      else map_option Inr
        (multiply_translate_plain C add_to plain destination_size destination_coeff_count subtract))"

subsection \<open>Ciphertexts and the evaluator\<close>

record ciphertext =
  polynomial_count :: nat
  ct_data :: "u64 list"

definition ct_poly :: "he_context \<Rightarrow> ciphertext \<Rightarrow> nat \<Rightarrow> u64 list" where
  "ct_poly C ct i = take (he_degree C) (drop (i * he_degree C) (ct_data ct))"

text \<open>\<open>translate_inplace\<close>: addition or subtraction; the longer operand's tail is copied.\<close>

definition translate_inplace :: "he_context \<Rightarrow> ciphertext \<Rightarrow> ciphertext \<Rightarrow> bool \<Rightarrow> ciphertext" where
  "translate_inplace C encrypted1 encrypted2 subtract =
     (let n = he_degree C;
          size1 = polynomial_count encrypted1;
          size2 = polynomial_count encrypted2;
          max_size = max size1 size2;
          min_size = min size1 size2;
          data1 = ct_data encrypted1 @ replicate ((max_size - size1) * n) 0;
          data = (if \<not> subtract then host_add_ps data1 (ct_data encrypted2) min_size n [he_q C] data1
                  else host_sub_ps data1 (ct_data encrypted2) min_size n [he_q C] data1);
          tail2 = drop (size1 * n) (ct_data encrypted2);
          data = (if size1 < size2 then
                    take (size1 * n) data @
                    (if \<not> subtract then tail2
                     else host_negate_ps tail2 (size2 - size1) n [he_q C] (drop (size1 * n) data))
                  else data)
      in \<lparr>polynomial_count = max_size, ct_data = data\<rparr>)"

definition add_inplace :: "he_context \<Rightarrow> ciphertext \<Rightarrow> ciphertext \<Rightarrow> ciphertext" where
  "add_inplace C encrypted1 encrypted2 = translate_inplace C encrypted1 encrypted2 False"

definition negacyclic_shift :: "he_context \<Rightarrow> ciphertext \<Rightarrow> nat \<Rightarrow> ciphertext" where
  "negacyclic_shift C encrypted shift =
     encrypted\<lparr>ct_data := host_negacyclic_shift_ps (ct_data encrypted) shift (polynomial_count encrypted)
       (he_degree C) [he_q C] (replicate (length (ct_data encrypted)) 0)\<rparr>"

text \<open>Adding a plaintext touches the first polynomial only.\<close>

definition add_plain :: "he_context \<Rightarrow> ciphertext \<Rightarrow> u64 list \<Rightarrow> ciphertext outcome" where
  "add_plain C encrypted plain =
     map_option (map_sum id (\<lambda>p0. encrypted\<lparr>ct_data := p0 @ drop (he_degree C) (ct_data encrypted)\<rparr>))
       (scale_up C plain (he_degree C) (he_degree C) (Some (ct_poly C encrypted 0)) False)"

text \<open>The batch encoder stores coefficients reduced modulo the plaintext modulus.\<close>

definition encode_polynomial :: "he_context \<Rightarrow> u64 list \<Rightarrow> error + u64 list" where
  "encode_polynomial C values =
     (if he_degree C < length values
      then Inl (InvalidArgument ''Values has size larger than the number of slots.'')
      else Inr (map (reduce (he_t C)) values))"

subsection \<open>The scaling is rounding\<close>

lemma wf_contextD:
  assumes "wf_context C"
  shows "wf_modulus (he_q C)" "wf_modulus (he_t C)" "t_of C < q_of C" "0 < he_degree C" "0 < q_of C" "0 < t_of C"
  using assms wf_modulusD(2) by (auto simp: wf_context_def)

lemma scaled_split:
  fixes q t m h :: int
  assumes "0 < t"
  shows "(q * m + h) div t = m * (q div t) + (q mod t * m + h) div t"
proof -
  have "q * m = (t * (q div t) + q mod t) * m" by simp
  then have "q * m + h = (q mod t * m + h) + t * (m * (q div t))" by (simp only: algebra_simps)
  moreover have "((q mod t * m + h) + t * (m * (q div t))) div t = m * (q div t) + (q mod t * m + h) div t"
    using assms by (intro div_mult_self2) simp
  ultimately show ?thesis by (simp only:)
qed

lemma scaled_rounded_coeff_value:
  assumes "wf_context C"
  shows "\<exists>s. scaled_rounded_coeff C m = Some s \<and>
    uint s = ((q_of C * uint m + (t_of C + 1) div 2) div t_of C) mod q_of C"
proof -
  note D = wf_contextD[OF assms]
  let ?r = "coeff_modulus_mod_plain_modulus C" and ?h = "plain_upper_half_threshold C"
  have r: "uint ?r = q_of C mod t_of C" and h: "uint ?h = (t_of C + 1) div 2"
    and delta: "wf_operand (he_q C) (coeff_div_plain_modulus C)"
      "uint (op_operand (coeff_div_plain_modulus C)) = q_of C div t_of C"
    using assms by (simp_all add: wf_context_def)
  obtain p0 p1 where p: "multiply_uint64_uint64 m ?r = (p0, p1)" by fastforce
  obtain n0 c where n: "add_uint64 p0 ?h = (n0, c)" by fastforce
  have prod: "uint p0 + 2 ^ 64 * uint p1 = uint m * uint ?r"
    unfolding multiply_uint64_uint64_split[OF p] by simp
  have sum: "uint n0 + 2 ^ 64 * uint c = uint p0 + uint ?h" and c: "uint c \<le> 1"
    using add_uint64_sum[OF n] by auto
  have "uint p1 \<le> 2 ^ 64 - 2"
  proof -
    have "uint m * uint ?r < (2 ^ 64 - 1) * 2 ^ 64" using uint_product_bound[of m ?r] by simp
    then have "uint m * uint ?r div 2 ^ 64 < 2 ^ 64 - 1" by (intro div_less_of_less_mult) simp_all
    then show ?thesis using multiply_uint64_uint64_split(2)[OF p] by simp
  qed
  then have "uint (p1 + ucast c) = uint p1 + uint c"
    using c by (subst uint_add_no_overflow) (simp_all add: uint_ucast_u8)
  then have num: "uint n0 + 2 ^ 64 * uint (p1 + ucast c) = q_of C mod t_of C * uint m + (t_of C + 1) div 2"
    using prod sum r h by (simp add: algebra_simps)
  have "mod_value (he_t C) \<noteq> 0" using D(2) wf_modulusD(4) by blast
  then obtain r0 r1 f0 f1 where d: "divide_uint128_uint64_inplace (n0, p1 + ucast c) (mod_value (he_t C)) = Some ((r0, r1), (f0, f1))"
    by (simp add: divide_uint128_uint64_inplace_def Let_def)
  have fix2: "uint f0 + 2 ^ 64 * uint f1 = (q_of C mod t_of C * uint m + (t_of C + 1) div 2) div t_of C"
    using divide_uint128_uint64_inplace_correct(1)[OF d] num by simp
  have "(q_of C mod t_of C * uint m + (t_of C + 1) div 2) div t_of C < 2 ^ 64"
  proof (rule div_less_of_less_mult[OF D(6)])
    have gen: "a + b < B * t" if "a \<le> (t - 1) * (B - 1)" "b \<le> t" "1 < B" for a b t B :: int
    proof -
      have "(t - 1) * (B - 1) = B * t - t - B + 1" by (simp add: algebra_simps)
      with that show ?thesis by linarith
    qed
    show "q_of C mod t_of C * uint m + (t_of C + 1) div 2 < 2 ^ 64 * t_of C"
    proof (rule gen)
      show "q_of C mod t_of C * uint m \<le> (t_of C - 1) * (2 ^ 64 - 1)"
        using D(6) uint64_lt[of m] pos_mod_bound[OF D(6), of "q_of C"] by (intro mult_mono) auto
    qed (use D(6) in simp_all)
  qed
  then have "uint f1 = 0" by (rule high_digit_zero[OF fix2]) simp_all
  then have f0: "uint f0 = (q_of C mod t_of C * uint m + (t_of C + 1) div 2) div t_of C" using fix2 by simp
  have "uint (multiply_uint64operand_add_uint64_mod m (coeff_div_plain_modulus C) f0 (he_q C))
      = (q_of C * uint m + (t_of C + 1) div 2) div t_of C mod q_of C"
    unfolding multiply_uint64operand_add_uint64_mod_correct[OF D(1) delta(1)] delta(2) f0
    using scaled_split[OF D(6), of "q_of C" "uint m" "(t_of C + 1) div 2"] by (simp only:)
  then show ?thesis by (simp add: scaled_rounded_coeff_def p n d)
qed

text \<open>
  Scaling a plaintext coefficient: the 128-bit computation returns, never divides by zero, and
  yields \<open>floor((q m + floor((t+1)/2)) / t)\<close> modulo \<open>q\<close>, the nearest multiple, for every 64-bit \<open>m\<close>.
\<close>

theorem scaled_rounded_coeff_correct:
  assumes "wf_context C"
  shows "\<exists>s. scaled_rounded_coeff C m = Some s \<and>
    uint s = ((q_of C * uint m + (t_of C + 1) div 2) div t_of C) mod q_of C"
  by (rule scaled_rounded_coeff_value[OF assms])

theorem scaled_rounded_coeff_correct_witness:
  "\<exists>C s. bfv_context 2 (sample_modulus 10007) (sample_modulus 17) = Some C \<and> scaled_rounded_coeff C 5 = Some s \<and>
    uint s = (10007 * 5 + 9) div 17 mod 10007"
proof -
  obtain C where "bfv_context (2 ^ 1) (sample_modulus 10007) (sample_modulus 17) = Some C" "wf_context C"
    "he_q C = sample_modulus 10007" "he_t C = sample_modulus 17"
    using bfv_context_wf[OF wf_sample_modulus[of 10007] wf_sample_modulus[of 17], of 1] by auto
  with scaled_rounded_coeff_correct[of C 5] show ?thesis by auto
qed

text \<open>The scaled coefficient is \<open>q m / t\<close> up to half a unit.\<close>

lemma rounding_error:
  fixes t x :: int
  assumes "0 < t"
  shows "\<bar>t * ((x + (t + 1) div 2) div t) - x\<bar> \<le> (t + 1) div 2"
proof -
  have "t * ((x + (t + 1) div 2) div t) = x + (t + 1) div 2 - (x + (t + 1) div 2) mod t"
    by (simp add: minus_mod_eq_mult_div)
  moreover have "0 \<le> (x + (t + 1) div 2) mod t" "(x + (t + 1) div 2) mod t < t" using assms by simp_all
  moreover have "t \<le> 2 * ((t + 1) div 2)" by presburger
  ultimately show ?thesis unfolding abs_le_iff by linarith
qed

end
