(* ===== verification/Phase.thy ===== *)
theory Phase
  imports Bfv
begin

text \<open>
  What a ciphertext stands for: its phase \<open>c_0 + c_1 s\<close> modulo \<open>q\<close> and \<open>x^n + 1\<close>, and the
  relation "coefficient \<open>k\<close> encodes \<open>m\<close> with noise at most \<open>E\<close>". The homomorphic
  operations the program calls are shown to act on both; locale \<open>linear_encoding\<close> is the
  interface the protocol proofs use.
\<close>

type_synonym secret = "nat \<Rightarrow> int"

definition phase :: "he_context \<Rightarrow> secret \<Rightarrow> ciphertext \<Rightarrow> nat \<Rightarrow> int" where
  "phase C s ct k =
     (coeff (he_degree C) (ct_data ct) 0 k + nmul (he_degree C) (coeff (he_degree C) (ct_data ct) 1) s k)
       mod q_of C"

definition wf_ct :: "he_context \<Rightarrow> ciphertext \<Rightarrow> bool" where
  "wf_ct C ct \<longleftrightarrow> polynomial_count ct = 2 \<and> wf_polys (he_q C) (he_degree C) 2 (ct_data ct)"

text \<open>\<open>t * phase = q m + e\<close> modulo \<open>t q\<close>, with \<open>|e| \<le> E\<close>.\<close>

definition encodes :: "he_context \<Rightarrow> secret \<Rightarrow> ciphertext \<Rightarrow> nat \<Rightarrow> int \<Rightarrow> int \<Rightarrow> bool" where
  "encodes C s ct k m E \<longleftrightarrow> wf_context C \<and> wf_ct C ct \<and> k < he_degree C \<and>
     (\<exists>e j. t_of C * phase C s ct k = q_of C * m + e + t_of C * q_of C * j \<and> \<bar>e\<bar> \<le> E)"

subsection \<open>Addition\<close>

lemma wf_ct_add:
  assumes "wf_context C" "wf_ct C a" "wf_ct C b"
  shows "wf_ct C (add_inplace C a b)"
    and "i < 2 \<Longrightarrow> k < he_degree C \<Longrightarrow> coeff (he_degree C) (ct_data (add_inplace C a b)) i k
       = (coeff (he_degree C) (ct_data a) i k + coeff (he_degree C) (ct_data b) i k) mod q_of C"
proof -
  note D = wf_contextD[OF assms(1)]
  have size: "polynomial_count a = 2" "polynomial_count b = 2" using assms(2,3) by (simp_all add: wf_ct_def)
  have p: "wf_polys (he_q C) (he_degree C) 2 (ct_data a)" "wf_polys (he_q C) (he_degree C) 2 (ct_data b)"
    "length (ct_data a) = 2 * he_degree C"
    using assms(2,3) by (simp_all add: wf_ct_def wf_polys_def)
  have e: "add_inplace C a b = \<lparr>polynomial_count = 2,
      ct_data = host_add_ps (ct_data a) (ct_data b) 2 (he_degree C) [he_q C] (ct_data a)\<rparr>"
    by (simp add: add_inplace_def translate_inplace_def Let_def size)
  note R = host_add_ps_correct[OF D(1) p D(4)]
  show "wf_ct C (add_inplace C a b)" using R(1) by (simp add: wf_ct_def e)
  show "i < 2 \<Longrightarrow> k < he_degree C \<Longrightarrow> coeff (he_degree C) (ct_data (add_inplace C a b)) i k
       = (coeff (he_degree C) (ct_data a) i k + coeff (he_degree C) (ct_data b) i k) mod q_of C"
    using R(2) by (simp add: e)
qed

lemma phase_add:
  assumes "wf_context C" "wf_ct C a" "wf_ct C b" "k < he_degree C"
  shows "phase C s (add_inplace C a b) k = (phase C s a k + phase C s b k) mod q_of C"
proof -
  let ?n = "he_degree C"
  let ?c = "\<lambda>x i. coeff ?n (ct_data x) i"
  have co: "?c (add_inplace C a b) i j mod q_of C = (?c a i j + ?c b i j) mod q_of C" if "i < 2" "j < ?n" for i j
    using wf_ct_add(2)[OF assms(1-3) that] by simp
  have "nmul ?n (?c (add_inplace C a b) 1) s k mod q_of C = (nmul ?n (?c a 1) s k + nmul ?n (?c b 1) s k) mod q_of C"
    unfolding nmul_add_left[symmetric] by (rule nmul_cong_mod) (simp add: co)
  then have "phase C s (add_inplace C a b) k
      = ((?c a 0 k + ?c b 0 k) + (nmul ?n (?c a 1) s k + nmul ?n (?c b 1) s k)) mod q_of C"
    unfolding phase_def using co[of 0 k] assms(4) by (intro mod_add_cong) simp_all
  also have "\<dots> = (phase C s a k + phase C s b k) mod q_of C"
    unfolding phase_def by (simp add: mod_add_eq) (simp add: algebra_simps)
  finally show ?thesis .
qed

lemma encodes_add:
  assumes "encodes C s a k m E" "encodes C s b k m' E'"
  shows "encodes C s (add_inplace C a b) k (m + m') (E + E')"
proof -
  obtain e j where C: "wf_context C" and a: "wf_ct C a" "k < he_degree C"
    "t_of C * phase C s a k = q_of C * m + e + t_of C * q_of C * j" "\<bar>e\<bar> \<le> E"
    using assms(1) by (auto simp: encodes_def)
  obtain e' j' where b: "wf_ct C b"
    "t_of C * phase C s b k = q_of C * m' + e' + t_of C * q_of C * j'" "\<bar>e'\<bar> \<le> E'"
    using assms(2) by (auto simp: encodes_def)
  let ?x = "phase C s a k + phase C s b k"
  define d where "d = ?x div q_of C"
  have "phase C s (add_inplace C a b) k = ?x - q_of C * d"
    unfolding phase_add[OF C a(1) b(1) a(2)] d_def by (simp add: minus_mult_div_eq_mod)
  then have "t_of C * phase C s (add_inplace C a b) k = t_of C * (?x - q_of C * d)" by (simp only:)
  also have "\<dots> = t_of C * phase C s a k + t_of C * phase C s b k - t_of C * q_of C * d"
    by (simp only: algebra_simps)
  also have "\<dots> = q_of C * (m + m') + (e + e') + t_of C * q_of C * (j + j' - d)"
    unfolding a(3) b(2) by (simp only: algebra_simps)
  finally have "t_of C * phase C s (add_inplace C a b) k
      = q_of C * (m + m') + (e + e') + t_of C * q_of C * (j + j' - d)" .
  moreover have "\<bar>e + e'\<bar> \<le> E + E'" using a(4) b(3) by linarith
  ultimately show ?thesis using C wf_ct_add(1)[OF C a(1) b(1)] a(2) unfolding encodes_def by blast
qed

subsection \<open>Shift\<close>

lemma shift_index:
  fixes t n r :: nat
  assumes "t < n"
  defines "k \<equiv> nat ((int t - int r) mod int n)"
  shows "k < n" "(r + k) mod n = t" "even ((r + k) div n) \<longleftrightarrow> even ((int t - int r) div int n)"
proof -
  have n: "0 < n" using assms(1) by simp
  have ik: "int k = (int t - int r) mod int n" using n by (simp add: k_def)
  show "k < n" using n ik pos_mod_bound[of "int n" "int t - int r"] by linarith
  have sum: "int (r + k) = int t + int n * (- ((int t - int r) div int n))"
    using ik mult_div_mod_eq[of "int n" "int t - int r"] by (simp only: of_nat_add mult_minus_right)
  have "int ((r + k) mod n) = int t"
    unfolding zmod_int sum mod_mult_self2 using assms(1) by simp
  then show "(r + k) mod n = t" by simp
  have "int ((r + k) div n) = - ((int t - int r) div int n)"
    unfolding zdiv_int sum using assms(1) n by (subst div_mult_self2) simp_all
  then have "even (int ((r + k) div n)) \<longleftrightarrow> even ((int t - int r) div int n)" by simp
  then show "even ((r + k) div n) \<longleftrightarrow> even ((int t - int r) div int n)" by simp
qed

lemma wf_ct_shift:
  assumes "wf_context C" "wf_ct C a"
  shows "wf_ct C (negacyclic_shift C a r)"
    and "i < 2 \<Longrightarrow> k < he_degree C \<Longrightarrow> coeff (he_degree C) (ct_data (negacyclic_shift C a r)) i k
       = nshift (he_degree C) r (coeff (he_degree C) (ct_data a) i) k mod q_of C"
proof -
  note D = wf_contextD[OF assms(1)]
  let ?n = "he_degree C"
  obtain d where d: "?n = 2 ^ d" using assms(1) by (auto simp: wf_context_def)
  have p: "polynomial_count a = 2" "wf_polys (he_q C) ?n 2 (ct_data a)" "length (ct_data a) = 2 * ?n"
    using assms(2) by (simp_all add: wf_ct_def wf_polys_def)
  have len: "length (replicate (length (ct_data a)) (0::u64)) = 2 * ?n" by (simp add: p(3))
  note R = host_negacyclic_shift_ps_correct[OF D(1) p(2) len d]
  have e: "ct_data (negacyclic_shift C a r)
      = host_negacyclic_shift_ps (ct_data a) r 2 ?n [he_q C] (replicate (length (ct_data a)) 0)"
    "polynomial_count (negacyclic_shift C a r) = 2"
    by (simp_all add: negacyclic_shift_def p(1))
  show "wf_ct C (negacyclic_shift C a r)" unfolding wf_ct_def e using R(1) by simp
  assume i: "i < 2" and k: "k < ?n"
  let ?k = "nat ((int k - int r) mod int ?n)"
  note I = shift_index[OF k, of r]
  have "coeff ?n (ct_data (negacyclic_shift C a r)) i ((r + ?k) mod ?n)
      = (if even ((r + ?k) div ?n) then coeff ?n (ct_data a) i ?k else - coeff ?n (ct_data a) i ?k) mod q_of C"
    unfolding e by (rule R(2)[OF i I(1)])
  then show "coeff ?n (ct_data (negacyclic_shift C a r)) i k
       = nshift ?n r (coeff ?n (ct_data a) i) k mod q_of C"
    unfolding I(2,3) by (simp add: nshift_def ext_def)
qed

lemma phase_shift:
  assumes "wf_context C" "wf_ct C a" "k < he_degree C"
  shows "phase C s (negacyclic_shift C a r) k = ext (he_degree C) (phase C s a) (int k - int r) mod q_of C"
proof -
  let ?n = "he_degree C" and ?b = "negacyclic_shift C a r"
  let ?c = "\<lambda>x i. coeff ?n (ct_data x) i"
  note D = wf_contextD[OF assms(1)]
  have co: "?c ?b i j mod q_of C = nshift ?n r (?c a i) j mod q_of C" if "i < 2" "j < ?n" for i j
    using wf_ct_shift(2)[OF assms(1,2) that] by simp
  have "nmul ?n (?c ?b 1) s k mod q_of C = nmul ?n (nshift ?n r (?c a 1)) s k mod q_of C"
    by (rule nmul_cong_mod) (simp add: co)
  then have "phase C s ?b k = (nshift ?n r (?c a 0) k + ext ?n (nmul ?n (?c a 1) s) (int k - int r)) mod q_of C"
    unfolding phase_def nmul_nshift[OF D(4)] using co[of 0 k] assms(3) by (intro mod_add_cong) simp_all
  also have "\<dots> = ext ?n (\<lambda>k. ?c a 0 k + nmul ?n (?c a 1) s k) (int k - int r) mod q_of C"
    by (simp add: nshift_def ext_def)
  also have "\<dots> = ext ?n (phase C s a) (int k - int r) mod q_of C"
    by (rule ext_cong_mod[OF D(4)]) (simp add: phase_def)
  finally show ?thesis .
qed

text \<open>Shifting by \<open>r\<close> moves coefficient \<open>k\<close> to \<open>k + r\<close> unchanged as long as it stays below the degree.\<close>

lemma encodes_shift:
  assumes "encodes C s a k m E" "k + r < he_degree C"
  shows "encodes C s (negacyclic_shift C a r) (k + r) m E"
proof -
  have a: "wf_context C" "wf_ct C a" using assms(1) by (simp_all add: encodes_def)
  have "phase C s (negacyclic_shift C a r) (k + r) = phase C s a k"
    using phase_shift[OF a assms(2), of s r] assms(2) ext_below[of k "he_degree C" "phase C s a"]
    by (simp add: phase_def)
  then show ?thesis using assms wf_ct_shift(1)[OF a] by (simp add: encodes_def)
qed

subsection \<open>Adding a plaintext\<close>

lemma those_map_Some:
  assumes "\<And>x. x \<in> set xs \<Longrightarrow> f x = Some (g x)"
  shows "those (map f xs) = Some (map g xs)"
  using assms by (induction xs) auto

definition scaled :: "he_context \<Rightarrow> u64 \<Rightarrow> u64" where
  "scaled C m = the (scaled_rounded_coeff C m)"

lemma scaled_correct:
  assumes "wf_context C"
  shows "scaled_rounded_coeff C m = Some (scaled C m)"
    and "uint (scaled C m) = (q_of C * uint m + (t_of C + 1) div 2) div t_of C mod q_of C"
    and "residue (he_q C) (scaled C m)"
proof -
  obtain x where x: "scaled_rounded_coeff C m = Some x"
    "uint x = (q_of C * uint m + (t_of C + 1) div 2) div t_of C mod q_of C"
    using scaled_rounded_coeff_value[OF assms] by blast
  then show "scaled_rounded_coeff C m = Some (scaled C m)"
    and r: "uint (scaled C m) = (q_of C * uint m + (t_of C + 1) div 2) div t_of C mod q_of C"
    by (simp_all add: scaled_def)
  show "residue (he_q C) (scaled C m)" by (rule residue_intro[OF wf_contextD(1)[OF assms] r])
qed

lemma add_plain_result:
  assumes "wf_context C" "wf_ct C ct" "length plain \<le> he_degree C"
  shows "\<exists>ct'. add_plain C ct plain = Some (Inr ct') \<and> wf_ct C ct' \<and>
    (\<forall>k < he_degree C.
       coeff (he_degree C) (ct_data ct') 0 k =
         (coeff (he_degree C) (ct_data ct) 0 k + (if k < length plain then uint (scaled C (plain ! k)) else 0)) mod q_of C \<and>
       coeff (he_degree C) (ct_data ct') 1 k = coeff (he_degree C) (ct_data ct) 1 k)"
proof -
  let ?n = "he_degree C"
  note D = wf_contextD[OF assms(1)]
  have p: "polynomial_count ct = 2" "length (ct_data ct) = 2 * ?n" "wf_polys (he_q C) ?n 2 (ct_data ct)"
    using assms(2) by (simp_all add: wf_ct_def wf_polys_def)
  let ?p0 = "ct_poly C ct 0"
  have p0: "length ?p0 = ?n" "\<And>k. k < ?n \<Longrightarrow> ?p0 ! k = ct_data ct ! k"
    using p(2) by (simp_all add: ct_poly_def)
  let ?g = "\<lambda>i. if i < length plain then add_uint64_mod (?p0 ! i) (scaled C (plain ! i)) (he_q C) else ?p0 ! i"
  let ?ct' = "ct\<lparr>ct_data := map ?g [0..<?n] @ drop ?n (ct_data ct)\<rparr>"
  have "multiply_translate_plain C (Some ?p0) plain ?n ?n False = Some (map ?g [0..<?n])"
    unfolding multiply_translate_plain_def
    by (subst those_map_Some[where g = ?g]) (auto simp: scaled_correct(1)[OF assms(1)] p0(1))
  then have e: "add_plain C ct plain = Some (Inr ?ct')"
    using assms(3) by (simp add: add_plain_def scale_up_def)
  have res: "residue (he_q C) (ct_data ct ! (i * ?n + k))" if "i < 2" "k < ?n" for i k
    by (rule wf_polys_residue[OF p(3) that])
  have c0: "coeff ?n (ct_data ?ct') 0 k
      = (coeff ?n (ct_data ct) 0 k + (if k < length plain then uint (scaled C (plain ! k)) else 0)) mod q_of C"
    if k: "k < ?n" for k
  proof -
    have "residue (he_q C) (ct_data ct ! k)" using res[of 0 k] k by simp
    then show ?thesis
      using k p0(2)[OF k] add_uint64_mod_correct[OF D(1) _ scaled_correct(3)[OF assms(1)]]
      by (simp add: coeff_def nth_append residue_mod)
  qed
  have c1: "coeff ?n (ct_data ?ct') 1 k = coeff ?n (ct_data ct) 1 k" if "k < ?n" for k
    using p(2) that by (simp add: coeff_def nth_append)
  have "wf_polys (he_q C) ?n 2 (ct_data ?ct')"
  proof (rule wf_polys_intro[OF _ D(4)])
    show "length (ct_data ?ct') = 2 * ?n" using p(2) by simp
    fix i k assume i: "i < (2::nat)" and k: "k < ?n"
    then consider "i = 0" | "i = 1" by linarith
    then show "residue (he_q C) (ct_data ?ct' ! (i * ?n + k))"
    proof cases
      case 1
      have "uint (ct_data ?ct' ! k) < q_of C"
        using c0[OF k] D(5) by (simp add: coeff_def del: select_convs)
      then show ?thesis using 1 by (simp add: residue_def)
    next
      case 2
      have "uint (ct_data ?ct' ! (1 * ?n + k)) = uint (ct_data ct ! (1 * ?n + k))"
        using c1[OF k] by (simp only: coeff_def)
      then show ?thesis using res[of 1 k] k 2 by (simp only: residue_def)
    qed
  qed
  then have "wf_ct C ?ct'" using p(1) by (simp add: wf_ct_def)
  then show ?thesis using e c0 c1 by blast
qed

lemma encodes_phase_shifted:
  assumes "encodes C s a k m E" "wf_ct C b"
    and "phase C s b k = (phase C s a k + d) mod q_of C"
    and "\<exists>e j. t_of C * d = q_of C * m' + e + t_of C * q_of C * j \<and> \<bar>e\<bar> \<le> E'"
  shows "encodes C s b k (m + m') (E + E')"
proof -
  obtain e j where a: "wf_context C" "k < he_degree C"
    "t_of C * phase C s a k = q_of C * m + e + t_of C * q_of C * j" "\<bar>e\<bar> \<le> E"
    using assms(1) by (auto simp: encodes_def)
  obtain e' j' where d: "t_of C * d = q_of C * m' + e' + t_of C * q_of C * j'" "\<bar>e'\<bar> \<le> E'"
    using assms(4) by blast
  define x where "x = (phase C s a k + d) div q_of C"
  have "phase C s b k = phase C s a k + d - q_of C * x"
    unfolding assms(3) x_def by (simp add: minus_mult_div_eq_mod)
  then have "t_of C * phase C s b k = t_of C * (phase C s a k + d - q_of C * x)" by (simp only:)
  also have "\<dots> = t_of C * phase C s a k + t_of C * d - t_of C * q_of C * x" by (simp only: algebra_simps)
  also have "\<dots> = q_of C * (m + m') + (e + e') + t_of C * q_of C * (j + j' - x)"
    unfolding a(3) d(1) by (simp only: algebra_simps)
  finally have "t_of C * phase C s b k = q_of C * (m + m') + (e + e') + t_of C * q_of C * (j + j' - x)" .
  moreover have "\<bar>e + e'\<bar> \<le> E + E'" using a(4) d(2) by linarith
  ultimately show ?thesis using a(1,2) assms(2) unfolding encodes_def by blast
qed

lemma scaled_encodes:
  assumes "wf_context C"
  shows "\<exists>e j. t_of C * uint (scaled C m) = q_of C * uint m + e + t_of C * q_of C * j \<and>
    \<bar>e\<bar> \<le> (t_of C + 1) div 2"
proof -
  let ?y = "(q_of C * uint m + (t_of C + 1) div 2) div t_of C"
  define e where "e = t_of C * ?y - q_of C * uint m"
  have "\<bar>e\<bar> \<le> (t_of C + 1) div 2" unfolding e_def by (rule rounding_error[OF wf_contextD(6)[OF assms]])
  moreover have "t_of C * uint (scaled C m) = q_of C * uint m + e + t_of C * q_of C * (- (?y div q_of C))"
  proof -
    have "uint (scaled C m) = ?y - q_of C * (?y div q_of C)"
      unfolding scaled_correct(2)[OF assms] by (simp add: minus_mult_div_eq_mod)
    then have "t_of C * uint (scaled C m) = t_of C * (?y - q_of C * (?y div q_of C))" by (simp only:)
    then show ?thesis by (simp only: e_def algebra_simps)
  qed
  ultimately show ?thesis by blast
qed

lemma encodes_add_plain:
  assumes "encodes C s ct k m E" "length plain \<le> he_degree C" "k < length plain"
  shows "\<exists>ct'. add_plain C ct plain = Some (Inr ct') \<and>
    encodes C s ct' k (m + uint (plain ! k)) (E + (t_of C + 1) div 2)"
proof -
  let ?n = "he_degree C"
  have C: "wf_context C" and ct: "wf_ct C ct" and k: "k < ?n" using assms(1) by (simp_all add: encodes_def)
  obtain ct' where r: "add_plain C ct plain = Some (Inr ct')" "wf_ct C ct'"
    "coeff ?n (ct_data ct') 0 k = (coeff ?n (ct_data ct) 0 k + uint (scaled C (plain ! k))) mod q_of C"
    "\<And>i. i < ?n \<Longrightarrow> coeff ?n (ct_data ct') 1 i = coeff ?n (ct_data ct) 1 i"
    using add_plain_result[OF C ct assms(2)] k assms(3) by auto
  have c1: "nmul ?n (coeff ?n (ct_data ct') 1) s k = nmul ?n (coeff ?n (ct_data ct) 1) s k"
    by (rule nmul_cong) (rule r(4))
  have "phase C s ct' k = (phase C s ct k + uint (scaled C (plain ! k))) mod q_of C"
    unfolding phase_def r(3) c1
    by (simp add: mod_add_left_eq mod_add_right_eq) (simp add: algebra_simps)
  then have "encodes C s ct' k (m + uint (plain ! k)) (E + (t_of C + 1) div 2)"
    by (rule encodes_phase_shifted[OF assms(1) r(2) _ scaled_encodes[OF C]])
  with r(1) show ?thesis by blast
qed

lemma encodes_mono: "encodes C s ct k m E \<Longrightarrow> E \<le> E' \<Longrightarrow> encodes C s ct k m E'"
  unfolding encodes_def by (meson order_trans)

text \<open>Only the residue of the message modulo the plaintext modulus matters.\<close>

lemma encodes_cong:
  assumes "encodes C s ct k m E" "m mod t_of C = m' mod t_of C"
  shows "encodes C s ct k m' E"
proof -
  obtain e j where a: "wf_context C" "wf_ct C ct" "k < he_degree C"
    "t_of C * phase C s ct k = q_of C * m + e + t_of C * q_of C * j" "\<bar>e\<bar> \<le> E"
    using assms(1) by (auto simp: encodes_def)
  have "t_of C dvd m - m'" using assms(2) by (simp add: mod_eq_dvd_iff)
  then obtain i where "m - m' = t_of C * i" by (auto simp: dvd_def)
  then have "m = m' + t_of C * i" by linarith
  then have "t_of C * phase C s ct k = q_of C * m' + e + t_of C * q_of C * (j + i)"
    unfolding a(4) by (simp add: algebra_simps)
  with a show ?thesis unfolding encodes_def by blast
qed

subsection \<open>The interface of the protocol proofs\<close>

text \<open>
  Operations on encodings, as the client uses them to accumulate parities: adding two
  encodings adds messages and noise, shifting moves a coefficient.
\<close>

locale linear_encoding =
  fixes enc :: "'c \<Rightarrow> nat \<Rightarrow> int \<Rightarrow> int \<Rightarrow> bool"
    and add :: "'c \<Rightarrow> 'c \<Rightarrow> 'c"
    and shift :: "'c \<Rightarrow> nat \<Rightarrow> 'c"
    and degree :: nat
  assumes enc_add: "enc a k m E \<Longrightarrow> enc b k m' E' \<Longrightarrow> enc (add a b) k (m + m') (E + E')"
    and enc_shift: "enc a k m E \<Longrightarrow> k + r < degree \<Longrightarrow> enc (shift a r) (k + r) m E"
begin

lemma enc_add_shifted:
  assumes "enc acc slot m E" "enc c off v E'" "off \<le> slot" "slot < degree"
  shows "enc (add acc (shift c (slot - off))) slot (m + v) (E + E')"
proof -
  have "enc (shift c (slot - off)) (off + (slot - off)) v E'"
    by (rule enc_shift[OF assms(2)]) (use assms(3,4) in simp)
  then show ?thesis using enc_add[OF assms(1)] assms(3) by simp
qed

text \<open>Accumulating shifted encodings collects the sum of the selected messages at one coefficient.\<close>

lemma enc_accumulate:
  assumes "enc acc slot m E" "slot < degree"
    and "\<And>k. k < P \<Longrightarrow> sel k \<Longrightarrow> off k \<le> slot \<and> enc (c k) (off k) (v k) E'"
  shows "enc (fold (\<lambda>k acc. if sel k then add acc (shift (c k) (slot - off k)) else acc) [0..<P] acc) slot
      (m + (\<Sum>k | k < P \<and> sel k. v k)) (E + int (card {k. k < P \<and> sel k}) * E')"
  using assms(3)
proof (induction P)
  case 0
  then show ?case using assms(1) by simp
next
  case (Suc P)
  let ?f = "\<lambda>k acc. if sel k then add acc (shift (c k) (slot - off k)) else acc"
  have IH: "enc (fold ?f [0..<P] acc) slot (m + (\<Sum>k | k < P \<and> sel k. v k))
      (E + int (card {k. k < P \<and> sel k}) * E')"
    using Suc by simp
  have set: "{k. k < Suc P \<and> sel k} = (if sel P then insert P {k. k < P \<and> sel k} else {k. k < P \<and> sel k})"
    by (auto simp: less_Suc_eq)
  show ?case
  proof (cases "sel P")
    case True
    have "enc (add (fold ?f [0..<P] acc) (shift (c P) (slot - off P))) slot
        ((m + (\<Sum>k | k < P \<and> sel k. v k)) + v P) ((E + int (card {k. k < P \<and> sel k}) * E') + E')"
      by (rule enc_add_shifted[OF IH _ _ assms(2)]) (use Suc.prems[of P] True in auto)
    then show ?thesis using True by (simp add: set algebra_simps)
  qed (use IH in \<open>simp add: set\<close>)
qed

end

interpretation bfv: linear_encoding "encodes C s" "add_inplace C" "negacyclic_shift C" "he_degree C" for C s
  by unfold_locales (simp_all add: encodes_add encodes_shift)

end
