(* ===== verification/Double.thy ===== *)
theory Double
  imports Complex_Main "HOL-Library.Log_Nat"
begin

text \<open>
  IEEE-754 binary64 arithmetic on the values the server scales: an operation is the real
  operation followed by rounding to 53 significant bits, ties to even. Every operand of
  the program is 0 or at least 1 and below \<open>2^64\<close>, so exponent ranges are not modelled.
\<close>

definition round_even :: "real \<Rightarrow> int" where
  "round_even x =
     (let f = \<lfloor>x\<rfloor>; d = x - of_int f
      in if d < 1 / 2 then f else if d > 1 / 2 then f + 1 else if even f then f else f + 1)"

text \<open>\<open>floor (log 2 x)\<close>, computed on integers.\<close>

definition binary_exponent :: "real \<Rightarrow> int" where
  "binary_exponent x =
     (if 1 \<le> x then int (floorlog 2 (nat \<lfloor>x\<rfloor>)) - 1
      else - int (floorlog 2 (nat (\<lceil>1 / x\<rceil> - 1))))"

definition to_double :: "real \<Rightarrow> real" where
  "to_double x =
     (if x = 0 then 0 else
      let ulp = 2 powi (binary_exponent x - 52) in of_int (round_even (x / ulp)) * ulp)"

lemma round_even_error: "\<bar>of_int (round_even x) - x\<bar> \<le> 1 / 2"
proof -
  have "of_int \<lfloor>x\<rfloor> \<le> x" "x < of_int \<lfloor>x\<rfloor> + 1" by linarith+
  then show ?thesis unfolding round_even_def Let_def
    by (cases "x - of_int \<lfloor>x\<rfloor> < 1 / 2"; cases "x - of_int \<lfloor>x\<rfloor> > 1 / 2"; cases "even \<lfloor>x\<rfloor>";
        simp only: if_True if_False; simp only: of_int_add of_int_1 abs_le_iff; linarith)
qed

lemma binary_exponent_lower:
  assumes "1 \<le> x"
  shows "2 powi binary_exponent x \<le> x"
proof -
  let ?n = "nat \<lfloor>x\<rfloor>"
  have "1 \<le> \<lfloor>x\<rfloor>" using assms by (simp add: le_floor_iff)
  then have n: "0 < ?n" by simp
  then have e: "binary_exponent x = int (floorlog 2 ?n - 1)" "0 < floorlog 2 ?n"
    using assms by (auto simp: binary_exponent_def floorlog_def)
  have "2 ^ (floorlog 2 ?n - 1) \<le> ?n"
    using n e(2) floorlog_bounds[of ?n 2] by simp
  then have "real (2 ^ (floorlog 2 ?n - 1)) \<le> real ?n" by (simp only: of_nat_le_iff)
  also have "real ?n \<le> x" using assms by (simp add: of_nat_nat)
  finally show ?thesis unfolding e(1) by simp
qed

theorem to_double_error:
  assumes "1 \<le> x"
  shows "\<bar>to_double x - x\<bar> \<le> x / 2 ^ 53"
proof -
  define ulp where "ulp = (2::real) powi (binary_exponent x - 52)"
  have pos: "0 < ulp" by (simp add: ulp_def)
  have "ulp = 2 powi binary_exponent x / 2 ^ 52"
    by (simp add: ulp_def power_int_diff)
  then have ulp: "ulp \<le> x / 2 ^ 52" using binary_exponent_lower[OF assms] by (simp add: divide_right_mono)
  have "to_double x - x = (of_int (round_even (x / ulp)) - x / ulp) * ulp"
    using assms pos by (simp add: to_double_def Let_def ulp_def[symmetric] left_diff_distrib)
  then have "\<bar>to_double x - x\<bar> = \<bar>of_int (round_even (x / ulp)) - x / ulp\<bar> * ulp"
    using pos by (simp add: abs_mult)
  also have "\<dots> \<le> 1 / 2 * ulp" using pos by (intro mult_right_mono round_even_error) simp
  also have "\<dots> \<le> x / 2 ^ 53" using ulp by simp
  finally show ?thesis .
qed

subsection \<open>Scaling by a quotient in floating point\<close>

text \<open>
  The server computes \<open>delta = (double) q / (double) p\<close> once and multiplies by it. All that
  matters is the relative error of one rounding.
\<close>

lemma one_minus_inverse: "(1 - 1 / a) * x = x - x / a" for a x :: real
  by (simp add: left_diff_distrib)

lemma one_plus_inverse: "(1 + 1 / a) * x = x + x / a" for a x :: real
  by (simp add: distrib_right)

locale relative_rounding =
  fixes rnd :: "real \<Rightarrow> real"
  assumes rnd_error: "1 \<le> x \<Longrightarrow> \<bar>rnd x - x\<bar> \<le> x / 2 ^ 53"
    and rnd_zero: "rnd 0 = 0"
begin

abbreviation "eps \<equiv> (1::real) / 2 ^ 53"

lemma rnd_bounds:
  assumes "1 \<le> x"
  shows "(1 - eps) * x \<le> rnd x" "rnd x \<le> (1 + eps) * x"
proof -
  have "rnd x - x \<le> x / 2 ^ 53" "x - rnd x \<le> x / 2 ^ 53"
    using rnd_error[OF assms] unfolding abs_le_iff by linarith+
  then show "(1 - eps) * x \<le> rnd x" "rnd x \<le> (1 + eps) * x"
    unfolding one_minus_inverse one_plus_inverse by linarith+
qed

lemma delta_bounds:
  assumes "1 \<le> p" "2 * p \<le> q"
  shows "(1 - eps) ^ 2 / (1 + eps) * (q / p) \<le> rnd (rnd q / rnd p)"
    and "rnd (rnd q / rnd p) \<le> (1 + eps) ^ 2 / (1 - eps) * (q / p)"
proof -
  have p: "0 < (1 - eps) * p" "(1 - eps) * p \<le> rnd p" "rnd p \<le> (1 + eps) * p"
    using rnd_bounds[OF assms(1)] assms(1) by simp_all
  have q: "(1 - eps) * q \<le> rnd q" "rnd q \<le> (1 + eps) * q" "0 \<le> q"
    using rnd_bounds[of q] assms by simp_all
  have "((1 - eps) * q) / ((1 + eps) * p) \<le> rnd q / rnd p"
    using p q by (intro frac_le) simp_all
  then have lo: "(1 - eps) / (1 + eps) * (q / p) \<le> rnd q / rnd p" by simp
  have "rnd q / rnd p \<le> ((1 + eps) * q) / ((1 - eps) * p)"
    using p q by (intro frac_le) simp_all
  then have hi: "rnd q / rnd p \<le> (1 + eps) / (1 - eps) * (q / p)" by simp
  have "2 \<le> q / p" using assms by (simp add: pos_le_divide_eq)
  then have "(1 - eps) / (1 + eps) * 2 \<le> (1 - eps) / (1 + eps) * (q / p)" by (intro mult_left_mono) simp_all
  then have one: "1 \<le> rnd q / rnd p" using lo by simp
  have "(1 - eps) * ((1 - eps) / (1 + eps) * (q / p)) \<le> (1 - eps) * (rnd q / rnd p)"
    using lo by (intro mult_left_mono) simp_all
  then show "(1 - eps) ^ 2 / (1 + eps) * (q / p) \<le> rnd (rnd q / rnd p)"
    using rnd_bounds(1)[OF one] by (simp add: power2_eq_square)
  have "(1 + eps) * (rnd q / rnd p) \<le> (1 + eps) * ((1 + eps) / (1 - eps) * (q / p))"
    using hi by (intro mult_left_mono) simp_all
  then show "rnd (rnd q / rnd p) \<le> (1 + eps) ^ 2 / (1 - eps) * (q / p)"
    using rnd_bounds(2)[OF one] by (simp add: power2_eq_square)
qed

lemma scaled_bounds:
  assumes "1 \<le> p" "2 * p \<le> q" "1 \<le> b"
  shows "\<bar>rnd (rnd b * rnd (rnd q / rnd p)) - b * (q / p)\<bar> \<le> 6 * eps * (b * (q / p))"
proof -
  define d where "d = rnd (rnd q / rnd p)"
  define x where "x = q / p"
  have x: "2 \<le> x" using assms by (simp add: x_def pos_le_divide_eq)
  note D = delta_bounds[OF assms(1,2), folded d_def x_def]
  have b: "(1 - eps) * b \<le> rnd b" "rnd b \<le> (1 + eps) * b" using rnd_bounds[OF assms(3)] by simp_all
  have "((1 - eps) * b) * ((1 - eps) ^ 2 / (1 + eps) * x) \<le> rnd b * d"
    using b D x assms(3) by (intro mult_mono) simp_all
  then have lo: "((1 - eps) ^ 3 / (1 + eps)) * (b * x) \<le> rnd b * d"
    by (simp add: power3_eq_cube power2_eq_square mult_ac)
  have "0 \<le> rnd b" using b(1) assms(3) by (intro order_trans[OF _ b(1)]) simp
  then have "rnd b * d \<le> ((1 + eps) * b) * ((1 + eps) ^ 2 / (1 - eps) * x)"
    using b D x assms(3) by (intro mult_mono order_trans[OF _ D(1)]) simp_all
  then have hi: "rnd b * d \<le> ((1 + eps) ^ 3 / (1 - eps)) * (b * x)"
    by (simp add: power3_eq_cube power2_eq_square mult_ac)
  have bx: "2 \<le> b * x" using x assms(3) mult_mono[of 1 b 2 x] by simp
  then have "((1 - eps) ^ 3 / (1 + eps)) * 2 \<le> ((1 - eps) ^ 3 / (1 + eps)) * (b * x)"
    by (intro mult_left_mono) simp_all
  moreover have "1 \<le> ((1 - eps) ^ 3 / (1 + eps)) * 2" by (simp add: power3_eq_cube)
  ultimately have one: "1 \<le> rnd b * d" using lo by linarith
  have "(1 - eps) * (((1 - eps) ^ 3 / (1 + eps)) * (b * x)) \<le> (1 - eps) * (rnd b * d)"
    using lo by (intro mult_left_mono) simp_all
  also have "\<dots> \<le> rnd (rnd b * d)" by (rule rnd_bounds(1)[OF one])
  finally have L: "((1 - eps) * ((1 - eps) ^ 3 / (1 + eps))) * (b * x) \<le> rnd (rnd b * d)" by (simp only: mult.assoc)
  have "rnd (rnd b * d) \<le> (1 + eps) * (rnd b * d)" by (rule rnd_bounds(2)[OF one])
  also have "\<dots> \<le> (1 + eps) * (((1 + eps) ^ 3 / (1 - eps)) * (b * x))"
    using hi by (intro mult_left_mono) simp_all
  finally have U: "rnd (rnd b * d) \<le> ((1 + eps) * ((1 + eps) ^ 3 / (1 - eps))) * (b * x)" by (simp only: mult.assoc)
  have "(1 - 6 * eps) * (b * x) \<le> ((1 - eps) * ((1 - eps) ^ 3 / (1 + eps))) * (b * x)"
    using bx by (intro mult_right_mono) (simp_all add: power_divide)
  moreover have "((1 + eps) * ((1 + eps) ^ 3 / (1 - eps))) * (b * x) \<le> (1 + 6 * eps) * (b * x)"
    using bx by (intro mult_right_mono) (simp_all add: power_divide)
  ultimately have "(1 - 6 * eps) * (b * x) \<le> rnd (rnd b * d)" "rnd (rnd b * d) \<le> (1 + 6 * eps) * (b * x)"
    using L U by linarith+
  then show ?thesis unfolding abs_le_iff d_def x_def by (simp add: left_diff_distrib distrib_right)
qed

text \<open>After truncation to an integer the scaled value is \<open>q b / p\<close> up to 13 units, for \<open>q\<close> of 54 bits.\<close>

lemma truncated_error:
  fixes p q b :: int
  assumes "1 \<le> p" "2 * p \<le> q" "q < 2 ^ 54" "0 \<le> b" "b < p"
  defines "y \<equiv> rnd (rnd (of_int b) * rnd (rnd (of_int q) / rnd (of_int p)))"
  shows "\<bar>p * \<lfloor>y\<rfloor> - q * b\<bar> \<le> 13 * p" "0 \<le> y" "y < 2 ^ 64"
proof -
  let ?p = "of_int p :: real" and ?q = "of_int q :: real" and ?b = "of_int b :: real"
  have p: "1 \<le> ?p" "2 * ?p \<le> ?q" "?q \<le> 2 ^ 54" "?b \<le> ?p"
  proof -
    show "1 \<le> ?p" using assms(1) by simp
    have "real_of_int (2 * p) \<le> ?q" using assms(2) by (simp only: of_int_le_iff)
    then show "2 * ?p \<le> ?q" by simp
    have "?q \<le> real_of_int (2 ^ 54)" using assms(3) by (simp only: of_int_le_iff)
    then show "?q \<le> 2 ^ 54" by simp
    show "?b \<le> ?p" using assms(5) by simp
  qed
  have close: "\<bar>y - ?b * (?q / ?p)\<bar> \<le> 12" "0 \<le> y" "?b * (?q / ?p) \<le> 2 ^ 54"
  proof -
    have "?b * (?q / ?p) = (?b / ?p) * ?q" by simp
    also have "\<dots> \<le> 1 * 2 ^ 54" using p assms(4) by (intro mult_mono) simp_all
    finally show le: "?b * (?q / ?p) \<le> 2 ^ 54" by simp
    have "\<bar>y - ?b * (?q / ?p)\<bar> \<le> 12 \<and> 0 \<le> y"
    proof (cases "b = 0")
      case True
      then show ?thesis by (simp add: y_def rnd_zero)
    next
      case False
      then have b: "1 \<le> ?b" using assms(4) by simp
      note S = scaled_bounds[OF p(1,2) b, folded y_def]
      have "6 * eps * (?b * (?q / ?p)) \<le> 6 * eps * 2 ^ 54" using le by (intro mult_left_mono) simp_all
      then have "\<bar>y - ?b * (?q / ?p)\<bar> \<le> 12" using S by simp
      moreover have nn: "0 \<le> ?b * (?q / ?p)" using p b by simp
      then have "6 * eps * (?b * (?q / ?p)) \<le> 1 * (?b * (?q / ?p))" by (intro mult_right_mono) simp_all
      then have "0 \<le> y" using S nn unfolding abs_le_iff by linarith
      ultimately show ?thesis ..
    qed
    then show "\<bar>y - ?b * (?q / ?p)\<bar> \<le> 12" "0 \<le> y" by simp_all
  qed
  show "0 \<le> y" by (rule close(2))
  show "y < 2 ^ 64" using close(1,3) unfolding abs_le_iff by simp
  have "\<bar>?p * (of_int \<lfloor>y\<rfloor> - y)\<bar> \<le> ?p * 1" "\<bar>?p * (y - ?b * (?q / ?p))\<bar> \<le> ?p * 12"
    unfolding abs_mult using p(1) close(1) by (intro mult_mono; simp; linarith)+
  moreover have "of_int (p * \<lfloor>y\<rfloor> - q * b) = ?p * (of_int \<lfloor>y\<rfloor> - y) + ?p * (y - ?b * (?q / ?p))"
    using p(1) by (simp add: right_diff_distrib)
  ultimately have "\<bar>real_of_int (p * \<lfloor>y\<rfloor> - q * b)\<bar> \<le> real_of_int (13 * p)"
    unfolding abs_le_iff by (simp only: of_int_mult of_int_numeral) linarith
  then show "\<bar>p * \<lfloor>y\<rfloor> - q * b\<bar> \<le> 13 * p" by (simp only: of_int_le_iff flip: of_int_abs)
qed

end

interpretation ieee: relative_rounding to_double
  by unfold_locales (rule to_double_error, assumption, simp add: to_double_def)

end
