(* ===== verification/Server.thy ===== *)
theory Server
  imports Database Phase Double
begin

text \<open>
  The server of \<open>src/src/server.cpp\<close>: construction, encryption of the database, and the
  answer to an online query. The encryptor's \<open>i\<close>-th fresh encryption, the decryptor and
  the noise sample are arguments; floating-point scaling is that of theory \<open>Double\<close>.
\<close>

record server =
  sv_DB :: "u64 list"
  sv_N :: u32
  sv_B :: u32
  sv_EntrySize :: u32
  sv_PartNum :: u32
  sv_PartSize :: u32
  sv_lambda :: u32
  sv_M :: u32
  sv_plainModulus :: u64
  encryptedDB :: "ciphertext list"

text \<open>A failed assertion aborts: \<open>None\<close>.\<close>

definition OneSVServer :: "u64 list \<Rightarrow> u32 \<Rightarrow> u32 \<Rightarrow> u64 \<Rightarrow> server option" where
  "OneSVServer DB_ptr LogN EntryB p =
     (if LogN < 32 \<and> EntryB \<ge> 8 then
        let PartSize = push_bit (unat (LogN div 2 + LogN mod 2)) 1 in
        Some \<lparr>sv_DB = DB_ptr, sv_N = push_bit (unat LogN) 1, sv_B = EntryB div 8, sv_EntrySize = EntryB,
          sv_PartNum = push_bit (unat (LogN div 2)) 1, sv_PartSize = PartSize, sv_lambda = of_nat LAMBDA,
          sv_M = of_nat LAMBDA * PartSize, sv_plainModulus = p, encryptedDB = []\<rparr>
      else None)"

text \<open>Partition \<open>i\<close> of the database, as \<open>std::copy\<close> reads it.\<close>

definition partition_slice :: "server \<Rightarrow> nat \<Rightarrow> u64 list option" where
  "partition_slice sv i =
     (let a = unat (of_nat i * sv_PartSize sv); b = unat (of_nat (i + 1) * sv_PartSize sv)
      in if b \<le> length (sv_DB sv) then Some (take (b - a) (drop a (sv_DB sv))) else None)"

definition preprocessDatabase ::
  "he_context \<Rightarrow> (nat \<Rightarrow> u64 list \<Rightarrow> ciphertext) \<Rightarrow> server \<Rightarrow> server outcome" where
  "preprocessDatabase C encrypt sv =
     (if unat (sv_PartSize sv) > he_degree C
      then Some (Inl (RuntimeError ''PartSize exceeds encoder capacity''))
      else case those (map (partition_slice sv) [0..<unat (sv_PartNum sv)]) of
          None \<Rightarrow> None
        | Some vecs \<Rightarrow> Some (map_sum id
            (\<lambda>p. sv\<lparr>encryptedDB := map (\<lambda>i. encrypt i (p ! i)) [0..<unat (sv_PartNum sv)]\<rparr>)
            (sum_those (map (encode_polynomial C) vecs))))"

definition getEntry :: "build \<Rightarrow> server \<Rightarrow> u32 \<Rightarrow> bytes option" where
  "getEntry b sv index = getEntryFromDB b (sv_DB sv) index (sv_EntrySize sv)"

subsection \<open>Answering a query\<close>

text \<open>One partition: its entry goes to \<open>b1\<close> or \<open>b0\<close>, modulo the plaintext modulus.\<close>

definition answer_step ::
  "build \<Rightarrow> server \<Rightarrow> bool list \<Rightarrow> u32 list \<Rightarrow> nat \<Rightarrow> u64 \<times> u64 \<Rightarrow> (u64 \<times> u64) option" where
  "answer_step b sv bvec Svec k acc =
     (case getEntryFromDB b (sv_DB sv) (of_nat k * sv_PartSize sv + Svec ! k) (sv_EntrySize sv) of
        None \<Rightarrow> None
      | Some tmpEntry \<Rightarrow>
          let entry_val = le_word (take 8 tmpEntry); (b0, b1) = acc
          in if bvec ! k then Some (b0, (b1 + entry_val) mod sv_plainModulus sv)
             else Some ((b0 + entry_val) mod sv_plainModulus sv, b1))"

text \<open>\<open>static_cast<uint64_t>(static_cast<double>(b) * delta) % modulus_q\<close>; an out-of-range cast is undefined.\<close>

definition scale_answer :: "u64 \<Rightarrow> u64 \<Rightarrow> u64 \<Rightarrow> u64 option" where
  "scale_answer modulus_q plainModulus b =
     (let delta = to_double (to_double (of_int (uint modulus_q)) / to_double (of_int (uint plainModulus)));
          y = to_double (to_double (of_int (uint b)) * delta)
      in if 0 \<le> y \<and> y < 2 ^ 64 then Some (word_of_int \<lfloor>y\<rfloor> mod modulus_q) else None)"

definition onlineQuery ::
  "build \<Rightarrow> server \<Rightarrow> (ciphertext \<Rightarrow> u64 list) \<Rightarrow> u64 \<Rightarrow> u64 \<Rightarrow> bool list \<Rightarrow> u32 list \<Rightarrow> ciphertext
     \<Rightarrow> (u64 \<times> u64) outcome" where
  "onlineQuery b sv decrypt modulus_q answer_noise bvec Svec c =
     (let vec = decrypt c; PartNum = unat (sv_PartNum sv); PartSize = unat (sv_PartSize sv) in
      if sv_plainModulus sv = 0 \<or> modulus_q = 0 \<or> length vec < PartSize \<or> PartSize = 0 then None else
      case foldM (answer_step b sv bvec Svec) [0..<PartNum] (0, 0) of
        None \<Rightarrow> None
      | Some (b0, b1) \<Rightarrow>
          (case (scale_answer modulus_q (sv_plainModulus sv) b0, scale_answer modulus_q (sv_plainModulus sv) b1) of
             (Some scaled_b0, Some scaled_b1) \<Rightarrow>
               let vec_value = vec ! (PartSize - 1);
                   b0 = (vec_value + modulus_q - scaled_b0) mod modulus_q;
                   b1 = (vec_value + modulus_q - scaled_b1) mod modulus_q
               in Some (case (AddSignedMod b0 answer_noise modulus_q, AddSignedMod b1 answer_noise modulus_q) of
                    (Inl e, _) \<Rightarrow> Inl e
                  | (_, Inl e) \<Rightarrow> Inl e
                  | (Inr r0, Inr r1) \<Rightarrow> Inr (r0, r1))
           | _ \<Rightarrow> None))"

text \<open>The state every server of the program is in after construction.\<close>

definition wf_server :: "server \<Rightarrow> bool" where
  "wf_server sv \<longleftrightarrow> sv_EntrySize sv = 8 \<and> 0 < unat (sv_PartSize sv) \<and>
     unat (sv_PartNum sv) * unat (sv_PartSize sv) \<le> length (sv_DB sv) \<and>
     unat (sv_PartNum sv) * unat (sv_PartSize sv) < 2 ^ 32 \<and>
     1 < uint (sv_plainModulus sv) \<and> uint (sv_plainModulus sv) < 2 ^ 61 \<and> list_all (\<lambda>v. v < sv_plainModulus sv) (sv_DB sv)"

text \<open>Entry \<open>(k, x)\<close> of the partitioned database as a number.\<close>

definition entry :: "server \<Rightarrow> nat \<Rightarrow> nat \<Rightarrow> int" where
  "entry sv k x = uint (sv_DB sv ! (k * unat (sv_PartSize sv) + x))"

lemma partition_index:
  assumes "wf_server sv" "k < unat (sv_PartNum sv)" "x < unat (sv_PartSize sv)"
  shows "k * unat (sv_PartSize sv) + x < length (sv_DB sv)"
    and "k * unat (sv_PartSize sv) + x < 2 ^ 32"
proof -
  have "(k + 1) * unat (sv_PartSize sv) \<le> unat (sv_PartNum sv) * unat (sv_PartSize sv)"
    using assms(2) by (intro mult_right_mono) auto
  then show "k * unat (sv_PartSize sv) + x < length (sv_DB sv)"
    and "k * unat (sv_PartSize sv) + x < 2 ^ 32"
    using assms(1,3) by (auto simp: wf_server_def)
qed

lemma wf_answer_index:
  assumes "wf_server sv" "k < unat (sv_PartNum sv)" "unat x < unat (sv_PartSize sv)"
  shows "unat (of_nat k * sv_PartSize sv + x :: u32) = k * unat (sv_PartSize sv) + unat x"
proof -
  note b = partition_index(2)[OF assms]
  have k: "unat (of_nat k :: u32) = k"
    using unat_less_exp[of "sv_PartNum sv"] assms(2) by (simp add: unat_of_nat take_bit_nat_eq_self)
  have m: "unat (of_nat k * sv_PartSize sv) = k * unat (sv_PartSize sv)"
    using b k unat_mult_no_overflow[of "of_nat k" "sv_PartSize sv"] by simp
  then show ?thesis using b unat_add_no_overflow[of "of_nat k * sv_PartSize sv" x] by simp
qed

lemma answer_step_default:
  assumes "wf_server sv" "k < unat (sv_PartNum sv)" "unat (Svec ! k) < unat (sv_PartSize sv)"
  shows "answer_step Default sv bvec Svec k (b0, b1) =
    (let v = sv_DB sv ! (k * unat (sv_PartSize sv) + unat (Svec ! k)) in
     if bvec ! k then Some (b0, (b1 + v) mod sv_plainModulus sv)
     else Some ((b0 + v) mod sv_plainModulus sv, b1))"
proof -
  let ?i = "k * unat (sv_PartSize sv) + unat (Svec ! k)"
  have es: "sv_EntrySize sv = 8" using assms(1) by (simp add: wf_server_def)
  have "?i < length (sv_DB sv)" by (rule partition_index(1)[OF assms])
  then obtain bs where bs: "memcpy_from (sv_DB sv) (8 * ?i) 8 = Some bs" "le_word bs = sv_DB sv ! ?i"
    using memcpy_word[of ?i "sv_DB sv"] by (auto simp del: le_word.simps)
  then have "length bs = 8" by (auto simp: memcpy_from_def split: if_splits)
  moreover have "getEntryFromDB Default (sv_DB sv) (of_nat k * sv_PartSize sv + Svec ! k) 8 = Some bs"
    using bs(1) by (simp add: getEntryFromDB_def wf_answer_index[OF assms])
  ultimately show ?thesis using bs(2) by (simp add: answer_step_def es)
qed

subsection \<open>The two answers\<close>

text \<open>The plain sum of the entries whose selection bit is \<open>s\<close>.\<close>

definition selected_sum :: "server \<Rightarrow> bool list \<Rightarrow> u32 list \<Rightarrow> nat \<Rightarrow> bool \<Rightarrow> int" where
  "selected_sum sv bvec Svec n s = (\<Sum>k | k < n \<and> bvec ! k = s. entry sv k (unat (Svec ! k)))"

lemma selected_sum_Suc:
  "selected_sum sv bvec Svec (Suc n) s =
     selected_sum sv bvec Svec n s + (if bvec ! n = s then entry sv n (unat (Svec ! n)) else 0)"
proof -
  have "{k. k < Suc n \<and> bvec ! k = s} =
      (if bvec ! n = s then insert n {k. k < n \<and> bvec ! k = s} else {k. k < n \<and> bvec ! k = s})"
    by (auto simp: less_Suc_eq)
  then show ?thesis by (simp add: selected_sum_def)
qed

lemma add_mod_plain:
  fixes b v p :: u64
  assumes "uint b = S mod uint p" "uint v < uint p" "uint p < 2 ^ 61"
  shows "uint ((b + v) mod p) = (S + uint v) mod uint p"
proof -
  have p: "0 < uint p" using assms(2) uint_ge_0[of v] by linarith
  have "uint b < uint p" using assms(1) p by simp
  then have "uint (b + v) = uint b + uint v" using assms(2,3) by (intro uint_add_no_overflow) simp
  then show ?thesis by (simp add: uint_mod assms(1) mod_add_left_eq)
qed

lemma answer_loop:
  assumes "wf_server sv" "\<And>k. k < unat (sv_PartNum sv) \<Longrightarrow> unat (Svec ! k) < unat (sv_PartSize sv)"
  shows "\<exists>b0 b1. foldM (answer_step Default sv bvec Svec) [0..<unat (sv_PartNum sv)] (0, 0) = Some (b0, b1) \<and>
    uint b0 = selected_sum sv bvec Svec (unat (sv_PartNum sv)) False mod uint (sv_plainModulus sv) \<and>
    uint b1 = selected_sum sv bvec Svec (unat (sv_PartNum sv)) True mod uint (sv_plainModulus sv)"
proof -
  let ?p = "sv_plainModulus sv"
  have p: "uint ?p < 2 ^ 61" "1 < uint ?p" using assms(1) by (simp_all add: wf_server_def)
  let ?P = "\<lambda>k (b0 :: u64, b1 :: u64). uint b0 = selected_sum sv bvec Svec k False mod uint ?p \<and>
      uint b1 = selected_sum sv bvec Svec k True mod uint ?p"
  have "\<exists>s'. foldM (answer_step Default sv bvec Svec) [0..<unat (sv_PartNum sv)] (0, 0) = Some s' \<and>
      ?P (unat (sv_PartNum sv)) s'"
  proof (rule foldM_invariant)
    show "?P 0 (0, 0)" by (simp add: selected_sum_def)
    fix k s assume k: "k < unat (sv_PartNum sv)" and P: "?P k s"
    obtain b0 b1 where s: "s = (b0, b1)" by fastforce
    let ?v = "sv_DB sv ! (k * unat (sv_PartSize sv) + unat (Svec ! k))"
    have v: "uint ?v < uint ?p" "entry sv k (unat (Svec ! k)) = uint ?v"
      using partition_index(1)[OF assms(1) k assms(2)[OF k]] assms(1)
      by (simp_all add: wf_server_def list_all_length word_less_def entry_def)
    show "\<exists>s'. answer_step Default sv bvec Svec k s = Some s' \<and> ?P (Suc k) s'"
    proof (cases "bvec ! k")
      case True
      have "uint ((b1 + ?v) mod ?p) = (selected_sum sv bvec Svec k True + uint ?v) mod uint ?p"
        by (rule add_mod_plain[OF _ v(1) p(1)]) (use P s in simp)
      then show ?thesis using True P
        by (simp add: s answer_step_default[OF assms(1) k assms(2)[OF k]] selected_sum_Suc v(2) Let_def)
    next
      case False
      have "uint ((b0 + ?v) mod ?p) = (selected_sum sv bvec Svec k False + uint ?v) mod uint ?p"
        by (rule add_mod_plain[OF _ v(1) p(1)]) (use P s in simp)
      then show ?thesis using False P
        by (simp add: s answer_step_default[OF assms(1) k assms(2)[OF k]] selected_sum_Suc v(2) Let_def)
    qed
  qed
  then show ?thesis by auto
qed

lemma scale_answer_correct:
  assumes "1 \<le> uint p" "2 * uint p \<le> uint q" "uint q < 2 ^ 54" "uint b < uint p"
  shows "\<exists>s. scale_answer q p b = Some s \<and> uint s < uint q \<and>
    (\<exists>e j. uint p * uint s = uint q * uint b + e + uint p * uint q * j \<and> \<bar>e\<bar> \<le> 13 * uint p)"
proof -
  define y where "y = to_double (to_double (of_int (uint b))
      * to_double (to_double (of_int (uint q)) / to_double (of_int (uint p))))"
  note T = ieee.truncated_error[OF assms(1-3) uint_ge_0 assms(4), folded y_def]
  let ?s = "word_of_int \<lfloor>y\<rfloor> mod q :: u64"
  have e: "scale_answer q p b = Some ?s" using T(2,3) by (simp add: scale_answer_def Let_def y_def)
  have "0 \<le> \<lfloor>y\<rfloor>" "\<lfloor>y\<rfloor> < 2 ^ 64" using T(2,3) by (simp_all add: floor_less_iff)
  then have "uint ?s = \<lfloor>y\<rfloor> mod uint q" by (simp add: uint_mod uint_word_of_int)
  then have s: "uint ?s = \<lfloor>y\<rfloor> - uint q * (\<lfloor>y\<rfloor> div uint q)" by (simp add: minus_mult_div_eq_mod)
  have "uint p * uint ?s = uint q * uint b + (uint p * \<lfloor>y\<rfloor> - uint q * uint b)
      + uint p * uint q * (- (\<lfloor>y\<rfloor> div uint q))" unfolding s by (simp only: algebra_simps)
  moreover have "uint ?s < uint q" using assms(1,2) by (intro uint_mod_less) auto
  ultimately show ?thesis using e T(1) by blast
qed

text \<open>What one answer contains: the phase minus the encoding of the plain sum, plus the noise.\<close>

lemma answer_value:
  fixes v q s :: u64
  assumes "uint s < uint q" "uint q < 2 ^ 61" "uint v < 2 ^ 62"
  shows "uint ((v + q - s) mod q) = (uint v - uint s) mod uint q"
proof -
  have a: "uint (v + q) = uint v + uint q" using assms by (intro uint_add_no_overflow) simp
  have "uint s \<le> uint v + uint q" using assms(1) uint_ge_0[of v] by linarith
  then have "uint (v + q - s) = uint v + uint q - uint s"
    using a by (subst uint_sub_no_borrow) (simp_all add: word_le_def)
  then have "uint ((v + q - s) mod q) = (uint v - uint s + uint q) mod uint q"
    by (simp add: uint_mod add.commute add_diff_eq)
  then show ?thesis by simp
qed

lemma onlineQuery_result:
  assumes "wf_server sv"
    and "\<And>k. k < unat (sv_PartNum sv) \<Longrightarrow> unat (Svec ! k) < unat (sv_PartSize sv)"
    and "2 * uint (sv_plainModulus sv) \<le> uint q" "uint q < 2 ^ 54"
    and "unat (sv_PartSize sv) \<le> length (decrypt c)"
    and "uint (decrypt c ! (unat (sv_PartSize sv) - 1)) < 2 ^ 62"
  shows "\<exists>r0 r1. onlineQuery Default sv decrypt q noise bvec Svec c = Some (Inr (r0, r1)) \<and>
    (\<forall>b. uint (if b then r1 else r0) < uint q \<and> (\<exists>e j. uint (sv_plainModulus sv) * uint (if b then r1 else r0) =
        uint (sv_plainModulus sv) * (uint (decrypt c ! (unat (sv_PartSize sv) - 1)) + sint noise)
        - uint q * selected_sum sv bvec Svec (unat (sv_PartNum sv)) b + e
        + uint (sv_plainModulus sv) * uint q * j \<and> \<bar>e\<bar> \<le> 13 * uint (sv_plainModulus sv)))"
proof -
  let ?p = "sv_plainModulus sv" and ?v = "decrypt c ! (unat (sv_PartSize sv) - 1)"
  let ?S = "selected_sum sv bvec Svec (unat (sv_PartNum sv))"
  have wf: "1 < uint ?p" "uint ?p < 2 ^ 61" "0 < unat (sv_PartSize sv)"
    using assms(1) by (simp_all add: wf_server_def)
  have nz: "?p \<noteq> 0" "q \<noteq> 0" using wf(1) assms(3) by auto
  obtain b0 b1 where loop: "foldM (answer_step Default sv bvec Svec) [0..<unat (sv_PartNum sv)] (0, 0) = Some (b0, b1)"
    "uint b0 = ?S False mod uint ?p" "uint b1 = ?S True mod uint ?p"
    using answer_loop[OF assms(1,2), of bvec] by blast
  let ?b = "\<lambda>b. if b then b1 else b0"
  have b: "uint (?b b) = ?S b mod uint ?p" for b using loop(2,3) by simp
  have "\<forall>b. \<exists>s. scale_answer q ?p (?b b) = Some s \<and> uint s < uint q \<and>
    (\<exists>e j. uint ?p * uint s = uint q * uint (?b b) + e + uint ?p * uint q * j \<and> \<bar>e\<bar> \<le> 13 * uint ?p)"
  proof
    fix b
    have "uint (?b b) < uint ?p" unfolding b using wf(1) by simp
    then show "\<exists>s. scale_answer q ?p (?b b) = Some s \<and> uint s < uint q \<and>
      (\<exists>e j. uint ?p * uint s = uint q * uint (?b b) + e + uint ?p * uint q * j \<and> \<bar>e\<bar> \<le> 13 * uint ?p)"
      using scale_answer_correct[of ?p q "?b b"] wf(1) assms(3,4) by auto
  qed
  then obtain s where s: "\<And>b. scale_answer q ?p (?b b) = Some (s b)" "\<And>b. uint (s b) < uint q"
    "\<And>b. \<exists>e j. uint ?p * uint (s b) = uint q * uint (?b b) + e + uint ?p * uint q * j \<and> \<bar>e\<bar> \<le> 13 * uint ?p"
    by metis
  let ?x = "\<lambda>b. (?v + q - s b) mod q"
  have x: "uint (?x b) = (uint ?v - uint (s b)) mod uint q" for b
    by (rule answer_value[OF s(2)]) (use assms(4,6) in simp_all)
  have "\<forall>b. \<exists>r. AddSignedMod (?x b) noise q = Inr r \<and> uint r = (uint (?x b) + sint noise) mod uint q"
    using AddSignedMod_value[OF nz(2)] by blast
  then obtain r where r: "\<And>b. AddSignedMod (?x b) noise q = Inr (r b)"
    "\<And>b. uint (r b) = (uint (?x b) + sint noise) mod uint q"
    by metis
  have "onlineQuery Default sv decrypt q noise bvec Svec c = Some (Inr (r False, r True))"
    using nz assms(5) wf(3) loop(1) s(1)[of False] s(1)[of True] r(1)[of False] r(1)[of True]
    by (simp add: onlineQuery_def Let_def)
  moreover have "\<exists>e j. uint ?p * uint (r b) = uint ?p * (uint ?v + sint noise) - uint q * ?S b + e
      + uint ?p * uint q * j \<and> \<bar>e\<bar> \<le> 13 * uint ?p" for b
  proof -
    obtain e j where e: "uint ?p * uint (s b) = uint q * uint (?b b) + e + uint ?p * uint q * j"
      "\<bar>e\<bar> \<le> 13 * uint ?p" using s(3) by blast
    have "uint (r b) = (uint ?v - uint (s b) + sint noise) mod uint q"
      unfolding r(2) x by (simp add: mod_add_left_eq)
    then obtain i where i: "uint (r b) = uint ?v - uint (s b) + sint noise - uint q * i"
      by (metis minus_mult_div_eq_mod)
    obtain l where l: "uint (?b b) = ?S b - uint ?p * l"
      unfolding b by (metis minus_mult_div_eq_mod)
    have "uint ?p * uint (r b) = uint ?p * (uint ?v + sint noise) - uint ?p * uint (s b) - uint ?p * uint q * i"
      unfolding i by (simp add: algebra_simps)
    also have "\<dots> = uint ?p * (uint ?v + sint noise) - uint q * ?S b + (- e)
        + uint ?p * uint q * (l - j - i)"
      unfolding e(1) l by (simp add: algebra_simps)
    finally show ?thesis using e(2) by (intro exI[of _ "- e"] exI[of _ "l - j - i"]) simp
  qed
  moreover have "uint (r b) < uint q" for b
    unfolding r(2) using wf(1) assms(3) by (intro pos_mod_bound) linarith
  moreover have "(if b then r True else r False) = r b" for b by simp
  ultimately show ?thesis by (intro exI[of _ "r False"] exI[of _ "r True"]) (simp only: simp_thms)
qed

text \<open>
  C23: the server's two answers. For every query with offsets inside the partitions the
  call returns, and answer \<open>b\<close> is the decrypted coefficient minus an encoding of
  the sum of the entries with selection bit \<open>b\<close> plus the noise sample: relative to the scale
  \<open>q/p\<close> the deviation is at most 13 units for the floating-point scaling.
\<close>

theorem onlineQuery_answers:
  assumes "wf_server sv"
    and "\<And>k. k < unat (sv_PartNum sv) \<Longrightarrow> unat (Svec ! k) < unat (sv_PartSize sv)"
    and "2 * uint (sv_plainModulus sv) \<le> uint q" "uint q < 2 ^ 54"
    and "unat (sv_PartSize sv) \<le> length (decrypt c)"
    and "uint (decrypt c ! (unat (sv_PartSize sv) - 1)) < 2 ^ 62"
  shows "\<exists>r0 r1. onlineQuery Default sv decrypt q noise bvec Svec c = Some (Inr (r0, r1)) \<and>
    (\<forall>b. uint (if b then r1 else r0) < uint q \<and> (\<exists>e j. uint (sv_plainModulus sv) * uint (if b then r1 else r0) =
        uint (sv_plainModulus sv) * (uint (decrypt c ! (unat (sv_PartSize sv) - 1)) + sint noise)
        - uint q * selected_sum sv bvec Svec (unat (sv_PartNum sv)) b + e
        + uint (sv_plainModulus sv) * uint q * j \<and> \<bar>e\<bar> \<le> 13 * uint (sv_plainModulus sv)))"
  by (rule onlineQuery_result[where decrypt = decrypt and c = c, OF assms])

end
