(* ===== verification/Transport.thy ===== *)
theory Transport
  imports Prelude
begin

text \<open>
  \<open>src/src/network.cpp\<close>, the byte transport: complete sends and receives over a socket that moves
  any number of bytes per call, the framing of arrays, and the packing of booleans into bits.

  A \<open>connection\<close> is the program's view of one socket: what it has handed to the kernel, what the
  peer sends on it, and the four traffic counters. \<open>os i n\<close> is the return value of the \<open>i\<close>-th
  \<open>send\<close> or \<open>recv\<close> call when asked for \<open>n\<close> bytes: negative for an error, else a byte count.
\<close>

record connection =
  outgoing :: bytes
  incoming :: bytes
  syscalls :: nat
  totalBytesSent :: u64
  totalBytesRecv :: u64
  phaseBytesSent :: u64
  phaseBytesRecv :: u64

text \<open>\<open>Failed\<close> is the return value \<open>false\<close>, \<open>Threw\<close> an exception, \<open>Trap\<close> undefined behaviour: a range outside an object.\<close>

datatype 'a io_result = Done 'a | Failed | Threw error | Trap

type_synonym 'a io = "connection \<Rightarrow> 'a io_result \<times> connection"
type_synonym os = "nat \<Rightarrow> nat \<Rightarrow> int"

definition ret :: "'a \<Rightarrow> 'a io" where
  "ret x c = (Done x, c)"

definition stop_with :: "'a io_result \<Rightarrow> 'a io" where
  "stop_with r c = (r, c)"

text \<open>\<open>if (!m) return false\<close>, then the rest.\<close>

definition and_then :: "'a io \<Rightarrow> ('a \<Rightarrow> 'b io) \<Rightarrow> 'b io" where
  "and_then m f c =
     (case m c of
        (Done x, c') \<Rightarrow> f x c'
      | (Failed, c') \<Rightarrow> (Failed, c')
      | (Threw e, c') \<Rightarrow> (Threw e, c')
      | (Trap, c') \<Rightarrow> (Trap, c'))"

subsection \<open>Complete sends and receives\<close>

function sendData_loop :: "os \<Rightarrow> bytes \<Rightarrow> nat \<Rightarrow> unit io" where
  "sendData_loop os data totalSent c =
     (if totalSent < length data then
        let sent = os (syscalls c) (length data - totalSent); c = c\<lparr>syscalls := syscalls c + 1\<rparr>
        in if sent \<le> 0 then (Failed, c)
           else sendData_loop os data (totalSent + nat sent)
             (c\<lparr>outgoing := outgoing c @ take (nat sent) (drop totalSent data)\<rparr>)
      else (Done (), c))"
  by pat_completeness auto
termination by (relation "measure (\<lambda>(os, data, totalSent, c). length data - totalSent)") auto

declare sendData_loop.simps [simp del]

definition sendData :: "os \<Rightarrow> bytes \<Rightarrow> unit io" where
  "sendData os data c =
     (case sendData_loop os data 0 c of
        (Done _, c') \<Rightarrow> (Done (), c'\<lparr>totalBytesSent := totalBytesSent c' + of_nat (length data),
                                     phaseBytesSent := phaseBytesSent c' + of_nat (length data)\<rparr>)
      | (r, c') \<Rightarrow> (r, c'))"

text \<open>\<open>recv\<close> hands over at most what the peer has sent; nothing left is the end of the stream.\<close>

function recvData_loop :: "os \<Rightarrow> nat \<Rightarrow> bytes \<Rightarrow> bytes io" where
  "recvData_loop os len got c =
     (if length got < len then
        let received = os (syscalls c) (len - length got); c = c\<lparr>syscalls := syscalls c + 1\<rparr>
        in if received \<le> 0 \<or> incoming c = [] then (Failed, c)
           else recvData_loop os len (got @ take (nat received) (incoming c))
             (c\<lparr>incoming := drop (nat received) (incoming c)\<rparr>)
      else (Done got, c))"
  by pat_completeness auto
termination by (relation "measure (\<lambda>(os, len, got, c). len - length got)") (auto simp: neq_Nil_conv)

declare recvData_loop.simps [simp del]

definition recvData :: "os \<Rightarrow> nat \<Rightarrow> bytes io" where
  "recvData os len c =
     (case recvData_loop os len [] c of
        (Done data, c') \<Rightarrow> (Done data, c'\<lparr>totalBytesRecv := totalBytesRecv c' + of_nat len,
                                         phaseBytesRecv := phaseBytesRecv c' + of_nat len\<rparr>)
      | (r, c') \<Rightarrow> (r, c'))"

definition sendSizedBuffer :: "os \<Rightarrow> bytes \<Rightarrow> unit io" where
  "sendSizedBuffer os data = sendData os data"

definition recvSizedBuffer :: "os \<Rightarrow> nat \<Rightarrow> bytes io" where
  "recvSizedBuffer os len = recvData os len"

definition resetStats :: "connection \<Rightarrow> connection" where
  "resetStats c = c\<lparr>totalBytesSent := 0, totalBytesRecv := 0, phaseBytesSent := 0, phaseBytesRecv := 0\<rparr>"

definition resetPhaseCounters :: "connection \<Rightarrow> connection" where
  "resetPhaseCounters c = c\<lparr>phaseBytesSent := 0, phaseBytesRecv := 0\<rparr>"

subsection \<open>Messages on the stream\<close>

text \<open>What the operating system promises: a call moves at least one byte and no more than asked for.\<close>

definition delivers :: "os \<Rightarrow> bool" where
  "delivers os \<longleftrightarrow> (\<forall>i n. 0 < n \<longrightarrow> 0 < os i n \<and> os i n \<le> int n)"

text \<open>An operation that sends exactly the bytes \<open>bs\<close>, and one that consumes them and returns \<open>x\<close>.\<close>

definition sends :: "unit io \<Rightarrow> bytes \<Rightarrow> bool" where
  "sends m bs \<longleftrightarrow> (\<forall>c. \<exists>n. m c = (Done (), c\<lparr>outgoing := outgoing c @ bs, syscalls := n,
     totalBytesSent := totalBytesSent c + of_nat (length bs), phaseBytesSent := phaseBytesSent c + of_nat (length bs)\<rparr>))"

definition receives :: "'a io \<Rightarrow> bytes \<Rightarrow> 'a \<Rightarrow> bool" where
  "receives m bs x \<longleftrightarrow> (\<forall>c rest. incoming c = bs @ rest \<longrightarrow> (\<exists>n. m c = (Done x, c\<lparr>incoming := rest, syscalls := n,
     totalBytesRecv := totalBytesRecv c + of_nat (length bs), phaseBytesRecv := phaseBytesRecv c + of_nat (length bs)\<rparr>)))"

lemma sendData_loop_result:
  assumes "delivers os" "totalSent \<le> length data"
  shows "\<exists>n. sendData_loop os data totalSent c = (Done (), c\<lparr>outgoing := outgoing c @ drop totalSent data, syscalls := n\<rparr>)"
  using assms(2)
proof (induction "length data - totalSent" arbitrary: totalSent c rule: less_induct)
  case less
  show ?case
  proof (cases "totalSent < length data")
    case False
    then show ?thesis using less.prems by (subst sendData_loop.simps) (auto intro: exI[of _ "syscalls c"])
  next
    case True
    let ?n = "length data - totalSent"
    define k where "k = nat (os (syscalls c) ?n)"
    have k: "0 < k" "k \<le> ?n" "\<not> os (syscalls c) ?n \<le> 0"
      using assms(1)[unfolded delivers_def, rule_format, of ?n "syscalls c"] True by (auto simp: k_def nat_le_iff not_le)
    let ?c = "c\<lparr>syscalls := syscalls c + 1, outgoing := outgoing c @ take k (drop totalSent data)\<rparr>"
    obtain n where n: "sendData_loop os data (totalSent + k) ?c
        = (Done (), ?c\<lparr>outgoing := outgoing ?c @ drop (totalSent + k) data, syscalls := n\<rparr>)"
      using less.hyps[of "totalSent + k" ?c] k True by fastforce
    have "take k (drop totalSent data) @ drop (totalSent + k) data = drop totalSent data"
      using append_take_drop_id[of k "drop totalSent data"] by (simp add: add.commute)
    then show ?thesis
      using True k(3) n by (subst sendData_loop.simps) (auto simp: k_def[symmetric] Let_def)
  qed
qed

lemma sends_sendData: "delivers os \<Longrightarrow> sends (sendData os data) data"
  unfolding sends_def
proof
  fix c assume "delivers os"
  then obtain n where "sendData_loop os data 0 c = (Done (), c\<lparr>outgoing := outgoing c @ data, syscalls := n\<rparr>)"
    using sendData_loop_result[of os 0 data c] by auto
  then show "\<exists>n. sendData os data c = (Done (), c\<lparr>outgoing := outgoing c @ data, syscalls := n,
     totalBytesSent := totalBytesSent c + of_nat (length data), phaseBytesSent := phaseBytesSent c + of_nat (length data)\<rparr>)"
    by (intro exI[of _ n]) (simp add: sendData_def)
qed

lemma recvData_loop_result:
  assumes "delivers os" "incoming c = bs @ rest" "length bs + length got = len"
  shows "\<exists>n. recvData_loop os len got c = (Done (got @ bs), c\<lparr>incoming := rest, syscalls := n\<rparr>)"
  using assms(2,3)
proof (induction "length bs" arbitrary: bs got c rule: less_induct)
  case less
  show ?case
  proof (cases "bs = []")
    case True
    then show ?thesis using less.prems by (subst recvData_loop.simps) (auto intro: exI[of _ "syscalls c"])
  next
    case False
    define k where "k = nat (os (syscalls c) (len - length got))"
    have n: "len - length got = length bs" "length got < len" using less.prems(2) False by auto
    have k: "0 < k" "k \<le> length bs" "\<not> os (syscalls c) (len - length got) \<le> 0"
      using assms(1)[unfolded delivers_def, rule_format, of "len - length got" "syscalls c"] False n(1)
      by (auto simp: k_def nat_le_iff not_le)
    let ?c = "c\<lparr>syscalls := syscalls c + 1, incoming := drop k bs @ rest\<rparr>"
    obtain n where n': "recvData_loop os len (got @ take k bs) ?c
        = (Done ((got @ take k bs) @ drop k bs), ?c\<lparr>incoming := rest, syscalls := n\<rparr>)"
      using less.hyps[of "drop k bs" ?c "got @ take k bs"] k less.prems(2) False by fastforce
    have e: "take k (incoming c) = take k bs" "drop k (incoming c) = drop k bs @ rest" "incoming c \<noteq> []"
      using less.prems(1) k(2) False by auto
    show ?thesis
      using n(2) k(3) n' e by (subst recvData_loop.simps) (auto simp: k_def[symmetric] Let_def)
  qed
qed

lemma receives_recvData:
  assumes "delivers os" "length bs = len"
  shows "receives (recvData os len) bs bs"
  unfolding receives_def
proof (intro allI impI)
  fix c :: connection and rest assume "incoming c = bs @ rest"
  then obtain n where "recvData_loop os len [] c = (Done bs, c\<lparr>incoming := rest, syscalls := n\<rparr>)"
    using recvData_loop_result[OF assms(1), of c bs rest "[]" len] assms(2) by auto
  then show "\<exists>n. recvData os len c = (Done bs, c\<lparr>incoming := rest, syscalls := n,
     totalBytesRecv := totalBytesRecv c + of_nat (length bs), phaseBytesRecv := phaseBytesRecv c + of_nat (length bs)\<rparr>)"
    using assms(2) by (intro exI[of _ n]) (simp add: recvData_def)
qed

subsection \<open>Sequencing\<close>

lemma same_syscalls: "\<exists>n. c = c\<lparr>syscalls := n\<rparr>" for c :: connection
  by (rule exI[of _ "syscalls c"]) simp

lemma sends_ret: "sends (ret ()) []"
  by (simp add: sends_def ret_def same_syscalls)

lemma sends_and_then:
  assumes "sends m bs" "sends m' bs'"
  shows "sends (and_then m (\<lambda>_. m')) (bs @ bs')"
  unfolding sends_def
proof
  fix c
  obtain n where n: "m c = (Done (), c\<lparr>outgoing := outgoing c @ bs, syscalls := n,
     totalBytesSent := totalBytesSent c + of_nat (length bs), phaseBytesSent := phaseBytesSent c + of_nat (length bs)\<rparr>)"
    (is "_ = (_, ?c)") using assms(1) by (auto simp: sends_def)
  obtain n' where "m' ?c = (Done (), ?c\<lparr>outgoing := outgoing ?c @ bs', syscalls := n',
     totalBytesSent := totalBytesSent ?c + of_nat (length bs'), phaseBytesSent := phaseBytesSent ?c + of_nat (length bs')\<rparr>)"
    using assms(2) unfolding sends_def by blast
  then show "\<exists>n. and_then m (\<lambda>_. m') c = (Done (), c\<lparr>outgoing := outgoing c @ bs @ bs', syscalls := n,
     totalBytesSent := totalBytesSent c + of_nat (length (bs @ bs')), phaseBytesSent := phaseBytesSent c + of_nat (length (bs @ bs'))\<rparr>)"
    using n by (intro exI[of _ n']) (simp add: and_then_def algebra_simps)
qed

lemma receives_ret: "receives (ret x) [] x"
  unfolding receives_def ret_def
proof (intro allI impI)
  fix c :: connection and rest assume "incoming c = [] @ rest"
  then show "\<exists>n. (Done x, c) = (Done x, c\<lparr>incoming := rest, syscalls := n,
     totalBytesRecv := totalBytesRecv c + of_nat (length []), phaseBytesRecv := phaseBytesRecv c + of_nat (length [])\<rparr>)"
    by (intro exI[of _ "syscalls c"]) (cases c, simp)
qed

lemma receives_and_then:
  assumes "receives m bs x" "receives (f x) bs' y"
  shows "receives (and_then m f) (bs @ bs') y"
  unfolding receives_def
proof (intro allI impI)
  fix c :: connection and rest assume i: "incoming c = (bs @ bs') @ rest"
  then obtain n where n: "m c = (Done x, c\<lparr>incoming := bs' @ rest, syscalls := n,
     totalBytesRecv := totalBytesRecv c + of_nat (length bs), phaseBytesRecv := phaseBytesRecv c + of_nat (length bs)\<rparr>)"
    (is "_ = (_, ?c)") using assms(1) by (auto simp: receives_def)
  obtain n' where "f x ?c = (Done y, ?c\<lparr>incoming := rest, syscalls := n',
     totalBytesRecv := totalBytesRecv ?c + of_nat (length bs'), phaseBytesRecv := phaseBytesRecv ?c + of_nat (length bs')\<rparr>)"
    using assms(2)[unfolded receives_def, rule_format, of ?c rest] by auto
  then show "\<exists>n. and_then m f c = (Done y, c\<lparr>incoming := rest, syscalls := n,
     totalBytesRecv := totalBytesRecv c + of_nat (length (bs @ bs')), phaseBytesRecv := phaseBytesRecv c + of_nat (length (bs @ bs'))\<rparr>)"
    using n by (intro exI[of _ n']) (simp add: and_then_def algebra_simps)
qed

lemma receives_end:
  assumes "receives m bs x" "f x = ret y"
  shows "receives (and_then m f) bs y"
  using receives_and_then[OF assms(1), of f "[]" y] assms(2) receives_ret[of y] by simp

end
