(* ===== verification/Framing.thy ===== *)
theory Framing
  imports Transport
begin

text \<open>
  \<open>src/src/network.cpp\<close>, the framing on top of the byte transport: arrays preceded by their length,
  booleans packed into bits, serialised objects preceded by their size.
\<close>

subsection \<open>Packing booleans into bits\<close>

definition pack_bits :: "nat \<Rightarrow> bool list \<Rightarrow> bytes" where
  "pack_bits n bs =
     fold (\<lambda>i packed. if bs ! i then packed[i div 8 := packed ! (i div 8) OR push_bit (i mod 8) 1] else packed)
       [0..<n] (replicate ((n + 7) div 8) 0)"

definition unpack_bits :: "nat \<Rightarrow> bytes \<Rightarrow> bool list" where
  "unpack_bits n packed = map (\<lambda>i. drop_bit (i mod 8) (packed ! (i div 8)) AND 1 \<noteq> 0) [0..<n]"

lemma drop_bit_and_1: "drop_bit k w AND 1 \<noteq> 0 \<longleftrightarrow> bit w k" for w :: u8
  by (simp add: and_one_eq bit_iff_odd_drop_bit odd_iff_mod_2_eq_one)

lemma pack_bits_loop:
  assumes "k \<le> n"
  shows "let p = fold (\<lambda>i packed. if bs ! i then packed[i div 8 := packed ! (i div 8) OR push_bit (i mod 8) (1 :: u8)] else packed)
       [0..<k] (replicate ((n + 7) div 8) 0)
     in length p = (n + 7) div 8 \<and> (\<forall>j<n. bit (p ! (j div 8)) (j mod 8) = (j < k \<and> bs ! j))"
  using assms
proof (induction k)
  case (Suc k)
  define p where "p = fold (\<lambda>i packed. if bs ! i then packed[i div 8 := packed ! (i div 8) OR push_bit (i mod 8) (1 :: u8)] else packed)
       [0..<k] (replicate ((n + 7) div 8) 0)"
  have p: "length p = (n + 7) div 8" "\<And>j. j < n \<Longrightarrow> bit (p ! (j div 8)) (j mod 8) = (j < k \<and> bs ! j)"
    using Suc by (simp_all add: p_def Let_def)
  have k: "k div 8 < length p" using Suc.prems p(1) by simp
  have eq: "j div 8 = k div 8 \<Longrightarrow> j mod 8 = k mod 8 \<longleftrightarrow> j = k" for j by (metis div_mult_mod_eq)
  have "bit (p[k div 8 := p ! (k div 8) OR push_bit (k mod 8) 1] ! (j div 8)) (j mod 8) = (j \<le> k \<and> bs ! j)"
    if "j < n" "bs ! k" for j
  proof (cases "j div 8 = k div 8")
    case True
    then show ?thesis using p(2)[OF that(1)] eq[OF True] k that(2) by (auto simp: bit_simps)
  next
    case False
    then show ?thesis using p(2)[OF that(1)] k by (auto simp: nth_list_update)
  qed
  then show ?case using p by (auto simp: p_def[symmetric] Let_def less_Suc_eq_le less_le)
qed (auto simp: Let_def)

lemma length_pack_bits [simp]: "length (pack_bits n bs) = (n + 7) div 8"
  using pack_bits_loop[of n n bs] by (simp add: pack_bits_def Let_def)

lemma unpack_pack_bits: "length bs = n \<Longrightarrow> unpack_bits n (pack_bits n bs) = bs"
  using pack_bits_loop[of n n bs]
  by (intro nth_equalityI) (simp_all add: unpack_bits_def pack_bits_def Let_def drop_bit_and_1)

subsection \<open>Words in memory\<close>

definition words_bytes :: "nat \<Rightarrow> 'a::len word list \<Rightarrow> bytes" where
  "words_bytes k ws = concat (map (le_bytes k) ws)"

definition bytes_words :: "nat \<Rightarrow> nat \<Rightarrow> bytes \<Rightarrow> 'a::len word list" where
  "bytes_words k n bs = map (\<lambda>i. le_word (take k (drop (k * i) bs))) [0..<n]"

lemma length_words_bytes [simp]: "length (words_bytes k ws) = k * length ws"
  by (induction ws) (simp_all add: words_bytes_def)

lemma words_bytes_slice:
  "i < length ws \<Longrightarrow> take k (drop (k * i) (words_bytes k ws)) = le_bytes k (ws ! i)"
proof (induction ws arbitrary: i)
  case (Cons w ws)
  show ?case
  proof (cases i)
    case (Suc j)
    then show ?thesis using Cons by (simp add: words_bytes_def)
  qed (simp add: words_bytes_def)
qed simp

lemma bytes_words_bytes:
  fixes ws :: "'a::len word list"
  assumes "LENGTH('a) \<le> 8 * k" "length ws = n"
  shows "bytes_words k n (words_bytes k ws) = ws"
  using assms by (intro nth_equalityI) (simp_all add: bytes_words_def words_bytes_slice le_word_le_bytes)

subsection \<open>Arrays with their length\<close>

text \<open>The length travels as a \<open>size_t\<close>.\<close>

definition expect_count :: "os \<Rightarrow> u64 \<Rightarrow> unit io" where
  "expect_count os cnt =
     and_then (recvData os 8) (\<lambda>bs. if le_word bs \<noteq> cnt then stop_with Failed else ret ())"

definition sendBoolArray :: "os \<Rightarrow> u8 list \<Rightarrow> u64 \<Rightarrow> unit io" where
  "sendBoolArray os data cnt =
     (if length data < unat cnt then stop_with Trap else
      and_then (sendData os (le_bytes 8 cnt)) (\<lambda>_. sendData os (pack_bits (unat cnt) (map (\<lambda>b. b \<noteq> 0) data))))"

definition recvBoolArray :: "os \<Rightarrow> u64 \<Rightarrow> u8 list io" where
  "recvBoolArray os cnt =
     and_then (expect_count os cnt) (\<lambda>_.
     and_then (recvData os ((unat cnt + 7) div 8)) (\<lambda>packed. ret (map of_bool (unpack_bits (unat cnt) packed))))"

text \<open>\<open>count * sizeof(...)\<close> wraps like every \<open>size_t\<close> product.\<close>

definition sendUint32Array :: "os \<Rightarrow> u32 list \<Rightarrow> u64 \<Rightarrow> unit io" where
  "sendUint32Array os data cnt =
     (if length data < unat cnt then stop_with Trap else
      and_then (sendData os (le_bytes 8 cnt)) (\<lambda>_. sendData os (take (unat (cnt * 4)) (words_bytes 4 data))))"

definition recvUint32Array :: "os \<Rightarrow> u64 \<Rightarrow> u32 list io" where
  "recvUint32Array os cnt =
     and_then (expect_count os cnt) (\<lambda>_.
     and_then (recvData os (unat (cnt * 4))) (\<lambda>bs. ret (bytes_words 4 (unat cnt) bs)))"

definition sendUint64Array :: "os \<Rightarrow> u64 list \<Rightarrow> u64 \<Rightarrow> unit io" where
  "sendUint64Array os data cnt =
     (if length data < unat cnt then stop_with Trap else
      and_then (sendData os (le_bytes 8 cnt)) (\<lambda>_. sendData os (take (unat (cnt * 8)) (words_bytes 8 data))))"

definition recvUint64Array :: "os \<Rightarrow> u64 \<Rightarrow> u64 list io" where
  "recvUint64Array os cnt =
     and_then (expect_count os cnt) (\<lambda>_.
     and_then (recvData os (unat (cnt * 8))) (\<lambda>bs. ret (bytes_words 8 (unat cnt) bs)))"

text \<open>The bytes of each array message.\<close>

definition bool_array_bytes :: "bool list \<Rightarrow> bytes" where
  "bool_array_bytes bs = le_bytes 8 (of_nat (length bs) :: u64) @ pack_bits (length bs) bs"

definition word_array_bytes :: "nat \<Rightarrow> 'a::len word list \<Rightarrow> bytes" where
  "word_array_bytes k ws = le_bytes 8 (of_nat (length ws) :: u64) @ words_bytes k ws"

lemma receives_expect_count: "delivers os \<Longrightarrow> receives (expect_count os cnt) (le_bytes 8 cnt) ()"
  unfolding expect_count_def by (rule receives_end[OF receives_recvData]) (simp_all add: le_word_le_bytes)

lemma sends_framed:
  "delivers os \<Longrightarrow> sends (and_then (sendData os (le_bytes 8 cnt)) (\<lambda>_. sendData os bs)) (le_bytes 8 cnt @ bs)"
  by (intro sends_and_then sends_sendData)

lemma receives_framed:
  assumes "delivers os" "length bs = n" "f bs = ret x"
  shows "receives (and_then (expect_count os cnt) (\<lambda>_. and_then (recvData os n) f)) (le_bytes 8 cnt @ bs) x"
  by (intro receives_and_then[OF receives_expect_count] receives_end[OF receives_recvData] assms)

lemma bool_array_round_trip:
  assumes "delivers os" "length bs < 2 ^ 64" "map (\<lambda>b. b \<noteq> 0) data = bs"
  shows "sends (sendBoolArray os data (of_nat (length bs))) (bool_array_bytes bs)"
    and "receives (recvBoolArray os (of_nat (length bs))) (bool_array_bytes bs) (map of_bool bs)"
proof -
  have c: "unat (of_nat (length bs) :: u64) = length bs" using assms(2) by (simp add: unat_of_nat take_bit_nat_eq_self)
  have l: "length data = length bs" using assms(3) by (metis length_map)
  show "sends (sendBoolArray os data (of_nat (length bs))) (bool_array_bytes bs)"
    using sends_framed[OF assms(1)] by (simp add: sendBoolArray_def bool_array_bytes_def c l assms(3))
  show "receives (recvBoolArray os (of_nat (length bs))) (bool_array_bytes bs) (map of_bool bs)"
    unfolding recvBoolArray_def bool_array_bytes_def c
    by (rule receives_framed[OF assms(1)]) (simp_all add: unpack_pack_bits)
qed

lemma unat_count_bytes:
  assumes "a * k < 2 ^ 64" "0 < k"
  shows "unat (of_nat a :: u64) = a" "unat (of_nat a * of_nat k :: u64) = a * k"
proof -
  have "a * 1 \<le> a * k" using assms(2) by (intro mult_left_mono) simp_all
  then have "a < 2 ^ 64" using assms(1) by (simp only: mult_1_right)
  then show "unat (of_nat a :: u64) = a" by (simp add: unat_of_nat take_bit_nat_eq_self)
  show "unat (of_nat a * of_nat k :: u64) = a * k"
    using unat_of_nat[of "a * k", where 'a = 64] assms(1) by (simp add: take_bit_nat_eq_self flip: of_nat_mult)
qed

lemma uint32_array_round_trip:
  fixes ws :: "u32 list"
  assumes "delivers os" "length ws * 4 < 2 ^ 64"
  shows "sends (sendUint32Array os ws (of_nat (length ws))) (word_array_bytes 4 ws)"
    and "receives (recvUint32Array os (of_nat (length ws))) (word_array_bytes 4 ws) ws"
proof -
  have c: "unat (of_nat (length ws) :: u64) = length ws" "unat (of_nat (length ws) * 4 :: u64) = length ws * 4"
    using unat_count_bytes[OF assms(2)] by simp_all
  show "sends (sendUint32Array os ws (of_nat (length ws))) (word_array_bytes 4 ws)"
    using sends_framed[OF assms(1)] by (simp add: sendUint32Array_def word_array_bytes_def c)
  show "receives (recvUint32Array os (of_nat (length ws))) (word_array_bytes 4 ws) ws"
    unfolding recvUint32Array_def word_array_bytes_def c
    by (rule receives_framed[OF assms(1)]) (simp_all add: bytes_words_bytes)
qed

lemma uint64_array_round_trip:
  fixes ws :: "u64 list"
  assumes "delivers os" "length ws * 8 < 2 ^ 64"
  shows "sends (sendUint64Array os ws (of_nat (length ws))) (word_array_bytes 8 ws)"
    and "receives (recvUint64Array os (of_nat (length ws))) (word_array_bytes 8 ws) ws"
proof -
  have c: "unat (of_nat (length ws) :: u64) = length ws" "unat (of_nat (length ws) * 8 :: u64) = length ws * 8"
    using unat_count_bytes[OF assms(2)] by simp_all
  show "sends (sendUint64Array os ws (of_nat (length ws))) (word_array_bytes 8 ws)"
    using sends_framed[OF assms(1)] by (simp add: sendUint64Array_def word_array_bytes_def c)
  show "receives (recvUint64Array os (of_nat (length ws))) (word_array_bytes 8 ws) ws"
    unfolding recvUint64Array_def word_array_bytes_def c
    by (rule receives_framed[OF assms(1)]) (simp_all add: bytes_words_bytes)
qed

end
