(* ===== verification/Messages.thy ===== *)
theory Messages
  imports Framing
begin

text \<open>
  \<open>src/src/network.cpp\<close>, the messages of the protocol: ciphertexts, public keys, batches of queries
  and of responses. Serialisation (\<open>save\<close>, \<open>load\<close>) is an argument; \<open>None\<close> stands for undefined
  behaviour of the call, \<open>Inl\<close> for an exception. The locale \<open>wire_format\<close> is what the messages
  need of it.
\<close>

type_synonym 'c save = "'c \<Rightarrow> (error + bytes) option"
type_synonym 'c load = "bytes \<Rightarrow> (error + 'c) option"

definition lift_outcome :: "(error + 'a) option \<Rightarrow> 'a io" where
  "lift_outcome r = (case r of None \<Rightarrow> stop_with Trap | Some (Inl e) \<Rightarrow> stop_with (Threw e) | Some (Inr x) \<Rightarrow> ret x)"

subsection \<open>Ciphertexts and keys\<close>

definition sendCiphertext :: "os \<Rightarrow> 'c save \<Rightarrow> 'c \<Rightarrow> unit io" where
  "sendCiphertext os save ct =
     and_then (lift_outcome (save ct)) (\<lambda>data.
     and_then (sendData os (le_bytes 8 (of_nat (length data) :: u64))) (\<lambda>_. sendData os data))"

definition recvCiphertext :: "os \<Rightarrow> 'c load \<Rightarrow> 'c io" where
  "recvCiphertext os load =
     and_then (recvData os 8) (\<lambda>sz.
     and_then (recvData os (unat (le_word sz :: u64))) (\<lambda>buffer. lift_outcome (load buffer)))"

fun send_all :: "('a \<Rightarrow> unit io) \<Rightarrow> 'a list \<Rightarrow> unit io" where
  "send_all f [] = ret ()"
| "send_all f (x # xs) = and_then (f x) (\<lambda>_. send_all f xs)"

fun recv_all :: "'a io \<Rightarrow> nat \<Rightarrow> 'a list io" where
  "recv_all m 0 = ret []"
| "recv_all m (Suc n) = and_then m (\<lambda>x. and_then (recv_all m n) (\<lambda>xs. ret (x # xs)))"

definition sendCiphertextVector :: "os \<Rightarrow> 'c save \<Rightarrow> 'c list \<Rightarrow> unit io" where
  "sendCiphertextVector os save cts =
     and_then (sendData os (le_bytes 8 (of_nat (length cts) :: u64))) (\<lambda>_. send_all (sendCiphertext os save) cts)"

definition recvCiphertextVector :: "os \<Rightarrow> 'c load \<Rightarrow> u64 \<Rightarrow> 'c list io" where
  "recvCiphertextVector os load cnt =
     and_then (expect_count os cnt) (\<lambda>_. recv_all (recvCiphertext os load) (unat cnt))"

text \<open>Public keys travel the same way, with exceptions turned into \<open>false\<close>.\<close>

definition catch :: "'a io \<Rightarrow> 'a io" where
  "catch m c = (case m c of (Threw e, c') \<Rightarrow> (Failed, c') | r \<Rightarrow> r)"

definition sendPublicKey :: "os \<Rightarrow> 'k save \<Rightarrow> 'k \<Rightarrow> unit io" where
  "sendPublicKey os save k =
     catch (and_then (lift_outcome (save k)) (\<lambda>serialized.
       and_then (sendData os (le_bytes 8 (of_nat (length serialized) :: u64))) (\<lambda>_. sendData os serialized)))"

definition recvPublicKey :: "os \<Rightarrow> 'k load \<Rightarrow> 'k io" where
  "recvPublicKey os load =
     catch (and_then (recvData os 8) (\<lambda>dataSize.
       and_then (recvData os (unat (le_word dataSize :: u64))) (\<lambda>buffer. lift_outcome (load buffer))))"

subsection \<open>Batches of queries\<close>

record 'c batch_query =
  bq_bvec :: "bool list"
  bq_Svec :: "u32 list"
  bq_ciphertext :: 'c

definition appendBytes :: "bytes \<Rightarrow> bytes \<Rightarrow> bytes" where
  "appendBytes out data = out @ data"

text \<open>\<open>off + size\<close> is a \<open>size_t\<close> sum; when it wraps, the copy leaves the buffer.\<close>

definition readBytes :: "bytes \<Rightarrow> u64 \<Rightarrow> u64 \<Rightarrow> (bytes \<times> u64) io_result" where
  "readBytes input off sz =
     (if of_nat (length input) < off + sz then Failed
      else if length input < unat off + unat sz then Trap
      else Done (take (unat sz) (drop (unat off) input), off + sz))"

fun bind_result :: "'a io_result \<Rightarrow> ('a \<Rightarrow> 'b io_result) \<Rightarrow> 'b io_result" where
  "bind_result (Done x) f = f x"
| "bind_result Failed f = Failed"
| "bind_result (Threw e) f = Threw e"
| "bind_result Trap f = Trap"

definition append_query :: "'c save \<Rightarrow> u32 \<Rightarrow> bytes \<Rightarrow> 'c batch_query \<Rightarrow> (error + bytes) option" where
  "append_query save PartNum payload q =
     (if length (bq_bvec q) < unat PartNum \<or> length (bq_Svec q) < unat PartNum then None else
      let payload = appendBytes payload (pack_bits (unat PartNum) (bq_bvec q));
          payload = appendBytes payload (take (unat (ucast PartNum * 4 :: u64)) (words_bytes 4 (bq_Svec q)))
      in map_option (map_sum id (\<lambda>ctData. appendBytes (appendBytes payload (le_bytes 8 (of_nat (length ctData) :: u64))) ctData))
           (save (bq_ciphertext q)))"

fun append_queries :: "'c save \<Rightarrow> u32 \<Rightarrow> bytes \<Rightarrow> 'c batch_query list \<Rightarrow> (error + bytes) option" where
  "append_queries save PartNum payload [] = Some (Inr payload)"
| "append_queries save PartNum payload (q # qs) =
     (case append_query save PartNum payload q of
        None \<Rightarrow> None
      | Some (Inl e) \<Rightarrow> Some (Inl e)
      | Some (Inr payload) \<Rightarrow> append_queries save PartNum payload qs)"

definition sendBatchQueries :: "os \<Rightarrow> 'c save \<Rightarrow> u32 \<Rightarrow> 'c batch_query list \<Rightarrow> unit io" where
  "sendBatchQueries os save PartNum queries =
     (let batchSize = of_nat (length queries) :: u32 in
      and_then (lift_outcome (append_queries save PartNum (appendBytes [] (le_bytes 4 batchSize)) queries)) (\<lambda>payload.
      and_then (sendSizedBuffer os (le_bytes 8 (of_nat (length payload) :: u64))) (\<lambda>_. sendSizedBuffer os payload)))"

text \<open>
  The ciphertext is written to a stream, whose \<open>write\<close> takes a signed count: a negative one writes
  nothing and marks the stream bad, so that \<open>load\<close> reads nothing from it.
\<close>

definition parse_query :: "'c load \<Rightarrow> u32 \<Rightarrow> bytes \<Rightarrow> u64 \<Rightarrow> ('c batch_query \<times> u64) io_result" where
  "parse_query load PartNum payload off =
     bind_result (readBytes payload off ((ucast PartNum + 7) div 8)) (\<lambda>(bvecPacked, off).
     bind_result (readBytes payload off (ucast PartNum * 4)) (\<lambda>(Svec, off).
     bind_result (readBytes payload off 8) (\<lambda>(sz, off).
     let ctSize = le_word sz :: u64 in
     if of_nat (length payload) < off + ctSize then Failed
     else if 0 \<le> sint ctSize \<and> length payload < unat off + unat ctSize then Trap
     else case load (if sint ctSize < 0 then [] else take (unat ctSize) (drop (unat off) payload)) of
         None \<Rightarrow> Trap
       | Some (Inl e) \<Rightarrow> Threw e
       | Some (Inr ct) \<Rightarrow> Done (\<lparr>bq_bvec = unpack_bits (unat PartNum) bvecPacked,
           bq_Svec = bytes_words 4 (unat PartNum) Svec, bq_ciphertext = ct\<rparr>, off + ctSize))))"

fun parse_queries :: "'c load \<Rightarrow> u32 \<Rightarrow> bytes \<Rightarrow> nat \<Rightarrow> u64 \<Rightarrow> ('c batch_query list \<times> u64) io_result" where
  "parse_queries load PartNum payload 0 off = Done ([], off)"
| "parse_queries load PartNum payload (Suc n) off =
     bind_result (parse_query load PartNum payload off) (\<lambda>(q, off).
     bind_result (parse_queries load PartNum payload n off) (\<lambda>(qs, off). Done (q # qs, off)))"

definition parse_batch :: "'c load \<Rightarrow> u32 \<Rightarrow> bytes \<Rightarrow> 'c batch_query list io_result" where
  "parse_batch load PartNum payload =
     bind_result (readBytes payload 0 4) (\<lambda>(bs, off).
     bind_result (parse_queries load PartNum payload (unat (le_word bs :: u32)) off) (\<lambda>(qs, off).
     if off = of_nat (length payload) then Done qs else Failed))"

definition recvBatchQueries :: "os \<Rightarrow> 'c load \<Rightarrow> u32 \<Rightarrow> 'c batch_query list io" where
  "recvBatchQueries os load PartNum =
     and_then (recvSizedBuffer os 8) (\<lambda>payloadSize.
     and_then (recvSizedBuffer os (unat (le_word payloadSize :: u64))) (\<lambda>payload.
     stop_with (parse_batch load PartNum payload)))"

subsection \<open>Batches of responses\<close>

record batch_response =
  br_Response_b0 :: "u64 list"
  br_Response_b1 :: "u64 list"

definition sendBatchResponses :: "os \<Rightarrow> u32 \<Rightarrow> batch_response list \<Rightarrow> unit io" where
  "sendBatchResponses os B =
     send_all (\<lambda>r. and_then (sendUint64Array os (br_Response_b0 r) (ucast B)) (\<lambda>_. sendUint64Array os (br_Response_b1 r) (ucast B)))"

definition recvBatchResponses :: "os \<Rightarrow> u32 \<Rightarrow> u32 \<Rightarrow> batch_response list io" where
  "recvBatchResponses os batchSize B =
     recv_all (and_then (recvUint64Array os (ucast B)) (\<lambda>b0. and_then (recvUint64Array os (ucast B)) (\<lambda>b1.
       ret \<lparr>br_Response_b0 = b0, br_Response_b1 = b1\<rparr>))) (unat batchSize)"

subsection \<open>Round trips\<close>

lemma unat_length: "length xs < 2 ^ 64 \<Longrightarrow> unat (of_nat (length xs) :: u64) = length xs"
  by (simp add: unat_of_nat take_bit_nat_eq_self)

lemma sends_lift: "r = Some (Inr x) \<Longrightarrow> sends (f x) bs \<Longrightarrow> sends (and_then (lift_outcome r) f) bs"
  by (simp add: sends_def and_then_def lift_outcome_def ret_def)

lemma receives_lift: "r = Some (Inr x) \<Longrightarrow> receives (lift_outcome r) [] x"
  using receives_ret[of x] by (simp add: lift_outcome_def)

lemma sends_all:
  "(\<And>x. x \<in> set xs \<Longrightarrow> sends (f x) (img x)) \<Longrightarrow> sends (send_all f xs) (concat (map img xs))"
  by (induction xs) (auto intro: sends_ret sends_and_then)

lemma receives_all:
  "(\<And>x. x \<in> set xs \<Longrightarrow> receives m (img x) x) \<Longrightarrow> receives (recv_all m (length xs)) (concat (map img xs)) xs"
proof (induction xs)
  case (Cons x xs)
  then show ?case by (auto intro!: receives_and_then receives_end[where f = "\<lambda>xs. ret (x # xs)"])
qed (simp add: receives_ret)

lemma catch_Done: "m c = (Done x, c') \<Longrightarrow> catch m c = (Done x, c')"
  by (simp add: catch_def)

lemma sends_catch: "sends m bs \<Longrightarrow> sends (catch m) bs"
  unfolding sends_def by (fast intro: catch_Done)

lemma receives_catch: "receives m bs x \<Longrightarrow> receives (catch m) bs x"
  unfolding receives_def by (fast intro: catch_Done)

text \<open>A message preceded by its size.\<close>

definition sized :: "bytes \<Rightarrow> bytes" where
  "sized bs = le_bytes 8 (of_nat (length bs) :: u64) @ bs"

lemma sends_sized:
  "delivers os \<Longrightarrow> sends (and_then (sendData os (le_bytes 8 (of_nat (length bs) :: u64))) (\<lambda>_. sendData os bs)) (sized bs)"
  unfolding sized_def by (rule sends_framed)

lemma receives_sized:
  assumes "delivers os" "length bs < 2 ^ 64" "receives (f bs) [] x"
  shows "receives (and_then (recvData os 8) (\<lambda>sz. and_then (recvData os (unat (le_word sz :: u64))) f)) (sized bs) x"
proof -
  have "receives (and_then (recvData os (length bs)) f) (bs @ []) x"
    by (rule receives_and_then[where f = f and x = bs, OF receives_recvData[OF assms(1) refl] assms(3)])
  then have "receives (and_then (recvData os (unat (le_word (le_bytes 8 (of_nat (length bs) :: u64)) :: u64))) f) bs x"
    by (simp add: le_word_le_bytes unat_length[OF assms(2)])
  then show ?thesis
    unfolding sized_def
    by (intro receives_and_then[where x = "le_bytes 8 (of_nat (length bs) :: u64)"] receives_recvData[OF assms(1)]) simp_all
qed

subsection \<open>Reading a packed buffer\<close>

lemma unat_add_u64: "a + b < 2 ^ 64 \<Longrightarrow> of_nat a + of_nat b = (of_nat (a + b) :: u64)"
  by simp

lemma sint_of_length: "n < 2 ^ 63 \<Longrightarrow> \<not> sint (of_nat n :: u64) < 0"
proof -
  assume "n < 2 ^ 63"
  then have "uint (of_nat n :: u64) = int n" by (simp add: uint_nat unat_of_nat take_bit_nat_eq_self)
  with \<open>n < 2 ^ 63\<close> show ?thesis by (simp add: sint_uint signed_take_bit_int_eq_self)
qed

lemma readBytes_middle:
  assumes "input = pre @ bs @ post" "length input < 2 ^ 64" "off = of_nat (length pre)" "sz = of_nat (length bs)"
  shows "readBytes input off sz = Done (bs, of_nat (length (pre @ bs)))"
proof -
  have l: "length pre + length bs \<le> length input" using assms(1) by simp
  then have u: "unat off = length pre" "unat sz = length bs"
    using assms by (simp_all add: unat_of_nat take_bit_nat_eq_self)
  have s: "off + sz = of_nat (length (pre @ bs))" using assms(3,4) by simp
  have "unat (off + sz) = length pre + length bs"
    unfolding s using l assms(2) by (subst unat_length) simp_all
  then have "\<not> (of_nat (length input) :: u64) < off + sz"
    using l unat_length[OF assms(2)] by (simp add: word_less_nat_alt)
  then show ?thesis
    using l s by (simp add: readBytes_def u) (simp add: assms(1))
qed

subsection \<open>The contract of serialisation, and the messages under it\<close>

definition vector_bytes :: "('c \<Rightarrow> bytes) \<Rightarrow> 'c list \<Rightarrow> bytes" where
  "vector_bytes img cts = le_bytes 8 (of_nat (length cts) :: u64) @ concat (map (\<lambda>ct. sized (img ct)) cts)"

locale wire_format =
  fixes save :: "'c save" and load :: "'c load" and img :: "'c \<Rightarrow> bytes" and valid :: "'c \<Rightarrow> bool"
  assumes save_image: "valid x \<Longrightarrow> save x = Some (Inr (img x))"
    and load_image: "valid x \<Longrightarrow> load (img x) = Some (Inr x)"
    and image_bound: "valid x \<Longrightarrow> length (img x) < 2 ^ 63"
begin

lemma image_size: "valid x \<Longrightarrow> length (img x) < 2 ^ 64"
  using image_bound[of x] by simp

lemma ciphertext_message:
  assumes "delivers os" "valid ct"
  shows "sends (sendCiphertext os save ct) (sized (img ct))"
    and "receives (recvCiphertext os load) (sized (img ct)) ct"
  unfolding sendCiphertext_def recvCiphertext_def
  by (rule sends_lift[OF save_image[OF assms(2)] sends_sized[OF assms(1)]],
    rule receives_sized[where f = "\<lambda>buffer. lift_outcome (load buffer)", OF assms(1) image_size[OF assms(2)] receives_lift[OF load_image[OF assms(2)]]])

lemma key_message:
  assumes "delivers os" "valid k"
  shows "sends (sendPublicKey os save k) (sized (img k))"
    and "receives (recvPublicKey os load) (sized (img k)) k"
  unfolding sendPublicKey_def recvPublicKey_def
  by (rule sends_catch[OF sends_lift[OF save_image[OF assms(2)] sends_sized[OF assms(1)]]],
    rule receives_catch[OF receives_sized[where f = "\<lambda>buffer. lift_outcome (load buffer)", OF assms(1) image_size[OF assms(2)] receives_lift[OF load_image[OF assms(2)]]]])

lemma vector_message:
  assumes "delivers os" "\<And>ct. ct \<in> set cts \<Longrightarrow> valid ct" "length cts < 2 ^ 64"
  shows "sends (sendCiphertextVector os save cts) (vector_bytes img cts)"
    and "receives (recvCiphertextVector os load (of_nat (length cts))) (vector_bytes img cts) cts"
proof -
  show "sends (sendCiphertextVector os save cts) (vector_bytes img cts)"
    unfolding sendCiphertextVector_def vector_bytes_def
    by (intro sends_and_then sends_sendData sends_all ciphertext_message(1) assms)
  show "receives (recvCiphertextVector os load (of_nat (length cts))) (vector_bytes img cts) cts"
    unfolding recvCiphertextVector_def vector_bytes_def unat_length[OF assms(3)]
    by (intro receives_and_then[OF receives_expect_count] receives_all ciphertext_message(2) assms)
qed

end

subsection \<open>Batches\<close>

definition valid_query :: "('c \<Rightarrow> bool) \<Rightarrow> u32 \<Rightarrow> 'c batch_query \<Rightarrow> bool" where
  "valid_query valid PartNum q \<longleftrightarrow> length (bq_bvec q) = unat PartNum \<and> length (bq_Svec q) = unat PartNum \<and> valid (bq_ciphertext q)"

definition query_bytes :: "('c \<Rightarrow> bytes) \<Rightarrow> u32 \<Rightarrow> 'c batch_query \<Rightarrow> bytes" where
  "query_bytes img PartNum q =
     pack_bits (unat PartNum) (bq_bvec q) @ words_bytes 4 (bq_Svec q) @ sized (img (bq_ciphertext q))"

lemma partnum_bytes:
  "unat (ucast PartNum * 4 :: u64) = unat PartNum * 4" "(ucast PartNum + 7) div 8 = (of_nat ((unat PartNum + 7) div 8) :: u64)"
  "ucast PartNum * 4 = (of_nat (4 * unat PartNum) :: u64)" for PartNum :: u32
proof -
  have P: "unat PartNum < 2 ^ 32" using unat_less_exp[of PartNum] by simp
  have c: "ucast PartNum = (of_nat (unat PartNum) :: u64)" by simp
  show m: "ucast PartNum * 4 = (of_nat (4 * unat PartNum) :: u64)" by simp
  show "unat (ucast PartNum * 4 :: u64) = unat PartNum * 4"
    unfolding m using P by (simp only: unat_of_nat) (simp add: take_bit_nat_eq_self mult.commute)
  have a: "ucast PartNum + 7 = (of_nat (unat PartNum + 7) :: u64)" by simp
  have "unat (of_nat (unat PartNum + 7) :: u64) = unat PartNum + 7"
    using P by (simp only: unat_of_nat) (simp add: take_bit_nat_eq_self)
  then show "(ucast PartNum + 7) div 8 = (of_nat ((unat PartNum + 7) div 8) :: u64)"
    unfolding a word_unat_eq_iff unat_div using P by (simp only: unat_of_nat) (simp add: take_bit_nat_eq_self)
qed

text \<open>The bytes of a batch without its outer length.\<close>

definition batch_payload :: "('c \<Rightarrow> bytes) \<Rightarrow> u32 \<Rightarrow> 'c batch_query list \<Rightarrow> bytes" where
  "batch_payload img PartNum qs = le_bytes 4 (of_nat (length qs) :: u32) @ concat (map (query_bytes img PartNum) qs)"

context wire_format
begin

lemma append_queries_result:
  assumes "\<And>q. q \<in> set qs \<Longrightarrow> valid_query valid PartNum q"
  shows "append_queries save PartNum payload qs = Some (Inr (payload @ concat (map (query_bytes img PartNum) qs)))"
  using assms
proof (induction qs arbitrary: payload)
  case (Cons q qs)
  have v: "valid_query valid PartNum q" using Cons.prems by simp
  then have "append_query save PartNum payload q = Some (Inr (payload @ query_bytes img PartNum q))"
    by (simp add: append_query_def valid_query_def save_image appendBytes_def query_bytes_def sized_def partnum_bytes(1))
  then show ?case using Cons by simp
qed simp

lemma parse_query_result:
  assumes "valid_query valid PartNum q" "payload = pre @ query_bytes img PartNum q @ post" "length payload < 2 ^ 64"
  shows "parse_query load PartNum payload (of_nat (length pre)) = Done (q, of_nat (length (pre @ query_bytes img PartNum q)))"
proof -
  let ?n = "unat PartNum"
  let ?b = "pack_bits ?n (bq_bvec q)" and ?s = "words_bytes 4 (bq_Svec q)" and ?i = "img (bq_ciphertext q)"
  let ?l = "le_bytes 8 (of_nat (length ?i) :: u64)"
  have q: "length (bq_bvec q) = ?n" "length (bq_Svec q) = ?n" "valid (bq_ciphertext q)"
    using assms(1) by (simp_all add: valid_query_def)
  have r1: "readBytes payload (of_nat (length pre)) ((ucast PartNum + 7) div 8) = Done (?b, of_nat (length (pre @ ?b)))"
    by (rule readBytes_middle[OF _ assms(3)])
      (simp_all add: assms(2) query_bytes_def partnum_bytes)
  have r2: "readBytes payload (of_nat (length (pre @ ?b))) (ucast PartNum * 4) = Done (?s, of_nat (length ((pre @ ?b) @ ?s)))"
    by (rule readBytes_middle[OF _ assms(3)])
      (simp_all add: assms(2) query_bytes_def partnum_bytes q)
  have r3: "readBytes payload (of_nat (length ((pre @ ?b) @ ?s))) 8 = Done (?l, of_nat (length (((pre @ ?b) @ ?s) @ ?l)))"
    by (rule readBytes_middle[OF _ assms(3)])
      (simp_all add: assms(2) query_bytes_def sized_def)
  have r4: "readBytes payload (of_nat (length (((pre @ ?b) @ ?s) @ ?l))) (of_nat (length ?i))
      = Done (?i, of_nat (length ((((pre @ ?b) @ ?s) @ ?l) @ ?i)))"
    by (rule readBytes_middle[OF _ assms(3)])
      (simp_all add: assms(2) query_bytes_def sized_def)
  have sz: "le_word ?l = (of_nat (length ?i) :: u64)" by (simp add: le_word_le_bytes)
  let ?off = "of_nat (length (((pre @ ?b) @ ?s) @ ?l)) :: u64"
  have c: "\<not> of_nat (length payload) < ?off + of_nat (length ?i)" "\<not> length payload < unat ?off + unat (of_nat (length ?i) :: u64)"
    "take (unat (of_nat (length ?i) :: u64)) (drop (unat ?off) payload) = ?i"
    "?off + of_nat (length ?i) = of_nat (length (pre @ query_bytes img PartNum q))"
    using r4 by (auto simp: readBytes_def query_bytes_def sized_def split: if_splits)
  have pos: "\<not> sint (of_nat (length ?i) :: u64) < 0"
    using image_bound[OF q(3)] by (rule sint_of_length)
  have bits: "unpack_bits ?n ?b = bq_bvec q" "bytes_words 4 ?n ?s = bq_Svec q"
    by (simp_all add: unpack_pack_bits bytes_words_bytes q)
  show ?thesis
    unfolding parse_query_def r1 bind_result.simps prod.case r2 r3 Let_def sz c(3,4) if_not_P[OF c(1)[unfolded c(4)]] if_not_P[OF pos] c(3)
    using c(2) by (simp add: load_image[OF q(3)] bits)
qed

lemma parse_queries_result:
  assumes "\<And>q. q \<in> set qs \<Longrightarrow> valid_query valid PartNum q" "payload = pre @ concat (map (query_bytes img PartNum) qs)"
    and "length payload < 2 ^ 64"
  shows "parse_queries load PartNum payload (length qs) (of_nat (length pre)) = Done (qs, of_nat (length payload))"
  using assms(1,2)
proof (induction qs arbitrary: pre)
  case (Cons q qs)
  have "parse_query load PartNum payload (of_nat (length pre)) = Done (q, of_nat (length (pre @ query_bytes img PartNum q)))"
    by (rule parse_query_result[OF _ _ assms(3)]) (use Cons.prems in simp_all)
  moreover have "parse_queries load PartNum payload (length qs) (of_nat (length (pre @ query_bytes img PartNum q)))
      = Done (qs, of_nat (length payload))"
    by (rule Cons.IH) (use Cons.prems in simp_all)
  ultimately show ?case by simp
qed simp

lemma batch_message:
  assumes "delivers os" "\<And>q. q \<in> set qs \<Longrightarrow> valid_query valid PartNum q" "length qs < 2 ^ 32"
    and "length (batch_payload img PartNum qs) < 2 ^ 64"
  shows "sends (sendBatchQueries os save PartNum qs) (sized (batch_payload img PartNum qs))"
    and "receives (recvBatchQueries os load PartNum) (sized (batch_payload img PartNum qs)) qs"
proof -
  let ?p = "batch_payload img PartNum qs" and ?h = "le_bytes 4 (of_nat (length qs) :: u32)"
  have "append_queries save PartNum (appendBytes [] ?h) qs = Some (Inr ?p)"
    using append_queries_result[OF assms(2), of qs ?h] by (simp add: appendBytes_def batch_payload_def)
  then show "sends (sendBatchQueries os save PartNum qs) (sized ?p)"
    unfolding sendBatchQueries_def Let_def sendSizedBuffer_def
    by (rule sends_lift[where x = ?p]) (rule sends_sized[OF assms(1)])
  have r: "readBytes ?p 0 4 = Done (?h, of_nat (length ([] @ ?h)))"
    by (rule readBytes_middle[OF _ assms(4)]) (simp_all add: batch_payload_def)
  have n: "unat (le_word ?h :: u32) = length qs"
    using assms(3) by (simp add: le_word_le_bytes unat_of_nat take_bit_nat_eq_self)
  have "parse_queries load PartNum ?p (length qs) (of_nat (length ?h)) = Done (qs, of_nat (length ?p))"
    by (rule parse_queries_result[OF assms(2) _ assms(4)]) (simp_all add: batch_payload_def)
  then have "parse_batch load PartNum ?p = Done qs"
    unfolding parse_batch_def r bind_result.simps prod.case n append_Nil by simp
  then have "stop_with (parse_batch load PartNum ?p) = ret qs" by (simp add: fun_eq_iff stop_with_def ret_def)
  then have "receives (stop_with (parse_batch load PartNum ?p)) [] qs" using receives_ret by metis
  then show "receives (recvBatchQueries os load PartNum) (sized ?p) qs"
    unfolding recvBatchQueries_def recvSizedBuffer_def
    by (rule receives_sized[where f = "\<lambda>payload. stop_with (parse_batch load PartNum payload)", OF assms(1,4)])
qed

end

end
