(* ===== verification/Serialize.thy ===== *)
theory Serialize
  imports Messages
begin

text \<open>
  Serialisation of BFV ciphertexts: \<open>save_raw\<close> and \<open>load_raw\<close> of \<open>encryption/ciphertext.cu\<close> under the
  wrapper of \<open>encryption/utils/serialize.h\<close>. A stream that ends early leaves the fields unset:
  \<open>None\<close>. The zstd library (\<open>unzstd\<close>), the parameter chain (\<open>known\<close>) and the seed expansion
  (\<open>sample_c1\<close>, from seed and size) are arguments.
\<close>

record stored_ciphertext =
  st_polynomial_count :: u64
  st_coeff_modulus_size :: u64
  st_poly_modulus_degree :: u64
  st_data :: "u64 list"
  st_parms_id :: "u64 list"
  st_is_ntt_form :: bool
  st_seed :: u64
  st_device :: bool

definition contains_seed :: "stored_ciphertext \<Rightarrow> bool" where
  "contains_seed ct \<longleftrightarrow> st_seed ct \<noteq> 0"

text \<open>\<open>load_object\<close> and \<open>load_array\<close>: the next bytes of the stream.\<close>

definition load_bytes :: "nat \<Rightarrow> bytes \<Rightarrow> (bytes \<times> bytes) option" where
  "load_bytes n stream = (if n \<le> length stream then Some (take n stream, drop n stream) else None)"

definition load_u64 :: "bytes \<Rightarrow> (u64 \<times> bytes) option" where
  "load_u64 stream = map_option (\<lambda>(bs, stream). (le_word bs, stream)) (load_bytes 8 stream)"

definition load_array :: "nat \<Rightarrow> bytes \<Rightarrow> (u64 list \<times> bytes) option" where
  "load_array n stream = map_option (\<lambda>(bs, stream). (bytes_words 8 n bs, stream)) (load_bytes (8 * n) stream)"

definition flags_of :: "stored_ciphertext \<Rightarrow> u8" where
  "flags_of ct = (of_bool (st_is_ntt_form ct) OR push_bit 1 (of_bool (contains_seed ct))) OR push_bit 2 (of_bool (st_device ct))"

definition header_bytes :: "stored_ciphertext \<Rightarrow> bytes" where
  "header_bytes ct = words_bytes 8 (st_parms_id ct) @ le_bytes 8 (st_polynomial_count ct) @
     le_bytes 8 (st_coeff_modulus_size ct) @ le_bytes 8 (st_poly_modulus_degree ct) @ [flags_of ct]"

definition poly_size :: "stored_ciphertext \<Rightarrow> nat" where
  "poly_size ct = unat (st_poly_modulus_degree ct * st_coeff_modulus_size ct)"

definition save_raw :: "stored_ciphertext \<Rightarrow> (error + bytes) option" where
  "save_raw ct =
     (if contains_seed ct then
        if st_polynomial_count ct \<noteq> 2
        then Some (Inl (LogicError ''[Ciphertext::save] Ciphertext contains seed but polynomial count is not 2.''))
        else if length (st_data ct) < poly_size ct then None
        else Some (Inr (header_bytes ct @ le_bytes 8 (st_seed ct) @ words_bytes 8 (take (poly_size ct) (st_data ct))))
      else Some (Inr (header_bytes ct @ words_bytes 8 (st_data ct))))"

definition expand_seed :: "(u64 list \<Rightarrow> bool) \<Rightarrow> (u64 \<Rightarrow> nat \<Rightarrow> u64 list) \<Rightarrow> stored_ciphertext \<Rightarrow> error + stored_ciphertext" where
  "expand_seed known sample_c1 ct =
     (if \<not> contains_seed ct then Inl (InvalidArgument ''[Ciphertext::expand_seed] Ciphertext does not contain seed.'')
      else if \<not> known (st_parms_id ct) then Inl (InvalidArgument ''[Ciphertext::expand_seed] ParmsID is not valid.'')
      else Inr (ct\<lparr>st_data := take (poly_size ct) (st_data ct) @ sample_c1 (st_seed ct) (poly_size ct), st_seed := 0\<rparr>))"

definition load_header :: "bytes \<Rightarrow> (stored_ciphertext \<times> u8 \<times> bytes) option" where
  "load_header stream =
     (case load_array 4 stream of None \<Rightarrow> None | Some (parms, stream) \<Rightarrow>
     (case load_u64 stream of None \<Rightarrow> None | Some (cnt, stream) \<Rightarrow>
     (case load_u64 stream of None \<Rightarrow> None | Some (cms, stream) \<Rightarrow>
     (case load_u64 stream of None \<Rightarrow> None | Some (deg, stream) \<Rightarrow>
     (case load_bytes 1 stream of None \<Rightarrow> None | Some (f, stream) \<Rightarrow>
        Some (\<lparr>st_polynomial_count = cnt, st_coeff_modulus_size = cms, st_poly_modulus_degree = deg, st_data = [],
           st_parms_id = parms, st_is_ntt_form = (f ! 0 AND 1 \<noteq> 0), st_seed = 0, st_device = (f ! 0 AND 4 \<noteq> 0)\<rparr>,
          f ! 0, stream))))))"

definition load_raw :: "(u64 list \<Rightarrow> bool) \<Rightarrow> (u64 \<Rightarrow> nat \<Rightarrow> u64 list) \<Rightarrow> bytes \<Rightarrow> (error + stored_ciphertext) option" where
  "load_raw known sample_c1 stream =
     (case load_header stream of None \<Rightarrow> None | Some (ct, flags, stream) \<Rightarrow>
        if flags AND 8 \<noteq> 0
        then Some (Inl (LogicError ''[Ciphertext::load] Trying to call load with ciphertext with only terms saved.''))
        else if flags AND 2 \<noteq> 0 then
          (case load_u64 stream of None \<Rightarrow> None | Some (seed, stream) \<Rightarrow>
             map_option (\<lambda>(c0, stream). expand_seed known sample_c1 (ct\<lparr>st_data := c0 @ replicate (poly_size ct) 0, st_seed := seed\<rparr>))
               (load_array (poly_size ct) stream))
        else map_option (\<lambda>(data, stream). Inr (ct\<lparr>st_data := data\<rparr>))
          (load_array (unat (st_poly_modulus_degree ct * st_coeff_modulus_size ct * st_polynomial_count ct)) stream))"

text \<open>The wrapper: a byte for the compression mode, here none, then the object.\<close>

definition save_ciphertext :: "stored_ciphertext save" where
  "save_ciphertext ct = map_option (map_sum id (\<lambda>raw. 0 # raw)) (save_raw ct)"

definition load_ciphertext ::
  "(u64 list \<Rightarrow> bool) \<Rightarrow> (u64 \<Rightarrow> nat \<Rightarrow> u64 list) \<Rightarrow> (bytes \<Rightarrow> error + bytes) \<Rightarrow> stored_ciphertext load" where
  "load_ciphertext known sample_c1 unzstd stream =
     (case load_bytes 1 stream of None \<Rightarrow> None | Some (mode, stream) \<Rightarrow>
        if mode ! 0 = 0 then load_raw known sample_c1 stream
        else case load_u64 stream of None \<Rightarrow> None | Some (compressed_size, stream) \<Rightarrow>
          (case load_bytes (unat compressed_size) stream of None \<Rightarrow> None | Some (buffer, stream) \<Rightarrow>
             if mode ! 0 = 1 then (case unzstd buffer of Inl e \<Rightarrow> Some (Inl e) | Inr raw \<Rightarrow> load_raw known sample_c1 raw)
             else Some (Inl (RuntimeError ''Invalid compression mode''))))"

subsection \<open>Round trips\<close>

lemma load_bytes_append: "length bs = n \<Longrightarrow> load_bytes n (bs @ rest) = Some (bs, rest)"
  by (simp add: load_bytes_def)

lemma load_u64_le: "load_u64 (le_bytes 8 w @ rest) = Some (w, rest)"
  by (simp add: load_u64_def load_bytes_append le_word_le_bytes)

lemma load_array_words: "length ws = n \<Longrightarrow> load_array n (words_bytes 8 ws @ rest) = Some (ws, rest)"
  by (simp add: load_array_def load_bytes_append bytes_words_bytes)

lemma load_bytes_one: "load_bytes (Suc 0) (f # rest) = Some ([f], rest)"
  by (simp add: load_bytes_def)

lemma poly_size_updates [simp]: "poly_size (ct\<lparr>st_data := d\<rparr>) = poly_size ct" "poly_size (ct\<lparr>st_seed := s\<rparr>) = poly_size ct"
  by (simp_all add: poly_size_def)

lemma flags_bits:
  "flags_of ct AND 1 \<noteq> 0 \<longleftrightarrow> st_is_ntt_form ct" "flags_of ct AND 2 \<noteq> 0 \<longleftrightarrow> contains_seed ct"
  "flags_of ct AND 4 \<noteq> 0 \<longleftrightarrow> st_device ct" "flags_of ct AND 8 = 0"
  by (cases "st_is_ntt_form ct"; cases "contains_seed ct"; cases "st_device ct"; simp add: flags_of_def)+

lemma load_header_result:
  assumes "length (st_parms_id ct) = 4"
  shows "load_header (header_bytes ct @ rest) = Some (ct\<lparr>st_data := [], st_seed := 0\<rparr>, flags_of ct, rest)"
  using load_array_words[OF assms]
  by (cases ct) (simp add: load_header_def header_bytes_def load_u64_le load_bytes_one flags_bits)

text \<open>A ciphertext without a seed whose data has the stated size and whose image a signed stream count can hold.\<close>

definition valid_stored :: "stored_ciphertext \<Rightarrow> bool" where
  "valid_stored ct \<longleftrightarrow> st_seed ct = 0 \<and> length (st_parms_id ct) = 4 \<and>
     length (st_data ct) = unat (st_poly_modulus_degree ct * st_coeff_modulus_size ct * st_polynomial_count ct) \<and>
     8 * length (st_data ct) + 58 < 2 ^ 63"

definition ciphertext_image :: "stored_ciphertext \<Rightarrow> bytes" where
  "ciphertext_image ct = 0 # header_bytes ct @ words_bytes 8 (st_data ct)"

lemma load_raw_save_raw:
  assumes "valid_stored ct"
  shows "load_raw known sample_c1 (header_bytes ct @ words_bytes 8 (st_data ct)) = Some (Inr ct)"
proof -
  have v: "length (st_parms_id ct) = 4" "\<not> contains_seed ct" "st_seed ct = 0"
    "length (st_data ct) = unat (st_poly_modulus_degree ct * st_coeff_modulus_size ct * st_polynomial_count ct)"
    using assms by (simp_all add: valid_stored_def contains_seed_def)
  have f: "flags_of ct AND 2 = 0" using flags_bits(2)[of ct] v(2) by simp
  show ?thesis
    using load_array_words[OF v(4), of "[]"] v(3)
    by (simp add: load_raw_def load_header_result[OF v(1)] flags_bits f)
qed

interpretation bfv_wire: wire_format save_ciphertext "load_ciphertext known sample_c1 unzstd" ciphertext_image valid_stored
  for known sample_c1 unzstd
proof
  fix ct assume v: "valid_stored ct"
  then have s: "\<not> contains_seed ct" by (simp add: valid_stored_def contains_seed_def)
  show "save_ciphertext ct = Some (Inr (ciphertext_image ct))"
    by (simp add: save_ciphertext_def save_raw_def s ciphertext_image_def)
  show "load_ciphertext known sample_c1 unzstd (ciphertext_image ct) = Some (Inr ct)"
    using load_bytes_append[of "[0]" 1] load_raw_save_raw[OF v]
    by (simp add: load_ciphertext_def ciphertext_image_def)
  show "length (ciphertext_image ct) < 2 ^ 63"
    using v by (simp add: ciphertext_image_def header_bytes_def valid_stored_def)
qed

text \<open>A seeded ciphertext sends its seed in place of the second polynomial, which is expanded again.\<close>

lemma seeded_round_trip:
  assumes "contains_seed ct" "length (st_parms_id ct) = 4" "st_polynomial_count ct = 2" "poly_size ct \<le> length (st_data ct)"
    and "known (st_parms_id ct)"
  shows "\<exists>bs. save_ciphertext ct = Some (Inr bs) \<and> load_ciphertext known sample_c1 unzstd bs =
    Some (Inr (ct\<lparr>st_data := take (poly_size ct) (st_data ct) @ sample_c1 (st_seed ct) (poly_size ct), st_seed := 0\<rparr>))"
proof -
  let ?raw = "header_bytes ct @ le_bytes 8 (st_seed ct) @ words_bytes 8 (take (poly_size ct) (st_data ct))"
  have f: "flags_of ct AND 2 \<noteq> 0" using flags_bits(2)[of ct] assms(1) by simp
  have p: "poly_size (ct\<lparr>st_data := d, st_seed := s\<rparr>) = poly_size ct" for d s by (simp add: poly_size_def)
  have "load_raw known sample_c1 ?raw =
      Some (Inr (ct\<lparr>st_data := take (poly_size ct) (st_data ct) @ sample_c1 (st_seed ct) (poly_size ct), st_seed := 0\<rparr>))"
    using load_array_words[of "take (poly_size ct) (st_data ct)" "poly_size ct" "[]"] assms
    by (simp add: load_raw_def load_header_result[OF assms(2)] flags_bits(4) f load_u64_le p expand_seed_def contains_seed_def)
  then show ?thesis
    using load_bytes_append[of "[0]" 1] assms(1,3,4)
    by (intro exI[of _ "0 # ?raw"]) (simp add: save_ciphertext_def save_raw_def load_ciphertext_def)
qed

end
