(* ===== verification/Server_Main.thy ===== *)
theory Server_Main
  imports Server Serialize
begin

text \<open>
  The server program, \<open>src/src/server_main.cpp\<close>: its set-up, the parameters, the key and the
  encrypted database it sends, and the loop that answers queries until the client ends it. The
  oblivious transfer is what \<open>sendOne\<close> was given, in order; \<open>noise i\<close> is the \<open>i\<close>-th answer-noise
  sample; \<open>make_moduli\<close> is the library's choice of \<open>q\<close> and \<open>t\<close> for a degree and two bit sizes.
\<close>

record configuration =
  cfg_Log2DBSize :: u64
  cfg_EntrySize :: u64
  cfg_plainModulus :: u64
  bgvRingSize :: u32
  bgvQSize :: u32
  bgvPlainModuluSize :: u32

type_synonym moduli = "u32 \<Rightarrow> u32 \<Rightarrow> u32 \<Rightarrow> error + (u64 \<times> u64)"

text \<open>An \<open>Inl\<close> is an exception nothing catches.\<close>

fun or_throw :: "error + 'a \<Rightarrow> ('a \<Rightarrow> 'b io_result) \<Rightarrow> 'b io_result" where
  "or_throw (Inl e) f = Threw e"
| "or_throw (Inr x) f = f x"

subsection \<open>Set-up\<close>

text \<open>\<open>Failed\<close> is \<open>return 1\<close>; a shift of \<open>1\<close> by 32 or more and a failed assertion are \<open>Trap\<close>.\<close>

definition server_setup :: "build \<Rightarrow> moduli \<Rightarrow> u64 \<Rightarrow> u64 \<Rightarrow> (configuration \<times> server) io_result" where
  "server_setup b make_moduli Log2DBSize EntrySize =
     (if EntrySize \<noteq> 8 then Failed
      else if 32 \<le> Log2DBSize div 2 + Log2DBSize mod 2 then Trap
      else or_throw (SelectPolyModulusDegree (ucast Log2DBSize)) (\<lambda>ring.
           or_throw (make_moduli ring PPFE_COEFF_MODULUS_BITS PPFE_PLAIN_MODULUS_BITS) (\<lambda>(q, t).
           or_throw (ValidatePolyModulusDegree (ucast Log2DBSize) ring) (\<lambda>_.
           or_throw (ValidateProtocolParameters PPFE_COEFF_MODULUS_BITS PPFE_PLAIN_MODULUS_BITS q t) (\<lambda>_.
           case OneSVServer (initDatabase b Log2DBSize EntrySize t) (ucast Log2DBSize) (ucast EntrySize) t of
             None \<Rightarrow> Trap
           | Some sv \<Rightarrow> Done (\<lparr>cfg_Log2DBSize = Log2DBSize, cfg_EntrySize = EntrySize, cfg_plainModulus = t,
               bgvRingSize = ring, bgvQSize = PPFE_COEFF_MODULUS_BITS, bgvPlainModuluSize = PPFE_PLAIN_MODULUS_BITS\<rparr>, sv))))))"

text \<open>The results of sending the parameters are not looked at.\<close>

definition disregard :: "unit io \<Rightarrow> unit io" where
  "disregard m c = (case m c of (Failed, c') \<Rightarrow> (Done (), c') | r \<Rightarrow> r)"

definition send_parameters :: "os \<Rightarrow> configuration \<Rightarrow> unit io" where
  "send_parameters os cfg =
     and_then (disregard (sendData os (le_bytes 8 (cfg_Log2DBSize cfg)))) (\<lambda>_.
     and_then (disregard (sendData os (le_bytes 8 (cfg_EntrySize cfg)))) (\<lambda>_.
     and_then (disregard (sendData os (le_bytes 8 (cfg_plainModulus cfg)))) (\<lambda>_.
     and_then (disregard (sendData os (le_bytes 4 (bgvRingSize cfg)))) (\<lambda>_.
     and_then (disregard (sendData os (le_bytes 4 (bgvQSize cfg)))) (\<lambda>_.
     disregard (sendData os (le_bytes 4 (bgvPlainModuluSize cfg))))))))"

definition publish :: "os \<Rightarrow> 'k save \<Rightarrow> ciphertext save \<Rightarrow> configuration \<Rightarrow> 'k \<Rightarrow> ciphertext list \<Rightarrow> unit io" where
  "publish os save_key save cfg public_key cts =
     and_then (send_parameters os cfg) (\<lambda>_.
     and_then (sendPublicKey os save_key public_key) (\<lambda>_.
     sendCiphertextVector os save cts))"

subsection \<open>The query loop\<close>

record loop_state =
  ls_server :: server
  queryCount :: u32
  ot_sent :: "(u64 \<times> u64) list"
  samples :: nat

datatype verdict = Continue loop_state | Break loop_state

text \<open>One query: the pair of answers, with the next noise sample.\<close>

definition answer ::
  "(nat \<Rightarrow> u64) \<Rightarrow> (ciphertext \<Rightarrow> u64 list) \<Rightarrow> u64 \<Rightarrow> bool list \<Rightarrow> u32 list \<Rightarrow> ciphertext \<Rightarrow> loop_state
     \<Rightarrow> ((u64 \<times> u64) \<times> loop_state) outcome" where
  "answer noise decrypt q bvec Svec ct st =
     map_option (map_sum id (\<lambda>r. (r, st\<lparr>samples := samples st + 1\<rparr>)))
       (onlineQuery Default (ls_server st) decrypt q (noise (samples st)) bvec Svec ct)"

fun answer_batch ::
  "(nat \<Rightarrow> u64) \<Rightarrow> (ciphertext \<Rightarrow> u64 list) \<Rightarrow> u64 \<Rightarrow> ciphertext batch_query list \<Rightarrow> loop_state \<Rightarrow> loop_state outcome" where
  "answer_batch noise decrypt q [] st = Some (Inr st)"
| "answer_batch noise decrypt q (bq # bqs) st =
     (case answer noise decrypt q (bq_bvec bq) (bq_Svec bq) (bq_ciphertext bq) st of
        None \<Rightarrow> None
      | Some (Inl e) \<Rightarrow> Some (Inl e)
      | Some (Inr (r, st)) \<Rightarrow> answer_batch noise decrypt q bqs (st\<lparr>ot_sent := ot_sent st @ [r]\<rparr>))"

definition serve_batch ::
  "os \<Rightarrow> ciphertext load \<Rightarrow> (nat \<Rightarrow> u64) \<Rightarrow> (ciphertext \<Rightarrow> u64 list) \<Rightarrow> u64 \<Rightarrow> loop_state \<Rightarrow> verdict io" where
  "serve_batch os load noise decrypt q st =
     and_then (recvBatchQueries os load (sv_PartNum (ls_server st))) (\<lambda>bqs.
     and_then (lift_outcome (answer_batch noise decrypt q bqs st)) (\<lambda>st.
     ret (Continue (st\<lparr>queryCount := queryCount st + of_nat (length bqs)\<rparr>))))"

text \<open>The response arrays have \<open>B = 1\<close> word.\<close>

definition serve_single ::
  "os \<Rightarrow> ciphertext load \<Rightarrow> (nat \<Rightarrow> u64) \<Rightarrow> (ciphertext \<Rightarrow> u64 list) \<Rightarrow> u64 \<Rightarrow> loop_state \<Rightarrow> verdict io" where
  "serve_single os load noise decrypt q st =
     (let PartNum = ucast (sv_PartNum (ls_server st)); B = ucast (sv_B (ls_server st)) in
      and_then (recvBoolArray os PartNum) (\<lambda>bvec_bytes.
      and_then (recvUint32Array os PartNum) (\<lambda>Svec.
      and_then (recvCiphertext os load) (\<lambda>queryCiphertext.
      and_then (lift_outcome (answer noise decrypt q (map (\<lambda>b. b \<noteq> 0) bvec_bytes) Svec queryCiphertext st)) (\<lambda>((b0, b1), st).
      and_then (sendUint64Array os [b0] B) (\<lambda>_.
      and_then (sendUint64Array os [b1] B) (\<lambda>_.
      ret (Continue (st\<lparr>queryCount := queryCount st + 1\<rparr>)))))))))"

definition serve_one ::
  "os \<Rightarrow> ciphertext load \<Rightarrow> (nat \<Rightarrow> u64) \<Rightarrow> (ciphertext \<Rightarrow> u64 list) \<Rightarrow> u64 \<Rightarrow> loop_state \<Rightarrow> verdict io" where
  "serve_one os load noise decrypt q st =
     and_then (recvData os 1) (\<lambda>queryType.
       if queryType ! 0 = 0xFF then ret (Break st)
       else if queryType ! 0 = 0x02 then serve_batch os load noise decrypt q st
       else serve_single os load noise decrypt q st)"

subsection \<open>The loop ends\<close>

text \<open>Every round consumes input, so the loop is a total function.\<close>

definition consumes :: "'a io \<Rightarrow> bool" where
  "consumes m \<longleftrightarrow> (\<forall>c. length (incoming (snd (m c))) \<le> length (incoming c))"

lemma consumes_and_then:
  assumes "consumes m" "\<And>x. consumes (f x)"
  shows "consumes (and_then m f)"
  unfolding consumes_def
proof
  fix c
  obtain r c' where m: "m c = (r, c')" by (cases "m c")
  then have "length (incoming c') \<le> length (incoming c)" using assms(1) unfolding consumes_def by (metis snd_conv)
  moreover have "length (incoming (snd (f x c'))) \<le> length (incoming c')" for x
    using assms(2) unfolding consumes_def by blast
  ultimately show "length (incoming (snd (and_then m f c))) \<le> length (incoming c)"
    using m by (cases r) (auto simp: and_then_def intro: le_trans)
qed

lemma consumes_simple: "consumes (ret x)" "consumes (stop_with r)" "consumes (lift_outcome o')"
  by (auto simp: consumes_def ret_def stop_with_def lift_outcome_def split: option.splits sum.splits)

lemma sendData_loop_incoming: "incoming (snd (sendData_loop os data totalSent c)) = incoming c"
proof (induction os data totalSent c rule: sendData_loop.induct)
  case (1 os data totalSent c)
  show ?case
    unfolding sendData_loop.simps[of os data totalSent c] Let_def using 1[OF _ refl refl] by auto
qed

lemma consumes_sendData: "consumes (sendData os data)"
  unfolding consumes_def
proof
  fix c show "length (incoming (snd (sendData os data c))) \<le> length (incoming c)"
    using sendData_loop_incoming[of os data 0 c] by (auto simp: sendData_def split: prod.splits io_result.splits)
qed

lemma recvData_loop_incoming:
  "length (incoming (snd (recvData_loop os len got c))) \<le> length (incoming c) \<and>
   (length got < len \<longrightarrow> fst (recvData_loop os len got c) \<noteq> Failed \<longrightarrow>
     length (incoming (snd (recvData_loop os len got c))) < length (incoming c))"
proof (induction os len got c rule: recvData_loop.induct)
  case (1 os len got c)
  let ?n = "os (syscalls c) (len - length got)"
  let ?c = "c\<lparr>syscalls := syscalls c + 1, incoming := drop (nat ?n) (incoming c)\<rparr>"
  show ?case
  proof (cases "length got < len \<and> 0 < ?n \<and> incoming c \<noteq> []")
    case True
    then have e: "recvData_loop os len got c = recvData_loop os len (got @ take (nat ?n) (incoming c)) ?c"
      by (subst recvData_loop.simps) (simp add: Let_def)
    have l: "length (incoming ?c) < length (incoming c)" using True by simp
    have "length (incoming (snd (recvData_loop os len (got @ take (nat ?n) (incoming c)) ?c))) \<le> length (incoming ?c)"
      using 1[OF _ refl refl] True by simp
    then show ?thesis unfolding e using l by simp
  next
    case False
    then show ?thesis by (auto simp: recvData_loop.simps[of os len got c] Let_def)
  qed
qed

lemma consumes_recvData: "consumes (recvData os len)"
  unfolding consumes_def
proof
  fix c show "length (incoming (snd (recvData os len c))) \<le> length (incoming c)"
    using recvData_loop_incoming[of os len "[]" c] by (auto simp: recvData_def split: prod.splits io_result.splits)
qed

lemma recvData_progress:
  "recvData os len c = (Done data, c') \<Longrightarrow> 0 < len \<Longrightarrow> length (incoming c') < length (incoming c)"
  using recvData_loop_incoming[of os len "[]" c] by (auto simp: recvData_def split: prod.splits io_result.splits)

lemmas consumes_io = consumes_and_then consumes_simple consumes_sendData consumes_recvData

lemma consumes_serve_batch: "consumes (serve_batch os load noise decrypt q st)"
  unfolding serve_batch_def recvBatchQueries_def recvSizedBuffer_def by (intro consumes_io)

lemma consumes_serve_single: "consumes (serve_single os load noise decrypt q st)"
  unfolding serve_single_def recvBoolArray_def recvUint32Array_def recvCiphertext_def expect_count_def sendUint64Array_def Let_def
  by (intro consumes_io) (auto intro!: consumes_io)

lemma serve_one_progress:
  assumes "serve_one os load noise decrypt q st c = (Done v, c')"
  shows "length (incoming c') < length (incoming c)"
proof -
  define f where "f = (\<lambda>queryType :: bytes. if queryType ! 0 = 0xFF then ret (Break st)
       else if queryType ! 0 = 0x02 then serve_batch os load noise decrypt q st
       else serve_single os load noise decrypt q st)"
  obtain bs c1 where r: "recvData os 1 c = (Done bs, c1)" "f bs c1 = (Done v, c')"
    using assms by (auto simp: serve_one_def f_def[symmetric] and_then_def split: prod.splits io_result.splits)
  have "consumes (f bs)" unfolding f_def by (simp add: consumes_serve_batch consumes_serve_single consumes_simple)
  then have "length (incoming c') \<le> length (incoming c1)" using r(2) unfolding consumes_def by (metis snd_conv)
  then show ?thesis using recvData_progress[OF r(1)] by simp
qed

text \<open>The loop. A failure to receive or send breaks out of it.\<close>

function serve ::
  "os \<Rightarrow> ciphertext load \<Rightarrow> (nat \<Rightarrow> u64) \<Rightarrow> (ciphertext \<Rightarrow> u64 list) \<Rightarrow> u64 \<Rightarrow> loop_state \<Rightarrow> loop_state io" where
  "serve os load noise decrypt q st c =
     (case serve_one os load noise decrypt q st c of
        (Done (Continue st'), c') \<Rightarrow> serve os load noise decrypt q st' c'
      | (Done (Break st'), c') \<Rightarrow> (Done st', c')
      | (Failed, c') \<Rightarrow> (Done st, c')
      | (Threw e, c') \<Rightarrow> (Threw e, c')
      | (Trap, c') \<Rightarrow> (Trap, c'))"
  by pat_completeness auto
termination
  by (relation "measure (\<lambda>(os, load, noise, decrypt, q, st, c). length (incoming c))") (auto intro: serve_one_progress[OF sym])

declare serve.simps [simp del]

subsection \<open>Exchanges\<close>

text \<open>An operation that consumes the bytes \<open>i\<close>, sends the bytes \<open>o'\<close> and returns \<open>x\<close>.\<close>

definition exchanges :: "'a io \<Rightarrow> bytes \<Rightarrow> bytes \<Rightarrow> 'a \<Rightarrow> bool" where
  "exchanges m i o' x \<longleftrightarrow> (\<forall>c rest. incoming c = i @ rest \<longrightarrow>
     (\<exists>c'. m c = (Done x, c') \<and> incoming c' = rest \<and> outgoing c' = outgoing c @ o'))"

lemma exchanges_receives: "receives m bs x \<Longrightarrow> exchanges m bs [] x"
  unfolding exchanges_def receives_def by fastforce

lemma exchanges_sends: "sends m bs \<Longrightarrow> exchanges m [] bs ()"
  unfolding exchanges_def
proof (intro allI impI)
  fix c :: connection and rest assume "sends m bs" "incoming c = [] @ rest"
  then obtain n where "m c = (Done (), c\<lparr>outgoing := outgoing c @ bs, syscalls := n,
     totalBytesSent := totalBytesSent c + of_nat (length bs), phaseBytesSent := phaseBytesSent c + of_nat (length bs)\<rparr>)"
    by (auto simp: sends_def)
  then show "\<exists>c'. m c = (Done (), c') \<and> incoming c' = rest \<and> outgoing c' = outgoing c @ bs"
    using \<open>incoming c = [] @ rest\<close> by simp
qed

lemma exchanges_ret: "exchanges (ret x) [] [] x"
  by (simp add: exchanges_def ret_def)

lemma exchanges_lift: "exchanges (lift_outcome (Some (Inr x))) [] [] x"
  by (simp add: lift_outcome_def exchanges_ret)

lemma exchanges_and_then:
  assumes "exchanges m i o' x" "exchanges (f x) i' o'' y"
  shows "exchanges (and_then m f) (i @ i') (o' @ o'') y"
  unfolding exchanges_def
proof (intro allI impI)
  fix c :: connection and rest assume "incoming c = (i @ i') @ rest"
  then obtain c1 where c1: "m c = (Done x, c1)" "incoming c1 = i' @ rest" "outgoing c1 = outgoing c @ o'"
    using assms(1)[unfolded exchanges_def, rule_format, of c "i' @ rest"] by auto
  then obtain c2 where "f x c1 = (Done y, c2)" "incoming c2 = rest" "outgoing c2 = outgoing c1 @ o''"
    using assms(2)[unfolded exchanges_def, rule_format, of c1 rest] by auto
  then show "\<exists>c'. and_then m f c = (Done y, c') \<and> incoming c' = rest \<and> outgoing c' = outgoing c @ o' @ o''"
    using c1 by (simp add: and_then_def)
qed

lemma exchanges_disregard: "exchanges m i o' () \<Longrightarrow> exchanges (disregard m) i o' ()"
  unfolding exchanges_def disregard_def by fastforce

lemma exchangesD:
  "exchanges m i o' x \<Longrightarrow> incoming c = i @ rest \<Longrightarrow> \<exists>c'. m c = (Done x, c') \<and> incoming c' = rest \<and> outgoing c' = outgoing c @ o'"
  by (simp add: exchanges_def)

subsection \<open>Serving the messages\<close>

lemma answer_result:
  "onlineQuery Default (ls_server st) decrypt q (noise (samples st)) bvec Svec ct = Some (Inr r) \<Longrightarrow>
    answer noise decrypt q bvec Svec ct st = Some (Inr (r, st\<lparr>samples := samples st + 1\<rparr>))"
  by (simp add: answer_def)

text \<open>The messages of the client program: a query type and a batch of one query, and the end signal.\<close>

definition query_wire :: "(ciphertext \<Rightarrow> bytes) \<Rightarrow> u32 \<Rightarrow> ciphertext batch_query \<Rightarrow> bytes" where
  "query_wire img PartNum bq = 0x02 # sized (batch_payload img PartNum [bq])"

text \<open>The \<open>i\<close>-th query answered with the \<open>i\<close>-th sample.\<close>

definition answers_to ::
  "(nat \<Rightarrow> u64) \<Rightarrow> (ciphertext \<Rightarrow> u64 list) \<Rightarrow> u64 \<Rightarrow> server \<Rightarrow> nat \<Rightarrow> ciphertext batch_query \<Rightarrow> (u64 \<times> u64) outcome" where
  "answers_to noise decrypt q sv i bq = onlineQuery Default sv decrypt q (noise i) (bq_bvec bq) (bq_Svec bq) (bq_ciphertext bq)"

fun all_answers ::
  "(nat \<Rightarrow> u64) \<Rightarrow> (ciphertext \<Rightarrow> u64 list) \<Rightarrow> u64 \<Rightarrow> server \<Rightarrow> nat \<Rightarrow> ciphertext batch_query list \<Rightarrow> (u64 \<times> u64) list option" where
  "all_answers noise decrypt q sv i [] = Some []"
| "all_answers noise decrypt q sv i (bq # bqs) =
     (case answers_to noise decrypt q sv i bq of
        Some (Inr r) \<Rightarrow> map_option (\<lambda>rs. r # rs) (all_answers noise decrypt q sv (i + 1) bqs)
      | _ \<Rightarrow> None)"

definition after :: "loop_state \<Rightarrow> (u64 \<times> u64) list \<Rightarrow> loop_state" where
  "after st rs = st\<lparr>queryCount := queryCount st + of_nat (length rs), ot_sent := ot_sent st @ rs, samples := samples st + length rs\<rparr>"

end
