(* ===== verification/Wire.thy ===== *)
theory Wire
  imports Serialize
begin

text \<open>
  What the wire format of \<open>src/src/network.cpp\<close> guarantees, and what a hostile payload does to it.
\<close>

lemma delivers_one_byte: "delivers (\<lambda>i n. 1)"
  by (simp add: delivers_def)

lemma delivers_all: "delivers (\<lambda>i n. int n)"
  by (simp add: delivers_def)

subsection \<open>Arrays\<close>

text \<open>
  Arrays of booleans and of 32- and 64-bit words arrive as they were sent, however the operating
  system splits the transfers; booleans arrive as zero or one.
\<close>

theorem array_round_trip:
  assumes "delivers os" "delivers os'" "length flags < 2 ^ 64" "length ws * 4 < 2 ^ 64" "length vs * 8 < 2 ^ 64"
  shows "(\<exists>wire. sends (sendBoolArray os flags (of_nat (length flags))) wire \<and>
      receives (recvBoolArray os' (of_nat (length flags))) wire (map (\<lambda>b. of_bool (b \<noteq> 0)) flags)) \<and>
    (\<exists>wire. sends (sendUint32Array os ws (of_nat (length ws))) wire \<and> receives (recvUint32Array os' (of_nat (length ws))) wire ws) \<and>
    (\<exists>wire. sends (sendUint64Array os vs (of_nat (length vs))) wire \<and> receives (recvUint64Array os' (of_nat (length vs))) wire vs)"
proof -
  let ?bs = "map (\<lambda>b. b \<noteq> 0) flags"
  have b: "sends (sendBoolArray os flags (of_nat (length flags))) (bool_array_bytes ?bs)"
    "receives (recvBoolArray os' (of_nat (length flags))) (bool_array_bytes ?bs) (map (\<lambda>b. of_bool (b \<noteq> 0)) flags)"
    using bool_array_round_trip[OF assms(1), of ?bs flags] bool_array_round_trip[OF assms(2), of ?bs flags] assms(3)
    by (simp_all add: comp_def)
  show ?thesis
    using b uint32_array_round_trip[OF assms(1,4)] uint32_array_round_trip[OF assms(2,4)]
      uint64_array_round_trip[OF assms(1,5)] uint64_array_round_trip[OF assms(2,5)] by blast
qed

lemma array_round_trip_witness:
  "\<exists>wire. sends (sendUint32Array (\<lambda>i n. 1) [7, 9] 2) wire \<and> receives (recvUint32Array (\<lambda>i n. int n) 2) wire [7, 9]"
  using array_round_trip[OF delivers_one_byte delivers_all, of "[]" "[7, 9]" "[]"] by simp

subsection \<open>Ciphertexts and batches\<close>

text \<open>
  C18: A public key, a vector of ciphertexts and a batch of queries arrive as they were sent. The message
  of a batch is its payload, preceded by the size of the payload.
\<close>

theorem messages_round_trip:
  fixes qs :: "stored_ciphertext batch_query list"
  assumes "delivers os" "delivers os'" "list_all (valid_query valid_stored PartNum) qs" "length qs < 2 ^ 32"
    and "length (batch_payload ciphertext_image PartNum qs) < 2 ^ 64" "list_all valid_stored cts" "length cts < 2 ^ 64"
  shows "\<exists>batch db. sends (sendBatchQueries os save_ciphertext PartNum qs) batch \<and>
      receives (recvBatchQueries os' (load_ciphertext known sample_c1 unzstd) PartNum) batch qs \<and>
      sends (sendCiphertextVector os save_ciphertext cts) db \<and>
      receives (recvCiphertextVector os' (load_ciphertext known sample_c1 unzstd) (of_nat (length cts))) db cts"
proof -
  have q: "\<And>q. q \<in> set qs \<Longrightarrow> valid_query valid_stored PartNum q" and c: "\<And>ct. ct \<in> set cts \<Longrightarrow> valid_stored ct"
    using assms(3,6) by (simp_all add: list_all_iff)
  show ?thesis
    using bfv_wire.batch_message(1)[OF assms(1) q assms(4,5)] bfv_wire.batch_message(2)[OF assms(2) q assms(4,5)]
      bfv_wire.vector_message(1)[OF assms(1) c assms(7)] bfv_wire.vector_message(2)[OF assms(2) c assms(7)] by blast
qed

definition small_stored :: stored_ciphertext where
  "small_stored = \<lparr>st_polynomial_count = 2, st_coeff_modulus_size = 1, st_poly_modulus_degree = 2, st_data = [1, 2, 3, 4],
     st_parms_id = [5, 6, 7, 8], st_is_ntt_form = False, st_seed = 0, st_device = False\<rparr>"

lemma messages_round_trip_witness:
  "\<exists>batch db. sends (sendBatchQueries (\<lambda>i n. 1) save_ciphertext 2 [\<lparr>bq_bvec = [True, False], bq_Svec = [1, 0], bq_ciphertext = small_stored\<rparr>]) batch \<and>
      receives (recvBatchQueries (\<lambda>i n. int n) (load_ciphertext (\<lambda>_. True) (\<lambda>s n. []) Inr) 2) batch
        [\<lparr>bq_bvec = [True, False], bq_Svec = [1, 0], bq_ciphertext = small_stored\<rparr>] \<and>
      sends (sendCiphertextVector (\<lambda>i n. 1) save_ciphertext [small_stored]) db \<and>
      receives (recvCiphertextVector (\<lambda>i n. int n) (load_ciphertext (\<lambda>_. True) (\<lambda>s n. []) Inr) (of_nat (length [small_stored]))) db [small_stored]"
  by (rule messages_round_trip[OF delivers_one_byte delivers_all])
    (simp_all add: valid_query_def valid_stored_def small_stored_def batch_payload_def query_bytes_def sized_def
      ciphertext_image_def header_bytes_def)

text \<open>
  C19: A ciphertext stored with a seed is sent with half of its data, and loading it expands the seed
  into the second polynomial.
\<close>

theorem seeded_ciphertext_round_trip:
  assumes "contains_seed ct" "length (st_parms_id ct) = 4" "st_polynomial_count ct = 2" "poly_size ct \<le> length (st_data ct)"
    and "known (st_parms_id ct)"
  shows "\<exists>bs. save_ciphertext ct = Some (Inr bs) \<and> length bs = 66 + 8 * poly_size ct \<and>
    load_ciphertext known sample_c1 unzstd bs =
      Some (Inr (ct\<lparr>st_data := take (poly_size ct) (st_data ct) @ sample_c1 (st_seed ct) (poly_size ct), st_seed := 0\<rparr>))"
proof -
  obtain bs where bs: "save_ciphertext ct = Some (Inr bs)" "load_ciphertext known sample_c1 unzstd bs =
      Some (Inr (ct\<lparr>st_data := take (poly_size ct) (st_data ct) @ sample_c1 (st_seed ct) (poly_size ct), st_seed := 0\<rparr>))"
    using seeded_round_trip[OF assms(1-4), of known sample_c1 unzstd] assms(5) by blast
  have "length bs = 66 + 8 * poly_size ct"
    using bs(1) assms(1-4) by (auto simp: save_ciphertext_def save_raw_def header_bytes_def)
  then show ?thesis using bs by blast
qed

lemma seeded_ciphertext_round_trip_witness:
  "\<exists>bs. save_ciphertext (small_stored\<lparr>st_seed := 9\<rparr>) = Some (Inr bs) \<and> length bs = 82 \<and>
    load_ciphertext (\<lambda>_. True) (\<lambda>s n. replicate n s) Inr bs = Some (Inr (small_stored\<lparr>st_data := [1, 2, 9, 9]\<rparr>))"
proof -
  let ?ct = "small_stored\<lparr>st_seed := 9\<rparr>"
  have p: "poly_size ?ct = 2" by (simp add: small_stored_def poly_size_def)
  have u: "?ct\<lparr>st_data := take 2 (st_data ?ct) @ replicate 2 (st_seed ?ct), st_seed := 0\<rparr> = small_stored\<lparr>st_data := [1, 2, 9, 9]\<rparr>"
    by (simp add: small_stored_def numeral_2_eq_2)
  show ?thesis
    using seeded_ciphertext_round_trip[of ?ct "\<lambda>_. True" "\<lambda>s n. replicate n s" Inr] unfolding p u
    by (simp add: small_stored_def contains_seed_def)
qed

subsection \<open>A hostile payload\<close>

definition hostile_payload :: "u32 \<Rightarrow> u64 \<Rightarrow> bytes" where
  "hostile_payload PartNum ctSize = le_bytes 4 (1 :: u32) @ pack_bits (unat PartNum) (replicate (unat PartNum) True) @
     words_bytes 4 (replicate (unat PartNum) (0 :: u32)) @ le_bytes 8 ctSize"

definition hostile_size :: "u32 \<Rightarrow> nat" where
  "hostile_size PartNum = 12 + (unat PartNum + 7) div 8 + 4 * unat PartNum"

lemma hostile_layout: "length (hostile_payload PartNum ctSize) = hostile_size PartNum" "hostile_size PartNum < 2 ^ 64"
  "hostile_size PartNum < 2 ^ 63"
proof -
  have "unat PartNum < 2 ^ 32" using unat_less_exp[of PartNum] by simp
  then show "hostile_size PartNum < 2 ^ 64" "hostile_size PartNum < 2 ^ 63" by (simp_all add: hostile_size_def)
qed (simp add: hostile_payload_def hostile_size_def)

lemma hostile_reads:
  fixes PartNum :: u32 and ctSize :: u64
  defines "p \<equiv> hostile_payload PartNum ctSize" and "h \<equiv> le_bytes 4 (1 :: u32)"
    and "bv \<equiv> pack_bits (unat PartNum) (replicate (unat PartNum) True)" and "sv \<equiv> words_bytes 4 (replicate (unat PartNum) (0 :: u32))"
  shows "readBytes p 0 4 = Done (h, of_nat (length h))"
    and "readBytes p (of_nat (length h)) ((ucast PartNum + 7) div 8) = Done (bv, of_nat (length (h @ bv)))"
    and "readBytes p (of_nat (length (h @ bv))) (ucast PartNum * 4) = Done (sv, of_nat (length ((h @ bv) @ sv)))"
    and "readBytes p (of_nat (length ((h @ bv) @ sv))) 8 = Done (le_bytes 8 ctSize, of_nat (hostile_size PartNum))"
proof -
  have l: "length p < 2 ^ 64" using hostile_layout(1)[of PartNum ctSize] hostile_layout(2)[of PartNum] by (simp add: p_def)
  have "readBytes p 0 4 = Done (h, of_nat (length ([] @ h)))"
    by (rule readBytes_middle[OF _ l, where post = "bv @ sv @ le_bytes 8 ctSize"])
      (simp_all add: p_def hostile_payload_def h_def bv_def sv_def)
  then show "readBytes p 0 4 = Done (h, of_nat (length h))" by simp
  show "readBytes p (of_nat (length h)) ((ucast PartNum + 7) div 8) = Done (bv, of_nat (length (h @ bv)))"
    by (rule readBytes_middle[OF _ l, where post = "sv @ le_bytes 8 ctSize"])
      (simp_all add: p_def hostile_payload_def h_def bv_def sv_def partnum_bytes)
  show "readBytes p (of_nat (length (h @ bv))) (ucast PartNum * 4) = Done (sv, of_nat (length ((h @ bv) @ sv)))"
    by (rule readBytes_middle[OF _ l, where post = "le_bytes 8 ctSize"])
      (simp_all add: p_def hostile_payload_def h_def bv_def sv_def partnum_bytes)
  have "readBytes p (of_nat (length ((h @ bv) @ sv))) 8 = Done (le_bytes 8 ctSize, of_nat (length (((h @ bv) @ sv) @ le_bytes 8 ctSize)))"
    by (rule readBytes_middle[OF _ l, where post = "[]"]) (simp_all add: p_def hostile_payload_def h_def bv_def sv_def)
  moreover have "length (((h @ bv) @ sv) @ le_bytes 8 ctSize) = hostile_size PartNum"
    by (simp add: h_def bv_def sv_def hostile_size_def)
  ultimately show "readBytes p (of_nat (length ((h @ bv) @ sv))) 8 = Done (le_bytes 8 ctSize, of_nat (hostile_size PartNum))"
    by (simp only:)
qed

lemma wrapped_sum:
  assumes "0 < w" "0 < L" "L < 2 ^ 64"
  shows "(of_nat L :: u64) < of_nat L + w \<longleftrightarrow> uint w < 2 ^ 64 - int L"
proof -
  have u: "uint (of_nat L :: u64) = int L" using assms(3) by (simp add: uint_nat unat_of_nat take_bit_nat_eq_self)
  have w: "0 < uint w" "uint w < 2 ^ 64" using assms(1) uint_lt2p[of w] by (simp_all add: word_less_def)
  have e: "uint (of_nat L + w) = (int L + uint w) mod 2 ^ 64" by (simp add: uint_word_ariths take_bit_eq_mod u)
  show ?thesis
  proof (cases "uint w < 2 ^ 64 - int L")
    case True
    then have "uint (of_nat L + w) = int L + uint w" unfolding e using w by (intro mod_pos_pos_trivial) simp_all
    then show ?thesis using True w by (simp add: word_less_def u)
  next
    case False
    then have "uint (of_nat L + w) = int L + uint w - 2 ^ 64"
      unfolding e using w assms(3) mod_pos_geq[of "2 ^ 64" "int L + uint w"]
        mod_pos_pos_trivial[of "int L + uint w - 2 ^ 64" "2 ^ 64"] by simp
    then show ?thesis using False w by (simp add: word_less_def u)
  qed
qed

lemma sint_negative:
  assumes "2 ^ 63 \<le> uint (w :: u64)"
  shows "sint w < 0"
proof -
  have "uint w < 2 ^ 64" using uint_lt2p[of w] by simp
  then have "(uint w + 2 ^ 63) mod 2 ^ 64 = uint w + 2 ^ 63 - 2 ^ 64"
    using assms mod_pos_geq[of "2 ^ 64" "uint w + 2 ^ 63"] mod_pos_pos_trivial[of "uint w + 2 ^ 63 - 2 ^ 64" "2 ^ 64"] by simp
  with \<open>uint w < 2 ^ 64\<close> show ?thesis
    by (simp add: sint_uint signed_take_bit_eq_take_bit_shift take_bit_eq_mod)
qed

text \<open>
  A batch of one query that ends after the size of its ciphertext. The sizes that make \<open>off + ctSize\<close>
  wrap, which are as many as the payload has bytes, pass the check; as a stream count they are
  negative, so nothing is written and the ciphertext is loaded from nothing, as for size 0. \<open>load\<close>
  then works on uninitialised variables (\<open>load [] = None\<close>). Every other size is refused.
\<close>

lemma hostile_result:
  assumes "load [] = None"
  shows "parse_batch load PartNum (hostile_payload PartNum ctSize) =
    (if ctSize = 0 \<or> 2 ^ 64 - int (hostile_size PartNum) \<le> uint ctSize then Trap else Failed)"
proof -
  let ?p = "hostile_payload PartNum ctSize" and ?h = "le_bytes 4 (1 :: u32)" and ?L = "hostile_size PartNum"
  have one: "unat (le_word ?h :: u32) = Suc 0" by (simp add: le_word_le_bytes)
  have L: "unat (of_nat ?L :: u64) = ?L" using hostile_layout(2)[of PartNum] by (simp add: unat_of_nat take_bit_nat_eq_self)
  have sz: "le_word (le_bytes 8 ctSize) = ctSize" by (simp add: le_word_le_bytes)
  have batch: "parse_batch load PartNum ?p =
      (if (of_nat ?L :: u64) < of_nat ?L + ctSize then Failed else if 0 \<le> sint ctSize \<and> ?L < ?L + unat ctSize then Trap
       else case load (if sint ctSize < 0 then [] else take (unat ctSize) []) of None \<Rightarrow> Trap | Some (Inl e) \<Rightarrow> Threw e
         | Some (Inr ct) \<Rightarrow> if of_nat ?L + ctSize = of_nat ?L then Done [\<lparr>bq_bvec = unpack_bits (unat PartNum) (pack_bits (unat PartNum) (replicate (unat PartNum) True)),
             bq_Svec = bytes_words 4 (unat PartNum) (words_bytes 4 (replicate (unat PartNum) (0 :: u32))), bq_ciphertext = ct\<rparr>] else Failed)"
    unfolding parse_batch_def hostile_reads bind_result.simps prod.case one parse_queries.simps parse_query_def Let_def hostile_layout(1) sz L
      drop_all[OF eq_refl[OF hostile_layout(1)]]
    by (simp split: option.splits sum.splits)
  show ?thesis
  proof (cases "ctSize = 0")
    case True
    then show ?thesis unfolding batch by (simp add: assms)
  next
    case False
    then have pos: "0 < ctSize" by (simp add: word_gt_0)
    have w: "(of_nat ?L :: u64) < of_nat ?L + ctSize \<longleftrightarrow> uint ctSize < 2 ^ 64 - int ?L"
      by (rule wrapped_sum[OF pos _ hostile_layout(2)]) (simp add: hostile_size_def)
    have n: "sint ctSize < 0" if "\<not> uint ctSize < 2 ^ 64 - int ?L"
    proof (rule sint_negative)
      have "int ?L < 2 ^ 63" using hostile_layout(3)[of PartNum] by simp
      with that show "2 ^ 63 \<le> uint ctSize" by simp
    qed
    show ?thesis unfolding batch w using False n by (auto simp: assms)
  qed
qed

text \<open>A payload too short for the size of its batch is refused.\<close>

lemma truncated_payload_fails:
  assumes "length payload < 4"
  shows "parse_batch load PartNum payload = Failed"
proof -
  have "(of_nat (length payload) :: u64) < 4"
    using assms by (simp add: word_less_nat_alt unat_of_nat take_bit_nat_eq_self)
  then show ?thesis by (simp add: parse_batch_def readBytes_def)
qed

end
