(* ===== verification/Serving.thy ===== *)
theory Serving
  imports Server_Main Wire
begin

text \<open>
  The server loop of \<open>src/src/server_main.cpp\<close> on the messages of the client, on single queries and
  on a hostile payload.
\<close>

lemmas exchange_rules = exchanges_and_then exchanges_ret exchanges_lift

lemma exchanges_end:
  assumes "exchanges m i o' x" "f x = ret y"
  shows "exchanges (and_then m f) i o' y"
  using exchanges_and_then[OF assms(1), of f "[]" "[]" y] assms(2) exchanges_ret[of y] by simp

lemma exchanges_recv_byte: "delivers os \<Longrightarrow> exchanges (recvData os 1) [b] [] [b]"
  by (rule exchanges_receives[OF receives_recvData]) simp_all

lemma and_then_lift: "and_then (lift_outcome (Some (Inr x))) f = f x"
  by (simp add: fun_eq_iff and_then_def lift_outcome_def ret_def)

lemma map_of_bool: "map (\<lambda>b :: u8. b \<noteq> 0) (map of_bool bs) = bs"
  by (induction bs) simp_all

lemma after_one: "st\<lparr>samples := Suc (samples st), ot_sent := ot_sent st @ [r], queryCount := queryCount st + 1\<rparr> = after st [r]"
  by (cases st) (simp add: after_def)

lemma serve_continue:
  "serve_one os load noise decrypt q st c = (Done (Continue st'), c') \<Longrightarrow>
    serve os load noise decrypt q st c = serve os load noise decrypt q st' c'"
  by (subst serve.simps) simp

lemma serve_end:
  assumes "delivers os" "incoming c = 0xFF # rest"
  shows "\<exists>c'. serve os load noise decrypt q st c = (Done st, c') \<and> incoming c' = rest \<and> outgoing c' = outgoing c"
proof -
  obtain c' where c': "recvData os 1 c = (Done [0xFF], c')" "incoming c' = rest" "outgoing c' = outgoing c"
    using exchangesD[OF exchanges_recv_byte[OF assms(1), of "0xFF"], of c rest] assms(2) by auto
  then have "serve_one os load noise decrypt q st c = (Done (Break st), c')"
    by (simp add: serve_one_def and_then_def ret_def)
  then show ?thesis using c' by (subst serve.simps) simp
qed

locale query_format = wire_format save load img valid
  for save :: "ciphertext save" and load :: "ciphertext load" and img :: "ciphertext \<Rightarrow> bytes" and valid :: "ciphertext \<Rightarrow> bool"
begin

text \<open>One message of the client program: the pair of answers goes to the oblivious transfer, nothing is sent back.\<close>

lemma serve_batch_one:
  fixes st :: loop_state
  defines "P \<equiv> sv_PartNum (ls_server st)"
  assumes "delivers os" "valid_query valid P bq" "length (batch_payload img P [bq]) < 2 ^ 64"
    and "answers_to noise decrypt q (ls_server st) (samples st) bq = Some (Inr r)"
  shows "exchanges (serve_one os load noise decrypt q st) (query_wire img P bq) [] (Continue (after st [r]))"
proof -
  have "exchanges (recvBatchQueries os load P) (sized (batch_payload img P [bq])) [] [bq]"
    by (rule exchanges_receives, rule batch_message(2)) (use assms in simp_all)
  moreover have "answer_batch noise decrypt q [bq] st = Some (Inr (st\<lparr>samples := samples st + 1, ot_sent := ot_sent st @ [r]\<rparr>))"
    using assms(5) by (simp add: answer_result answers_to_def)
  ultimately have "exchanges (serve_batch os load noise decrypt q st) (sized (batch_payload img P [bq])) [] (Continue (after st [r]))"
    unfolding serve_batch_def P_def[symmetric]
    by (auto intro!: exchanges_end simp: after_one and_then_lift simp del: answer_batch.simps)
  then show ?thesis
    using exchanges_and_then[OF exchanges_recv_byte[OF assms(2), of "0x02"], of "\<lambda>queryType.
        if queryType ! 0 = 0xFF then ret (Break st) else if queryType ! 0 = 0x02 then serve_batch os load noise decrypt q st
        else serve_single os load noise decrypt q st"]
    by (simp add: serve_one_def query_wire_def)
qed

lemma after_append: "after (after st rs) rs' = after st (rs @ rs')"
  by (simp add: after_def)

lemma serve_messages:
  fixes st :: loop_state
  assumes "delivers os" "list_all (\<lambda>bq. valid_query valid (sv_PartNum (ls_server st)) bq \<and>
      length (batch_payload img (sv_PartNum (ls_server st)) [bq]) < 2 ^ 64) bqs"
    and "all_answers noise decrypt q (ls_server st) (samples st) bqs = Some rs"
    and "incoming c = concat (map (query_wire img (sv_PartNum (ls_server st))) bqs) @ 0xFF # rest"
  shows "\<exists>c'. serve os load noise decrypt q st c = (Done (after st rs), c') \<and> incoming c' = rest \<and> outgoing c' = outgoing c"
  using assms(2-)
proof (induction bqs arbitrary: st rs c)
  case Nil
  then show ?case using serve_end[OF assms(1)] by (auto simp: after_def)
next
  case (Cons bq bqs)
  let ?P = "sv_PartNum (ls_server st)"
  obtain r rs' where r: "answers_to noise decrypt q (ls_server st) (samples st) bq = Some (Inr r)"
    "all_answers noise decrypt q (ls_server st) (samples st + 1) bqs = Some rs'" "rs = r # rs'"
    using Cons.prems(2) by (auto split: option.splits sum.splits)
  obtain c1 where c1: "serve_one os load noise decrypt q st c = (Done (Continue (after st [r])), c1)"
    "incoming c1 = concat (map (query_wire img ?P) bqs) @ 0xFF # rest" "outgoing c1 = outgoing c"
    using exchangesD[OF serve_batch_one[OF assms(1) _ _ r(1)], of c "concat (map (query_wire img ?P) bqs) @ 0xFF # rest"] Cons.prems by auto
  have "\<exists>c'. serve os load noise decrypt q (after st [r]) c1 = (Done (after (after st [r]) rs'), c') \<and> incoming c' = rest \<and> outgoing c' = outgoing c1"
    by (rule Cons.IH) (use Cons.prems r c1 in \<open>simp_all add: after_def\<close>)
  then show ?case using serve_continue[OF c1(1)] c1(3) r(3) by (simp add: after_append)
qed

text \<open>A single query, of any type but \<open>0x02\<close> and \<open>0xFF\<close>: both answers are sent back.\<close>

lemma serve_single_one:
  fixes st :: loop_state
  defines "P \<equiv> sv_PartNum (ls_server st)"
  assumes "delivers os" "valid_query valid P bq" "sv_B (ls_server st) = 1" "queryType \<noteq> 0xFF" "queryType \<noteq> 0x02"
    and "answers_to noise decrypt q (ls_server st) (samples st) bq = Some (Inr (b0, b1))"
  shows "exchanges (serve_one os load noise decrypt q st)
    (queryType # bool_array_bytes (bq_bvec bq) @ word_array_bytes 4 (bq_Svec bq) @ sized (img (bq_ciphertext bq)))
    (word_array_bytes 8 [b0] @ word_array_bytes 8 [b1])
    (Continue (st\<lparr>samples := samples st + 1, queryCount := queryCount st + 1\<rparr>))"
proof -
  have v: "length (bq_bvec bq) = unat P" "length (bq_Svec bq) = unat P" "valid (bq_ciphertext bq)"
    using assms(3) by (simp_all add: valid_query_def)
  have n: "(of_nat (unat P) :: u64) = ucast P" "unat P < 2 ^ 64" "unat P * 4 < 2 ^ 64" using unat_less_exp[of P] by simp_all
  have e1: "exchanges (recvBoolArray os (ucast P)) (bool_array_bytes (bq_bvec bq)) [] (map of_bool (bq_bvec bq))"
    using exchanges_receives[OF bool_array_round_trip(2)[OF assms(2), of "bq_bvec bq" "map of_bool (bq_bvec bq)"]] n
    by (simp only: v n map_of_bool)
  have e2: "exchanges (recvUint32Array os (ucast P)) (word_array_bytes 4 (bq_Svec bq)) [] (bq_Svec bq)"
    using exchanges_receives[OF uint32_array_round_trip(2)[OF assms(2), of "bq_Svec bq"]] n by (simp only: v n)
  note e3 = exchanges_receives[OF ciphertext_message(2)[OF assms(2) v(3)]]
  have e4: "exchanges (sendUint64Array os [b] 1) [] (word_array_bytes 8 [b]) ()" for b
    using exchanges_sends[OF uint64_array_round_trip(1)[OF assms(2), of "[b]"]] by simp
  let ?st = "st\<lparr>samples := samples st + 1\<rparr>"
  have a: "answer noise decrypt q (bq_bvec bq) (bq_Svec bq) (bq_ciphertext bq) st = Some (Inr ((b0, b1), ?st))"
    using assms(7) by (simp add: answers_to_def answer_result)
  have "exchanges (serve_single os load noise decrypt q st)
      (bool_array_bytes (bq_bvec bq) @ word_array_bytes 4 (bq_Svec bq) @ sized (img (bq_ciphertext bq)) @ [] @ [])
      ([] @ [] @ [] @ word_array_bytes 8 [b0] @ word_array_bytes 8 [b1])
      (Continue (?st\<lparr>queryCount := queryCount ?st + 1\<rparr>))"
    unfolding serve_single_def Let_def P_def[symmetric] assms(4)
    by (rule exchanges_and_then[OF e1], rule exchanges_and_then[OF e2], rule exchanges_and_then[OF e3],
      simp only: map_of_bool a and_then_lift prod.case ucast_1, rule exchanges_and_then[OF e4], rule exchanges_end[OF e4], rule refl)
  then show ?thesis
    using exchanges_and_then[OF exchanges_recv_byte[OF assms(2), of queryType], of "\<lambda>queryType.
        if queryType ! 0 = 0xFF then ret (Break st) else if queryType ! 0 = 0x02 then serve_batch os load noise decrypt q st
        else serve_single os load noise decrypt q st"] assms(5,6)
    by (simp add: serve_one_def)
qed

end

subsection \<open>Query ciphertexts on the wire\<close>

text \<open>A query ciphertext as the library stores it: one modulus, coefficient form, no seed.\<close>

definition store :: "u64 list \<Rightarrow> u64 \<Rightarrow> ciphertext \<Rightarrow> stored_ciphertext" where
  "store parms_id degree ct = \<lparr>st_polynomial_count = of_nat (polynomial_count ct), st_coeff_modulus_size = 1,
     st_poly_modulus_degree = degree, st_data = ct_data ct, st_parms_id = parms_id, st_is_ntt_form = False,
     st_seed = 0, st_device = False\<rparr>"

definition unstore :: "stored_ciphertext \<Rightarrow> ciphertext" where
  "unstore sct = \<lparr>polynomial_count = unat (st_polynomial_count sct), ct_data = st_data sct\<rparr>"

definition save_query :: "u64 list \<Rightarrow> u64 \<Rightarrow> ciphertext save" where
  "save_query parms_id degree ct = save_ciphertext (store parms_id degree ct)"

definition load_query ::
  "(u64 list \<Rightarrow> bool) \<Rightarrow> (u64 \<Rightarrow> nat \<Rightarrow> u64 list) \<Rightarrow> (bytes \<Rightarrow> error + bytes) \<Rightarrow> ciphertext load" where
  "load_query known sample_c1 unzstd stream = map_option (map_sum id unstore) (load_ciphertext known sample_c1 unzstd stream)"

text \<open>Two polynomials of at most \<open>2^15\<close> coefficients.\<close>

definition wire_ct :: "u64 list \<Rightarrow> u64 \<Rightarrow> ciphertext \<Rightarrow> bool" where
  "wire_ct parms_id degree ct \<longleftrightarrow> length parms_id = 4 \<and> unat degree \<le> 32768 \<and> polynomial_count ct = 2 \<and>
     length (ct_data ct) = 2 * unat degree"

lemma store_valid:
  assumes "wire_ct parms_id degree ct"
  shows "valid_stored (store parms_id degree ct)" "unstore (store parms_id degree ct) = ct"
proof -
  have d: "unat (degree * 2) = 2 * unat degree"
    using assms unat_mult_no_overflow[of degree 2] by (simp add: wire_ct_def)
  show "valid_stored (store parms_id degree ct)" using assms d by (simp add: valid_stored_def store_def wire_ct_def)
  show "unstore (store parms_id degree ct) = ct" using assms by (simp add: unstore_def store_def wire_ct_def)
qed

interpretation query_ct: query_format "save_query parms_id degree" "load_query known sample_c1 unzstd"
  "\<lambda>ct. ciphertext_image (store parms_id degree ct)" "wire_ct parms_id degree"
  for parms_id degree known sample_c1 unzstd
proof unfold_locales
  fix ct assume w: "wire_ct parms_id degree ct"
  show "save_query parms_id degree ct = Some (Inr (ciphertext_image (store parms_id degree ct)))"
    by (simp add: save_query_def bfv_wire.save_image[OF store_valid(1)[OF w]])
  show "load_query known sample_c1 unzstd (ciphertext_image (store parms_id degree ct)) = Some (Inr ct)"
    by (simp add: load_query_def bfv_wire.load_image[OF store_valid(1)[OF w]] store_valid(2)[OF w])
  show "length (ciphertext_image (store parms_id degree ct)) < 2 ^ 63"
    by (rule bfv_wire.image_bound[OF store_valid(1)[OF w]])
qed

text \<open>Every query message of the protocol is short enough for its 64-bit size.\<close>

definition wire_query :: "u64 list \<Rightarrow> u64 \<Rightarrow> u32 \<Rightarrow> ciphertext batch_query \<Rightarrow> bool" where
  "wire_query parms_id degree PartNum bq = valid_query (wire_ct parms_id degree) PartNum bq"

lemma wire_query_size:
  assumes "wire_query parms_id degree PartNum bq"
  shows "length (batch_payload (\<lambda>ct. ciphertext_image (store parms_id degree ct)) PartNum [bq]) < 2 ^ 64"
proof -
  have "unat PartNum < 2 ^ 32" using unat_less_exp[of PartNum] by simp
  then show ?thesis
    using assms by (auto simp: wire_query_def valid_query_def wire_ct_def batch_payload_def query_bytes_def sized_def
        ciphertext_image_def header_bytes_def store_def)
qed

text \<open>
  C12: The server loop on the messages of the client program: it answers the queries in order, one noise
  sample each, hands every pair of answers to the oblivious transfer, sends nothing on the main
  connection, and stops at the end signal, however the operating system splits the transfers.
\<close>

theorem serve_answers_in_order:
  fixes st :: loop_state
  defines "P \<equiv> sv_PartNum (ls_server st)"
  assumes "delivers os" "list_all (wire_query parms_id degree P) bqs"
    and "all_answers noise decrypt q (ls_server st) (samples st) bqs = Some rs"
    and "incoming c = concat (map (query_wire (\<lambda>ct. ciphertext_image (store parms_id degree ct)) P) bqs) @ 0xFF # rest"
  shows "\<exists>c'. serve os (load_query known sample_c1 unzstd) noise decrypt q st c = (Done (after st rs), c') \<and>
    incoming c' = rest \<and> outgoing c' = outgoing c"
proof -
  have v: "list_all (\<lambda>bq. valid_query (wire_ct parms_id degree) P bq \<and>
      length (batch_payload (\<lambda>ct. ciphertext_image (store parms_id degree ct)) P [bq]) < 2 ^ 64) bqs"
    using assms(3) wire_query_size by (auto simp: list_all_iff wire_query_def)
  show ?thesis
    using query_ct.serve_messages[OF assms(2) v[unfolded P_def] assms(4) assms(5)[unfolded P_def]] .
qed

text \<open>
  C13: A query of any other type is answered in the clear: both answers are sent back, so the client learns
  the two sums, which the oblivious transfer of the batch mode withholds.
\<close>

theorem single_query_discloses_both:
  fixes st :: loop_state
  assumes "delivers os" "wire_query parms_id degree (sv_PartNum (ls_server st)) bq" "sv_B (ls_server st) = 1"
    and "queryType \<noteq> 0xFF" "queryType \<noteq> 0x02"
    and "answers_to noise decrypt q (ls_server st) (samples st) bq = Some (Inr (b0, b1))"
    and "incoming c = (queryType # bool_array_bytes (bq_bvec bq) @ word_array_bytes 4 (bq_Svec bq) @
           sized (ciphertext_image (store parms_id degree (bq_ciphertext bq)))) @ rest"
  shows "\<exists>c' st'. serve_one os (load_query known sample_c1 unzstd) noise decrypt q st c = (Done (Continue st'), c') \<and>
    outgoing c' = outgoing c @ word_array_bytes 8 [b0] @ word_array_bytes 8 [b1] \<and> ot_sent st' = ot_sent st"
  using exchangesD[OF query_ct.serve_single_one[OF assms(1) assms(2)[unfolded wire_query_def] assms(3-6)] assms(7)] by force

lemma recvBatchQueries_parse:
  fixes c :: connection
  assumes "delivers os" "incoming c = sized payload @ rest" "length payload < 2 ^ 64"
  shows "\<exists>c'. recvBatchQueries os load PartNum c = (parse_batch load PartNum payload, c')"
proof -
  let ?n = "of_nat (length payload) :: u64"
  obtain c1 where c1: "recvData os 8 c = (Done (le_bytes 8 ?n), c1)" "incoming c1 = payload @ rest"
    using exchangesD[OF exchanges_receives[OF receives_recvData[OF assms(1)]], of "le_bytes 8 ?n" 8 c "payload @ rest"] assms(2)
    by (auto simp: sized_def)
  obtain c2 where "recvData os (length payload) c1 = (Done payload, c2)"
    using exchangesD[OF exchanges_receives[OF receives_recvData[OF assms(1)]] c1(2)] by auto
  then show ?thesis
    using c1(1) unat_length[OF assms(3)]
    by (auto simp: recvBatchQueries_def recvSizedBuffer_def and_then_def le_word_le_bytes stop_with_def split: io_result.splits)
qed

lemma load_query_nothing: "load_query known sample_c1 unzstd [] = None"
  by (simp add: load_query_def load_ciphertext_def load_bytes_def)

text \<open>
  C14: What the size of a ciphertext in a batch can do to the server. The size of the last field is the
  client's; the sizes that wrap the bounds check of the batch parser are accepted, but are negative
  as a stream count, so that nothing is written and the server loads a ciphertext from an empty
  stream, that is from uninitialised variables; so does size 0. Every other size is refused, and the
  server ends its loop.
\<close>

theorem hostile_batch_traps:
  fixes st :: loop_state
  assumes "delivers os" "incoming c = 0x02 # sized (hostile_payload (sv_PartNum (ls_server st)) ctSize) @ rest"
  shows "fst (serve os (load_query known sample_c1 unzstd) noise decrypt q st c) =
    (if ctSize = 0 \<or> 2 ^ 64 - int (hostile_size (sv_PartNum (ls_server st))) \<le> uint ctSize then Trap else Done st)"
proof -
  let ?P = "sv_PartNum (ls_server st)" and ?load = "load_query known sample_c1 unzstd"
  let ?p = "hostile_payload ?P ctSize"
  let ?r = "if ctSize = 0 \<or> 2 ^ 64 - int (hostile_size ?P) \<le> uint ctSize then Trap else Failed"
  obtain c1 where c1: "recvData os 1 c = (Done [0x02], c1)" "incoming c1 = sized ?p @ rest"
    using exchangesD[OF exchanges_recv_byte[OF assms(1), of "0x02"], of c "sized ?p @ rest"] assms(2) by auto
  have "length ?p < 2 ^ 64" using hostile_layout(1)[of ?P ctSize] hostile_layout(2)[of ?P] by simp
  from recvBatchQueries_parse[OF assms(1) c1(2) this, of ?load ?P]
  obtain c2 where "recvBatchQueries os ?load ?P c1 = (?r, c2)"
    unfolding hostile_result[of ?load ?P ctSize, OF load_query_nothing] by blast
  then have "serve_one os ?load noise decrypt q st c = (if ctSize = 0 \<or> 2 ^ 64 - int (hostile_size ?P) \<le> uint ctSize then Trap else Failed, c2)"
    using c1(1) by (simp add: serve_one_def serve_batch_def and_then_def)
  then show ?thesis by (subst serve.simps) simp
qed

end
