(* ===== verification/Prf.thy ===== *)
theory Prf
  imports Prelude
begin

text \<open>
  The two PRF classes of \<open>src/src/include/utils.h\<close>. One AES-128 block (Crypto++'s
  \<open>AES::Encryption::ProcessBlock\<close> under the client's key) is the argument \<open>aes\<close>: a map
  from 16 input bytes to 16 output bytes. The classes pack their words into the block,
  and read the output block as four 32-bit or eight 16-bit little-endian values.
\<close>

type_synonym block_cipher = "bytes \<Rightarrow> bytes"

text \<open>\<open>prfIn\<close>: the first word, then \<open>(word3 << 16) | word2\<close>, then two zero words.\<close>

definition prf_input :: "u32 \<Rightarrow> u32 \<Rightarrow> u32 \<Rightarrow> bytes" where
  "prf_input word1 word2 word3 =
     le_bytes 4 word1 @ le_bytes 4 (push_bit 16 word3 OR word2) @
     le_bytes 4 (0::u32) @ le_bytes 4 (0::u32)"

definition evaluate :: "block_cipher \<Rightarrow> u32 \<Rightarrow> u32 \<Rightarrow> u32 \<Rightarrow> bytes" where
  "evaluate aes word1 word2 word3 = aes (prf_input word1 word2 word3)"

text \<open>Reading the output buffer through a \<open>uint32_t[4]\<close> or a \<open>uint16_t[8]\<close>.\<close>

definition as_u32 :: "bytes \<Rightarrow> nat \<Rightarrow> u32" where
  "as_u32 blk i = le_word (take 4 (drop (4 * i) blk))"

definition as_u16 :: "bytes \<Rightarrow> nat \<Rightarrow> u16" where
  "as_u16 blk i = le_word (take 2 (drop (2 * i) blk))"

subsection \<open>\<open>PRFHintID\<close>: one block serves consecutive hint IDs\<close>

definition PRF4Select :: "block_cipher \<Rightarrow> u32 \<Rightarrow> u32 \<Rightarrow> u32 \<Rightarrow> bool" where
  "PRF4Select aes hintID partID cutoff =
     (as_u32 (evaluate aes (hintID div 4) partID 1) (unat (hintID mod 4)) < cutoff)"

definition PRF4Idx :: "block_cipher \<Rightarrow> u32 \<Rightarrow> u32 \<Rightarrow> u16" where
  "PRF4Idx aes hintID partID =
     as_u16 (evaluate aes (hintID div 8) partID 2) (unat (hintID mod 8))"

subsection \<open>\<open>PRFPartitionID\<close>: one block serves consecutive partitions\<close>

definition part_PRF4Select :: "block_cipher \<Rightarrow> u32 \<Rightarrow> u32 \<Rightarrow> u32 \<Rightarrow> bool" where
  "part_PRF4Select aes hintID partID cutoff =
     (as_u32 (evaluate aes hintID (partID div 4) 1) (unat (partID mod 4)) < cutoff)"

definition part_PRF4Idx :: "block_cipher \<Rightarrow> u32 \<Rightarrow> u32 \<Rightarrow> u16" where
  "part_PRF4Idx aes hintID partID =
     as_u16 (evaluate aes hintID (partID div 8) 2) (unat (partID mod 8))"

definition PRFBatchIdx :: "block_cipher \<Rightarrow> u32 \<Rightarrow> u32 \<Rightarrow> u16 list" where
  "PRFBatchIdx aes hintID partID =
     (let blk = evaluate aes hintID (partID div 8) 2 in map (as_u16 blk) [0..<8])"

definition PRFBatchSelect :: "block_cipher \<Rightarrow> u32 \<Rightarrow> u32 \<Rightarrow> u32 list" where
  "PRFBatchSelect aes hintID partID =
     (let blk = evaluate aes hintID (partID div 4) 1 in map (as_u32 blk) [0..<4])"

subsection \<open>The select value as a number\<close>

definition select_value :: "block_cipher \<Rightarrow> u32 \<Rightarrow> u32 \<Rightarrow> u32" where
  "select_value aes hintID partID =
     as_u32 (evaluate aes (hintID div 4) partID 1) (unat (hintID mod 4))"

lemma PRF4Select_value: "PRF4Select aes h k c \<longleftrightarrow> select_value aes h k < c"
  by (simp add: PRF4Select_def select_value_def)

lemma PRF4Select_zero [simp]: "\<not> PRF4Select aes h k 0"
  by (simp add: PRF4Select_def)

lemma unat_of_nat_u32: "n < 2 ^ 32 \<Longrightarrow> unat (of_nat n :: u32) = n"
  by (simp add: unat_of_nat take_bit_nat_eq_self)

lemma of_nat_div_u32:
  "h < 2 ^ 32 \<Longrightarrow> 0 < d \<Longrightarrow> d < 2 ^ 32 \<Longrightarrow> (of_nat h :: u32) div of_nat d = of_nat (h div d)"
  using unat_of_nat_u32[of "h div d"] unat_of_nat_u32[of h] unat_of_nat_u32[of d]
    div_le_dividend[of h d]
  by (simp add: word_unat_eq_iff unat_div)

lemma of_nat_mod_u32:
  "h < 2 ^ 32 \<Longrightarrow> 0 < d \<Longrightarrow> d < 2 ^ 32 \<Longrightarrow> unat ((of_nat h :: u32) mod of_nat d) = h mod d"
  by (simp add: unat_mod unat_of_nat_u32)

lemma batch_select:
  assumes "h < 2 ^ 32"
  shows "as_u32 (evaluate aes (of_nat (h div 4)) k 1) (h mod 4) < c \<longleftrightarrow> PRF4Select aes (of_nat h) k c"
  using of_nat_div_u32[OF assms, of 4] of_nat_mod_u32[OF assms, of 4] by (simp add: PRF4Select_def)

lemma batch_idx:
  assumes "h < 2 ^ 32"
  shows "as_u16 (evaluate aes (of_nat (h div 8)) k 2) (h mod 8) = PRF4Idx aes (of_nat h) k"
  using of_nat_div_u32[OF assms, of 8] of_nat_mod_u32[OF assms, of 8] by (simp add: PRF4Idx_def)

text \<open>
  evaluating four consecutive hint IDs in one block, as the offline phase does, gives
  the values the single-hint selection uses online: the block evaluated at \<open>h div 4\<close> read
  at position \<open>h mod 4\<close> decides exactly \<open>PRF4Select\<close>; likewise for eight offsets.
\<close>

theorem prf_batch_agrees:
  assumes "h < 2 ^ 32"
  shows "(as_u32 (evaluate aes (of_nat (h div 4)) k 1) (h mod 4) < c \<longleftrightarrow> PRF4Select aes (of_nat h) k c) \<and>
    as_u16 (evaluate aes (of_nat (h div 8)) k 2) (h mod 8) = PRF4Idx aes (of_nat h) k"
  using batch_select[OF assms] batch_idx[OF assms] by blast

theorem prf_batch_agrees_witness:
  "(as_u32 (evaluate rev (of_nat (7 div 4)) 5 1) (7 mod 4) < 9 \<longleftrightarrow> PRF4Select rev (of_nat 7) 5 9) \<and>
    as_u16 (evaluate rev (of_nat (7 div 8)) 5 2) (7 mod 8) = PRF4Idx rev (of_nat 7) 5"
  by (rule prf_batch_agrees) simp

lemma part_batch_select:
  "PRFBatchSelect aes h k ! unat (k mod 4) < c \<longleftrightarrow> part_PRF4Select aes h k c"
proof -
  have "unat (k mod 4) < 4" by (simp add: unat_mod)
  then show ?thesis by (simp add: PRFBatchSelect_def part_PRF4Select_def Let_def)
qed

lemma part_batch_idx: "PRFBatchIdx aes h k ! unat (k mod 8) = part_PRF4Idx aes h k"
proof -
  have "unat (k mod 8) < 8" by (simp add: unat_mod)
  then show ?thesis by (simp add: PRFBatchIdx_def part_PRF4Idx_def Let_def)
qed

subsection \<open>Domain separation of the block inputs\<close>

text \<open>
  The third word is a domain tag: 1 for select values, 2 for offsets, 0 for dummy indices.
  It shares its 32-bit word with the second word.
\<close>

lemma not_bit_beyond:
  fixes w :: u32
  assumes "unat w < 2 ^ n" "n \<le> i"
  shows "\<not> bit w i"
proof
  assume "bit w i"
  then have b: "bit (unat w) i" unfolding bit_unsigned_iff by simp
  have t: "take_bit n (unat w) = unat w" using assms(1) by (rule take_bit_nat_eq_self)
  have "bit (take_bit n (unat w)) i" unfolding t by (rule b)
  then have "i < n" unfolding bit_take_bit_iff by (rule conjunct1)
  with assms(2) show False by simp
qed

lemma le_bytes_inject:
  fixes v w :: "'a::len word"
  assumes "LENGTH('a) \<le> 8 * n"
  shows "le_bytes n v = le_bytes n w \<longleftrightarrow> v = w"
proof
  assume e: "le_bytes n v = le_bytes n w"
  have "v = le_word (le_bytes n v)" by (rule le_word_le_bytes[OF assms, symmetric])
  also have "\<dots> = w" unfolding e by (rule le_word_le_bytes[OF assms])
  finally show "v = w" .
qed simp

lemma pack16_inject:
  fixes t t' w w' :: u32
  assumes "unat w < 2 ^ 16" "unat w' < 2 ^ 16" "unat t < 2 ^ 16" "unat t' < 2 ^ 16"
    and e: "push_bit 16 t OR w = push_bit 16 t' OR w'"
  shows "w = w' \<and> t = t'"
proof -
  have bits: "bit (push_bit 16 t OR w) i = bit (push_bit 16 t' OR w') i" for i using e by simp
  have "bit w i = bit w' i" for i
    using bits[of i] not_bit_beyond[OF assms(1), of i] not_bit_beyond[OF assms(2), of i]
    by (cases "i < 16") (auto simp: bit_simps)
  then have "w = w'" by (intro bit_word_eqI) simp
  moreover have "bit t i = bit t' i" if "i < 32" for i
    using bits[of "16 + i"] not_bit_beyond[OF assms(1), of "16 + i"]
      not_bit_beyond[OF assms(2), of "16 + i"] not_bit_beyond[OF assms(3), of i]
      not_bit_beyond[OF assms(4), of i]
    by (cases "i < 16") (auto simp: bit_simps)
  then have "t = t'" by (intro bit_word_eqI) simp
  ultimately show ?thesis by simp
qed

text \<open>
  block inputs are separated: as long as the second word (a partition number, or the
  index of a block of eight dummy indices) is below \<open>2^16\<close>, two calls feed AES the same
  block only if all three words agree.
\<close>

theorem prf_input_injective:
  assumes "unat w2 < 2 ^ 16" "unat v2 < 2 ^ 16" "unat w3 < 2 ^ 16" "unat v3 < 2 ^ 16"
  shows "prf_input w1 w2 w3 = prf_input v1 v2 v3 \<longleftrightarrow> w1 = v1 \<and> w2 = v2 \<and> w3 = v3"
  using pack16_inject[OF assms]
  by (auto simp: prf_input_def append_eq_append_conv le_bytes_inject)

theorem prf_input_injective_witness:
  "prf_input 7 3 1 = prf_input 7 3 2 \<longleftrightarrow> (7::u32) = 7 \<and> (3::u32) = 3 \<and> (1::u32) = 2"
  by (rule prf_input_injective) simp_all

text \<open>
  beyond that bound separation is lost: the dummy-index block number \<open>2^16 + k\<close> (drawn
  with hint word 0 and tag 0) is, byte for byte, the select block of hints 0 to 3 in
  partition \<open>k\<close>. The client counts dummy blocks without bound, so after \<open>2^19\<close> dummy draws
  it reuses select outputs as offsets.
\<close>

theorem dummy_block_collides_with_select:
  "prf_input 0 (of_nat (2 ^ 16 + k)) 0 = prf_input 0 (of_nat k) 1"
  if "k < 2 ^ 16"
proof -
  have "(of_nat (2 ^ 16 + k) :: u32) = push_bit 16 1 OR of_nat k"
  proof -
    have u: "unat (of_nat k :: u32) < 2 ^ 16" using that by (simp add: unat_of_nat_u32)
    have "(push_bit 16 1 :: u32) AND of_nat k = 0"
    proof (rule bit_word_eqI)
      fix i
      show "bit ((push_bit 16 1 :: u32) AND of_nat k) i = bit (0 :: u32) i"
        using not_bit_beyond[OF u, of i] unfolding bit_and_iff bit_push_bit_iff
        by (cases "i < 16") auto
    qed
    then have "push_bit 16 1 OR of_nat k = push_bit 16 1 + (of_nat k :: u32)"
      by (rule disjunctive_add_eq_or[symmetric])
    then show ?thesis by simp
  qed
  then show ?thesis by (simp add: prf_input_def)
qed

theorem dummy_block_collides_with_select_witness:
  "prf_input 0 (of_nat (2 ^ 16 + 5)) 0 = prf_input 0 (of_nat 5) 1"
  by (rule dummy_block_collides_with_select) simp

end
