(* ===== verification/Cutoff.thy ===== *)
theory Cutoff
  imports Prelude "HOL-Library.Multiset"
begin

text \<open>
  \<open>FindCutoff\<close> of \<open>src/src/utils.cpp\<close>: the median of a hint's select values, or 0 when
  the hint is given up. The three-way filter compacts the middle values to the front of
  the buffer in place; \<open>std::nth_element\<close> is used through the contract the C++ standard
  gives it (locale \<open>nth_element_spec\<close>): a permutation with the right element in place.
\<close>

definition LowerFilter :: u32 where "LowerFilter = 0x80000000 - push_bit 28 1"
definition UpperFilter :: u32 where "UpperFilter = 0x80000000 + push_bit 28 1"

type_synonym filter_state = "u32 list \<times> nat \<times> nat \<times> nat"

text \<open>One iteration: (buffer, LowerCnt, UpperCnt, MiddleCnt).\<close>

fun filter_step :: "nat \<Rightarrow> filter_state \<Rightarrow> filter_state" where
  "filter_step k (vs, lower, upper, middle) =
     (if vs ! k < LowerFilter then (vs, Suc lower, upper, middle)
      else if vs ! k > UpperFilter then (vs, lower, Suc upper, middle)
      else (vs[middle := vs ! k], lower, upper, Suc middle))"

definition filter_loop :: "u32 list \<Rightarrow> nat \<Rightarrow> filter_state" where
  "filter_loop vs n = fold filter_step [0..<n] (vs, 0, 0, 0)"

type_synonym nth_element = "u32 list \<Rightarrow> nat \<Rightarrow> u32 list"

text \<open>The cutoff and the buffer the call leaves behind.\<close>

definition FindCutoff :: "nth_element \<Rightarrow> u32 list \<Rightarrow> nat \<Rightarrow> u32 \<times> u32 list" where
  "FindCutoff ne prfVals PartNum =
     (let (vs, lower, upper, middle) = filter_loop prfVals PartNum in
      if lower \<ge> PartNum div 2 \<or> upper \<ge> PartNum div 2 then (0, vs)
      else
        let median = PartNum div 2 - lower;
            mid = ne (take middle vs) median;
            cutoff = mid ! median;
            mid' = mid[median := 0]
        in (if list_ex (\<lambda>k. mid' ! k = cutoff) [0..<middle] then 0 else cutoff,
            mid' @ drop middle vs))"

subsection \<open>The filter loop\<close>

definition in_middle :: "u32 \<Rightarrow> bool" where
  "in_middle v \<longleftrightarrow> \<not> v < LowerFilter \<and> \<not> v > UpperFilter"

lemma filter_fold_invariant:
  assumes "n \<le> length vs"
  shows "\<exists>vs' l u m. fold filter_step [0..<n] (vs, 0, 0, 0) = (vs', l, u, m) \<and>
      length vs' = length vs \<and> m \<le> n \<and>
      take m vs' = filter in_middle (take n vs) \<and> drop n vs' = drop n vs \<and>
      l = length (filter (\<lambda>v. v < LowerFilter) (take n vs)) \<and>
      u = length (filter (\<lambda>v. v > UpperFilter) (take n vs)) \<and> l + u + m = n"
  using assms
proof (induction n)
  case 0
  then show ?case by simp
next
  case (Suc n)
  then obtain vs' l u m where IH:
    "fold filter_step [0..<n] (vs, 0, 0, 0) = (vs', l, u, m)"
    "length vs' = length vs" "m \<le> n"
    "take m vs' = filter in_middle (take n vs)" "drop n vs' = drop n vs"
    "l = length (filter (\<lambda>v. v < LowerFilter) (take n vs))"
    "u = length (filter (\<lambda>v. v > UpperFilter) (take n vs))" "l + u + m = n"
    by auto
  have n: "n < length vs" using Suc.prems by simp
  have nth: "vs' ! n = vs ! n"
    using IH(2,5) n by (metis hd_drop_conv_nth)
  have dropS: "drop (Suc n) vs' = drop (Suc n) vs"
    using IH(5) by (metis drop_Suc tl_drop)
  have takeS: "take (Suc n) vs = take n vs @ [vs ! n]" using n by (rule take_Suc_conv_app_nth)
  have excl: "\<not> (v < LowerFilter \<and> v > UpperFilter)" for v
    by (auto simp: LowerFilter_def UpperFilter_def word_less_nat_alt)
  have m: "m < length vs'" using IH(2,3) n by simp
  show ?case
    using IH n nth dropS takeS excl[of "vs ! n"] m in_middle_def[of "vs ! n"]
    by (auto simp: take_Suc_conv_app_nth take_update_cancel drop_update_cancel)
qed

lemma filter_loop_result:
  assumes "length vs = n"
  obtains vs' where "filter_loop vs n =
      (vs', length (filter (\<lambda>v. v < LowerFilter) vs), length (filter (\<lambda>v. v > UpperFilter) vs),
       length (filter in_middle vs))"
    "take (length (filter in_middle vs)) vs' = filter in_middle vs" "length vs' = n"
    "length (filter (\<lambda>v. v < LowerFilter) vs) + length (filter (\<lambda>v. v > UpperFilter) vs)
      + length (filter in_middle vs) = n"
proof -
  obtain vs' l u m where r: "fold filter_step [0..<n] (vs, 0, 0, 0) = (vs', l, u, m)"
    "length vs' = length vs" "take m vs' = filter in_middle vs" "m \<le> n"
    "l = length (filter (\<lambda>v. v < LowerFilter) vs)"
    "u = length (filter (\<lambda>v. v > UpperFilter) vs)" "l + u + m = n"
    using filter_fold_invariant[of n vs] assms by auto
  then have "m = length (filter in_middle vs)" using assms by (metis length_take min.absorb2)
  with r assms that show thesis by (simp add: filter_loop_def)
qed

subsection \<open>The contract of \<open>std::nth_element\<close>\<close>

locale nth_element_spec =
  fixes ne :: nth_element
  assumes ne_mset: "mset (ne xs k) = mset xs"
    and ne_nth: "k < length xs \<Longrightarrow> ne xs k ! k = sort xs ! k"
begin

lemma ne_length [simp]: "length (ne xs k) = length xs"
  using ne_mset[of xs k] by (rule mset_eq_length)

end

lemma sorted_rank:
  assumes "sorted s" "k < length s" "count (mset s) (s ! k) = 1"
  shows "length (filter (\<lambda>x. x < s ! k) s) = k"
proof -
  have s: "s = take k s @ s ! k # drop (Suc k) s"
    using assms(2) by (rule id_take_nth_drop)
  have c: "count (mset s) (s ! k) = count (mset (take k s)) (s ! k) + 1 + count (mset (drop (Suc k) s)) (s ! k)"
    by (subst (1) s) simp
  then have "s ! k \<notin> set (take k s)" using assms(3) by (simp add: count_eq_zero_iff[symmetric])
  moreover have "x \<le> s ! k" if "x \<in> set (take k s)" for x
    using that assms(1,2) by (auto simp: in_set_conv_nth sorted_nth_mono)
  ultimately have "\<forall>x \<in> set (take k s). x < s ! k" by (metis order_le_less)
  then have 1: "filter (\<lambda>x. x < s ! k) (take k s) = take k s" by (simp add: filter_id_conv)
  have "\<forall>x \<in> set (drop (Suc k) s). s ! k \<le> x"
    using assms(1,2) by (auto simp: in_set_conv_nth intro!: sorted_nth_mono)
  then have 2: "filter (\<lambda>x. x < s ! k) (drop (Suc k) s) = []" by (auto simp: filter_empty_conv not_less)
  have "filter (\<lambda>x. x < s ! k) s = filter (\<lambda>x. x < s ! k) (take k s @ s ! k # drop (Suc k) s)"
    using s by simp
  also have "\<dots> = take k s" using 1 2 by simp
  finally show ?thesis using assms(2) by simp
qed

lemma count_update_zero:
  assumes "k < length xs" "xs ! k \<noteq> (0::u32)" "\<forall>j < length xs. xs[k := 0] ! j \<noteq> xs ! k"
  shows "count (mset xs) (xs ! k) = 1"
proof -
  have "xs ! k \<notin> set (xs[k := 0])" using assms(3) by (metis in_set_conv_nth length_list_update)
  then have z: "count (mset (xs[k := 0])) (xs ! k) = 0" by (simp add: count_eq_zero_iff)
  have m: "mset (xs[k := 0]) = add_mset 0 (mset xs - {#xs ! k#})"
    using assms(1) by (rule mset_update)
  have "count (mset xs - {#xs ! k#}) (xs ! k) = 0" using z assms(2) unfolding m by simp
  then have "count (mset xs) (xs ! k) \<le> 1" by simp
  moreover have "count (mset xs) (xs ! k) \<noteq> 0" using assms(1) by (metis count_mset_0_iff nth_mem)
  ultimately show ?thesis by linarith
qed

lemma middle_between:
  assumes "in_middle c" "v < LowerFilter" shows "v < c"
  using assms by (auto simp: in_middle_def)

lemma middle_not_above:
  assumes "in_middle c" "v > UpperFilter" shows "\<not> v < c"
  using assms by (auto simp: in_middle_def)

lemma length_filter_below:
  assumes "in_middle c"
  shows "length (filter (\<lambda>v. v < c) vs)
           = length (filter (\<lambda>v. v < LowerFilter) vs)
             + length (filter (\<lambda>v. v < c) (filter in_middle vs))"
proof (induction vs)
  case (Cons v vs)
  show ?case
    using Cons.IH middle_between[OF assms, of v] middle_not_above[OF assms, of v]
    by (auto simp: in_middle_def)
qed simp

lemma count_filter_middle:
  "in_middle c \<Longrightarrow> count (mset (filter in_middle vs)) c = count (mset vs) c"
  by (induction vs) auto

context nth_element_spec
begin

lemma FindCutoff_nonzero:
  assumes len: "length vs = n" and c: "fst (FindCutoff ne vs n) = c" "c \<noteq> 0"
  shows "length (filter (\<lambda>v. v < c) vs) = n div 2 \<and> count (mset vs) c = 1"
proof -
  let ?mid = "filter in_middle vs"
  let ?l = "length (filter (\<lambda>v. v < LowerFilter) vs)"
  let ?u = "length (filter (\<lambda>v. v > UpperFilter) vs)"
  obtain vs' where fl: "filter_loop vs n = (vs', ?l, ?u, length ?mid)"
    and vs': "take (length ?mid) vs' = ?mid" and sum: "?l + ?u + length ?mid = n"
    using filter_loop_result[OF len] by metis
  let ?med = "n div 2 - ?l"
  have nr: "\<not> (?l \<ge> n div 2 \<or> ?u \<ge> n div 2)"
    using c by (auto simp: FindCutoff_def fl Let_def)
  then have med: "?med < length ?mid" using sum by linarith
  have cutoff: "c = ne ?mid ?med ! ?med" "\<not> (\<exists>k < length ?mid. (ne ?mid ?med)[?med := 0] ! k = c)"
    using c nr vs' by (auto simp: FindCutoff_def fl Let_def list_ex_iff split: if_splits)
  have one: "count (mset ?mid) c = 1"
    using count_update_zero[of ?med "ne ?mid ?med"] cutoff c(2) med by (auto simp: ne_mset)
  have srt: "c = sort ?mid ! ?med" using cutoff(1) ne_nth[OF med] by simp
  have "c \<in> set ?mid" using one by (metis count_inI set_mset_mset zero_neq_one)
  then have mid: "in_middle c" by simp
  have "length (filter (\<lambda>x. x < sort ?mid ! ?med) (sort ?mid)) = ?med"
    by (rule sorted_rank) (use med one srt in auto)
  moreover have "length (filter (\<lambda>x. x < c) (sort ?mid)) = length (filter (\<lambda>x. x < c) ?mid)"
    by (metis length_sort filter_sort)
  ultimately have "length (filter (\<lambda>v. v < c) ?mid) = ?med" using srt by simp
  then have "length (filter (\<lambda>v. v < c) vs) = n div 2"
    using length_filter_below[OF mid, of vs] nr by linarith
  moreover have "count (mset vs) c = 1" using count_filter_middle[OF mid, of vs] one by simp
  ultimately show ?thesis by blast
qed

lemma FindCutoff_is_median:
  assumes len: "length vs = n" and c: "fst (FindCutoff ne vs n) \<noteq> 0"
  shows "fst (FindCutoff ne vs n) = sort (filter in_middle vs) ! (n div 2 - length (filter (\<lambda>v. v < LowerFilter) vs))"
proof -
  obtain vs' where fl: "filter_loop vs n =
      (vs', length (filter (\<lambda>v. v < LowerFilter) vs), length (filter (\<lambda>v. v > UpperFilter) vs),
       length (filter in_middle vs))"
    and vs': "take (length (filter in_middle vs)) vs' = filter in_middle vs"
    and sum: "length (filter (\<lambda>v. v < LowerFilter) vs) + length (filter (\<lambda>v. v > UpperFilter) vs)
      + length (filter in_middle vs) = n"
    using filter_loop_result[OF len] by metis
  show ?thesis
    using c sum vs' by (auto simp: FindCutoff_def fl Let_def intro!: ne_nth split: if_splits)
qed

end

subsection \<open>A concrete \<open>nth_element\<close>\<close>

text \<open>Sorting the range is one implementation the standard allows.\<close>

definition std_nth_element :: nth_element where
  "std_nth_element xs k = sort xs"

interpretation std: nth_element_spec std_nth_element
  by unfold_locales (simp_all add: std_nth_element_def)

text \<open>
  C33: a cutoff that is not 0 splits the partitions in half: exactly \<open>PartNum div 2\<close> of the
  select values lie below it, and it is itself one of the values and occurs once.
\<close>

theorem FindCutoff_splits_evenly:
  assumes "length prfVals = PartNum" "fst (FindCutoff std_nth_element prfVals PartNum) = c" "c \<noteq> 0"
  shows "length (filter (\<lambda>v. v < c) prfVals) = PartNum div 2 \<and> count (mset prfVals) c = 1"
  using assms by (rule std.FindCutoff_nonzero)

theorem FindCutoff_splits_evenly_witness:
  "length (filter (\<lambda>v. v < 0x80000001) [0x80000005, 0x7fffffff, 0x80000001, 0x7ffffff0 :: u32]) = 4 div 2
   \<and> count (mset [0x80000005, 0x7fffffff, 0x80000001, 0x7ffffff0 :: u32]) 0x80000001 = 1"
proof (rule FindCutoff_splits_evenly)
  show "fst (FindCutoff std_nth_element [0x80000005, 0x7fffffff, 0x80000001, 0x7ffffff0] 4) = 0x80000001"
    by code_simp
qed simp_all

end
