(* ===== verification/Client.thy ===== *)
theory Client
  imports Utils Prf Cutoff Phase
begin

text \<open>
  The client of \<open>src/src/client.cpp\<close>: hint storage, dummy indices, the search for a hint,
  the offline phase and the single-use cache of encryptions of zero. AES is the
  argument \<open>aes\<close>, \<open>std::nth_element\<close> the argument \<open>ne\<close>, and \<open>enc0 i\<close> the \<open>i\<close>-th fresh
  encryption of zero. Loop counters are naturals; every word the code stores is a word.
\<close>

record client =
  HintID :: "u32 list"
  ExtraPart :: "u16 list"
  ExtraOffset :: "u16 list"
  SelectCutoff :: "u32 list"
  IndicatorBit :: "u8 list"
  ciParity :: "ciphertext list"
  prfDummyIndices :: "u16 list"
  dummyIdxUsed :: u64
  prfSelectVals :: "u32 list"
  cl_bvec :: "bool list"
  cl_Svec :: "u32 list"
  cl_N :: u32
  cl_B :: u32
  cl_PartNum :: u32
  cl_PartSize :: u32
  cl_lambda :: u32
  cl_M :: u32
  LastHintID :: u64
  Parity :: "u64 list"
  DBPart :: "u64 list"
  Response_b0 :: "u64 list"
  Response_b1 :: "u64 list"
  cl_tmpEntry :: "u64 list"
  cl_plainModulus :: u64
  NextHintIndex :: u32
  BackupUsedAgain :: u32
  encZeroCache :: "ciphertext list"
  encZeroNext :: nat

text \<open>
  Construction. \<open>new T[n]\<close> leaves its contents unspecified: \<open>heap\<close> gives the initial contents of
  the arrays, cut or padded to the requested size.
\<close>

definition new_array :: "nat \<Rightarrow> 'a::zero list \<Rightarrow> 'a list" where
  "new_array n contents = take n (contents @ replicate n 0)"

definition OneSVClient :: "client \<Rightarrow> u32 \<Rightarrow> u32 \<Rightarrow> u64 \<Rightarrow> client option" where
  "OneSVClient heap LogN EntryB p =
     (if LogN < 32 \<and> EntryB \<ge> 8 then
        let PartNum = push_bit (unat (LogN div 2)) 1;
            PartSize = push_bit (unat (LogN div 2 + LogN mod 2)) 1;
            M = of_nat LAMBDA * PartSize; B = EntryB div 8
        in Some \<lparr>HintID = new_array (unat M) (HintID heap),
             ExtraPart = new_array (unat M) (ExtraPart heap),
             ExtraOffset = new_array (unat M) (ExtraOffset heap),
             SelectCutoff = new_array (unat (M * 2)) (SelectCutoff heap),
             IndicatorBit = new_array (unat ((M + 7) div 8)) (IndicatorBit heap),
             ciParity = [], prfDummyIndices = new_array 8 (prfDummyIndices heap), dummyIdxUsed = 0,
             prfSelectVals = new_array (unat (PartNum * 4)) (prfSelectVals heap),
             cl_bvec = take (unat PartNum) (cl_bvec heap @ replicate (unat PartNum) False),
             cl_Svec = new_array (unat PartNum) (cl_Svec heap),
             cl_N = push_bit (unat LogN) 1, cl_B = B, cl_PartNum = PartNum, cl_PartSize = PartSize,
             cl_lambda = of_nat LAMBDA, cl_M = M, LastHintID = 0, Parity = new_array (unat (M * 2 * B)) (Parity heap),
             DBPart = new_array (unat PartSize) (DBPart heap), Response_b0 = new_array (unat B) (Response_b0 heap),
             Response_b1 = new_array (unat B) (Response_b1 heap), cl_tmpEntry = new_array (unat B) (cl_tmpEntry heap),
             cl_plainModulus = p,
             NextHintIndex = NextHintIndex heap, BackupUsedAgain = BackupUsedAgain heap,
             encZeroCache = [], encZeroNext = 0\<rparr>
      else None)"

subsection \<open>Dummy indices\<close>

definition NextDummyIdx :: "block_cipher \<Rightarrow> client \<Rightarrow> u16 \<times> client" where
  "NextDummyIdx aes cl =
     (let cl = (if dummyIdxUsed cl mod 8 = 0
                then cl\<lparr>prfDummyIndices := map (as_u16 (evaluate aes 0 (ucast (dummyIdxUsed cl div 8)) 0)) [0..<8]\<rparr>
                else cl)
      in (prfDummyIndices cl ! unat (dummyIdxUsed cl mod 8), cl\<lparr>dummyIdxUsed := dummyIdxUsed cl + 1\<rparr>))"

subsection \<open>The indicator bits\<close>

definition indicator :: "client \<Rightarrow> nat \<Rightarrow> bool" where
  "indicator cl hintIndex = (drop_bit (hintIndex mod 8) (IndicatorBit cl ! (hintIndex div 8)) AND 1 = 1)"

text \<open>\<open>(byte & ~(1 << i)) | (b << i)\<close>\<close>

definition set_indicator :: "client \<Rightarrow> nat \<Rightarrow> bool \<Rightarrow> client" where
  "set_indicator cl hintIndex b =
     cl\<lparr>IndicatorBit := (IndicatorBit cl)[hintIndex div 8 :=
        (IndicatorBit cl ! (hintIndex div 8) AND NOT (push_bit (hintIndex mod 8) 1))
          OR push_bit (hintIndex mod 8) (of_bool b)]\<rparr>"

subsection \<open>Finding a hint for a query\<close>

text \<open>The scan over hint indices; the flag is the out-parameter \<open>b_indicator\<close>.\<close>

fun find_hint_loop ::
  "block_cipher \<Rightarrow> u32 \<Rightarrow> u16 \<Rightarrow> u16 \<Rightarrow> client \<Rightarrow> nat list \<Rightarrow> bool \<Rightarrow> nat \<times> bool" where
  "find_hint_loop aes query queryPartNum queryOffset cl [] b_indicator = (unat (cl_M cl + 1), b_indicator)"
| "find_hint_loop aes query queryPartNum queryOffset cl (h # hs) b_indicator =
     (if SelectCutoff cl ! h = 0
      then find_hint_loop aes query queryPartNum queryOffset cl hs b_indicator
      else
        let b_indicator = indicator cl h in
        if ExtraPart cl ! h = queryPartNum \<and> ExtraOffset cl ! h = queryOffset then (h, b_indicator)
        else
          let r = ucast (PRF4Idx aes (HintID cl ! h) (ucast queryPartNum)) :: u32 in
          if (r XOR query) AND (cl_PartSize cl - 1) \<noteq> 0
          then find_hint_loop aes query queryPartNum queryOffset cl hs b_indicator
          else if PRF4Select aes (HintID cl ! h) (ucast queryPartNum) (SelectCutoff cl ! h) = b_indicator
          then (h, b_indicator)
          else find_hint_loop aes query queryPartNum queryOffset cl hs b_indicator)"

definition find_hint :: "block_cipher \<Rightarrow> u32 \<Rightarrow> u16 \<Rightarrow> u16 \<Rightarrow> client \<Rightarrow> bool \<Rightarrow> nat \<times> bool" where
  "find_hint aes query queryPartNum queryOffset cl b_indicator =
     find_hint_loop aes query queryPartNum queryOffset cl [0..<unat (cl_M cl)] b_indicator"

subsection \<open>Encryptions of zero, each used once\<close>

definition precomputeEncZeros :: "he_context \<Rightarrow> (nat \<Rightarrow> u64 list \<Rightarrow> ciphertext) \<Rightarrow> nat \<Rightarrow> client \<Rightarrow> error + client" where
  "precomputeEncZeros C encrypt cnt cl =
     map_sum id (\<lambda>zero_plain. cl\<lparr>encZeroCache := map (\<lambda>i. encrypt i zero_plain) [0..<cnt], encZeroNext := 0\<rparr>)
       (encode_polynomial C (replicate (unat (cl_PartSize cl)) 0))"

definition getNextEncZero :: "client \<Rightarrow> error + ciphertext \<times> client" where
  "getNextEncZero cl =
     (if encZeroCache cl = []
      then Inl (RuntimeError ''Enc(0) cache is empty'')
      else if encZeroNext cl \<ge> length (encZeroCache cl)
      then Inl (RuntimeError ''Enc(0) cache exhausted: ciphertext randomizers must never be reused'')
      else Inr (encZeroCache cl ! encZeroNext cl, cl\<lparr>encZeroNext := encZeroNext cl + 1\<rparr>))"

subsection \<open>The offline phase\<close>

text \<open>Select values of four consecutive hints: \<open>prfSelectVals[PartNum * l + k] = prfOut[l]\<close>.\<close>

definition fill_select_vals :: "block_cipher \<Rightarrow> nat \<Rightarrow> nat \<Rightarrow> u32 list \<Rightarrow> u32 list" where
  "fill_select_vals aes PartNum quad =
     fold (\<lambda>k vals.
         let prfOut = evaluate aes (of_nat quad) (of_nat k) 1
         in fold (\<lambda>l vals. vals[PartNum * l + k := as_u32 prfOut l]) [0..<4] vals) [0..<PartNum]"

definition cutoff_step :: "block_cipher \<Rightarrow> nth_element \<Rightarrow> nat \<Rightarrow> client \<Rightarrow> client" where
  "cutoff_step aes ne hint_i cl =
     (let PartNum = unat (cl_PartNum cl);
          vals = (if hint_i mod 4 = 0 then fill_select_vals aes PartNum (hint_i div 4) (prfSelectVals cl)
                  else prfSelectVals cl);
          base = PartNum * (hint_i mod 4);
          (cutoff, part) = FindCutoff ne (take PartNum (drop base vals)) PartNum
      in cl\<lparr>prfSelectVals := take base vals @ part @ drop (base + PartNum) vals,
            SelectCutoff := (SelectCutoff cl)[hint_i := cutoff]\<rparr>)"

text \<open>Draw dummy indices until one names a partition the hint does not select.\<close>

partial_function (option) pick_extra :: "block_cipher \<Rightarrow> nat \<Rightarrow> client \<Rightarrow> (u16 \<times> client) option" where
  "pick_extra aes hint_i cl =
     (let (d, cl) = NextDummyIdx aes cl;
          ePart = ucast (ucast d mod cl_PartNum cl)
      in if PRF4Select aes (of_nat hint_i) (ucast ePart) (SelectCutoff cl ! hint_i)
         then pick_extra aes hint_i cl else Some (ePart, cl))"

declare pick_extra.simps [code]

definition extra_step :: "block_cipher \<Rightarrow> nat \<Rightarrow> client \<Rightarrow> client option" where
  "extra_step aes hint_i cl =
     (case pick_extra aes hint_i (cl\<lparr>HintID := (HintID cl)[hint_i := of_nat hint_i]\<rparr>) of
        None \<Rightarrow> None
      | Some (ePart, cl) \<Rightarrow>
          let (d, cl) = NextDummyIdx aes cl;
              eIdx = ucast (ucast d mod cl_PartSize cl)
          in Some (cl\<lparr>ExtraPart := (ExtraPart cl)[hint_i := ePart],
                      ExtraOffset := (ExtraOffset cl)[hint_i := eIdx]\<rparr>))"

text \<open>One hint of one partition: \<open>(prfOut, prfIndices, ciParity)\<close>.\<close>

definition parity_step ::
  "he_context \<Rightarrow> block_cipher \<Rightarrow> ciphertext list \<Rightarrow> client \<Rightarrow> nat \<Rightarrow> nat
     \<Rightarrow> bytes \<times> bytes \<times> ciphertext list \<Rightarrow> bytes \<times> bytes \<times> ciphertext list" where
  "parity_step C aes encDB cl part_i hint_i st =
     (let (prfOut, prfIndices, parity) = st;
          M = unat (cl_M cl);
          prfOut = (if hint_i mod 4 = 0 then evaluate aes (of_nat (hint_i div 4)) (of_nat part_i) 1 else prfOut);
          prfIndices = (if hint_i mod 8 = 0 then evaluate aes (of_nat (hint_i div 8)) (of_nat part_i) 2
                        else prfIndices);
          b = (as_u32 prfOut (hint_i mod 4) < SelectCutoff cl ! hint_i);
          r = ucast (ucast (as_u16 prfIndices (hint_i mod 8)) AND (cl_PartSize cl - 1)) :: u16;
          temp = encDB ! part_i
      in (prfOut, prfIndices,
          if hint_i < M then
            (if b then
               parity[hint_i := add_inplace C (parity ! hint_i)
                 (negacyclic_shift C temp (unat (cl_PartSize cl - ucast r - 1)))]
             else if ucast (ExtraPart cl ! hint_i) = (of_nat part_i :: u32) then
               parity[hint_i := add_inplace C (parity ! hint_i)
                 (negacyclic_shift C temp (unat (cl_PartSize cl - ucast (ExtraOffset cl ! hint_i) - 1)))]
             else parity)
          else
            let dst = hint_i + of_bool b * M div 2
            in parity[dst := add_inplace C (parity ! dst)
                 (negacyclic_shift C temp (unat (cl_PartSize cl - ucast r - 1)))]))"

definition parity_loop ::
  "he_context \<Rightarrow> block_cipher \<Rightarrow> ciphertext list \<Rightarrow> client \<Rightarrow> ciphertext list \<Rightarrow> ciphertext list" where
  "parity_loop C aes encDB cl parity =
     (let M = unat (cl_M cl) in
      snd (snd (fold (\<lambda>part_i. fold (parity_step C aes encDB cl part_i) [0..<M + M div 2])
        [0..<unat (cl_PartNum cl)] ([], [], parity))))"

definition Offline ::
  "he_context \<Rightarrow> block_cipher \<Rightarrow> nth_element \<Rightarrow> (nat \<Rightarrow> ciphertext) \<Rightarrow> ciphertext list \<Rightarrow> client \<Rightarrow> client option" where
  "Offline C aes ne enc0 encDB cl =
     (let M = unat (cl_M cl);
          parity = map enc0 [0..<M * 2];
          cl = cl\<lparr>BackupUsedAgain := 0, Parity := replicate (unat (cl_B cl) * M * 2) 0,
            IndicatorBit := replicate ((M + 7) div 8) 255\<rparr>;
          cl = fold (cutoff_step aes ne) [0..<M + M div 2] cl
      in case foldM (extra_step aes) [0..<M] cl of
           None \<Rightarrow> None
         | Some cl \<Rightarrow> Some (cl\<lparr>ciParity := parity_loop C aes encDB cl parity, NextHintIndex := cl_M cl\<rparr>))"

end
