(* ===== verification/Offline_Phase.thy ===== *)
theory Offline_Phase
  imports Client
begin

text \<open>
  The offline phase of the client: after it every hint has the median cutoff of its select
  values, an extra partition it does not select, and a ciphertext that encodes the sum of
  its entries; every backup pair encodes the two halves of its database split.
\<close>

subsection \<open>The shape of the client state\<close>

definition wf_client :: "client \<Rightarrow> bool" where
  "wf_client cl \<longleftrightarrow>
     (\<exists>s\<le>16. unat (cl_PartSize cl) = 2 ^ s) \<and>
     0 < unat (cl_PartNum cl) \<and> unat (cl_PartNum cl) \<le> 2 ^ 16 \<and>
     even (unat (cl_M cl)) \<and> unat (cl_M cl) < 2 ^ 29 \<and>
     length (HintID cl) = unat (cl_M cl) \<and> length (ExtraPart cl) = unat (cl_M cl) \<and>
     length (ExtraOffset cl) = unat (cl_M cl) \<and> length (SelectCutoff cl) = 2 * unat (cl_M cl) \<and>
     length (prfSelectVals cl) = 4 * unat (cl_PartNum cl) \<and>
     length (cl_bvec cl) = unat (cl_PartNum cl) \<and> length (cl_Svec cl) = unat (cl_PartNum cl)"

lemma length_new_array [simp]: "length (new_array n xs) = n"
  by (simp add: new_array_def)

lemma unat_push_one_u32: "n < 32 \<Longrightarrow> unat (push_bit n (1 :: u32)) = 2 ^ n"
  by (simp add: push_bit_eq_mult unat_two_power)

text \<open>Every client the program can construct has this shape.\<close>

lemma OneSVClient_wf:
  assumes "OneSVClient heap LogN EntryB p = Some cl"
  shows "wf_client cl \<and> cl_M cl = 30 * cl_PartSize cl \<and> unat (cl_PartNum cl) = 2 ^ (unat LogN div 2) \<and>
    unat (cl_PartSize cl) = 2 ^ (unat LogN div 2 + unat LogN mod 2)"
proof -
  have L: "unat LogN < 32" using assms by (auto simp: OneSVClient_def word_less_nat_alt split: if_splits)
  let ?a = "unat LogN div 2" and ?b = "unat LogN div 2 + unat LogN mod 2"
  have ab: "?a \<le> 15" "?b \<le> 16" using L by presburger+
  have e: "unat (LogN div 2) = ?a" "unat (LogN div 2 + LogN mod 2) = ?b"
  proof -
    show "unat (LogN div 2) = ?a" by (simp add: unat_div)
    show "unat (LogN div 2 + LogN mod 2) = ?b"
      using ab by (subst unat_add_no_overflow) (simp_all add: unat_div unat_mod)
  qed
  have P0: "cl_PartNum cl = push_bit (unat (LogN div 2)) 1" "cl_PartSize cl = push_bit (unat (LogN div 2 + LogN mod 2)) 1"
    using assms by (auto simp: OneSVClient_def Let_def simp del: push_bit_of_1 split: if_splits)
  have P: "unat (cl_PartNum cl) = 2 ^ ?a" "unat (cl_PartSize cl) = 2 ^ ?b"
    unfolding P0 e using ab by (simp_all only: unat_push_one_u32)
  have le: "(2::nat) ^ ?a \<le> 2 ^ 15" "(2::nat) ^ ?b \<le> 2 ^ 16"
    using ab by (simp_all only: power_increasing one_le_numeral)
  have M: "cl_M cl = 30 * cl_PartSize cl"
    using assms by (auto simp: OneSVClient_def Let_def LAMBDA_def split: if_splits)
  have uM: "unat (cl_M cl) = 30 * 2 ^ ?b"
    unfolding M using P(2) le(2) by (subst unat_mult_no_overflow) simp_all
  have "unat (cl_M cl * 2) = 2 * unat (cl_M cl)"
    using uM le(2) by (subst unat_mult_no_overflow) simp_all
  moreover have "unat (cl_PartNum cl * 4) = 4 * unat (cl_PartNum cl)"
    using P(1) le(1) by (subst unat_mult_no_overflow) simp_all
  ultimately have len: "length (SelectCutoff cl) = 2 * unat (cl_M cl)" "length (prfSelectVals cl) = 4 * unat (cl_PartNum cl)"
    "length (HintID cl) = unat (cl_M cl)" "length (ExtraPart cl) = unat (cl_M cl)"
    "length (ExtraOffset cl) = unat (cl_M cl)"
    "length (cl_bvec cl) = unat (cl_PartNum cl)" "length (cl_Svec cl) = unat (cl_PartNum cl)"
    using assms by (auto simp: OneSVClient_def Let_def split: if_splits)
  have "\<exists>s\<le>16. unat (cl_PartSize cl) = 2 ^ s" using P(2) ab(2) by blast
  then have "wf_client cl" unfolding wf_client_def using P uM le len by simp
  then show ?thesis using P M by simp
qed

subsection \<open>Cutoffs\<close>

text \<open>The select values of hint \<open>h\<close> over all partitions.\<close>

definition select_values :: "block_cipher \<Rightarrow> nat \<Rightarrow> nat \<Rightarrow> u32 list" where
  "select_values aes PartNum h = map (\<lambda>k. select_value aes (of_nat h) (of_nat k)) [0..<PartNum]"

definition part_slice :: "nat \<Rightarrow> 'a list \<Rightarrow> nat \<Rightarrow> 'a list" where
  "part_slice PartNum vals l = take PartNum (drop (PartNum * l) vals)"

lemma fill_select_vals_nth:
  assumes "length vals = 4 * P" "l < 4" "k < P"
  shows "fill_select_vals aes P quad vals ! (P * l + k) = as_u32 (evaluate aes (of_nat quad) (of_nat k) 1) l"
    and "length (fill_select_vals aes P quad vals) = 4 * P"
proof -
  let ?xs = "concat (map (\<lambda>k. map (\<lambda>l. (k, l)) [0..<4]) [0..<P])"
  let ?f = "\<lambda>(k, l). P * l + k" and ?g = "\<lambda>(k, l). as_u32 (evaluate aes (of_nat quad) (of_nat k) 1) l"
  have e: "fill_select_vals aes P quad vals = fold (\<lambda>x r. r[?f x := ?g x]) ?xs vals"
    by (simp add: fill_select_vals_def fold_concat_map fold_map o_def Let_def)
  have inj: "inj_on ?f (set ?xs)"
  proof (rule inj_onI, clarsimp)
    fix k l k' l'
    assume A: "k < P" "k' < P" "P * l + k = P * l' + k'"
    have "k = k'" using A(1,2) arg_cong[OF A(3), of "\<lambda>x. x mod P"] by simp
    with A show "k = k' \<and> l = l'" by auto
  qed
  have "P * (l + 1) \<le> P * 4" using assms(2) by (intro mult_left_mono) auto
  then have "P * l + k < 4 * P" using assms(3) by (simp only: algebra_simps)
  moreover have mem: "(k, l) \<in> set ?xs" using assms(2,3) by force
  ultimately show "fill_select_vals aes P quad vals ! (P * l + k) = as_u32 (evaluate aes (of_nat quad) (of_nat k) 1) l"
    unfolding e using fold_update_nth[OF mem inj, of vals ?g] assms(1) by simp
  show "length (fill_select_vals aes P quad vals) = 4 * P" using assms(1) by (simp add: e)
qed

lemma length_part_slice:
  assumes "length vals = 4 * P" "l < 4"
  shows "P * l + P \<le> 4 * P" and "length (part_slice P vals l) = P"
proof -
  have "P * (l + 1) \<le> P * 4" using assms(2) by (intro mult_le_mono2) simp
  then show le: "P * l + P \<le> 4 * P" by (simp only: algebra_simps)
  then have "P \<le> 4 * P - P * l" by linarith
  then show "length (part_slice P vals l) = P"
    unfolding part_slice_def length_take length_drop assms(1) by (rule min_absorb2)
qed

lemma length_fill_select_vals [simp]:
  "length vals = 4 * P \<Longrightarrow> length (fill_select_vals aes P quad vals) = 4 * P"
  by (cases "P = 0") (simp add: fill_select_vals_def, use fill_select_vals_nth(2)[of vals P 0 0] in simp)

lemma fill_select_vals_slice:
  assumes "length vals = 4 * P" "h div 4 = quad" "h < 2 ^ 32"
  shows "part_slice P (fill_select_vals aes P quad vals) (h mod 4) = select_values aes P h"
proof (rule nth_equalityI)
  let ?v = "fill_select_vals aes P quad vals"
  have h: "h mod 4 < 4" by simp
  have len: "length ?v = 4 * P" using assms(1) by simp
  note le = length_part_slice(1)[OF len h]
  show l: "length (part_slice P ?v (h mod 4)) = length (select_values aes P h)"
    using length_part_slice(2)[OF len h] by (simp add: select_values_def)
  fix k assume "k < length (part_slice P ?v (h mod 4))"
  then have k: "k < P" using l by (simp add: select_values_def)
  have "part_slice P ?v (h mod 4) ! k = ?v ! (P * (h mod 4) + k)"
    using k le by (simp add: part_slice_def len)
  also have "\<dots> = as_u32 (evaluate aes (of_nat quad) (of_nat k) 1) (h mod 4)"
    by (rule fill_select_vals_nth(1)[OF assms(1) h k])
  also have "\<dots> = select_values aes P h ! k"
    using k of_nat_div_u32[OF assms(3), of 4] of_nat_mod_u32[OF assms(3), of 4] assms(2)
    by (simp add: select_values_def select_value_def)
  finally show "part_slice P ?v (h mod 4) ! k = select_values aes P h ! k" .
qed

lemma part_slice_splice:
  assumes "length vals = 4 * P" "length part = P" "i < 4" "l < 4"
  shows "length (take (P * i) vals @ part @ drop (P * i + P) vals) = 4 * P"
    and "part_slice P (take (P * i) vals @ part @ drop (P * i + P) vals) l = (if l = i then part else part_slice P vals l)"
proof -
  let ?v = "take (P * i) vals @ part @ drop (P * i + P) vals"
  note le = length_part_slice(1)[OF assms(1)]
  show len: "length ?v = 4 * P" using assms(1,2) le[OF assms(3)] by simp
  consider "l = i" | "l < i" | "i < l" by linarith
  then show "part_slice P ?v l = (if l = i then part else part_slice P vals l)"
  proof cases
    case 1
    then show ?thesis using assms le[OF assms(3)] by (simp add: part_slice_def)
  next
    case 2
    then have "P * (l + 1) \<le> P * i" by (intro mult_le_mono2) simp
    then have "P * l + P \<le> P * i" by (simp only: algebra_simps)
    then show ?thesis using 2 assms le[OF assms(3)] by (simp add: part_slice_def min_def take_drop)
  next
    case 3
    then have "P * (i + 1) \<le> P * l" by (intro mult_le_mono2) simp
    then have "P * i + P \<le> P * l" by (simp only: algebra_simps)
    then show ?thesis using 3 assms le[OF assms(3)] by (simp add: part_slice_def)
  qed
qed

context nth_element_spec
begin

lemma length_FindCutoff:
  assumes "length vs = n"
  shows "length (snd (FindCutoff ne vs n)) = n"
proof -
  obtain vs' where "filter_loop vs n =
      (vs', length (filter (\<lambda>v. v < LowerFilter) vs), length (filter (\<lambda>v. v > UpperFilter) vs),
       length (filter in_middle vs))" "length vs' = n"
    using filter_loop_result[OF assms] by metis
  then show ?thesis using assms length_filter_le[of in_middle vs] by (simp add: FindCutoff_def Let_def min_def)
qed

text \<open>After \<open>n\<close> hints the buffer still holds the select values of the current four.\<close>

definition cutoff_inv :: "block_cipher \<Rightarrow> client \<Rightarrow> nat \<Rightarrow> client \<Rightarrow> bool" where
  "cutoff_inv aes cl0 n cl \<longleftrightarrow> (let P = unat (cl_PartNum cl0) in \<exists>v sc.
     cl = cl0\<lparr>prfSelectVals := v, SelectCutoff := sc\<rparr> \<and> length v = 4 * P \<and>
     length sc = length (SelectCutoff cl0) \<and>
     (\<forall>h<n. sc ! h = fst (FindCutoff ne (select_values aes P h) P)) \<and>
     (\<forall>l<4. n mod 4 \<noteq> 0 \<longrightarrow> n mod 4 \<le> l \<longrightarrow> part_slice P v l = select_values aes P (4 * (n div 4) + l)))"

lemma cutoff_step_inv:
  assumes "cutoff_inv aes cl0 n cl" "n < length (SelectCutoff cl0)" "n < 2 ^ 30"
  shows "cutoff_inv aes cl0 (Suc n) (cutoff_step aes ne n cl)"
proof -
  let ?P = "unat (cl_PartNum cl0)" and ?m = "n mod 4"
  obtain v sc where cl: "cl = cl0\<lparr>prfSelectVals := v, SelectCutoff := sc\<rparr>" "length v = 4 * ?P"
    "length sc = length (SelectCutoff cl0)"
    "\<forall>h<n. sc ! h = fst (FindCutoff ne (select_values aes ?P h) ?P)"
    and sl: "\<And>l. l < 4 \<Longrightarrow> ?m \<noteq> 0 \<Longrightarrow> ?m \<le> l \<Longrightarrow> part_slice ?P v l = select_values aes ?P (4 * (n div 4) + l)"
    using assms(1) by (auto simp: cutoff_inv_def Let_def)
  define w where "w = (if ?m = 0 then fill_select_vals aes ?P (n div 4) v else v)"
  have lw: "length w = 4 * ?P" using cl(2) by (simp add: w_def)
  have w: "part_slice ?P w l = select_values aes ?P (4 * (n div 4) + l)" if "l < 4" "?m \<le> l" for l
  proof (cases "?m = 0")
    case True
    have "(4 * (n div 4) + l) div 4 = n div 4" "(4 * (n div 4) + l) mod 4 = l" using that by simp_all
    then show ?thesis
      using True fill_select_vals_slice[OF cl(2), of "4 * (n div 4) + l" "n div 4" aes] assms(3) that
      by (simp add: w_def)
  next
    case False
    then show ?thesis using sl[OF that(1) False that(2)] by (simp add: w_def)
  qed
  have m4: "?m < 4" by simp
  have n: "4 * (n div 4) + ?m = n" by simp
  have wn: "take ?P (drop (?P * ?m) w) = select_values aes ?P n"
    using w[OF m4] n by (simp add: part_slice_def)
  obtain c part where fc: "FindCutoff ne (select_values aes ?P n) ?P = (c, part)" by fastforce
  have lp: "length part = ?P"
    using length_FindCutoff[of "select_values aes ?P n" ?P] fc by (simp add: select_values_def)
  let ?v' = "take (?P * ?m) w @ part @ drop (?P * ?m + ?P) w"
  have e: "cutoff_step aes ne n cl = cl0\<lparr>prfSelectVals := ?v', SelectCutoff := sc[n := c]\<rparr>"
  proof -
    have f: "cl_PartNum cl = cl_PartNum cl0" "SelectCutoff cl = sc"
      and w0: "(if ?m = 0 then fill_select_vals aes (unat (cl_PartNum cl)) (n div 4) (prfSelectVals cl)
        else prfSelectVals cl) = w"
      by (simp_all add: cl(1) w_def)
    show ?thesis using wn fc unfolding cutoff_step_def Let_def unfolding w0 unfolding f by (simp add: cl(1))
  qed
  have sl': "part_slice ?P ?v' l = select_values aes ?P (4 * (Suc n div 4) + l)"
    if "l < 4" "Suc n mod 4 \<noteq> 0" "Suc n mod 4 \<le> l" for l
  proof -
    have s: "Suc n mod 4 = Suc ?m" "Suc n div 4 = n div 4"
      using that(2) by (simp_all add: mod_Suc div_Suc split: if_splits)
    then show ?thesis using part_slice_splice(2)[OF lw lp m4 that(1)] w[OF that(1)] that(3) by simp
  qed
  have sc: "\<forall>h<Suc n. sc[n := c] ! h = fst (FindCutoff ne (select_values aes ?P h) ?P)"
    using cl(3,4) assms(2) fc by (auto simp: less_Suc_eq nth_list_update)
  show ?thesis
    unfolding cutoff_inv_def Let_def
    using e part_slice_splice(1)[OF lw lp m4 m4] sl' sc cl(3)
    by (intro exI[of _ ?v'] exI[of _ "sc[n := c]"]) auto
qed

lemma cutoff_loop_result:
  assumes "wf_client cl0" "n \<le> 2 * unat (cl_M cl0)"
  shows "\<exists>v sc. fold (cutoff_step aes ne) [0..<n] cl0 = cl0\<lparr>prfSelectVals := v, SelectCutoff := sc\<rparr> \<and>
    length v = 4 * unat (cl_PartNum cl0) \<and> length sc = 2 * unat (cl_M cl0) \<and>
    (\<forall>h<n. sc ! h = fst (FindCutoff ne (select_values aes (unat (cl_PartNum cl0)) h) (unat (cl_PartNum cl0))))"
proof -
  have wf: "length (prfSelectVals cl0) = 4 * unat (cl_PartNum cl0)"
    "length (SelectCutoff cl0) = 2 * unat (cl_M cl0)" "unat (cl_M cl0) < 2 ^ 29"
    using assms(1) by (simp_all add: wf_client_def)
  have "cutoff_inv aes cl0 n (fold (cutoff_step aes ne) [0..<n] cl0)"
  proof (rule fold_upt_invariant)
    show "cutoff_inv aes cl0 0 cl0"
      unfolding cutoff_inv_def Let_def
      by (intro exI[of _ "prfSelectVals cl0"] exI[of _ "SelectCutoff cl0"]) (simp add: wf)
  qed (use assms(2) wf in \<open>auto intro!: cutoff_step_inv\<close>)
  then show ?thesis using wf(2) by (auto simp: cutoff_inv_def Let_def)
qed

end

end
