(* ===== verification/Extras.thy ===== *)
theory Extras
  imports Offline_Phase
begin

subsection \<open>The stream of dummy indices\<close>

text \<open>The \<open>u\<close>-th dummy index the client draws.\<close>

definition dummy :: "block_cipher \<Rightarrow> u64 \<Rightarrow> u16" where
  "dummy aes u = as_u16 (evaluate aes 0 (ucast (u div 8)) 0) (unat (u mod 8))"

definition dummy_block :: "block_cipher \<Rightarrow> u64 \<Rightarrow> u16 list" where
  "dummy_block aes u = map (as_u16 (evaluate aes 0 (ucast (u div 8)) 0)) [0..<8]"

text \<open>The buffer holds the block in use whenever the next index is not the first of a block.\<close>

definition dummy_ok :: "block_cipher \<Rightarrow> client \<Rightarrow> bool" where
  "dummy_ok aes cl \<longleftrightarrow> (dummyIdxUsed cl mod 8 \<noteq> 0 \<longrightarrow> prfDummyIndices cl = dummy_block aes (dummyIdxUsed cl))"

lemma next_same_block:
  assumes "(u + 1 :: u64) mod 8 \<noteq> 0"
  shows "(u + 1) div 8 = u div 8"
proof -
  have m: "unat (u + 1) mod 8 \<noteq> 0"
    using assms by (simp add: word_unat_eq_iff unat_mod)
  have n: "unat (u + 1) = Suc (unat u)"
  proof -
    have w: "unat (u + 1) = (unat u + 1) mod 2 ^ 64" by (simp add: unat_word_ariths)
    have "unat u + 1 \<noteq> 2 ^ 64" using m w by auto
    then have "unat u + 1 < 2 ^ 64" using unat_less_exp[of u] by simp
    then show ?thesis unfolding w by simp
  qed
  have "Suc (unat u) mod 8 \<noteq> 0" using m unfolding n .
  then have "Suc (unat u) div 8 = unat u div 8" by (simp add: div_Suc)
  then show ?thesis by (simp add: word_unat_eq_iff unat_div n)
qed

lemma NextDummyIdx_spec:
  assumes "dummy_ok aes cl"
  shows "NextDummyIdx aes cl = (dummy aes (dummyIdxUsed cl),
      cl\<lparr>prfDummyIndices := dummy_block aes (dummyIdxUsed cl), dummyIdxUsed := dummyIdxUsed cl + 1\<rparr>)"
    and "dummy_ok aes (cl\<lparr>prfDummyIndices := dummy_block aes (dummyIdxUsed cl), dummyIdxUsed := dummyIdxUsed cl + 1\<rparr>)"
proof -
  have m: "unat (dummyIdxUsed cl mod 8) < 8" by (simp add: unat_mod)
  have nth: "dummy_block aes u ! unat (u mod 8) = dummy aes u" for u
    by (simp add: dummy_block_def dummy_def unat_mod)
  show "NextDummyIdx aes cl = (dummy aes (dummyIdxUsed cl),
      cl\<lparr>prfDummyIndices := dummy_block aes (dummyIdxUsed cl), dummyIdxUsed := dummyIdxUsed cl + 1\<rparr>)"
  proof (cases "dummyIdxUsed cl mod 8 = 0")
    case True
    then show ?thesis
      using nth[of "dummyIdxUsed cl"] by (simp add: NextDummyIdx_def dummy_block_def[symmetric])
  next
    case False
    then show ?thesis
      using assms nth[of "dummyIdxUsed cl"] by (cases cl) (simp add: NextDummyIdx_def dummy_ok_def)
  qed
  show "dummy_ok aes (cl\<lparr>prfDummyIndices := dummy_block aes (dummyIdxUsed cl), dummyIdxUsed := dummyIdxUsed cl + 1\<rparr>)"
    by (simp add: dummy_ok_def dummy_block_def next_same_block)
qed

subsection \<open>Extra partitions and offsets\<close>

text \<open>The partition the \<open>u\<close>-th dummy index names.\<close>

definition dummy_part :: "block_cipher \<Rightarrow> client \<Rightarrow> u64 \<Rightarrow> u16" where
  "dummy_part aes cl u = ucast (ucast (dummy aes u) mod cl_PartNum cl)"

lemma unat_u16_mod:
  fixes d :: u16 and P :: u32
  assumes "0 < unat P" "unat P \<le> 2 ^ 16"
  shows "unat (ucast (ucast d mod P) :: u16) = unat d mod unat P"
proof -
  have "unat d mod unat P < 2 ^ 16" using assms by (meson less_le_trans mod_less_divisor)
  moreover have "take_bit 32 (unat d) = unat d"
    using unat_less_exp[of d] by (intro take_bit_nat_eq_self) simp
  ultimately show ?thesis
    by (simp add: unsigned_ucast_eq unat_mod take_bit_nat_eq_self)
qed

lemma pick_extra_returns:
  assumes "dummy_ok aes cl"
    and "\<not> PRF4Select aes (of_nat h) (ucast (dummy_part aes cl (dummyIdxUsed cl + of_nat n))) (SelectCutoff cl ! h)"
  shows "\<exists>m\<le>n. let u = dummyIdxUsed cl + of_nat m in
    pick_extra aes h cl = Some (dummy_part aes cl u,
      cl\<lparr>prfDummyIndices := dummy_block aes u, dummyIdxUsed := u + 1\<rparr>) \<and>
    \<not> PRF4Select aes (of_nat h) (ucast (dummy_part aes cl u)) (SelectCutoff cl ! h) \<and>
    dummy_ok aes (cl\<lparr>prfDummyIndices := dummy_block aes u, dummyIdxUsed := u + 1\<rparr>)"
  using assms
proof (induction n arbitrary: cl)
  case 0
  note N = NextDummyIdx_spec[OF 0(1)]
  show ?case
    using 0(2) N by (subst pick_extra.simps) (simp add: Let_def dummy_part_def)
next
  case (Suc n)
  note N = NextDummyIdx_spec[OF Suc.prems(1)]
  let ?u = "dummyIdxUsed cl"
  let ?cl = "cl\<lparr>prfDummyIndices := dummy_block aes ?u, dummyIdxUsed := ?u + 1\<rparr>"
  show ?case
  proof (cases "PRF4Select aes (of_nat h) (ucast (dummy_part aes cl ?u)) (SelectCutoff cl ! h)")
    case False
    then show ?thesis
      using N by (intro exI[of _ 0]) (subst pick_extra.simps, simp add: Let_def dummy_part_def)
  next
    case True
    have "\<not> PRF4Select aes (of_nat h) (ucast (dummy_part aes ?cl (dummyIdxUsed ?cl + of_nat n))) (SelectCutoff ?cl ! h)"
      using Suc.prems(2) by (simp add: dummy_part_def add.assoc)
    from Suc.IH[OF N(2) this] obtain m where m: "m \<le> n"
      "pick_extra aes h ?cl = Some (dummy_part aes ?cl (?u + 1 + of_nat m),
        ?cl\<lparr>prfDummyIndices := dummy_block aes (?u + 1 + of_nat m), dummyIdxUsed := ?u + 1 + of_nat m + 1\<rparr>)"
      "\<not> PRF4Select aes (of_nat h) (ucast (dummy_part aes ?cl (?u + 1 + of_nat m))) (SelectCutoff ?cl ! h)"
      "dummy_ok aes (?cl\<lparr>prfDummyIndices := dummy_block aes (?u + 1 + of_nat m), dummyIdxUsed := ?u + 1 + of_nat m + 1\<rparr>)"
      by (auto simp: Let_def)
    have "pick_extra aes h cl = pick_extra aes h ?cl"
      using True N(1) by (subst pick_extra.simps) (simp add: dummy_part_def)
    moreover have "?u + 1 + of_nat m = ?u + of_nat (Suc m)" by simp
    ultimately show ?thesis
      using m by (intro exI[of _ "Suc m"]) (simp add: Let_def dummy_part_def add.assoc)
  qed
qed

text \<open>
  For every hint some dummy index names a partition the hint does not select. The search for the
  extra partition ends exactly in this case: the indices are a function of a 64-bit counter, so a scan
  that does not end has seen all of them.
\<close>

definition dummies_hit :: "block_cipher \<Rightarrow> client \<Rightarrow> (nat \<Rightarrow> u32) \<Rightarrow> bool" where
  "dummies_hit aes cl cutoff \<longleftrightarrow> (\<forall>h < unat (cl_M cl). \<exists>u.
     \<not> PRF4Select aes (of_nat h) (ucast (dummy_part aes cl u)) (cutoff h))"

lemma pick_extra_hits:
  assumes "pick_extra aes h cl = Some r" "dummy_ok aes cl"
  shows "\<exists>u. \<not> PRF4Select aes (of_nat h) (ucast (dummy_part aes cl u)) (SelectCutoff cl ! h)"
  using assms
proof (induction arbitrary: r rule: pick_extra.raw_induct[rotated, consumes 1])
  case (1 pick aes h cl r)
  note N = NextDummyIdx_spec[OF 1(3)]
  let ?cl = "cl\<lparr>prfDummyIndices := dummy_block aes (dummyIdxUsed cl), dummyIdxUsed := dummyIdxUsed cl + 1\<rparr>"
  show ?case
  proof (cases "PRF4Select aes (of_nat h) (ucast (dummy_part aes cl (dummyIdxUsed cl))) (SelectCutoff cl ! h)")
    case True
    then have "pick aes h ?cl = Some r" using 1(2) N(1) by (simp add: dummy_part_def Let_def)
    from 1(1)[OF this N(2)] show ?thesis by (simp add: dummy_part_def)
  qed blast
qed

lemma extras_loop_hits:
  assumes "foldM (extra_step aes) [0..<n] cl0 = Some cl" "dummy_ok aes cl0"
  shows "(\<exists>hid ep eo pd du.
      cl = cl0\<lparr>HintID := hid, ExtraPart := ep, ExtraOffset := eo, prfDummyIndices := pd, dummyIdxUsed := du\<rparr> \<and> dummy_ok aes cl) \<and>
    (\<forall>h < n. \<exists>u. \<not> PRF4Select aes (of_nat h) (ucast (dummy_part aes cl0 u)) (SelectCutoff cl0 ! h))"
  using assms(1)
proof (induction n arbitrary: cl)
  case 0
  then show ?case using assms(2)
    by (intro conjI exI[of _ "HintID cl0"] exI[of _ "ExtraPart cl0"] exI[of _ "ExtraOffset cl0"]
        exI[of _ "prfDummyIndices cl0"] exI[of _ "dummyIdxUsed cl0"]) simp_all
next
  case (Suc n)
  obtain cl1 where l: "foldM (extra_step aes) [0..<n] cl0 = Some cl1" "extra_step aes n cl1 = Some cl"
    using Suc.prems by (auto simp: foldM_upt_Suc simp del: upt_Suc split: option.splits)
  obtain hid ep eo pd du where cl1:
    "cl1 = cl0\<lparr>HintID := hid, ExtraPart := ep, ExtraOffset := eo, prfDummyIndices := pd, dummyIdxUsed := du\<rparr>"
    and ok: "dummy_ok aes cl1"
    and IH: "\<forall>h < n. \<exists>u. \<not> PRF4Select aes (of_nat h) (ucast (dummy_part aes cl0 u)) (SelectCutoff cl0 ! h)"
    using Suc.IH[OF l(1)] by blast
  let ?cl1 = "cl1\<lparr>HintID := (HintID cl1)[n := of_nat n]\<rparr>"
  have ok1: "dummy_ok aes ?cl1" using ok by (simp add: dummy_ok_def)
  obtain r where p: "pick_extra aes n ?cl1 = Some r"
    using l(2) by (auto simp: extra_step_def split: option.splits)
  obtain u where u: "\<not> PRF4Select aes (of_nat n) (ucast (dummy_part aes cl0 u)) (SelectCutoff cl0 ! n)"
    using pick_extra_hits[OF p ok1] by (auto simp: cl1 dummy_part_def)
  obtain k where k: "\<not> PRF4Select aes (of_nat n) (ucast (dummy_part aes ?cl1 (dummyIdxUsed ?cl1 + of_nat k))) (SelectCutoff ?cl1 ! n)"
  proof
    have "du + of_nat (unat (u - du)) = u" by simp
    with u show "\<not> PRF4Select aes (of_nat n) (ucast (dummy_part aes ?cl1 (dummyIdxUsed ?cl1 + of_nat (unat (u - du))))) (SelectCutoff ?cl1 ! n)"
      by (simp add: cl1 dummy_part_def)
  qed
  obtain m where q: "pick_extra aes n ?cl1 = Some (dummy_part aes cl0 m, ?cl1\<lparr>prfDummyIndices := dummy_block aes m, dummyIdxUsed := m + 1\<rparr>)"
    and ok2: "dummy_ok aes (?cl1\<lparr>prfDummyIndices := dummy_block aes m, dummyIdxUsed := m + 1\<rparr>)"
    using pick_extra_returns[OF ok1 k] by (auto simp: Let_def cl1 dummy_part_def)
  note N = NextDummyIdx_spec[OF ok2]
  have "extra_step aes n cl1 = Some (cl0\<lparr>HintID := hid[n := of_nat n], ExtraPart := ep[n := dummy_part aes cl0 m],
      ExtraOffset := eo[n := ucast (ucast (dummy aes (m + 1)) mod cl_PartSize cl0)],
      prfDummyIndices := dummy_block aes (m + 1), dummyIdxUsed := m + 1 + 1\<rparr>)"
    using q N(1) by (simp add: extra_step_def cl1)
  then have c: "cl = cl0\<lparr>HintID := hid[n := of_nat n], ExtraPart := ep[n := dummy_part aes cl0 m],
      ExtraOffset := eo[n := ucast (ucast (dummy aes (m + 1)) mod cl_PartSize cl0)],
      prfDummyIndices := dummy_block aes (m + 1), dummyIdxUsed := m + 1 + 1\<rparr>"
    using l(2) by simp
  have "dummy_ok aes cl" using N(2) by (simp add: c dummy_ok_def)
  then show ?case using c IH u unfolding less_Suc_eq by blast
qed

definition extras_inv :: "block_cipher \<Rightarrow> client \<Rightarrow> nat \<Rightarrow> client \<Rightarrow> bool" where
  "extras_inv aes cl0 n cl \<longleftrightarrow> (\<exists>hid ep eo pd du.
     cl = cl0\<lparr>HintID := hid, ExtraPart := ep, ExtraOffset := eo, prfDummyIndices := pd, dummyIdxUsed := du\<rparr> \<and>
     length hid = unat (cl_M cl0) \<and> length ep = unat (cl_M cl0) \<and> length eo = unat (cl_M cl0) \<and> dummy_ok aes cl \<and>
     (\<forall>h<n. hid ! h = of_nat h \<and> unat (ep ! h) < unat (cl_PartNum cl0) \<and> unat (eo ! h) < unat (cl_PartSize cl0) \<and>
       \<not> PRF4Select aes (of_nat h) (ucast (ep ! h)) (SelectCutoff cl0 ! h)))"

lemma wf_client_PartSize:
  "wf_client cl \<Longrightarrow> 0 < unat (cl_PartSize cl) \<and> unat (cl_PartSize cl) \<le> 2 ^ 16"
  using power_increasing[of _ 16 "2::nat"] by (auto simp: wf_client_def)

lemma extra_step_inv:
  assumes "wf_client cl0" "dummies_hit aes cl0 (\<lambda>h. SelectCutoff cl0 ! h)" "n < unat (cl_M cl0)" "extras_inv aes cl0 n cl"
  shows "\<exists>cl'. extra_step aes n cl = Some cl' \<and> extras_inv aes cl0 (Suc n) cl'"
proof -
  obtain hid ep eo pd du where cl:
    "cl = cl0\<lparr>HintID := hid, ExtraPart := ep, ExtraOffset := eo, prfDummyIndices := pd, dummyIdxUsed := du\<rparr>"
    and len: "length hid = unat (cl_M cl0)" "length ep = unat (cl_M cl0)" "length eo = unat (cl_M cl0)"
    and ok: "dummy_ok aes cl"
    and inv: "\<forall>h<n. hid ! h = of_nat h \<and> unat (ep ! h) < unat (cl_PartNum cl0) \<and> unat (eo ! h) < unat (cl_PartSize cl0) \<and>
       \<not> PRF4Select aes (of_nat h) (ucast (ep ! h)) (SelectCutoff cl0 ! h)"
    using assms(4) by (auto simp: extras_inv_def)
  let ?cl1 = "cl\<lparr>HintID := (HintID cl)[n := of_nat n]\<rparr>"
  have ok1: "dummy_ok aes ?cl1" using ok by (simp add: dummy_ok_def)
  obtain v where "\<not> PRF4Select aes (of_nat n) (ucast (dummy_part aes cl0 v)) (SelectCutoff cl0 ! n)"
    using assms(2,3) unfolding dummies_hit_def by blast
  moreover have "v = du + of_nat (unat (v - du))" by simp
  ultimately obtain k where "\<not> PRF4Select aes (of_nat n) (ucast (dummy_part aes cl0 (du + of_nat k))) (SelectCutoff cl0 ! n)"
    by metis
  then have "\<not> PRF4Select aes (of_nat n) (ucast (dummy_part aes ?cl1 (dummyIdxUsed ?cl1 + of_nat k))) (SelectCutoff ?cl1 ! n)"
    by (simp add: cl dummy_part_def)
  from pick_extra_returns[OF ok1 this] obtain u where
    p: "pick_extra aes n ?cl1 = Some (dummy_part aes cl0 u, ?cl1\<lparr>prfDummyIndices := dummy_block aes u, dummyIdxUsed := u + 1\<rparr>)"
    and ns: "\<not> PRF4Select aes (of_nat n) (ucast (dummy_part aes cl0 u)) (SelectCutoff cl0 ! n)"
    and ok2: "dummy_ok aes (?cl1\<lparr>prfDummyIndices := dummy_block aes u, dummyIdxUsed := u + 1\<rparr>)"
    by (auto simp: Let_def cl dummy_part_def)
  note N = NextDummyIdx_spec[OF ok2]
  have P: "unat (dummy_part aes cl0 u) < unat (cl_PartNum cl0)"
    using assms(1) by (simp add: dummy_part_def unat_u16_mod wf_client_def)
  have S: "unat (ucast (ucast d mod cl_PartSize cl0) :: u16) < unat (cl_PartSize cl0)" for d :: u16
    using wf_client_PartSize[OF assms(1)] by (simp add: unat_u16_mod)
  let ?eo = "ucast (ucast (dummy aes (u + 1)) mod cl_PartSize cl0) :: u16"
  let ?cl' = "cl0\<lparr>HintID := hid[n := of_nat n], ExtraPart := ep[n := dummy_part aes cl0 u], ExtraOffset := eo[n := ?eo],
      prfDummyIndices := dummy_block aes (u + 1), dummyIdxUsed := u + 1 + 1\<rparr>"
  have e: "extra_step aes n cl = Some ?cl'"
    using p N(1) by (simp add: extra_step_def cl)
  have "dummy_ok aes ?cl'" using N(2) by (simp add: dummy_ok_def)
  then have "extras_inv aes cl0 (Suc n) ?cl'"
    unfolding extras_inv_def using len inv P S ns assms(3)
    by (intro exI[of _ "hid[n := of_nat n]"] exI[of _ "ep[n := dummy_part aes cl0 u]"] exI[of _ "eo[n := ?eo]"] exI)
      (auto simp: less_Suc_eq nth_list_update)
  with e show ?thesis by blast
qed

lemma extras_loop_result:
  assumes "wf_client cl0" "dummies_hit aes cl0 (\<lambda>h. SelectCutoff cl0 ! h)" "dummy_ok aes cl0"
  shows "\<exists>cl. foldM (extra_step aes) [0..<unat (cl_M cl0)] cl0 = Some cl \<and> extras_inv aes cl0 (unat (cl_M cl0)) cl"
proof (rule foldM_invariant)
  have "length (HintID cl0) = unat (cl_M cl0)" "length (ExtraPart cl0) = unat (cl_M cl0)" "length (ExtraOffset cl0) = unat (cl_M cl0)"
    using assms(1) by (simp_all add: wf_client_def)
  then show "extras_inv aes cl0 0 cl0"
    unfolding extras_inv_def using assms(3)
    by (intro exI[of _ "HintID cl0"] exI[of _ "ExtraPart cl0"] exI[of _ "ExtraOffset cl0"]
        exI[of _ "prfDummyIndices cl0"] exI[of _ "dummyIdxUsed cl0"]) simp
qed (rule extra_step_inv[OF assms(1,2)])

end
