(* ===== verification/Parities.thy ===== *)
theory Parities
  imports Extras
begin

text \<open>
  The parity loop of the offline phase: which entry of a partition each of the \<open>2M\<close>
  ciphertext slots receives, and that the nested loops accumulate exactly those.
\<close>

definition hint_select :: "block_cipher \<Rightarrow> client \<Rightarrow> nat \<Rightarrow> nat \<Rightarrow> bool" where
  "hint_select aes cl h k = PRF4Select aes (of_nat h) (of_nat k) (SelectCutoff cl ! h)"

definition hint_offset :: "block_cipher \<Rightarrow> client \<Rightarrow> nat \<Rightarrow> nat \<Rightarrow> nat" where
  "hint_offset aes cl h k = unat (PRF4Idx aes (of_nat h) (of_nat k)) mod unat (cl_PartSize cl)"

text \<open>The offset of partition \<open>k\<close> that slot \<open>j\<close> accumulates, if any.\<close>

definition slot_offset :: "block_cipher \<Rightarrow> client \<Rightarrow> nat \<Rightarrow> nat \<Rightarrow> nat option" where
  "slot_offset aes cl j k =
     (let M = unat (cl_M cl) in
      if j < M then
        (if hint_select aes cl j k then Some (hint_offset aes cl j k)
         else if unat (ExtraPart cl ! j) = k then Some (unat (ExtraOffset cl ! j)) else None)
      else if j < M + M div 2 then (if hint_select aes cl j k then None else Some (hint_offset aes cl j k))
      else (if hint_select aes cl (j - M div 2) k then Some (hint_offset aes cl (j - M div 2) k) else None))"

definition slot_update :: "he_context \<Rightarrow> block_cipher \<Rightarrow> ciphertext list \<Rightarrow> client \<Rightarrow> nat \<Rightarrow> nat \<Rightarrow> ciphertext \<Rightarrow> ciphertext" where
  "slot_update C aes encDB cl j k acc =
     (if slot_offset aes cl j k \<noteq> None
      then add_inplace C acc (negacyclic_shift C (encDB ! k) (unat (cl_PartSize cl) - 1 - the (slot_offset aes cl j k)))
      else acc)"

text \<open>The hint whose step updates slot \<open>j\<close>.\<close>

definition slot_source :: "nat \<Rightarrow> nat \<Rightarrow> nat" where
  "slot_source M j = (if j < M + M div 2 then j else j - M div 2)"

lemma wf_client_PartSize_power:
  assumes "wf_client cl"
  obtains s where "s \<le> 16" "cl_PartSize cl = 2 ^ s" "unat (cl_PartSize cl) = 2 ^ s"
proof -
  obtain s where s: "s \<le> 16" "unat (cl_PartSize cl) = 2 ^ s" using assms by (auto simp: wf_client_def)
  have "unat (2 ^ s :: u32) = 2 ^ s" using s(1) by (intro unat_two_power) simp
  then have "cl_PartSize cl = 2 ^ s" using s(2) by (simp add: word_unat_eq_iff)
  then show thesis using that[OF s(1) _ s(2)] by blast
qed

lemma unat_mask_PartSize:
  assumes "wf_client cl"
  shows "unat (ucast (ucast (w :: u16) AND (cl_PartSize cl - 1)) :: u16) = unat w mod unat (cl_PartSize cl)"
proof -
  obtain s where s: "s \<le> 16" "cl_PartSize cl = 2 ^ s" "unat (cl_PartSize cl) = 2 ^ s"
    using wf_client_PartSize_power[OF assms] by blast
  have "(ucast w AND (cl_PartSize cl - 1) :: u32) = take_bit s (ucast w)"
    unfolding s(2) take_bit_eq_mask mask_eq_decr_exp ..
  moreover have "unat (ucast w :: u32) = unat w"
    using unat_less_exp[of w] by (simp add: unsigned_ucast_eq take_bit_nat_eq_self)
  ultimately have "unat (ucast w AND (cl_PartSize cl - 1) :: u32) = unat w mod 2 ^ s"
    by (simp only: unsigned_take_bit_eq take_bit_eq_mod[of s "unat w"])
  moreover have "unat w mod 2 ^ s < 2 ^ 16"
    using unat_less_exp[of w] by (intro le_less_trans[OF mod_less_eq_dividend]) simp
  ultimately show ?thesis using s(3) by (simp add: unsigned_ucast_eq take_bit_nat_eq_self)
qed

lemma unat_ucast_u16_u32: "unat (ucast (r :: u16) :: u32) = unat r"
  using unat_less_exp[of r] by (simp add: unsigned_ucast_eq take_bit_nat_eq_self)

lemma shift_amount:
  assumes "unat (r :: u16) < unat (P :: u32)"
  shows "unat (P - ucast r - 1) = unat P - 1 - unat r"
proof -
  have "unat (P - ucast r) = unat P - unat r"
    using assms unat_sub_no_borrow[of "ucast r" P] by (simp add: unat_ucast_u16_u32)
  then show ?thesis using assms unat_sub_no_borrow[of 1 "P - ucast r"] by simp
qed

lemma ucast_eq_part:
  assumes "k < 2 ^ 16"
  shows "ucast (e :: u16) = (of_nat k :: u32) \<longleftrightarrow> unat e = k"
  using assms unat_of_nat_u32[of k] by (simp add: word_unat_eq_iff unat_ucast_u16_u32)

definition wf_extras :: "client \<Rightarrow> bool" where
  "wf_extras cl \<longleftrightarrow> (\<forall>h < unat (cl_M cl). unat (ExtraOffset cl ! h) < unat (cl_PartSize cl))"

definition parity_inv ::
  "he_context \<Rightarrow> block_cipher \<Rightarrow> ciphertext list \<Rightarrow> client \<Rightarrow> nat \<Rightarrow> ciphertext list \<Rightarrow> nat
     \<Rightarrow> bytes \<times> bytes \<times> ciphertext list \<Rightarrow> bool" where
  "parity_inv C aes encDB cl k parity0 n st \<longleftrightarrow> (case st of (prfOut, prfIndices, parity) \<Rightarrow>
     (n mod 4 \<noteq> 0 \<longrightarrow> prfOut = evaluate aes (of_nat (n div 4)) (of_nat k) 1) \<and>
     (n mod 8 \<noteq> 0 \<longrightarrow> prfIndices = evaluate aes (of_nat (n div 8)) (of_nat k) 2) \<and>
     length parity = 2 * unat (cl_M cl) \<and>
     (\<forall>j < 2 * unat (cl_M cl). parity ! j =
        (if slot_source (unat (cl_M cl)) j < n then slot_update C aes encDB cl j k (parity0 ! j) else parity0 ! j)))"

lemma parity_step_inv:
  assumes "wf_client cl" "wf_extras cl" "k < unat (cl_PartNum cl)" "n < unat (cl_M cl) + unat (cl_M cl) div 2"
    and "parity_inv C aes encDB cl k parity0 n st"
  shows "parity_inv C aes encDB cl k parity0 (Suc n) (parity_step C aes encDB cl k n st)"
proof -
  let ?M = "unat (cl_M cl)"
  obtain out ind parity where st: "st = (out, ind, parity)" by (cases st)
  have wf: "?M < 2 ^ 29" "even ?M" "k < 2 ^ 16" using assms(1,3) by (auto simp: wf_client_def)
  have "?M + ?M div 2 < 2 ^ 30" using wf(1) by simp
  then have n32: "n < 2 ^ 32" using assms(4) by simp
  have len: "length parity = 2 * ?M"
    and par: "\<And>j. j < 2 * ?M \<Longrightarrow> parity ! j = (if slot_source ?M j < n then slot_update C aes encDB cl j k (parity0 ! j) else parity0 ! j)"
    using assms(5) by (simp_all add: parity_inv_def st)
  let ?out = "evaluate aes (of_nat (n div 4)) (of_nat k) 1" and ?ind = "evaluate aes (of_nat (n div 8)) (of_nat k) 2"
  have out: "(if n mod 4 = 0 then ?out else out) = ?out" and ind: "(if n mod 8 = 0 then ?ind else ind) = ?ind"
    using assms(5) by (simp_all add: parity_inv_def st)
  have b: "(as_u32 ?out (n mod 4) < SelectCutoff cl ! n) = hint_select aes cl n k"
    unfolding hint_select_def by (rule batch_select[OF n32])
  define r where "r = (ucast (ucast (as_u16 ?ind (n mod 8)) AND (cl_PartSize cl - 1)) :: u16)"
  have r: "unat r = hint_offset aes cl n k"
    using unat_mask_PartSize[OF assms(1), of "as_u16 ?ind (n mod 8)"]
    by (simp add: r_def hint_offset_def batch_idx[OF n32])
  have ps: "0 < unat (cl_PartSize cl)" "unat (cl_PartSize cl) \<le> 2 ^ 16" using wf_client_PartSize[OF assms(1)] by auto
  have rs: "unat (cl_PartSize cl - ucast r - 1) = unat (cl_PartSize cl) - 1 - hint_offset aes cl n k"
    using shift_amount[of r "cl_PartSize cl"] ps by (simp add: r) (simp add: hint_offset_def)
  have es: "unat (cl_PartSize cl - ucast (ExtraOffset cl ! n) - 1) = unat (cl_PartSize cl) - 1 - unat (ExtraOffset cl ! n)" if "n < ?M"
    using shift_amount[of "ExtraOffset cl ! n" "cl_PartSize cl"] assms(2) that by (simp add: wf_extras_def)
  define dst where "dst = (if n < ?M then n else n + of_bool (hint_select aes cl n k) * ?M div 2)"
  have half: "2 * (?M div 2) = ?M" using wf(2) by simp
  have step: "parity_step C aes encDB cl k n st = (?out, ?ind, parity[dst := slot_update C aes encDB cl dst k (parity ! dst)])"
  proof (cases "n < ?M")
    case True
    then show ?thesis
      unfolding parity_step_def Let_def st prod.case out ind b r_def[symmetric] rs es[OF True]
      by (simp add: dst_def slot_update_def slot_offset_def ucast_eq_part[OF wf(3)])
  next
    case False
    then show ?thesis
      unfolding parity_step_def Let_def st prod.case out ind b r_def[symmetric] rs
      using assms(4) by (simp add: dst_def slot_update_def slot_offset_def)
  qed
  have other: "slot_update C aes encDB cl j k acc = acc" if "j < 2 * ?M" "slot_source ?M j = n" "j \<noteq> dst" for j acc
  proof -
    have "slot_offset aes cl j k = None"
      using that half by (cases "hint_select aes cl n k") (auto simp: slot_offset_def slot_source_def dst_def Let_def split: if_splits)
    then show ?thesis by (simp add: slot_update_def)
  qed
  have dst: "slot_source ?M dst = n" "dst < 2 * ?M"
    using assms(4) half by (auto simp: slot_source_def dst_def)
  have upd: "parity[dst := slot_update C aes encDB cl dst k (parity ! dst)] ! j =
      (if slot_source ?M j < Suc n then slot_update C aes encDB cl j k (parity0 ! j) else parity0 ! j)" if j: "j < 2 * ?M" for j
    using par[OF j] par[OF dst(2)] dst(1) j len other[OF j] by (cases "j = dst") (auto simp: less_Suc_eq)
  have blocks: "Suc n mod 4 \<noteq> 0 \<Longrightarrow> Suc n div 4 = n div 4" "Suc n mod 8 \<noteq> 0 \<Longrightarrow> Suc n div 8 = n div 8"
    by (simp_all add: div_Suc)
  show ?thesis
    unfolding step parity_inv_def prod.case using blocks len upd by simp
qed

text \<open>The whole loop: each slot folds its own updates over the partitions.\<close>

lemma parity_loop_result:
  assumes "wf_client cl" "wf_extras cl" "length parity0 = 2 * unat (cl_M cl)"
  shows "length (parity_loop C aes encDB cl parity0) = 2 * unat (cl_M cl)"
    and "j < 2 * unat (cl_M cl) \<Longrightarrow> parity_loop C aes encDB cl parity0 ! j = fold (slot_update C aes encDB cl j) [0..<unat (cl_PartNum cl)] (parity0 ! j)"
proof -
  let ?M = "unat (cl_M cl)" and ?P = "unat (cl_PartNum cl)"
  have even: "2 * (?M div 2) = ?M" using assms(1) by (simp add: wf_client_def)
  let ?I = "\<lambda>k (st :: bytes \<times> bytes \<times> ciphertext list). length (snd (snd st)) = 2 * ?M \<and>
    (\<forall>j < 2 * ?M. snd (snd st) ! j = fold (slot_update C aes encDB cl j) [0..<k] (parity0 ! j))"
  have "?I ?P (fold (\<lambda>k. fold (parity_step C aes encDB cl k) [0..<?M + ?M div 2]) [0..<?P] ([], [], parity0))"
  proof (rule fold_upt_invariant[where P = ?I])
    show "?I 0 ([], [], parity0)" using assms(3) by simp
    fix k st assume k: "k < ?P" and I: "?I k st"
    let ?st' = "fold (parity_step C aes encDB cl k) [0..<?M + ?M div 2] st"
    have "parity_inv C aes encDB cl k (snd (snd st)) (?M + ?M div 2) ?st'"
    proof (rule fold_upt_invariant[where P = "parity_inv C aes encDB cl k (snd (snd st))"])
      show "parity_inv C aes encDB cl k (snd (snd st)) 0 st"
        using I by (auto simp: parity_inv_def split: prod.splits)
    qed (rule parity_step_inv[OF assms(1,2) k])
    moreover have "slot_source ?M j < ?M + ?M div 2" if "j < 2 * ?M" for j
      using that even by (auto simp: slot_source_def)
    ultimately show "?I (Suc k) ?st'"
      using I by (auto simp: parity_inv_def split: prod.splits)
  qed
  then show "length (parity_loop C aes encDB cl parity0) = 2 * unat (cl_M cl)"
    and "j < 2 * unat (cl_M cl) \<Longrightarrow> parity_loop C aes encDB cl parity0 ! j
      = fold (slot_update C aes encDB cl j) [0..<unat (cl_PartNum cl)] (parity0 ! j)"
    unfolding parity_loop_def Let_def by blast+
qed

text \<open>Offsets are inside their partition.\<close>

lemma slot_offset_less:
  assumes "wf_client cl" "wf_extras cl" "slot_offset aes cl j k = Some x"
  shows "x < unat (cl_PartSize cl)"
  using assms wf_client_PartSize[OF assms(1)]
  by (auto simp: slot_offset_def hint_offset_def wf_extras_def Let_def split: if_splits)

definition slot_sum :: "block_cipher \<Rightarrow> client \<Rightarrow> (nat \<Rightarrow> nat \<Rightarrow> int) \<Rightarrow> nat \<Rightarrow> int" where
  "slot_sum aes cl db j =
     (\<Sum>k | k < unat (cl_PartNum cl) \<and> slot_offset aes cl j k \<noteq> None. db k (the (slot_offset aes cl j k)))"

lemma parity_loop_encodes:
  assumes "wf_client cl" "wf_extras cl" "length parity0 = 2 * unat (cl_M cl)" "j < 2 * unat (cl_M cl)"
    and "encodes C s (parity0 ! j) (unat (cl_PartSize cl) - 1) 0 E0"
    and "\<And>k x. k < unat (cl_PartNum cl) \<Longrightarrow> x < unat (cl_PartSize cl) \<Longrightarrow> encodes C s (encDB ! k) x (db k x) E"
    and "unat (cl_PartSize cl) \<le> he_degree C" "0 \<le> E"
  shows "encodes C s (parity_loop C aes encDB cl parity0 ! j) (unat (cl_PartSize cl) - 1)
    (slot_sum aes cl db j) (E0 + int (unat (cl_PartNum cl)) * E)"
proof -
  let ?P = "unat (cl_PartNum cl)" and ?S = "unat (cl_PartSize cl)" and ?o = "slot_offset aes cl j"
  have S: "?S - 1 < he_degree C" using wf_client_PartSize[OF assms(1)] assms(7) by auto
  have "encodes C s (fold (\<lambda>k acc. if ?o k \<noteq> None then add_inplace C acc
        (negacyclic_shift C (encDB ! k) (?S - 1 - the (?o k))) else acc) [0..<?P] (parity0 ! j)) (?S - 1)
      (0 + (\<Sum>k | k < ?P \<and> ?o k \<noteq> None. db k (the (?o k)))) (E0 + int (card {k. k < ?P \<and> ?o k \<noteq> None}) * E)"
    by (rule bfv.enc_accumulate[OF assms(5) S]) (use slot_offset_less[OF assms(1,2)] assms(6) in \<open>fastforce\<close>)
  moreover have "card {k. k < ?P \<and> ?o k \<noteq> None} \<le> ?P"
    using card_mono[of "{..<?P}" "{k. k < ?P \<and> ?o k \<noteq> None}"] by auto
  then have "int (card {k. k < ?P \<and> ?o k \<noteq> None}) \<le> int ?P" by (rule of_nat_mono)
  then have "int (card {k. k < ?P \<and> ?o k \<noteq> None}) * E \<le> int ?P * E"
    using assms(8) by (rule mult_right_mono)
  moreover have "parity_loop C aes encDB cl parity0 ! j = fold (\<lambda>k acc. if ?o k \<noteq> None then add_inplace C acc
        (negacyclic_shift C (encDB ! k) (?S - 1 - the (?o k))) else acc) [0..<?P] (parity0 ! j)"
    using parity_loop_result(2)[OF assms(1-4)] by (simp add: slot_update_def[abs_def])
  ultimately show ?thesis unfolding slot_sum_def by (auto elim: encodes_mono)
qed

end
