(* ===== verification/Hints.thy ===== *)
theory Hints
  imports Parities
begin

text \<open>
  The client's hint table between queries: what a valid hint and an unused backup pair
  promise, and that the offline phase establishes it.
\<close>

text \<open>The entries of one half of a hint's split of the database.\<close>

definition split_sum ::
  "block_cipher \<Rightarrow> client \<Rightarrow> (nat \<Rightarrow> nat \<Rightarrow> int) \<Rightarrow> u32 \<Rightarrow> u32 \<Rightarrow> bool \<Rightarrow> int" where
  "split_sum aes cl db hintID cutoff sel =
     (\<Sum>k | k < unat (cl_PartNum cl) \<and> PRF4Select aes hintID (of_nat k) cutoff = sel.
        db k (unat (PRF4Idx aes hintID (of_nat k)) mod unat (cl_PartSize cl)))"

definition evenly_split :: "block_cipher \<Rightarrow> client \<Rightarrow> u32 \<Rightarrow> u32 \<Rightarrow> bool" where
  "evenly_split aes cl hintID cutoff \<longleftrightarrow>
     card {k. k < unat (cl_PartNum cl) \<and> PRF4Select aes hintID (of_nat k) cutoff} = unat (cl_PartNum cl) div 2"

definition hint_ok ::
  "he_context \<Rightarrow> secret \<Rightarrow> block_cipher \<Rightarrow> (nat \<Rightarrow> nat \<Rightarrow> int) \<Rightarrow> int \<Rightarrow> client \<Rightarrow> nat \<Rightarrow> bool" where
  "hint_ok C s aes db E cl h \<longleftrightarrow> (let extra = unat (ExtraPart cl ! h); x = unat (ExtraOffset cl ! h) in
     extra < unat (cl_PartNum cl) \<and> x < unat (cl_PartSize cl) \<and>
     evenly_split aes cl (HintID cl ! h) (SelectCutoff cl ! h) \<and>
     PRF4Select aes (HintID cl ! h) (of_nat extra) (SelectCutoff cl ! h) = (\<not> indicator cl h) \<and>
     encodes C s (ciParity cl ! h) (unat (cl_PartSize cl) - 1)
       (split_sum aes cl db (HintID cl ! h) (SelectCutoff cl ! h) (indicator cl h) + db extra x) E)"

definition backup_ok ::
  "he_context \<Rightarrow> secret \<Rightarrow> block_cipher \<Rightarrow> (nat \<Rightarrow> nat \<Rightarrow> int) \<Rightarrow> int \<Rightarrow> client \<Rightarrow> nat \<Rightarrow> bool" where
  "backup_ok C s aes db E cl j \<longleftrightarrow> evenly_split aes cl (of_nat j) (SelectCutoff cl ! j) \<and>
     (\<forall>sel. encodes C s (ciParity cl ! (j + of_bool sel * (unat (cl_M cl) div 2))) (unat (cl_PartSize cl) - 1)
       (split_sum aes cl db (of_nat j) (SelectCutoff cl ! j) sel) E)"

text \<open>\<open>E\<close> bounds the noise of a backup; a refreshed hint has one plaintext addition more.\<close>

definition client_ok ::
  "he_context \<Rightarrow> secret \<Rightarrow> block_cipher \<Rightarrow> (nat \<Rightarrow> nat \<Rightarrow> int) \<Rightarrow> int \<Rightarrow> client \<Rightarrow> bool" where
  "client_ok C s aes db E cl \<longleftrightarrow> (let M = unat (cl_M cl) in
     wf_client cl \<and> dummy_ok aes cl \<and> length (ciParity cl) = 2 * M \<and> length (IndicatorBit cl) = (M + 7) div 8 \<and>
     M \<le> unat (NextHintIndex cl) \<and>
     (\<forall>h < M. SelectCutoff cl ! h \<noteq> 0 \<longrightarrow> hint_ok C s aes db (E + (t_of C + 1) div 2) cl h) \<and>
     (\<forall>j < M + M div 2. unat (NextHintIndex cl) \<le> j \<longrightarrow> SelectCutoff cl ! j \<noteq> 0 \<longrightarrow> backup_ok C s aes db E cl j))"

subsection \<open>Slots as halves of splits\<close>

lemma slot_sum_hint:
  assumes "j < unat (cl_M cl)" "unat (ExtraPart cl ! j) < unat (cl_PartNum cl)"
    and "\<not> hint_select aes cl j (unat (ExtraPart cl ! j))"
  shows "slot_sum aes cl db j = split_sum aes cl db (of_nat j) (SelectCutoff cl ! j) True
      + db (unat (ExtraPart cl ! j)) (unat (ExtraOffset cl ! j))"
proof -
  let ?e = "unat (ExtraPart cl ! j)" and ?P = "unat (cl_PartNum cl)"
  let ?S = "{k. k < ?P \<and> hint_select aes cl j k}"
  have set: "{k. k < ?P \<and> slot_offset aes cl j k \<noteq> None} = insert ?e ?S"
    using assms by (auto simp: slot_offset_def Let_def)
  have notin: "?e \<notin> ?S" using assms(3) by simp
  have "slot_sum aes cl db j = db ?e (the (slot_offset aes cl j ?e)) + (\<Sum>k\<in>?S. db k (the (slot_offset aes cl j k)))"
    unfolding slot_sum_def set by (rule sum.insert[OF _ notin]) simp
  also have "the (slot_offset aes cl j ?e) = unat (ExtraOffset cl ! j)"
    using assms by (simp add: slot_offset_def)
  also have "(\<Sum>k\<in>?S. db k (the (slot_offset aes cl j k))) = (\<Sum>k\<in>?S. db k (hint_offset aes cl j k))"
    by (rule sum.cong) (use assms(1) in \<open>auto simp: slot_offset_def Let_def\<close>)
  finally show ?thesis by (simp add: split_sum_def hint_select_def hint_offset_def)
qed

lemma slot_sum_backup:
  assumes "unat (cl_M cl) \<le> j" "j < unat (cl_M cl) + unat (cl_M cl) div 2"
  shows "slot_sum aes cl db (j + of_bool sel * (unat (cl_M cl) div 2)) = split_sum aes cl db (of_nat j) (SelectCutoff cl ! j) sel"
proof -
  let ?M = "unat (cl_M cl)"
  have o: "slot_offset aes cl (j + of_bool sel * (?M div 2)) k
      = (if hint_select aes cl j k = sel then Some (hint_offset aes cl j k) else None)" for k
    using assms by (simp add: slot_offset_def Let_def)
  show ?thesis
    unfolding slot_sum_def split_sum_def o by (rule sum.cong) (auto simp: hint_select_def hint_offset_def split: if_splits)
qed

lemma select_values_split:
  "length (filter (\<lambda>v. v < c) (select_values aes P h)) = card {k. k < P \<and> PRF4Select aes (of_nat h) (of_nat k) c}"
  by (simp add: select_values_def filter_map o_def card_filter_upt PRF4Select_value)

context nth_element_spec
begin

lemma cutoff_evenly_split:
  assumes "c = fst (FindCutoff ne (select_values aes (unat (cl_PartNum cl)) h) (unat (cl_PartNum cl)))" "c \<noteq> 0"
  shows "evenly_split aes cl (of_nat h) c"
  unfolding evenly_split_def select_values_split[symmetric]
  using FindCutoff_nonzero[of "select_values aes (unat (cl_PartNum cl)) h" "unat (cl_PartNum cl)" c] assms
  by (simp add: select_values_def)

lemma Offline_hits:
  assumes "wf_client cl" "dummy_ok aes cl" "Offline C aes ne enc0 encDB cl = Some cl'"
  shows "dummies_hit aes cl (\<lambda>h. fst (FindCutoff ne (select_values aes (unat (cl_PartNum cl)) h) (unat (cl_PartNum cl))))"
proof -
  let ?M = "unat (cl_M cl)" and ?P = "unat (cl_PartNum cl)"
  let ?cl0 = "cl\<lparr>BackupUsedAgain := 0, Parity := replicate (unat (cl_B cl) * ?M * 2) 0,
    IndicatorBit := replicate ((?M + 7) div 8) 255\<rparr>"
  have wf0: "wf_client ?cl0" using assms(1) by (simp add: wf_client_def)
  have M: "?M < 2 ^ 29" "2 * (?M div 2) = ?M" using assms(1) by (simp_all add: wf_client_def)
  obtain v sc where cut: "fold (cutoff_step aes ne) [0..<?M + ?M div 2] ?cl0 = ?cl0\<lparr>prfSelectVals := v, SelectCutoff := sc\<rparr>"
    "\<And>h. h < ?M + ?M div 2 \<Longrightarrow> sc ! h = fst (FindCutoff ne (select_values aes ?P h) ?P)"
    using cutoff_loop_result[OF wf0, of "?M + ?M div 2" aes] M by auto
  let ?cl1 = "?cl0\<lparr>prfSelectVals := v, SelectCutoff := sc\<rparr>"
  have ok1: "dummy_ok aes ?cl1" using assms(2) by (simp add: dummy_ok_def)
  obtain cl2 where ex: "foldM (extra_step aes) [0..<?M] ?cl1 = Some cl2"
    using assms(3) unfolding Offline_def Let_def cut(1) by (auto split: option.splits)
  show ?thesis
    using extras_loop_hits[OF ex ok1] by (simp add: dummies_hit_def dummy_part_def cut(2))
qed

lemma Offline_establishes:
  assumes "wf_client cl" "dummy_ok aes cl"
    and "dummies_hit aes cl (\<lambda>h. fst (FindCutoff ne (select_values aes (unat (cl_PartNum cl)) h) (unat (cl_PartNum cl))))"
    and "\<And>j. encodes C s (enc0 j) (unat (cl_PartSize cl) - 1) 0 E0"
    and "\<And>k x. k < unat (cl_PartNum cl) \<Longrightarrow> x < unat (cl_PartSize cl) \<Longrightarrow> encodes C s (encDB ! k) x (db k x) E"
    and "unat (cl_PartSize cl) \<le> he_degree C" "0 \<le> E"
  shows "\<exists>cl'. Offline C aes ne enc0 encDB cl = Some cl' \<and>
    client_ok C s aes db (E0 + int (unat (cl_PartNum cl)) * E) cl' \<and> unat (NextHintIndex cl') = unat (cl_M cl) \<and>
    cl_PartNum cl' = cl_PartNum cl \<and> cl_PartSize cl' = cl_PartSize cl \<and> cl_M cl' = cl_M cl"
proof -
  let ?M = "unat (cl_M cl)" and ?P = "unat (cl_PartNum cl)"
  let ?cl0 = "cl\<lparr>BackupUsedAgain := 0, Parity := replicate (unat (cl_B cl) * ?M * 2) 0,
    IndicatorBit := replicate ((?M + 7) div 8) 255\<rparr>"
  have wf0: "wf_client ?cl0" using assms(1) by (simp add: wf_client_def)
  have M: "?M < 2 ^ 29" "2 * (?M div 2) = ?M" using assms(1) by (simp_all add: wf_client_def)
  obtain v sc where cut: "fold (cutoff_step aes ne) [0..<?M + ?M div 2] ?cl0 = ?cl0\<lparr>prfSelectVals := v, SelectCutoff := sc\<rparr>"
    "length v = 4 * ?P" "length sc = 2 * ?M"
    "\<And>h. h < ?M + ?M div 2 \<Longrightarrow> sc ! h = fst (FindCutoff ne (select_values aes ?P h) ?P)"
    using cutoff_loop_result[OF wf0, of "?M + ?M div 2" aes] by auto
  let ?cl1 = "?cl0\<lparr>prfSelectVals := v, SelectCutoff := sc\<rparr>"
  have wf1: "wf_client ?cl1" using wf0 cut(2,3) by (simp add: wf_client_def)
  have ok1: "dummy_ok aes ?cl1" using assms(2) by (simp add: dummy_ok_def)
  have hit1: "dummies_hit aes ?cl1 (\<lambda>h. SelectCutoff ?cl1 ! h)"
    using assms(3) by (simp add: dummies_hit_def dummy_part_def cut(4))
  obtain cl2 where ex: "foldM (extra_step aes) [0..<?M] ?cl1 = Some cl2" "extras_inv aes ?cl1 ?M cl2"
    using extras_loop_result[OF wf1 hit1 ok1] by auto
  obtain hid ep eo pd du where cl2:
    "cl2 = ?cl1\<lparr>HintID := hid, ExtraPart := ep, ExtraOffset := eo, prfDummyIndices := pd, dummyIdxUsed := du\<rparr>"
    "length hid = ?M" "length ep = ?M" "length eo = ?M" "dummy_ok aes cl2"
    and inv: "\<And>h. h < ?M \<Longrightarrow> hid ! h = of_nat h \<and> unat (ep ! h) < ?P \<and> unat (eo ! h) < unat (cl_PartSize cl) \<and>
       \<not> PRF4Select aes (of_nat h) (ucast (ep ! h)) (sc ! h)"
    using ex(2) by (auto simp: extras_inv_def)
  have wf2: "wf_client cl2" using wf1 cl2 by (simp add: wf_client_def)
  have ext2: "wf_extras cl2" using inv by (simp add: wf_extras_def cl2(1))
  let ?par = "map enc0 [0..<?M * 2]"
  have f2: "cl_M cl2 = cl_M cl" "cl_PartNum cl2 = cl_PartNum cl" "cl_PartSize cl2 = cl_PartSize cl" "SelectCutoff cl2 = sc"
    "ExtraPart cl2 = ep" "ExtraOffset cl2 = eo"
    by (simp_all add: cl2(1))
  have lp: "length ?par = 2 * unat (cl_M cl2)" by (simp add: f2)
  define cl3 where "cl3 = cl2\<lparr>ciParity := parity_loop C aes encDB cl2 ?par, NextHintIndex := cl_M cl2\<rparr>"
  have f3: "cl_M cl3 = cl_M cl" "cl_PartNum cl3 = cl_PartNum cl" "cl_PartSize cl3 = cl_PartSize cl" "SelectCutoff cl3 = sc"
    "ExtraPart cl3 = ep" "ExtraOffset cl3 = eo" "HintID cl3 = hid" "ciParity cl3 = parity_loop C aes encDB cl2 ?par"
    "NextHintIndex cl3 = cl_M cl" "IndicatorBit cl3 = replicate ((?M + 7) div 8) 255"
    by (simp_all add: cl2(1) cl3_def)
  have off: "Offline C aes ne enc0 encDB cl = Some cl3"
    unfolding Offline_def Let_def cut(1) ex(1) cl3_def by simp
  have enc: "encodes C s (parity_loop C aes encDB cl2 ?par ! j) (unat (cl_PartSize cl) - 1)
      (slot_sum aes cl2 db j) (E0 + int ?P * E)" if "j < 2 * ?M" for j
    using parity_loop_encodes[OF wf2 ext2 lp, of j C s E0 encDB db E] that assms(4-7) by (simp add: f2)
  have ind: "indicator cl3 h" if "h < ?M" for h
  proof -
    have "h div 8 < (?M + 7) div 8" using that by linarith
    moreover have "drop_bit (h mod 8) (255 :: u8) AND 1 = 1"
    proof -
      have "h mod 8 \<in> {0, 1, 2, 3, 4, 5, 6, 7}" by auto
      then show ?thesis by (elim insertE) simp_all
    qed
    ultimately show ?thesis by (simp add: indicator_def f3)
  qed
  have split: "split_sum aes cl3 = split_sum aes cl" "split_sum aes cl2 = split_sum aes cl"
      "evenly_split aes cl3 = evenly_split aes cl"
    by (simp_all add: fun_eq_iff split_sum_def evenly_split_def f2 f3)
  have hints: "hint_ok C s aes db (E0 + int ?P * E + (t_of C + 1) div 2) cl3 h" if h: "h < ?M" "sc ! h \<noteq> 0" for h
  proof -
    have ev: "evenly_split aes cl (of_nat h) (sc ! h)"
      by (rule cutoff_evenly_split[OF _ h(2)]) (use cut(4) h(1) in simp)
    have ns: "\<not> PRF4Select aes (of_nat h) (of_nat (unat (ep ! h))) (sc ! h)"
      using inv[OF h(1)] by simp
    have "slot_sum aes cl2 db h = split_sum aes cl2 db (of_nat h) (sc ! h) True + db (unat (ep ! h)) (unat (eo ! h))"
      using slot_sum_hint[of h cl2 aes db] h(1) inv[OF h(1)] ns by (simp add: f2 hint_select_def)
    then have "encodes C s (parity_loop C aes encDB cl2 ?par ! h) (unat (cl_PartSize cl) - 1)
      (split_sum aes cl2 db (of_nat h) (sc ! h) True + db (unat (ep ! h)) (unat (eo ! h))) (E0 + int ?P * E + (t_of C + 1) div 2)"
      using enc[of h] h(1) by (auto elim: encodes_mono)
    then show ?thesis
      using inv[OF h(1)] ns ev ind[OF h(1)] enc[of h] h(1)
      by (simp add: hint_ok_def split f3 Let_def)
  qed
  have backups: "backup_ok C s aes db (E0 + int ?P * E) cl3 j" if j: "?M \<le> j" "j < ?M + ?M div 2" "sc ! j \<noteq> 0" for j
  proof -
    have "evenly_split aes cl (of_nat j) (sc ! j)"
      by (rule cutoff_evenly_split[OF _ j(3)]) (use cut(4) j(2) in simp)
    moreover have "encodes C s (parity_loop C aes encDB cl2 ?par ! (j + of_bool sel * (?M div 2))) (unat (cl_PartSize cl) - 1)
        (split_sum aes cl db (of_nat j) (sc ! j) sel) (E0 + int ?P * E)" for sel
    proof -
      have "j + of_bool sel * (?M div 2) < 2 * ?M" using j(2) M(2) by (cases sel) auto
      note enc[OF this]
      moreover have "slot_sum aes cl2 db (j + of_bool sel * (?M div 2)) = split_sum aes cl db (of_nat j) (sc ! j) sel"
        using slot_sum_backup[of cl2 j aes db sel] j(1,2) by (simp add: split f2)
      ultimately show ?thesis by simp
    qed
    ultimately show ?thesis unfolding backup_ok_def split f3 by blast
  qed
  have "client_ok C s aes db (E0 + int ?P * E) cl3"
    unfolding client_ok_def Let_def
  proof (intro conjI allI impI)
    show "wf_client cl3" using wf2 by (simp add: wf_client_def cl3_def)
    show "dummy_ok aes cl3" using cl2(5) by (simp add: dummy_ok_def cl3_def)
    show "length (ciParity cl3) = 2 * unat (cl_M cl3)"
      using parity_loop_result(1)[OF wf2 ext2 lp] by (simp add: f2 f3)
    show "length (IndicatorBit cl3) = (unat (cl_M cl3) + 7) div 8" by (simp add: f3)
    show "unat (cl_M cl3) \<le> unat (NextHintIndex cl3)" by (simp add: f3)
    show "hint_ok C s aes db (E0 + int ?P * E + (t_of C + 1) div 2) cl3 h"
      if "h < unat (cl_M cl3)" "SelectCutoff cl3 ! h \<noteq> 0" for h
      by (rule hints) (use that in \<open>simp_all add: f3\<close>)
    show "backup_ok C s aes db (E0 + int ?P * E) cl3 j"
      if "j < unat (cl_M cl3) + unat (cl_M cl3) div 2" "unat (NextHintIndex cl3) \<le> j" "SelectCutoff cl3 ! j \<noteq> 0" for j
      by (rule backups) (use that in \<open>simp_all add: f3\<close>)
  qed
  then show ?thesis using off by (intro exI[of _ cl3]) (simp add: f3)
qed

end

end
