(* ===== verification/Rns_Decode.thy ===== *)
theory Rns_Decode
  imports Phase
begin

text \<open>
  Scaling a phase down to a plaintext: the base conversion of
  \<open>src/encryption/utils/rns_base.cu\<close> and \<open>RNSTool::decrypt_scale_and_round\<close> of \<open>rns_tool.cu\<close>,
  on the host path and for one coefficient modulus. The gamma correction makes the
  result the exact rounding of \<open>t x / q\<close> modulo \<open>t\<close>.
\<close>

subsection \<open>Fast base conversion\<close>

definition host_fast_convert_array ::
  "modulus list \<Rightarrow> MultiplyUint64Operand list \<Rightarrow> modulus list \<Rightarrow> u64 list \<Rightarrow> u64 list \<Rightarrow> u64 list" where
  "host_fast_convert_array ibase inv_punctured_product obase base_change_matrix input =
     (let ibase_size = length ibase;
          count = length input div ibase_size;
          temp = fold (\<lambda>i. fold (\<lambda>j temp. temp[j * ibase_size + i :=
                    (if op_operand (inv_punctured_product ! i) = 1
                     then barrett_reduce_uint64 (input ! (i * count + j)) (ibase ! i)
                     else multiply_uint64operand_mod (input ! (i * count + j)) (inv_punctured_product ! i) (ibase ! i))])
                   [0..<count]) [0..<ibase_size] (replicate (ibase_size * count) 0);
          slice = (\<lambda>xs a b. take (b - a) (drop a xs))
      in fold (\<lambda>i. fold (\<lambda>j output. output[i * count + j :=
             dot_product_mod (slice temp (j * ibase_size) ((j + 1) * ibase_size))
               (slice base_change_matrix (i * ibase_size) ((i + 1) * ibase_size)) (obase ! i)])
           [0..<count]) [0..<length obase] (replicate (length obase * count) 0))"

subsection \<open>The scaling constants\<close>

record rns_tool =
  rns_q :: modulus
  rns_t :: modulus
  gamma :: modulus
  inv_punctured_q :: "MultiplyUint64Operand list"
  q_to_t_gamma_matrix :: "u64 list"
  prod_t_gamma_mod_q :: MultiplyUint64Operand
  neg_inv_q_mod_t_gamma :: "MultiplyUint64Operand list"
  inv_gamma_mod_t :: MultiplyUint64Operand

text \<open>
  What the constructor computes for the base \<open>{q}\<close>: the punctured product of a single modulus
  is 1, and the constants are inverses modulo \<open>t\<close> and \<open>gamma\<close>.
\<close>

definition neg_inverse_operand :: "modulus \<Rightarrow> modulus \<Rightarrow> MultiplyUint64Operand \<Rightarrow> bool" where
  "neg_inverse_operand q m y \<longleftrightarrow> wf_operand m y \<and>
     uint (op_operand y) * uint (mod_value q) mod uint (mod_value m) = (- 1) mod uint (mod_value m)"

definition wf_rns_tool :: "rns_tool \<Rightarrow> bool" where
  "wf_rns_tool R \<longleftrightarrow>
     wf_modulus (rns_q R) \<and> wf_modulus (rns_t R) \<and> wf_modulus (gamma R) \<and>
     map op_operand (inv_punctured_q R) = [1] \<and> q_to_t_gamma_matrix R = [1, 1] \<and>
     wf_operand (rns_q R) (prod_t_gamma_mod_q R) \<and>
     uint (op_operand (prod_t_gamma_mod_q R)) =
       uint (mod_value (rns_t R)) * uint (mod_value (gamma R)) mod uint (mod_value (rns_q R)) \<and>
     list_all2 (neg_inverse_operand (rns_q R)) [rns_t R, gamma R] (neg_inv_q_mod_t_gamma R) \<and>
     wf_operand (rns_t R) (inv_gamma_mod_t R) \<and>
     (uint (op_operand (inv_gamma_mod_t R)) * uint (mod_value (gamma R))) mod uint (mod_value (rns_t R)) = 1"

subsection \<open>Scale and round\<close>

definition host_decrypt_scale_and_round_step1 :: "rns_tool \<Rightarrow> nat \<Rightarrow> u64 list \<Rightarrow> u64 list" where
  "host_decrypt_scale_and_round_step1 R coeff_count temp_t_gamma =
     (let g = mod_value (gamma R);
          gamma_div_2 = drop_bit 1 g;
          t = rns_t R
      in map (\<lambda>i.
           let tv = temp_t_gamma ! i;
               gv = temp_t_gamma ! (coeff_count + i);
               d = (if gv > gamma_div_2 then add_uint64_mod tv (reduce t (g - gv)) t
                    else sub_uint64_mod tv (reduce t gv) t)
           in if d \<noteq> 0 then multiply_uint64operand_mod d (inv_gamma_mod_t R) t else d)
         [0..<coeff_count])"

definition decrypt_scale_and_round :: "rns_tool \<Rightarrow> u64 list \<Rightarrow> nat \<Rightarrow> u64 list" where
  "decrypt_scale_and_round R phase_data phase_coeff_count =
     (let temp = host_multiply_uint64operand_ps (take phase_coeff_count phase_data) [prod_t_gamma_mod_q R]
            1 phase_coeff_count [rns_q R] (replicate phase_coeff_count 0);
          temp_t_gamma = host_fast_convert_array [rns_q R] (inv_punctured_q R) [rns_t R, gamma R]
            (q_to_t_gamma_matrix R) temp;
          temp_t_gamma = host_multiply_uint64operand_ps temp_t_gamma (neg_inv_q_mod_t_gamma R)
            1 phase_coeff_count [rns_t R, gamma R] temp_t_gamma
      in host_decrypt_scale_and_round_step1 R phase_coeff_count temp_t_gamma)"

subsection \<open>The arithmetic\<close>

text \<open>
  With \<open>K = floor(gamma t x / q)\<close>, the value recovered is \<open>(K - centred(K mod gamma)) / gamma\<close>.
\<close>

lemma gamma_floor:
  fixes q t g x m e j :: int
  assumes "0 < q" "t * x = q * m + e + t * q * j"
  shows "(g * t * x) div q = g * (m + t * j) + (g * e) div q"
proof -
  have "g * t * x = g * e + q * (g * (m + t * j))"
    using assms(2) by (metis (no_types, opaque_lifting) ab_semigroup_add_class.add_ac(1) add.commute
        distrib_left mult.assoc mult.left_commute)
  then show ?thesis using assms(1) by simp
qed

text \<open>The residue of \<open>- (y mod q) / q\<close> modulo a divisor of \<open>y\<close> is that of the quotient.\<close>

lemma neg_inverse_quotient:
  fixes q y p c :: int
  assumes "(c * q) mod p = (- 1) mod p" "p dvd y"
  shows "((y mod q) * c) mod p = (y div q) mod p"
proof -
  have "(y mod q) * c = (y - q * (y div q)) * c" by (simp add: minus_mult_div_eq_mod)
  also have "\<dots> = y * c - (c * q) * (y div q)" by (simp add: algebra_simps)
  finally have "((y mod q) * c) mod p = (y * c - (c * q) * (y div q)) mod p" by simp
  also have "\<dots> = (0 - (- 1) * (y div q)) mod p"
    using assms by (intro mod_diff_cong mod_mult_cong) auto
  finally show ?thesis by simp
qed

text \<open>Centring modulo \<open>g\<close> recovers a small quotient exactly.\<close>

lemma centred_residue:
  fixes g r :: int
  assumes "1 < g" "- ((g - 1) div 2) \<le> r" "r \<le> g div 2"
  shows "(if (r mod g) > g div 2 then - (g - r mod g) else r mod g) = r"
proof (cases "0 \<le> r")
  case True
  then have "r mod g = r" using assms by (intro mod_pos_pos_trivial) linarith+
  then show ?thesis using assms by simp
next
  case False
  then have "(r + g) mod g = r + g" using assms by (intro mod_pos_pos_trivial) linarith+
  then have "r mod g = r + g" by simp
  moreover have "r + g > g div 2" using assms by linarith
  ultimately show ?thesis by simp
qed

lemma floor_of_small_noise:
  fixes g q e :: int
  assumes "0 < q" "0 < g" "2 * g * \<bar>e\<bar> \<le> (g - 3) * q"
  shows "- ((g - 1) div 2) \<le> (g * e) div q" "(g * e) div q \<le> g div 2"
proof -
  define K where "K = (g * e) div q"
  have K: "K * q \<le> g * e" "g * e < (K + 1) * q"
    using div_mult_mod_eq[of "g * e" q] pos_mod_sign[OF assms(1), of "g * e"] pos_mod_bound[OF assms(1), of "g * e"]
    unfolding K_def distrib_right by linarith+
  have "g * e \<le> g * \<bar>e\<bar>" "- (g * e) \<le> g * \<bar>e\<bar>"
    using assms(2) mult_left_mono[of e "\<bar>e\<bar>" g] mult_left_mono[of "- e" "\<bar>e\<bar>" g] by simp_all
  then have b: "2 * (g * e) \<le> (g - 3) * q" "- (2 * (g * e)) \<le> (g - 3) * q"
    using assms(3) by simp_all
  have "(2 * K) * q \<le> (g - 3) * q" using K(1) b(1) by simp
  then have "2 * K \<le> g - 3" using assms(1) by simp
  moreover have "(- 2 * (K + 1)) * q < (g - 3) * q"
  proof -
    have "(- 2 * (K + 1)) * q = - (2 * ((K + 1) * q))" by (simp only: algebra_simps)
    then show ?thesis using K(2) b(2) by linarith
  qed
  then have "- 2 * (K + 1) < g - 3" using assms(1) by simp
  ultimately show "- ((g - 1) div 2) \<le> (g * e) div q" "(g * e) div q \<le> g div 2"
    unfolding K_def[symmetric] by presburger+
qed

subsection \<open>Decoding one coefficient\<close>

lemma wf_rnsD:
  assumes "wf_rns_tool R"
  obtains ip n0 n1 where "wf_modulus (rns_q R)" "wf_modulus (rns_t R)" "wf_modulus (gamma R)"
    "inv_punctured_q R = [ip]" "op_operand ip = 1" "q_to_t_gamma_matrix R = [1, 1]"
    "neg_inv_q_mod_t_gamma R = [n0, n1]" "wf_operand (rns_t R) n0" "wf_operand (gamma R) n1"
    "uint (op_operand n0) * uint (mod_value (rns_q R)) mod uint (mod_value (rns_t R)) = (- 1) mod uint (mod_value (rns_t R))"
    "uint (op_operand n1) * uint (mod_value (rns_q R)) mod uint (mod_value (gamma R)) = (- 1) mod uint (mod_value (gamma R))"
proof -
  obtain ip where ip: "inv_punctured_q R = [ip]" "op_operand ip = 1"
    using assms by (auto simp: wf_rns_tool_def)
  have "list_all2 (neg_inverse_operand (rns_q R)) [rns_t R, gamma R] (neg_inv_q_mod_t_gamma R)"
    using assms by (simp only: wf_rns_tool_def)
  then obtain n0 n1 where "neg_inv_q_mod_t_gamma R = [n0, n1]"
    "neg_inverse_operand (rns_q R) (rns_t R) n0" "neg_inverse_operand (rns_q R) (gamma R) n1"
    by (auto simp: list_all2_Cons1)
  then show thesis
    using that[OF _ _ _ ip] assms by (simp add: wf_rns_tool_def neg_inverse_operand_def)
qed

lemma dot_product_single:
  assumes "wf_modulus m"
  shows "uint (dot_product_mod [a] [1] m) = uint a mod uint (mod_value m)"
  using dot_product_mod_value[OF assms, of "[a]" "[1]"] uint64_lt[of a] by simp

text \<open>The pipeline on a single coefficient.\<close>

lemma decrypt_scale_and_round_one:
  fixes x :: u64
  assumes "wf_rns_tool R"
  defines "q \<equiv> uint (mod_value (rns_q R))" and "t \<equiv> uint (mod_value (rns_t R))" and "g \<equiv> uint (mod_value (gamma R))"
  defines "K \<equiv> (g * t * uint x) div q"
  shows "\<exists>tv gv. uint tv = K mod t \<and> uint gv = K mod g \<and> residue (rns_t R) tv \<and> residue (gamma R) gv \<and>
    decrypt_scale_and_round R [x] 1 = host_decrypt_scale_and_round_step1 R 1 [tv, gv]"
proof -
  obtain ip n0 n1 where R: "wf_modulus (rns_q R)" "wf_modulus (rns_t R)" "wf_modulus (gamma R)"
    "inv_punctured_q R = [ip]" "op_operand ip = 1" "q_to_t_gamma_matrix R = [1, 1]"
    "neg_inv_q_mod_t_gamma R = [n0, n1]" "wf_operand (rns_t R) n0" "wf_operand (gamma R) n1"
    "uint (op_operand n0) * q mod t = (- 1) mod t" "uint (op_operand n1) * q mod g = (- 1) mod g"
    unfolding q_def t_def g_def by (rule wf_rnsD[OF assms(1)])
  have prod: "wf_operand (rns_q R) (prod_t_gamma_mod_q R)" "uint (op_operand (prod_t_gamma_mod_q R)) = t * g mod q"
    using assms(1) by (simp_all add: wf_rns_tool_def q_def t_def g_def)
  let ?T = "multiply_uint64operand_mod x (prod_t_gamma_mod_q R) (rns_q R)"
  let ?r = "reduce (rns_q R) ?T"
  let ?tv = "multiply_uint64operand_mod (dot_product_mod [?r] [1] (rns_t R)) n0 (rns_t R)"
  let ?gv = "multiply_uint64operand_mod (dot_product_mod [?r] [1] (gamma R)) n1 (gamma R)"
  have T: "uint ?T = (g * t * uint x) mod q"
    using multiply_uint64operand_mod_correct[OF R(1) prod(1), of x]
    by (simp add: prod(2) q_def mod_mult_right_eq mult_ac)
  have r: "uint ?r = (g * t * uint x) mod q"
    unfolding reduce_correct[OF R(1)] T by (simp add: q_def)
  have "uint ?tv = ((g * t * uint x) mod q * uint (op_operand n0)) mod t"
    unfolding multiply_uint64operand_mod_correct[OF R(2,8)] dot_product_single[OF R(2)] r
    by (simp add: t_def mod_mult_left_eq)
  also have "\<dots> = K mod t" unfolding K_def by (rule neg_inverse_quotient[OF R(10)]) simp
  finally have tv: "uint ?tv = K mod t" .
  have "uint ?gv = ((g * t * uint x) mod q * uint (op_operand n1)) mod g"
    unfolding multiply_uint64operand_mod_correct[OF R(3,9)] dot_product_single[OF R(3)] r
    by (simp add: g_def mod_mult_left_eq)
  also have "\<dots> = K mod g" unfolding K_def by (rule neg_inverse_quotient[OF R(11)]) simp
  finally have gv: "uint ?gv = K mod g" .
  have "decrypt_scale_and_round R [x] 1 = host_decrypt_scale_and_round_step1 R 1 [?tv, ?gv]"
    by (simp add: decrypt_scale_and_round_def host_multiply_uint64operand_ps_def host_fast_convert_array_def
        for_ps_def ps_idx_def Let_def R(4-7) barrett_reduce_uint64_def numeral_2_eq_2)
  moreover have "residue (rns_t R) ?tv" "residue (gamma R) ?gv"
    using residue_intro[OF R(2) tv[unfolded t_def]] residue_intro[OF R(3) gv[unfolded g_def]] by simp_all
  ultimately show ?thesis using tv gv by blast
qed

lemma step1_one:
  assumes "wf_rns_tool R" "residue (rns_t R) tv" "residue (gamma R) gv"
  defines "t \<equiv> uint (mod_value (rns_t R))" and "g \<equiv> uint (mod_value (gamma R))"
  defines "r \<equiv> (if uint gv > g div 2 then - (g - uint gv) else uint gv)"
  shows "\<exists>d. host_decrypt_scale_and_round_step1 R 1 [tv, gv] = [d] \<and>
    uint d = (uint tv - r) * uint (op_operand (inv_gamma_mod_t R)) mod t"
proof -
  have W: "wf_modulus (rns_t R)" "wf_modulus (gamma R)" "wf_operand (rns_t R) (inv_gamma_mod_t R)"
    using assms(1) by (simp_all add: wf_rns_tool_def)
  let ?G = "mod_value (gamma R)" and ?T = "rns_t R"
  let ?e = "if gv > drop_bit 1 ?G then add_uint64_mod tv (reduce ?T (?G - gv)) ?T
    else sub_uint64_mod tv (reduce ?T gv) ?T"
  let ?d = "if ?e \<noteq> 0 then multiply_uint64operand_mod ?e (inv_gamma_mod_t R) ?T else ?e"
  have half: "gv > drop_bit 1 ?G \<longleftrightarrow> uint gv > g div 2"
    unfolding word_less_def uint_half g_def ..
  have red: "uint (reduce ?T y) = uint y mod t" "residue ?T (reduce ?T y)" for y
    using reduce_correct[OF W(1), of y] residue_intro[OF W(1)] by (auto simp: t_def)
  have gsub: "uint (?G - gv) = g - uint gv"
    unfolding g_def by (rule uint_sub_no_borrow) (use assms(3) in \<open>simp add: residue_def word_le_def\<close>)
  have e: "uint ?e = (uint tv - r) mod t"
  proof (cases "uint gv > g div 2")
    case True
    then have "uint ?e = (uint tv + uint (reduce ?T (?G - gv))) mod t"
      using half add_uint64_mod_correct[OF W(1) assms(2) red(2)] by (simp add: t_def)
    also have "\<dots> = (uint tv + (g - uint gv)) mod t" by (simp only: red gsub mod_add_right_eq)
    also have "uint tv + (g - uint gv) = uint tv - r" using True by (simp add: r_def)
    finally show ?thesis .
  next
    case False
    then have "uint ?e = (uint tv - uint (reduce ?T gv)) mod t"
      using half sub_uint64_mod_correct[OF W(1) assms(2) red(2)] by (simp add: t_def)
    then show ?thesis using False by (simp add: red r_def mod_diff_right_eq)
  qed
  have "uint ?d = uint ?e * uint (op_operand (inv_gamma_mod_t R)) mod t"
    using multiply_uint64operand_mod_correct[OF W(1,3), of ?e] by (auto simp: t_def)
  then have "uint ?d = (uint tv - r) * uint (op_operand (inv_gamma_mod_t R)) mod t"
    unfolding e by (simp only: mod_mult_left_eq)
  moreover have "host_decrypt_scale_and_round_step1 R 1 [tv, gv] = [?d]"
    by (simp add: host_decrypt_scale_and_round_step1_def Let_def)
  ultimately show ?thesis by blast
qed

lemma decrypt_scale_and_round_value:
  assumes "wf_rns_tool R"
    and "uint (mod_value (rns_t R)) * uint x
       = uint (mod_value (rns_q R)) * m + e + uint (mod_value (rns_t R)) * uint (mod_value (rns_q R)) * j"
    and "2 * uint (mod_value (gamma R)) * \<bar>e\<bar> \<le> (uint (mod_value (gamma R)) - 3) * uint (mod_value (rns_q R))"
  shows "map uint (decrypt_scale_and_round R [x] 1) = [m mod uint (mod_value (rns_t R))]"
proof -
  define q where "q = uint (mod_value (rns_q R))"
  define t where "t = uint (mod_value (rns_t R))"
  define g where "g = uint (mod_value (gamma R))"
  define ig where "ig = uint (op_operand (inv_gamma_mod_t R))"
  define K where "K = (g * t * uint x) div q"
  define r where "r = (g * e) div q"
  have pos: "0 < q" "1 < t" "1 < g"
    using assms(1) wf_modulusD(1,2) by (auto simp: wf_rns_tool_def q_def t_def g_def)
  have ig: "ig * g mod t = 1" using assms(1) by (simp add: wf_rns_tool_def ig_def g_def t_def)
  obtain tv gv where v: "uint tv = K mod t" "uint gv = K mod g" "residue (rns_t R) tv" "residue (gamma R) gv"
    "decrypt_scale_and_round R [x] 1 = host_decrypt_scale_and_round_step1 R 1 [tv, gv]"
    using decrypt_scale_and_round_one[OF assms(1), of x] unfolding K_def q_def t_def g_def by blast
  have K: "K = g * (m + t * j) + r"
    unfolding K_def r_def by (rule gamma_floor[OF pos(1)]) (use assms(2) in \<open>simp add: q_def t_def\<close>)
  have "K mod g = r mod g" unfolding K by simp
  moreover have "- ((g - 1) div 2) \<le> r" "r \<le> g div 2"
    using floor_of_small_noise[of q g e] pos assms(3) unfolding r_def q_def g_def by simp_all
  ultimately have centred: "(if uint gv > g div 2 then - (g - uint gv) else uint gv) = r"
    using centred_residue[OF pos(3), of r] v(2) by (simp only:)
  obtain d where d: "host_decrypt_scale_and_round_step1 R 1 [tv, gv] = [d]" "uint d = (uint tv - r) * ig mod t"
    using step1_one[OF assms(1) v(3,4)] centred unfolding g_def t_def ig_def by auto
  have "(uint tv - r) * ig mod t = (K - r) * ig mod t"
    unfolding v(1) by (rule mod_mult_cong[OF _ refl]) (simp add: mod_diff_left_eq)
  also have "\<dots> = (m + t * j) * (ig * g) mod t" unfolding K by (simp add: algebra_simps)
  also have "\<dots> = (m * 1) mod t" by (rule mod_mult_cong) (use ig pos in simp_all)
  finally show ?thesis using d v(5) by (simp add: t_def)
qed

text \<open>
  C32: decoding is exact rounding. A phase \<open>x\<close> with \<open>t x = q m + e\<close> modulo \<open>t q\<close> decodes to
  \<open>m mod t\<close> as long as the noise is below half of \<open>q\<close> up to the slack \<open>3 q / gamma\<close>.
\<close>

theorem decrypt_scale_and_round_correct:
  assumes "wf_rns_tool R"
    and "uint (mod_value (rns_t R)) * uint x
       = uint (mod_value (rns_q R)) * m + e + uint (mod_value (rns_t R)) * uint (mod_value (rns_q R)) * j"
    and "2 * uint (mod_value (gamma R)) * \<bar>e\<bar> \<le> (uint (mod_value (gamma R)) - 3) * uint (mod_value (rns_q R))"
  shows "map uint (decrypt_scale_and_round R [x] 1) = [m mod uint (mod_value (rns_t R))]"
  by (rule decrypt_scale_and_round_value[OF assms])

end
