(* ===== verification/Online.thy ===== *)
theory Online
  imports Hints Rns_Decode Server
begin

text \<open>
  One online query of \<open>src/src/client_main.cpp\<close>: building the query vectors and the masked
  ciphertext, unmasking and decoding the answer, and replacing the spent hint by a backup.
\<close>

record query_message =
  q_bvec :: "bool list"
  q_Svec :: "u32 list"
  q_ct :: ciphertext

definition set_part :: "client \<Rightarrow> nat \<Rightarrow> bool \<Rightarrow> u32 \<Rightarrow> client" where
  "set_part cl part b offset = cl\<lparr>cl_bvec := (cl_bvec cl)[part := b], cl_Svec := (cl_Svec cl)[part := offset]\<rparr>"

text \<open>The vectors of one partition: queried, extra, or decided by the hint's PRF.\<close>

definition query_step ::
  "block_cipher \<Rightarrow> u16 \<Rightarrow> bool \<Rightarrow> bool \<Rightarrow> nat \<Rightarrow> u32 \<Rightarrow> u32 \<Rightarrow> nat \<Rightarrow> client \<Rightarrow> client" where
  "query_step aes queryPartNum b_indicator shouldFlip hintIndex hintID cutoff part cl =
     (if (of_nat part :: u32) = ucast queryPartNum then
        let (d, cl) = NextDummyIdx aes cl
        in set_part cl part ((\<not> b_indicator) \<noteq> shouldFlip) (ucast d AND (cl_PartSize cl - 1))
      else if ucast (ExtraPart cl ! hintIndex) = (of_nat part :: u32) then
        set_part cl part (b_indicator \<noteq> shouldFlip) (ucast (ExtraOffset cl ! hintIndex))
      else
        let b = PRF4Select aes hintID (of_nat part) cutoff in
        if b = b_indicator then
          set_part cl part (b \<noteq> shouldFlip) (ucast (PRF4Idx aes hintID (of_nat part)) AND (cl_PartSize cl - 1))
        else
          let (d, cl) = NextDummyIdx aes cl
          in set_part cl part (b \<noteq> shouldFlip) (ucast d AND (cl_PartSize cl - 1)))"

definition build_query :: "block_cipher \<Rightarrow> u16 \<Rightarrow> bool \<Rightarrow> bool \<Rightarrow> nat \<Rightarrow> client \<Rightarrow> client" where
  "build_query aes queryPartNum b_indicator shouldFlip hintIndex cl =
     fold (query_step aes queryPartNum b_indicator shouldFlip hintIndex (HintID cl ! hintIndex) (SelectCutoff cl ! hintIndex))
       [0..<unat (cl_PartNum cl)] cl"

text \<open>\<open>ci_copy.poly(0)[PartSize-1] = (current_coeff + rando) % modulus_q\<close>\<close>

definition mask_coefficient :: "ciphertext \<Rightarrow> nat \<Rightarrow> u64 \<Rightarrow> u64 \<Rightarrow> ciphertext option" where
  "mask_coefficient ct i rando modulus_q =
     (if modulus_q = 0 \<or> length (ct_data ct) \<le> i then None
      else Some (ct\<lparr>ct_data := (ct_data ct)[i := (ct_data ct ! i + rando) mod modulus_q]\<rparr>))"

definition queryPartNum_of :: "client \<Rightarrow> u32 \<Rightarrow> u16" where
  "queryPartNum_of cl query = ucast (query div cl_PartSize cl)"

definition queryOffset_of :: "client \<Rightarrow> u32 \<Rightarrow> u16" where
  "queryOffset_of cl query = ucast (query AND (cl_PartSize cl - 1))"

text \<open>
  The query computation. \<open>Inr None\<close> is the skipped query; an index that passes the check but
  is no hint is read out of bounds (\<open>None\<close>).
\<close>

definition client_query ::
  "he_context \<Rightarrow> block_cipher \<Rightarrow> u32 \<Rightarrow> bool \<Rightarrow> u64 \<Rightarrow> u64 \<Rightarrow> client
     \<Rightarrow> ((nat \<times> bool \<times> query_message \<times> client) option) outcome" where
  "client_query C aes query shouldFlip rando modulus_q cl =
     (let qp = queryPartNum_of cl query; qo = queryOffset_of cl query;
          (hintIndex, b_indicator) = find_hint aes query qp qo cl False
      in if length (ciParity cl) \<le> hintIndex then Some (Inr None)
         else if length (HintID cl) \<le> hintIndex then None
         else let cl = build_query aes qp b_indicator shouldFlip hintIndex cl in
           case getNextEncZero cl of
             Inl e \<Rightarrow> Some (Inl e)
           | Inr (zero_cipher, cl) \<Rightarrow>
               map_option (\<lambda>ct. Inr (Some (hintIndex, b_indicator,
                   \<lparr>q_bvec = cl_bvec cl, q_Svec = cl_Svec cl, q_ct = ct\<rparr>, cl)))
                 (mask_coefficient (add_inplace C (ciParity cl ! hintIndex) zero_cipher)
                    (unat (cl_PartSize cl - 1)) rando modulus_q))"

text \<open>The choice bit of the oblivious transfer, and unmasking and decoding the received word.\<close>

definition resultBit :: "bool \<Rightarrow> bool \<Rightarrow> bool" where
  "resultBit b_indicator shouldFlip = (if (\<not> b_indicator) \<noteq> shouldFlip then False else True)"

definition decode_answer :: "rns_tool \<Rightarrow> u64 \<Rightarrow> u64 \<Rightarrow> u64 \<Rightarrow> u64 option" where
  "decode_answer R qq rando modulus_q =
     (if modulus_q = 0 then None
      else Some (decrypt_scale_and_round R [(qq + modulus_q - (rando mod modulus_q)) mod modulus_q] 1 ! 0))"

subsection \<open>Replacing the spent hint\<close>

text \<open>The scan for the next valid backup; it leaves the array (\<open>None\<close>) when there is none.\<close>

function next_valid :: "u32 list \<Rightarrow> nat \<Rightarrow> nat option" where
  "next_valid cutoffs i =
     (if i < length cutoffs then if cutoffs ! i = 0 then next_valid cutoffs (Suc i) else Some i else None)"
  by pat_completeness auto
termination by (relation "measure (\<lambda>(cutoffs, i). length cutoffs - i)") auto

declare next_valid.simps [simp del]

definition refresh ::
  "he_context \<Rightarrow> block_cipher \<Rightarrow> nat \<Rightarrow> u16 \<Rightarrow> u16 \<Rightarrow> u64 \<Rightarrow> client \<Rightarrow> client outcome" where
  "refresh C aes hintIndex queryPartNum queryOffset decrypted_result cl =
     (case next_valid (SelectCutoff cl) (unat (NextHintIndex cl)) of
        None \<Rightarrow> None
      | Some nextIdx \<Rightarrow>
          let cl = cl\<lparr>HintID := (HintID cl)[hintIndex := of_nat nextIdx],
                SelectCutoff := (SelectCutoff cl)[hintIndex := SelectCutoff cl ! nextIdx],
                ExtraPart := (ExtraPart cl)[hintIndex := queryPartNum],
                ExtraOffset := (ExtraOffset cl)[hintIndex := queryOffset]\<rparr>;
              new_b_indicator = (\<not> PRF4Select aes (of_nat nextIdx) (ucast queryPartNum) (SelectCutoff cl ! nextIdx));
              cl = set_indicator cl hintIndex new_b_indicator;
              M = unat (cl_M cl);
              parity_i = nextIdx + of_bool (indicator cl hintIndex) * M div 2;
              ve = (replicate (unat (cl_PartSize cl)) 0)[unat (cl_PartSize cl) - 1 := decrypted_result]
          in case encode_polynomial C ve of
               Inl e \<Rightarrow> Some (Inl e)
             | Inr pl \<Rightarrow>
                 if length (ciParity cl) \<le> parity_i then None
                 else case add_plain C (ciParity cl ! parity_i) pl of
                     None \<Rightarrow> None
                   | Some (Inl e) \<Rightarrow> Some (Inl e)
                   | Some (Inr ct) \<Rightarrow>
                       if nextIdx + 1 < M + M div 2
                       then Some (Inr (cl\<lparr>ciParity := (ciParity cl)[hintIndex := ct], NextHintIndex := of_nat (nextIdx + 1)\<rparr>))
                       else None)"

subsection \<open>The search result\<close>

text \<open>The indices a valid hint covers.\<close>

definition covers :: "block_cipher \<Rightarrow> client \<Rightarrow> nat \<Rightarrow> nat \<Rightarrow> nat \<Rightarrow> bool" where
  "covers aes cl h p x \<longleftrightarrow>
     (unat (ExtraPart cl ! h) = p \<and> unat (ExtraOffset cl ! h) = x) \<or>
     (unat (PRF4Idx aes (HintID cl ! h) (of_nat p)) mod unat (cl_PartSize cl) = x \<and>
      PRF4Select aes (HintID cl ! h) (of_nat p) (SelectCutoff cl ! h) = indicator cl h)"

lemma unat_word_eq: "unat a = unat b \<longleftrightarrow> a = b" for a b :: "'a::len word"
  by (simp add: word_unat_eq_iff)

lemma xor_eq_zero: "x XOR y = 0 \<longleftrightarrow> x = y" for x y :: "'a::len word"
  unfolding bit_eq_iff by (auto simp: bit_simps)

lemma xor_mask_zero:
  assumes "wf_client cl"
  shows "((ucast r :: u32) XOR query) AND (cl_PartSize cl - 1) = 0 \<longleftrightarrow>
    unat (r :: u16) mod unat (cl_PartSize cl) = unat query mod unat (cl_PartSize cl)"
proof -
  obtain s where s: "s \<le> 16" "cl_PartSize cl = 2 ^ s" "unat (cl_PartSize cl) = 2 ^ s"
    using wf_client_PartSize_power[OF assms] by blast
  have m: "w AND (cl_PartSize cl - 1) = take_bit s w" for w :: u32
    unfolding s(2) take_bit_eq_mask mask_eq_decr_exp ..
  have "take_bit s (ucast r XOR query) = 0 \<longleftrightarrow> take_bit s (ucast r) = take_bit s query"
    unfolding take_bit_xor by (rule xor_eq_zero)
  also have "\<dots> \<longleftrightarrow> unat (take_bit s (ucast r :: u32)) = unat (take_bit s query)" by (simp only: unat_word_eq)
  also have "\<dots> \<longleftrightarrow> unat r mod 2 ^ s = unat query mod 2 ^ s"
    by (simp only: unsigned_take_bit_eq take_bit_eq_mod[of s "unat _"] unat_ucast_u16_u32)
  finally show ?thesis unfolding m s(3) .
qed

lemma unat_queryOffset:
  assumes "wf_client cl"
  shows "unat (queryOffset_of cl query) = unat query mod unat (cl_PartSize cl)"
proof -
  obtain s where s: "s \<le> 16" "cl_PartSize cl = 2 ^ s" "unat (cl_PartSize cl) = 2 ^ s"
    using wf_client_PartSize_power[OF assms] by blast
  have "query AND (cl_PartSize cl - 1) = take_bit s query"
    unfolding s(2) take_bit_eq_mask mask_eq_decr_exp ..
  then have u: "unat (query AND (cl_PartSize cl - 1)) = unat query mod 2 ^ s"
    by (simp only: unsigned_take_bit_eq take_bit_eq_mod[of s "unat query"])
  have "unat query mod 2 ^ s < 2 ^ s" by simp
  also have "(2 :: nat) ^ s \<le> 2 ^ 16" using s(1) by (simp only: power_increasing one_le_numeral)
  finally show ?thesis unfolding queryOffset_of_def s(3)
    using u by (simp add: unsigned_ucast_eq take_bit_nat_eq_self)
qed

lemma unat_queryPartNum:
  assumes "wf_client cl" "unat query < unat (cl_PartNum cl) * unat (cl_PartSize cl)"
  shows "unat (queryPartNum_of cl query) = unat query div unat (cl_PartSize cl)"
    and "unat query div unat (cl_PartSize cl) < unat (cl_PartNum cl)"
proof -
  show lt: "unat query div unat (cl_PartSize cl) < unat (cl_PartNum cl)"
    using assms(2) by (simp add: less_mult_imp_div_less)
  then have "unat query div unat (cl_PartSize cl) < 2 ^ 16" using assms(1) by (simp add: wf_client_def)
  then show "unat (queryPartNum_of cl query) = unat query div unat (cl_PartSize cl)"
    by (simp add: queryPartNum_of_def unsigned_ucast_eq unat_div take_bit_nat_eq_self)
qed

lemma find_hint_loop_sound:
  assumes "wf_client cl" "unat query mod unat (cl_PartSize cl) = unat qo"
    and "find_hint_loop aes query qp qo cl hs b0 = (h, b)"
  shows "h = unat (cl_M cl + 1) \<or>
    h \<in> set hs \<and> SelectCutoff cl ! h \<noteq> 0 \<and> b = indicator cl h \<and> covers aes cl h (unat qp) (unat qo)"
  using assms(3)
proof (induction hs arbitrary: b0)
  case (Cons k hs)
  have qp: "(of_nat (unat qp) :: u32) = ucast qp" by simp
  show ?case
    using Cons xor_mask_zero[OF assms(1), of "PRF4Idx aes (HintID cl ! k) (ucast qp)" query] assms(2)
    by (auto simp: covers_def Let_def split: if_splits)
qed simp

lemma find_hint_sound:
  assumes "wf_client cl" "find_hint aes query (queryPartNum_of cl query) (queryOffset_of cl query) cl b0 = (h, b)"
    and "h < unat (cl_M cl)"
  shows "SelectCutoff cl ! h \<noteq> 0" "b = indicator cl h"
    "covers aes cl h (unat (queryPartNum_of cl query)) (unat (queryOffset_of cl query))"
proof -
  have "unat (cl_M cl) < 2 ^ 29" using assms(1) by (simp add: wf_client_def)
  then have M1: "unat (cl_M cl + 1) = unat (cl_M cl) + 1" by (subst unat_add_no_overflow) simp_all
  have "unat query mod unat (cl_PartSize cl) = unat (queryOffset_of cl query)"
    by (simp add: unat_queryOffset[OF assms(1)])
  from find_hint_loop_sound[OF assms(1) this assms(2)[unfolded find_hint_def]]
  show "SelectCutoff cl ! h \<noteq> 0" "b = indicator cl h"
    "covers aes cl h (unat (queryPartNum_of cl query)) (unat (queryOffset_of cl query))"
    using assms(3) M1 by auto
qed

text \<open>The search misses only when there is nothing to find.\<close>

lemma find_hint_loop_complete:
  assumes "wf_client cl" "unat query mod unat (cl_PartSize cl) = unat qo"
    and "k \<in> set hs" "SelectCutoff cl ! k \<noteq> 0" "covers aes cl k (unat qp) (unat qo)"
  shows "fst (find_hint_loop aes query qp qo cl hs b0) \<in> set hs"
  using assms(3)
proof (induction hs arbitrary: b0)
  case (Cons h hs)
  have x: "((ucast (PRF4Idx aes (HintID cl ! h) (ucast qp)) :: u32) XOR query) AND (cl_PartSize cl - 1) = 0 \<longleftrightarrow>
      unat (PRF4Idx aes (HintID cl ! h) (ucast qp)) mod unat (cl_PartSize cl) = unat qo"
    unfolding xor_mask_zero[OF assms(1)] assms(2) ..
  show ?case
  proof (cases "k = h")
    case True
    have c: "(ExtraPart cl ! h = qp \<and> ExtraOffset cl ! h = qo) \<or>
        (unat (PRF4Idx aes (HintID cl ! h) (ucast qp)) mod unat (cl_PartSize cl) = unat qo \<and>
         PRF4Select aes (HintID cl ! h) (ucast qp) (SelectCutoff cl ! h) = indicator cl h)"
      using assms(5) unfolding covers_def True unat_word_eq by simp
    show ?thesis using assms(4) c x by (auto simp: Let_def True)
  next
    case False
    then have "fst (find_hint_loop aes query qp qo cl hs b) \<in> set hs" for b using Cons by simp
    then show ?thesis by (auto simp: Let_def)
  qed
qed simp

lemma find_hint_complete:
  assumes "wf_client cl" "unat (cl_M cl) \<le> fst (find_hint aes query (queryPartNum_of cl query) (queryOffset_of cl query) cl b0)"
    and "k < unat (cl_M cl)" "SelectCutoff cl ! k \<noteq> 0"
  shows "\<not> covers aes cl k (unat (queryPartNum_of cl query)) (unat (queryOffset_of cl query))"
proof
  assume c: "covers aes cl k (unat (queryPartNum_of cl query)) (unat (queryOffset_of cl query))"
  have "unat query mod unat (cl_PartSize cl) = unat (queryOffset_of cl query)"
    by (simp add: unat_queryOffset[OF assms(1)])
  from find_hint_loop_complete[OF assms(1) this _ assms(4) c, of "[0..<unat (cl_M cl)]" b0] assms(2,3)
  show False by (simp add: find_hint_def)
qed

subsection \<open>The query vectors\<close>

text \<open>The bit a partition is sent with, and the offset a partition of the hint's half is sent with.\<close>

definition query_bit :: "block_cipher \<Rightarrow> client \<Rightarrow> nat \<Rightarrow> bool \<Rightarrow> bool \<Rightarrow> nat \<Rightarrow> nat \<Rightarrow> bool" where
  "query_bit aes cl p ind flip h k =
     (if k = p then (\<not> ind) \<noteq> flip
      else if unat (ExtraPart cl ! h) = k then ind \<noteq> flip
      else PRF4Select aes (HintID cl ! h) (of_nat k) (SelectCutoff cl ! h) \<noteq> flip)"

definition query_offset :: "block_cipher \<Rightarrow> client \<Rightarrow> nat \<Rightarrow> nat \<Rightarrow> nat" where
  "query_offset aes cl h k =
     (if unat (ExtraPart cl ! h) = k then unat (ExtraOffset cl ! h)
      else unat (PRF4Idx aes (HintID cl ! h) (of_nat k)) mod unat (cl_PartSize cl))"

definition query_inv ::
  "block_cipher \<Rightarrow> client \<Rightarrow> nat \<Rightarrow> bool \<Rightarrow> bool \<Rightarrow> nat \<Rightarrow> nat \<Rightarrow> client \<Rightarrow> bool" where
  "query_inv aes cl0 p ind flip h n cl \<longleftrightarrow> (\<exists>bv sv pd du.
     cl = cl0\<lparr>cl_bvec := bv, cl_Svec := sv, prfDummyIndices := pd, dummyIdxUsed := du\<rparr> \<and> dummy_ok aes cl \<and>
     length bv = unat (cl_PartNum cl0) \<and> length sv = unat (cl_PartNum cl0) \<and>
     (\<forall>k<n. bv ! k = query_bit aes cl0 p ind flip h k \<and> unat (sv ! k) < unat (cl_PartSize cl0) \<and>
       (k \<noteq> p \<longrightarrow> query_bit aes cl0 p ind flip h k = (ind \<noteq> flip) \<longrightarrow> unat (sv ! k) = query_offset aes cl0 h k)))"

lemma unat_mask_u32:
  assumes "wf_client cl"
  shows "unat (ucast (w :: u16) AND (cl_PartSize cl - 1)) = unat w mod unat (cl_PartSize cl)"
proof -
  obtain s where s: "s \<le> 16" "cl_PartSize cl = 2 ^ s" "unat (cl_PartSize cl) = 2 ^ s"
    using wf_client_PartSize_power[OF assms] by blast
  have "(ucast w AND (cl_PartSize cl - 1) :: u32) = take_bit s (ucast w)"
    unfolding s(2) take_bit_eq_mask mask_eq_decr_exp ..
  then show ?thesis unfolding s(3)
    by (simp only: unsigned_take_bit_eq take_bit_eq_mod[of s "unat _"] unat_ucast_u16_u32)
qed

lemma query_inv_set_part:
  assumes "query_inv aes cl0 p ind flip h n cl" "n < unat (cl_PartNum cl0)"
    and "cl1 = cl\<lparr>prfDummyIndices := pd, dummyIdxUsed := du\<rparr>" "dummy_ok aes cl1"
    and "b = query_bit aes cl0 p ind flip h n" "unat off < unat (cl_PartSize cl0)"
    and "n \<noteq> p \<Longrightarrow> b = (ind \<noteq> flip) \<Longrightarrow> unat off = query_offset aes cl0 h n"
  shows "query_inv aes cl0 p ind flip h (Suc n) (set_part cl1 n b off)"
proof -
  obtain bv sv where cl: "cl = cl0\<lparr>cl_bvec := bv, cl_Svec := sv, prfDummyIndices := prfDummyIndices cl, dummyIdxUsed := dummyIdxUsed cl\<rparr>"
    "length bv = unat (cl_PartNum cl0)" "length sv = unat (cl_PartNum cl0)"
    and inv: "\<And>k. k < n \<Longrightarrow> bv ! k = query_bit aes cl0 p ind flip h k \<and> unat (sv ! k) < unat (cl_PartSize cl0) \<and>
       (k \<noteq> p \<longrightarrow> query_bit aes cl0 p ind flip h k = (ind \<noteq> flip) \<longrightarrow> unat (sv ! k) = query_offset aes cl0 h k)"
    using assms(1) by (auto simp: query_inv_def)
  have bs: "cl_bvec cl = bv" "cl_Svec cl = sv" by (subst cl(1), simp)+
  let ?cl' = "cl0\<lparr>cl_bvec := bv[n := b], cl_Svec := sv[n := off], prfDummyIndices := pd, dummyIdxUsed := du\<rparr>"
  have e: "set_part cl1 n b off = ?cl'"
    unfolding set_part_def assms(3) by (subst (1 2 3) cl(1)) simp
  have "dummy_ok aes ?cl'" using assms(3,4) by (simp add: dummy_ok_def)
  then show ?thesis
    unfolding query_inv_def e
    using cl(2,3) assms(2,5-7) inv
    by (intro exI[of _ "bv[n := b]"] exI[of _ "sv[n := off]"] exI[of _ pd] exI[of _ du])
      (auto simp: less_Suc_eq nth_list_update)
qed

lemma query_step_inv:
  assumes "wf_client cl0" "unat (ExtraOffset cl0 ! h) < unat (cl_PartSize cl0)"
    and "query_inv aes cl0 (unat qp) ind flip h n cl" "n < unat (cl_PartNum cl0)"
  shows "query_inv aes cl0 (unat qp) ind flip h (Suc n)
      (query_step aes qp ind flip h (HintID cl0 ! h) (SelectCutoff cl0 ! h) n cl)"
proof -
  have P: "n < 2 ^ 16" "0 < unat (cl_PartSize cl0)" using assms(1,4) wf_client_PartSize[OF assms(1)] by (auto simp: wf_client_def)
  have ok: "dummy_ok aes cl" and f: "cl_PartSize cl = cl_PartSize cl0" "ExtraPart cl = ExtraPart cl0" "ExtraOffset cl = ExtraOffset cl0"
    using assms(3) by (auto simp: query_inv_def)
  note N = NextDummyIdx_spec[OF ok]
  let ?cl1 = "cl\<lparr>prfDummyIndices := dummy_block aes (dummyIdxUsed cl), dummyIdxUsed := dummyIdxUsed cl + 1\<rparr>"
  have d: "unat (ucast (w :: u16) AND (cl_PartSize cl0 - 1)) < unat (cl_PartSize cl0)" for w
    using P(2) by (simp add: unat_mask_u32[OF assms(1)])
  have qp: "(of_nat n :: u32) = ucast qp \<longleftrightarrow> n = unat qp" using ucast_eq_part[OF P(1), of qp] by metis
  have ep: "ucast (ExtraPart cl0 ! h) = (of_nat n :: u32) \<longleftrightarrow> unat (ExtraPart cl0 ! h) = n" by (rule ucast_eq_part[OF P(1)])
  have same: "cl = cl\<lparr>prfDummyIndices := prfDummyIndices cl, dummyIdxUsed := dummyIdxUsed cl\<rparr>" by simp
  let ?sel = "PRF4Select aes (HintID cl0 ! h) (of_nat n) (SelectCutoff cl0 ! h)"
  consider "n = unat qp" | "n \<noteq> unat qp" "unat (ExtraPart cl0 ! h) = n"
    | "n \<noteq> unat qp" "unat (ExtraPart cl0 ! h) \<noteq> n" "?sel = ind"
    | "n \<noteq> unat qp" "unat (ExtraPart cl0 ! h) \<noteq> n" "?sel \<noteq> ind" by blast
  then show ?thesis
  proof cases
    case 1
    then have e: "query_step aes qp ind flip h (HintID cl0 ! h) (SelectCutoff cl0 ! h) n cl
        = set_part ?cl1 n ((\<not> ind) \<noteq> flip) (ucast (dummy aes (dummyIdxUsed cl)) AND (cl_PartSize cl0 - 1))"
      using qp by (simp add: query_step_def N(1) f)
    show ?thesis unfolding e
      by (rule query_inv_set_part[OF assms(3,4) refl N(2)]) (use 1 in \<open>simp_all add: query_bit_def d\<close>)
  next
    case 2
    then have e: "query_step aes qp ind flip h (HintID cl0 ! h) (SelectCutoff cl0 ! h) n cl
        = set_part cl n (ind \<noteq> flip) (ucast (ExtraOffset cl0 ! h))"
      using qp ep by (simp add: query_step_def f)
    show ?thesis unfolding e
      by (rule query_inv_set_part[OF assms(3,4) same ok])
        (use 2 assms(2) in \<open>simp_all add: query_bit_def query_offset_def unat_ucast_u16_u32\<close>)
  next
    case 3
    then have e: "query_step aes qp ind flip h (HintID cl0 ! h) (SelectCutoff cl0 ! h) n cl
        = set_part cl n (?sel \<noteq> flip) (ucast (PRF4Idx aes (HintID cl0 ! h) (of_nat n)) AND (cl_PartSize cl0 - 1))"
      using qp ep by (simp add: query_step_def f)
    show ?thesis unfolding e
      by (rule query_inv_set_part[OF assms(3,4) same ok])
        (use 3 P(2) in \<open>simp_all add: query_bit_def query_offset_def unat_mask_u32[OF assms(1)]\<close>)
  next
    case 4
    then have e: "query_step aes qp ind flip h (HintID cl0 ! h) (SelectCutoff cl0 ! h) n cl
        = set_part ?cl1 n (?sel \<noteq> flip) (ucast (dummy aes (dummyIdxUsed cl)) AND (cl_PartSize cl0 - 1))"
      using qp ep by (simp add: query_step_def f N(1))
    show ?thesis unfolding e
      by (rule query_inv_set_part[OF assms(3,4) refl N(2)]) (use 4 in \<open>(cases flip; simp add: query_bit_def d)+\<close>)
  qed
qed

lemma build_query_result:
  assumes "wf_client cl" "dummy_ok aes cl" "unat (ExtraOffset cl ! h) < unat (cl_PartSize cl)"
  shows "query_inv aes cl (unat qp) ind flip h (unat (cl_PartNum cl)) (build_query aes qp ind flip h cl)"
  unfolding build_query_def
proof (rule fold_upt_invariant[where P = "query_inv aes cl (unat qp) ind flip h"])
  show "query_inv aes cl (unat qp) ind flip h 0 cl"
    unfolding query_inv_def using assms(1,2)
    by (intro exI[of _ "cl_bvec cl"] exI[of _ "cl_Svec cl"] exI[of _ "prfDummyIndices cl"] exI[of _ "dummyIdxUsed cl"])
      (simp add: wf_client_def)
qed (rule query_step_inv[OF assms(1,3)])

text \<open>The partitions sent with the hint's bit: its half, with the queried partition exchanged for the extra one.\<close>

lemma query_half:
  assumes "unat (ExtraPart cl ! h) < unat (cl_PartNum cl)"
    and "PRF4Select aes (HintID cl ! h) (of_nat (unat (ExtraPart cl ! h))) (SelectCutoff cl ! h) = (\<not> ind)"
    and "covers aes cl h p x" "ind = indicator cl h"
  shows "{k. k < unat (cl_PartNum cl) \<and> query_bit aes cl p ind flip h k = (ind \<noteq> flip)} =
    (let S = {k. k < unat (cl_PartNum cl) \<and> PRF4Select aes (HintID cl ! h) (of_nat k) (SelectCutoff cl ! h) = ind} in
     if unat (ExtraPart cl ! h) = p then S else insert (unat (ExtraPart cl ! h)) (S - {p}))"
  using assms by (auto simp: query_bit_def covers_def Let_def)

lemma query_sum:
  assumes "unat (ExtraPart cl ! h) < unat (cl_PartNum cl)" "p < unat (cl_PartNum cl)"
    and "PRF4Select aes (HintID cl ! h) (of_nat (unat (ExtraPart cl ! h))) (SelectCutoff cl ! h) = (\<not> ind)"
    and "covers aes cl h p x" "ind = indicator cl h"
  shows "(\<Sum>k | k < unat (cl_PartNum cl) \<and> query_bit aes cl p ind flip h k = (ind \<noteq> flip). db k (query_offset aes cl h k))
      + db p x = split_sum aes cl db (HintID cl ! h) (SelectCutoff cl ! h) ind
        + db (unat (ExtraPart cl ! h)) (unat (ExtraOffset cl ! h))"
proof -
  let ?e = "unat (ExtraPart cl ! h)"
  define S where "S = {k. k < unat (cl_PartNum cl) \<and> PRF4Select aes (HintID cl ! h) (of_nat k) (SelectCutoff cl ! h) = ind}"
  let ?f = "\<lambda>k. db k (unat (PRF4Idx aes (HintID cl ! h) (of_nat k)) mod unat (cl_PartSize cl))"
  have fin: "finite S" by (simp add: S_def)
  have eS: "?e \<notin> S" using assms(3) by (simp add: S_def)
  have split: "split_sum aes cl db (HintID cl ! h) (SelectCutoff cl ! h) ind = (\<Sum>k\<in>S. ?f k)"
    by (simp add: split_sum_def S_def)
  have off: "(\<Sum>k\<in>A. db k (query_offset aes cl h k)) = (\<Sum>k\<in>A. ?f k)" if "A \<subseteq> S" for A
    by (rule sum.cong) (use that eS in \<open>auto simp: query_offset_def\<close>)
  show ?thesis
  proof (cases "?e = p")
    case True
    then have x: "unat (ExtraOffset cl ! h) = x" using assms(3-5) by (auto simp: covers_def)
    show ?thesis unfolding query_half[OF assms(1,3-5)] Let_def S_def[symmetric] split
      using True off[of S] x by simp
  next
    case False
    then have pS: "p \<in> S" "?f p = db p x" using assms(2,4,5) by (auto simp: covers_def S_def)
    have "(\<Sum>k\<in>insert ?e (S - {p}). db k (query_offset aes cl h k))
        = db ?e (query_offset aes cl h ?e) + (\<Sum>k\<in>S - {p}. db k (query_offset aes cl h k))"
      using fin eS by (intro sum.insert) auto
    also have "\<dots> = db ?e (unat (ExtraOffset cl ! h)) + (\<Sum>k\<in>S - {p}. ?f k)"
      using off[of "S - {p}"] by (simp add: query_offset_def)
    finally show ?thesis unfolding query_half[OF assms(1,3-5)] Let_def S_def[symmetric] split
      using False sum.remove[OF fin pS(1), of ?f] pS(2) by simp
  qed
qed

lemma query_balanced:
  assumes "unat (ExtraPart cl ! h) < unat (cl_PartNum cl)" "p < unat (cl_PartNum cl)"
    and "PRF4Select aes (HintID cl ! h) (of_nat (unat (ExtraPart cl ! h))) (SelectCutoff cl ! h) = (\<not> ind)"
    and "covers aes cl h p x" "ind = indicator cl h"
    and "evenly_split aes cl (HintID cl ! h) (SelectCutoff cl ! h)" "even (unat (cl_PartNum cl))"
  shows "card {k. k < unat (cl_PartNum cl) \<and> query_bit aes cl p ind flip h k} = unat (cl_PartNum cl) div 2"
proof -
  let ?P = "unat (cl_PartNum cl)" and ?e = "unat (ExtraPart cl ! h)"
  let ?sel = "\<lambda>k. PRF4Select aes (HintID cl ! h) (of_nat k) (SelectCutoff cl ! h)"
  define S where "S = {k. k < ?P \<and> ?sel k = ind}"
  have compl: "card {k. k < ?P \<and> \<not> Q k} = ?P - card {k. k < ?P \<and> Q k}" for Q
  proof -
    have "{k. k < ?P \<and> \<not> Q k} = {..<?P} - {k. k < ?P \<and> Q k}" by auto
    moreover have "card ({..<?P} - {k. k < ?P \<and> Q k}) = card {..<?P} - card {k. k < ?P \<and> Q k}"
      by (rule card_Diff_subset) auto
    ultimately show ?thesis by simp
  qed
  have half: "card S = ?P div 2"
    using assms(6,7) compl[of ?sel] by (cases ind) (auto simp: S_def evenly_split_def)
  have "card {k. k < ?P \<and> query_bit aes cl p ind flip h k = (ind \<noteq> flip)} = ?P div 2"
  proof (cases "?e = p")
    case False
    have "?e \<notin> S" "finite S" using assms(3) by (simp_all add: S_def)
    moreover have "p \<in> S" using False assms(2,4,5) by (auto simp: covers_def S_def)
    moreover have "0 < card S" using calculation by (auto simp: card_gt_0_iff)
    ultimately show ?thesis unfolding query_half[OF assms(1,3-5)] Let_def S_def[symmetric]
      using False half by simp
  qed (use half query_half[OF assms(1,3-5)] in \<open>simp add: Let_def S_def[symmetric]\<close>)
  then show ?thesis
    using compl[of "\<lambda>k. \<not> query_bit aes cl p ind flip h k"] assms(7) by (cases "ind = flip") auto
qed

end
