(* ===== verification/Client_Main.thy ===== *)
theory Client_Main
  imports Serving Client Online
begin

text \<open>
  The client program, \<open>src/src/client_main.cpp\<close>, at its network: what it receives and checks before
  the offline phase, and the messages of a query. \<open>heap\<close> is the initial contents of the client's
  arrays, \<open>make_moduli\<close> the library's choice of \<open>q\<close> and \<open>t\<close>.
\<close>

definition receive_parameters :: "os \<Rightarrow> configuration io" where
  "receive_parameters os =
     and_then (recvData os 8) (\<lambda>Log2DBSize.
     and_then (recvData os 8) (\<lambda>EntrySize.
     and_then (recvData os 8) (\<lambda>plainModulus.
     and_then (recvData os 4) (\<lambda>ringSize.
     and_then (recvData os 4) (\<lambda>qSize.
     and_then (recvData os 4) (\<lambda>plainSize.
     ret \<lparr>cfg_Log2DBSize = le_word Log2DBSize, cfg_EntrySize = le_word EntrySize, cfg_plainModulus = le_word plainModulus,
       bgvRingSize = le_word ringSize, bgvQSize = le_word qSize, bgvPlainModuluSize = le_word plainSize\<rparr>))))))"

definition lift_sum :: "error + 'a \<Rightarrow> 'a io" where
  "lift_sum r = lift_outcome (Some r)"

definition update_connection :: "(connection \<Rightarrow> connection) \<Rightarrow> unit io" where
  "update_connection f c = (Done (), f c)"

text \<open>The checks of the parameters, up to the two moduli.\<close>

definition check_parameters :: "moduli \<Rightarrow> configuration \<Rightarrow> (u64 \<times> u64) io" where
  "check_parameters make_moduli cfg =
     and_then (lift_sum (make_moduli (bgvRingSize cfg) (bgvQSize cfg) (bgvPlainModuluSize cfg))) (\<lambda>(q, t).
     and_then (lift_sum (ValidatePolyModulusDegree (ucast (cfg_Log2DBSize cfg)) (bgvRingSize cfg))) (\<lambda>_.
     and_then (lift_sum (ValidateProtocolParameters (bgvQSize cfg) (bgvPlainModuluSize cfg) q t)) (\<lambda>_.
     if cfg_plainModulus cfg \<noteq> t
     then stop_with (Threw (InvalidArgument ''server plaintext modulus does not match its HE parameters''))
     else ret (q, t))))"

definition client_setup ::
  "os \<Rightarrow> moduli \<Rightarrow> client \<Rightarrow> 'k load \<Rightarrow> ciphertext load \<Rightarrow> (configuration \<times> u64 \<times> 'k \<times> client \<times> ciphertext list) io" where
  "client_setup os make_moduli heap load_key load =
     and_then (receive_parameters os) (\<lambda>cfg.
     and_then (check_parameters make_moduli cfg) (\<lambda>(q, t).
     and_then (recvPublicKey os load_key) (\<lambda>public_key.
     case OneSVClient heap (ucast (cfg_Log2DBSize cfg)) (ucast (cfg_EntrySize cfg)) (cfg_plainModulus cfg) of
       None \<Rightarrow> stop_with Trap
     | Some cl \<Rightarrow>
         if 32 \<le> cfg_Log2DBSize cfg div 2 + cfg_Log2DBSize cfg mod 2 then stop_with Trap
         else let PartNum = push_bit (unat (cfg_Log2DBSize cfg div 2)) 1 :: u32 in
           and_then (update_connection resetPhaseCounters) (\<lambda>_.
           and_then (recvCiphertextVector os load (ucast PartNum)) (\<lambda>encryptedDB.
           ret (cfg, q, public_key, cl, encryptedDB))))))"

subsection \<open>The messages of a query\<close>

definition batch_of :: "query_message \<Rightarrow> ciphertext batch_query" where
  "batch_of msg = \<lparr>bq_bvec = q_bvec msg, bq_Svec = q_Svec msg, bq_ciphertext = q_ct msg\<rparr>"

definition send_query :: "os \<Rightarrow> ciphertext save \<Rightarrow> u32 \<Rightarrow> query_message \<Rightarrow> unit io" where
  "send_query os save PartNum msg =
     and_then (sendData os [0x02]) (\<lambda>_. sendBatchQueries os save PartNum [batch_of msg])"

definition send_end :: "os \<Rightarrow> unit io" where
  "send_end os = sendData os [0xFF]"

lemma send_query_message:
  assumes "delivers os" "wire_query parms_id degree PartNum (batch_of msg)"
  shows "sends (send_query os (save_query parms_id degree) PartNum msg)
    (query_wire (\<lambda>ct. ciphertext_image (store parms_id degree ct)) PartNum (batch_of msg))"
proof -
  have "sends (sendBatchQueries os (save_query parms_id degree) PartNum [batch_of msg])
      (sized (batch_payload (\<lambda>ct. ciphertext_image (store parms_id degree ct)) PartNum [batch_of msg]))"
    by (rule query_ct.batch_message(1)) (use assms wire_query_size[OF assms(2)] in \<open>simp_all add: wire_query_def\<close>)
  from sends_and_then[OF sends_sendData[OF assms(1), of "[0x02]"] this] show ?thesis
    by (simp add: send_query_def query_wire_def)
qed

subsection \<open>The set-up of both programs agrees\<close>

lemma exchanges_word:
  fixes w :: "'a::len word"
  assumes "delivers os" "LENGTH('a) \<le> 8 * n" "exchanges (f (le_bytes n w)) i [] y"
  shows "exchanges (and_then (recvData os n) f) (le_bytes n w @ i) [] y"
  using exchanges_and_then[where f = f and x = "le_bytes n w", OF exchanges_receives[OF receives_recvData[OF assms(1)]] assms(3)] by simp

definition parameter_bytes :: "configuration \<Rightarrow> bytes" where
  "parameter_bytes cfg = le_bytes 8 (cfg_Log2DBSize cfg) @ le_bytes 8 (cfg_EntrySize cfg) @ le_bytes 8 (cfg_plainModulus cfg) @
     le_bytes 4 (bgvRingSize cfg) @ le_bytes 4 (bgvQSize cfg) @ le_bytes 4 (bgvPlainModuluSize cfg)"

lemma parameters_received: "delivers os \<Longrightarrow> exchanges (receive_parameters os) (parameter_bytes cfg) [] cfg"
  by (cases cfg) (auto intro!: exchanges_word exchanges_word[where i = "[]", simplified] exchanges_ret
      simp: receive_parameters_def parameter_bytes_def le_word_le_bytes)

lemma disregard_Done: "m c = (Done x, c') \<Longrightarrow> disregard m c = (Done x, c')"
  by (simp add: disregard_def)

lemma sends_disregard: "sends m bs \<Longrightarrow> sends (disregard m) bs"
  unfolding sends_def by (fast intro: disregard_Done)

lemma parameters_sent: "delivers os \<Longrightarrow> sends (send_parameters os cfg) (parameter_bytes cfg)"
  unfolding send_parameters_def parameter_bytes_def by (intro sends_and_then sends_disregard sends_sendData)

text \<open>The bytes both programs agree on before the offline phase.\<close>

definition setup_bytes :: "u64 list \<Rightarrow> u64 \<Rightarrow> configuration \<Rightarrow> stored_ciphertext \<Rightarrow> ciphertext list \<Rightarrow> bytes" where
  "setup_bytes parms_id degree cfg key db = parameter_bytes cfg @ sized (ciphertext_image key) @
     vector_bytes (\<lambda>ct. ciphertext_image (store parms_id degree ct)) db"

lemma publish_sends:
  assumes "delivers os" "valid_stored key" "list_all (wire_ct parms_id degree) db" "length db < 2 ^ 64"
  shows "sends (publish os save_ciphertext (save_query parms_id degree) cfg key db) (setup_bytes parms_id degree cfg key db)"
  unfolding publish_def setup_bytes_def
  by (intro sends_and_then parameters_sent bfv_wire.key_message(1) query_ct.vector_message(1))
    (use assms in \<open>simp_all add: list_all_iff\<close>)

lemma exchanges_update: "(\<And>c. incoming (f c) = incoming c \<and> outgoing (f c) = outgoing c) \<Longrightarrow> exchanges (update_connection f) [] [] ()"
  by (simp add: exchanges_def update_connection_def)

lemma setup_received:
  assumes "delivers os" "valid_stored key" "list_all (wire_ct parms_id degree) db"
    and "make_moduli (bgvRingSize cfg) (bgvQSize cfg) (bgvPlainModuluSize cfg) = Inr (q, cfg_plainModulus cfg)"
    and "ValidatePolyModulusDegree (ucast (cfg_Log2DBSize cfg)) (bgvRingSize cfg) = Inr ()"
    and "ValidateProtocolParameters (bgvQSize cfg) (bgvPlainModuluSize cfg) q (cfg_plainModulus cfg) = Inr ()"
    and "OneSVClient heap (ucast (cfg_Log2DBSize cfg)) (ucast (cfg_EntrySize cfg)) (cfg_plainModulus cfg) = Some cl"
    and "\<not> 32 \<le> cfg_Log2DBSize cfg div 2 + cfg_Log2DBSize cfg mod 2"
    and "length db = unat (push_bit (unat (cfg_Log2DBSize cfg div 2)) 1 :: u32)"
  shows "exchanges (client_setup os make_moduli heap (load_ciphertext known sample_c1 unzstd) (load_query known sample_c1 unzstd))
    (setup_bytes parms_id degree cfg key db) [] (cfg, q, key, cl, db)"
proof -
  let ?P = "push_bit (unat (cfg_Log2DBSize cfg div 2)) 1 :: u32"
  have P: "length db < 2 ^ 64" "of_nat (length db) = (ucast ?P :: u64)"
    using unat_less_exp[of ?P] by (simp_all add: assms(9))
  have "check_parameters make_moduli cfg = ret (q, cfg_plainModulus cfg)"
    by (simp add: check_parameters_def lift_sum_def and_then_lift assms(4-6))
  then have c: "exchanges (check_parameters make_moduli cfg) [] [] (q, cfg_plainModulus cfg)" by (simp add: exchanges_ret)
  have v: "exchanges (recvCiphertextVector os (load_query known sample_c1 unzstd) (ucast ?P))
      (vector_bytes (\<lambda>ct. ciphertext_image (store parms_id degree ct)) db) [] db"
    using exchanges_receives[OF query_ct.vector_message(2)[OF assms(1) _ P(1)]] assms(3) unfolding P(2) by (simp add: list_all_iff)
  have k: "exchanges (recvPublicKey os (load_ciphertext known sample_c1 unzstd)) (sized (ciphertext_image key)) [] key"
    by (rule exchanges_receives[OF bfv_wire.key_message(2)[OF assms(1,2)]])
  show ?thesis
    unfolding client_setup_def setup_bytes_def
    apply (rule exchanges_and_then[where o' = "[]" and o'' = "[]", OF parameters_received[OF assms(1)], simplified])
    apply (rule exchanges_and_then[where o' = "[]" and o'' = "[]" and i = "[]", OF c, simplified])
    apply (simp only: prod.case)
    apply (rule exchanges_and_then[where o' = "[]" and o'' = "[]", OF k, simplified])
    apply (simp only: assms(7,8) option.case if_False Let_def)
    apply (rule exchanges_and_then[where o' = "[]" and o'' = "[]" and i = "[]", OF exchanges_update, simplified])
     apply (simp add: resetPhaseCounters_def)
    apply (rule exchanges_end[OF v refl])
    done
qed

text \<open>What the server's set-up establishes.\<close>

lemma or_throw_Done: "or_throw r f = Done y \<longleftrightarrow> (\<exists>x. r = Inr x \<and> f x = Done y)"
  by (cases r) auto

lemma server_setup_result:
  assumes "server_setup Default make_moduli L E = Done (cfg, sv)"
  obtains q where "make_moduli (bgvRingSize cfg) (bgvQSize cfg) (bgvPlainModuluSize cfg) = Inr (q, cfg_plainModulus cfg)"
    "ValidatePolyModulusDegree (ucast (cfg_Log2DBSize cfg)) (bgvRingSize cfg) = Inr ()"
    "ValidateProtocolParameters (bgvQSize cfg) (bgvPlainModuluSize cfg) q (cfg_plainModulus cfg) = Inr ()"
    "cfg_Log2DBSize cfg = L" "cfg_EntrySize cfg = 8" "\<not> 32 \<le> L div 2 + L mod 2" "unat L < 32"
    "OneSVServer (initDatabase Default L 8 (cfg_plainModulus cfg)) (ucast L) 8 (cfg_plainModulus cfg) = Some sv"
proof -
  obtain ring q t where S: "SelectPolyModulusDegree (ucast L) = Inr ring"
    and r: "make_moduli ring PPFE_COEFF_MODULUS_BITS PPFE_PLAIN_MODULUS_BITS = Inr (q, t)"
    "ValidatePolyModulusDegree (ucast L) ring = Inr ()"
    "ValidateProtocolParameters PPFE_COEFF_MODULUS_BITS PPFE_PLAIN_MODULUS_BITS q t = Inr ()"
    "OneSVServer (initDatabase Default L 8 t) (ucast L) 8 t = Some sv" "\<not> 32 \<le> L div 2 + L mod 2"
    "cfg = \<lparr>cfg_Log2DBSize = L, cfg_EntrySize = 8, cfg_plainModulus = t, bgvRingSize = ring,
       bgvQSize = PPFE_COEFF_MODULUS_BITS, bgvPlainModuluSize = PPFE_PLAIN_MODULUS_BITS\<rparr>"
    using assms by (auto simp: server_setup_def or_throw_Done split: if_splits option.splits)
  have "unat L div 2 + unat L mod 2 < 32"
  proof -
    have "unat (L div 2 + L mod 2) = unat L div 2 + unat L mod 2"
      using unat_less_exp[of L] unat_add_no_overflow[of "L div 2" "L mod 2"] by (simp add: unat_div unat_mod) 
    then show ?thesis using r(5) by (simp add: word_le_nat_alt)
  qed
  then have "unat L < 2 ^ 32" by simp
  then have "unat (ucast L :: u32) = unat L" by (simp add: unsigned_ucast_eq take_bit_nat_eq_self)
  moreover have "(ucast L :: u32) < 32" using S by (auto simp: SelectPolyModulusDegree_def split: if_splits)
  ultimately have "unat L < 32" by (simp add: word_less_nat_alt)
  then show thesis using that r by simp
qed

lemma pow2_u32: "n < 32 \<Longrightarrow> unat (push_bit n 1 :: u32) = 2 ^ n"
  by (simp add: push_bit_eq_mult unat_two_power)

lemma server_setup_wf:
  assumes "server_setup Default make_moduli L E = Done (cfg, sv)"
  shows "wf_server sv" "unat (sv_PartNum sv) = 2 ^ (unat L div 2)" "unat (sv_PartSize sv) = 2 ^ (unat L div 2 + unat L mod 2)"
    and "sv_plainModulus sv = cfg_plainModulus cfg" "sv_B sv = 1"
proof -
  obtain q where V: "ValidateProtocolParameters (bgvQSize cfg) (bgvPlainModuluSize cfg) q (cfg_plainModulus cfg) = Inr ()"
    and L: "unat L < 32"
    and sv: "OneSVServer (initDatabase Default L 8 (cfg_plainModulus cfg)) (ucast L) 8 (cfg_plainModulus cfg) = Some sv"
    by (rule server_setup_result[OF assms])
  let ?t = "cfg_plainModulus cfg" and ?l = "ucast L :: u32"
  have "BitLength ?t = 20" using V by (auto simp: ValidateProtocolParameters_def PPFE_PLAIN_MODULUS_BITS_def split: if_splits)
  then have t: "2 ^ 19 \<le> unat ?t" "unat ?t < 2 ^ 20" using BitLength_eq_iff[of 20 ?t] by simp_all
  have l: "unat ?l = unat L" using L by (simp add: unsigned_ucast_eq take_bit_nat_eq_self)
  have e: "unat (?l div 2) = unat L div 2" "unat (?l div 2 + ?l mod 2) = unat L div 2 + unat L mod 2"
    using L l unat_add_no_overflow[of "?l div 2" "?l mod 2"] by (simp_all add: unat_div unat_mod)
  show P: "unat (sv_PartNum sv) = 2 ^ (unat L div 2)" "unat (sv_PartSize sv) = 2 ^ (unat L div 2 + unat L mod 2)"
    "sv_plainModulus sv = ?t" "sv_B sv = 1"
    using sv L by (auto simp: OneSVServer_def Let_def e pow2_u32 simp del: push_bit_of_1 split: if_splits)
  have D: "sv_DB sv = initDatabase Default L 8 ?t" "sv_EntrySize sv = 8"
    using sv by (auto simp: OneSVServer_def Let_def split: if_splits)
  have "unat (push_bit (unat L) (1 :: u64)) = 2 ^ unat L" using L by (simp add: push_bit_eq_mult unat_two_power)
  then have len: "length (sv_DB sv) = 2 ^ unat L" by (simp add: D initDatabase_def DBSizeInUint64_def)
  have "unat L div 2 + (unat L div 2 + unat L mod 2) = unat L" by presburger
  then have PS: "unat (sv_PartNum sv) * unat (sv_PartSize sv) = 2 ^ unat L" by (simp add: P power_add[symmetric])
  have "list_all (\<lambda>v. v < ?t) (sv_DB sv)"
    unfolding list_all_iff D(1) using t by (intro ballI initDatabase_less) auto
  moreover have "(2 :: nat) ^ unat L < 2 ^ 32" using L by (intro power_strict_increasing) simp_all
  moreover have "1 < ?t" "?t < 2 ^ 61" using t by (simp_all add: word_less_nat_alt)
  then have "1 < uint ?t \<and> uint ?t < 2 ^ 61" by (simp add: word_less_def)
  ultimately show "wf_server sv"
    using t len PS by (simp add: wf_server_def P D(2))
qed

text \<open>
  C11: The two programs agree on the set-up. When the server's set-up succeeds, what it sends passes every
  check of the client, which ends with the same configuration, the public key and the encrypted
  database, and with partitions of the server's shape, however both systems split the transfers.
\<close>

theorem setup_agrees:
  assumes "server_setup Default make_moduli L E = Done (cfg, sv)" "delivers os" "delivers os'"
    and "valid_stored key" "list_all (wire_ct parms_id degree) db" "length db = unat (sv_PartNum sv)"
  shows "\<exists>q cl. sends (publish os save_ciphertext (save_query parms_id degree) cfg key db) (setup_bytes parms_id degree cfg key db) \<and>
    exchanges (client_setup os' make_moduli heap (load_ciphertext known sample_c1 unzstd) (load_query known sample_c1 unzstd))
      (setup_bytes parms_id degree cfg key db) [] (cfg, q, key, cl, db) \<and>
    wf_server sv \<and> OneSVClient heap (ucast L) 8 (sv_plainModulus sv) = Some cl \<and>
    cl_PartNum cl = sv_PartNum sv \<and> cl_PartSize cl = sv_PartSize sv \<and> cl_plainModulus cl = sv_plainModulus sv"
proof -
  obtain q where r: "make_moduli (bgvRingSize cfg) (bgvQSize cfg) (bgvPlainModuluSize cfg) = Inr (q, cfg_plainModulus cfg)"
    "ValidatePolyModulusDegree (ucast (cfg_Log2DBSize cfg)) (bgvRingSize cfg) = Inr ()"
    "ValidateProtocolParameters (bgvQSize cfg) (bgvPlainModuluSize cfg) q (cfg_plainModulus cfg) = Inr ()"
    and c: "cfg_Log2DBSize cfg = L" "cfg_EntrySize cfg = 8" and L: "\<not> 32 \<le> L div 2 + L mod 2" "unat L < 32"
    and sv: "OneSVServer (initDatabase Default L 8 (cfg_plainModulus cfg)) (ucast L) 8 (cfg_plainModulus cfg) = Some sv"
    by (rule server_setup_result[OF assms(1)])
  note W = server_setup_wf[OF assms(1)]
  have l: "(ucast L :: u32) < 32" using sv by (auto simp: OneSVServer_def split: if_splits)
  then obtain cl where cl: "OneSVClient heap (ucast L) 8 (cfg_plainModulus cfg) = Some cl"
    by (auto simp: OneSVClient_def Let_def)
  have shape: "cl_PartNum cl = sv_PartNum sv" "cl_PartSize cl = sv_PartSize sv" "cl_plainModulus cl = sv_plainModulus sv"
    using cl sv l by (auto simp: OneSVClient_def OneSVServer_def Let_def)
  have n: "length db = unat (push_bit (unat (cfg_Log2DBSize cfg div 2)) 1 :: u32)"
    using L(2) by (simp add: assms(6) W(2) c unat_div pow2_u32 del: push_bit_of_1)
  then have "length db < 2 ^ 64" using unat_less_exp[of "push_bit (unat (cfg_Log2DBSize cfg div 2)) 1 :: u32"] by simp
  then have "sends (publish os save_ciphertext (save_query parms_id degree) cfg key db) (setup_bytes parms_id degree cfg key db)"
    by (rule publish_sends[OF assms(2,4,5)])
  moreover have "exchanges (client_setup os' make_moduli heap (load_ciphertext known sample_c1 unzstd) (load_query known sample_c1 unzstd))
      (setup_bytes parms_id degree cfg key db) [] (cfg, q, key, cl, db)"
    by (rule setup_received[OF assms(3,4,5)]) (use r n cl c L in \<open>simp_all del: push_bit_of_1\<close>)
  ultimately show ?thesis using W(1,4) cl shape by (intro exI[of _ q] exI[of _ cl]) simp
qed

text \<open>A server and a client of a database of four entries.\<close>

definition ex_moduli :: moduli where
  "ex_moduli ring q_bits t_bits = Inr (2 ^ 53 + 1, 2 ^ 19 + 1)"

definition ex_db :: "ciphertext list" where
  "ex_db = [\<lparr>polynomial_count = 2, ct_data = [1, 2, 3, 4]\<rparr>, \<lparr>polynomial_count = 2, ct_data = [5, 6, 7, 8]\<rparr>]"

lemma ex_server_setup:
  "case server_setup Default ex_moduli 2 8 of Done (cfg, sv) \<Rightarrow> sv_PartNum sv = 2 | _ \<Rightarrow> False"
  by code_simp

lemma setup_agrees_witness:
  "\<forall>heap. \<exists>cfg sv q cl. server_setup Default ex_moduli 2 8 = Done (cfg, sv) \<and> cl_PartNum cl = 2 \<and>
    exchanges (client_setup (\<lambda>i n. 1) ex_moduli heap (load_ciphertext (\<lambda>_. True) (\<lambda>s n. []) Inr) (load_query (\<lambda>_. True) (\<lambda>s n. []) Inr))
      (setup_bytes [1, 2, 3, 4] 2 cfg small_stored ex_db) [] (cfg, q, small_stored, cl, ex_db)"
proof
  fix heap
  obtain cfg sv where sv: "server_setup Default ex_moduli 2 8 = Done (cfg, sv)" "sv_PartNum sv = 2"
    using ex_server_setup by (auto split: io_result.splits)
  have v: "valid_stored small_stored" "list_all (wire_ct [1, 2, 3, 4] 2) ex_db" "length ex_db = unat (sv_PartNum sv)"
    by (simp_all add: valid_stored_def small_stored_def ex_db_def wire_ct_def sv(2))
  from setup_agrees[OF sv(1) delivers_all delivers_one_byte v, of heap "\<lambda>_. True" "\<lambda>s n. []" Inr]
  show "\<exists>cfg sv q cl. server_setup Default ex_moduli 2 8 = Done (cfg, sv) \<and> cl_PartNum cl = 2 \<and>
    exchanges (client_setup (\<lambda>i n. 1) ex_moduli heap (load_ciphertext (\<lambda>_. True) (\<lambda>s n. []) Inr) (load_query (\<lambda>_. True) (\<lambda>s n. []) Inr))
      (setup_bytes [1, 2, 3, 4] 2 cfg small_stored ex_db) [] (cfg, q, small_stored, cl, ex_db)"
    using sv by metis
qed

end
