(* ===== verification/Retrieval.thy ===== *)
theory Retrieval
  imports Online
begin

text \<open>
  One whole online query between client and server, and its correctness: the client gets the
  database entry it asked for, and its hint table keeps its invariant.
\<close>

text \<open>
  The steps of a query in the order the two programs run them. \<open>ot\<close> is the oblivious transfer,
  \<open>decrypt\<close> the server's decryption to the \<open>q\<close>-domain.
\<close>

definition online_query ::
  "he_context \<Rightarrow> block_cipher \<Rightarrow> rns_tool \<Rightarrow> server \<Rightarrow> (ciphertext \<Rightarrow> u64 list) \<Rightarrow> (u64 \<times> u64 \<Rightarrow> bool \<Rightarrow> u64)
     \<Rightarrow> u64 \<Rightarrow> u32 \<Rightarrow> bool \<Rightarrow> u64 \<Rightarrow> u64 \<Rightarrow> client \<Rightarrow> ((u64 \<times> client) option) outcome" where
  "online_query C aes R sv decrypt ot modulus_q query shouldFlip rando answer_noise cl =
     (case client_query C aes query shouldFlip rando modulus_q cl of
        None \<Rightarrow> None
      | Some (Inl e) \<Rightarrow> Some (Inl e)
      | Some (Inr None) \<Rightarrow> Some (Inr None)
      | Some (Inr (Some (hintIndex, b_indicator, msg, cl))) \<Rightarrow>
          (case onlineQuery Default sv decrypt modulus_q answer_noise (q_bvec msg) (q_Svec msg) (q_ct msg) of
             None \<Rightarrow> None
           | Some (Inl e) \<Rightarrow> Some (Inl e)
           | Some (Inr responses) \<Rightarrow>
               (case decode_answer R (ot responses (resultBit b_indicator shouldFlip)) rando modulus_q of
                  None \<Rightarrow> None
                | Some decrypted_result \<Rightarrow>
                    map_option (map_sum id (\<lambda>cl. Some (decrypted_result, cl)))
                      (refresh C aes hintIndex (queryPartNum_of cl query) (queryOffset_of cl query) decrypted_result cl))))"

subsection \<open>Masking\<close>

lemma mask_coefficient_phase:
  assumes "wf_context C" "wf_ct C ct" "i < he_degree C" "uint rando < q_of C"
  shows "\<exists>ct'. mask_coefficient ct i rando (mod_value (he_q C)) = Some ct' \<and> wf_ct C ct' \<and>
    phase C s ct' i = (phase C s ct i + uint rando) mod q_of C"
proof -
  let ?n = "he_degree C" and ?q = "mod_value (he_q C)"
  note D = wf_contextD[OF assms(1)]
  have p: "polynomial_count ct = 2" "length (ct_data ct) = 2 * ?n" "wf_polys (he_q C) ?n 2 (ct_data ct)"
    using assms(2) by (simp_all add: wf_ct_def wf_polys_def)
  have res: "residue (he_q C) (ct_data ct ! (j * ?n + k))" if "j < 2" "k < ?n" for j k
    by (rule wf_polys_residue[OF p(3) that])
  let ?v = "(ct_data ct ! i + rando) mod ?q"
  let ?ct' = "ct\<lparr>ct_data := (ct_data ct)[i := ?v]\<rparr>"
  have "uint (ct_data ct ! i) < q_of C" using res[of 0 i] assms(3) by (simp add: residue_def)
  then have v: "uint ?v = (uint (ct_data ct ! i) + uint rando) mod q_of C"
    using assms(4) wf_modulusD(5)[OF D(1)] by (simp add: uint_mod uint_add_no_overflow)
  have e: "mask_coefficient ct i rando ?q = Some ?ct'"
    using D(5) p(2) assms(3) by (auto simp: mask_coefficient_def)
  have "wf_polys (he_q C) ?n 2 (ct_data ?ct')"
  proof (rule wf_polys_intro[OF _ D(4)])
    show "length (ct_data ?ct') = 2 * ?n" using p(2) by simp
    fix j k assume jk: "j < (2::nat)" "k < ?n"
    have "residue (he_q C) ?v" using v D(5) by (simp add: residue_def)
    then show "residue (he_q C) (ct_data ?ct' ! (j * ?n + k))"
      using res[OF jk] p(2) assms(3) by (cases "j * ?n + k = i") simp_all
  qed
  then have wf: "wf_ct C ?ct'" using p(1) by (simp add: wf_ct_def)
  have c0: "coeff ?n (ct_data ?ct') 0 i = (coeff ?n (ct_data ct) 0 i + uint rando) mod q_of C"
    using v p(2) assms(3) by (simp add: coeff_def)
  have "coeff ?n (ct_data ?ct') 1 k = coeff ?n (ct_data ct) 1 k" if "k < ?n" for k
    using assms(3) that by (simp add: coeff_def)
  then have "nmul ?n (coeff ?n (ct_data ?ct') 1) s i = nmul ?n (coeff ?n (ct_data ct) 1) s i"
    by (rule nmul_cong)
  then have "phase C s ?ct' i = (phase C s ct i + uint rando) mod q_of C"
    unfolding phase_def c0 by (simp add: mod_add_left_eq mod_add_right_eq) (simp add: algebra_simps)
  with e wf show ?thesis by blast
qed

subsection \<open>The indicator bits\<close>

lemma drop_bit_and_one: "drop_bit n w AND 1 = 1 \<longleftrightarrow> bit w n" for w :: u8
  by (simp add: and_one_eq bit_iff_odd_drop_bit odd_iff_mod_2_eq_one)

lemma indicator_bit: "indicator cl h \<longleftrightarrow> bit (IndicatorBit cl ! (h div 8)) (h mod 8)"
  by (simp add: indicator_def drop_bit_and_one)

lemma indicator_set_indicator:
  assumes "h div 8 < length (IndicatorBit cl)"
  shows "indicator (set_indicator cl h b) h' = (if h' = h then b else indicator cl h')"
proof (cases "h' div 8 = h div 8")
  case True
  then have "h' mod 8 = h mod 8 \<longleftrightarrow> h' = h" by (metis div_mult_mod_eq)
  then show ?thesis
    using True assms by (auto simp: indicator_bit set_indicator_def bit_simps)
next
  case False
  then have "h' \<noteq> h" by blast
  with False assms show ?thesis by (simp add: indicator_bit set_indicator_def)
qed

subsection \<open>Refreshing keeps the invariant\<close>

lemma next_valid_result:
  "next_valid cutoffs i = Some j \<Longrightarrow> i \<le> j \<and> j < length cutoffs \<and> cutoffs ! j \<noteq> 0"
  by (induction cutoffs i rule: next_valid.induct) (subst (asm) next_valid.simps, auto split: if_splits)

text \<open>
  The assertion on the incremented index: the last backup of the table cannot be used, nor what
  the scan finds behind it.
\<close>

lemma refresh_last_backup:
  assumes "unat (cl_PartSize cl) \<le> he_degree C" "next_valid (SelectCutoff cl) (unat (NextHintIndex cl)) = Some j"
    and "unat (cl_M cl) + unat (cl_M cl) div 2 \<le> j + 1"
  shows "refresh C aes h qp qo result cl = None"
  using assms
  by (auto simp: refresh_def Let_def set_indicator_def encode_polynomial_def add_plain_def scale_up_def
      split: option.splits sum.splits if_splits)

text \<open>The refresh returns whatever result it is given; the new parity adds that result to the backup's.\<close>

lemma refresh_result:
  assumes ok: "client_ok C s aes db E cl" and h: "h < unat (cl_M cl)"
    and j: "next_valid (SelectCutoff cl) (unat (NextHintIndex cl)) = Some j" "j + 1 < unat (cl_M cl) + unat (cl_M cl) div 2"
    and deg: "unat (cl_PartSize cl) \<le> he_degree C"
    and ind0: "ind0 = (\<not> PRF4Select aes (of_nat j) (ucast qp) (SelectCutoff cl ! j))"
    and cl2: "cl2 = set_indicator (cl\<lparr>HintID := (HintID cl)[h := of_nat j], SelectCutoff := (SelectCutoff cl)[h := SelectCutoff cl ! j],
      ExtraPart := (ExtraPart cl)[h := qp], ExtraOffset := (ExtraOffset cl)[h := qo]\<rparr>) h ind0"
  shows "\<exists>ct. refresh C aes h qp qo result cl = Some (Inr (cl2\<lparr>ciParity := (ciParity cl)[h := ct], NextHintIndex := of_nat (j + 1)\<rparr>)) \<and>
    encodes C s ct (unat (cl_PartSize cl) - 1) (split_sum aes cl db (of_nat j) (SelectCutoff cl ! j) ind0 + uint result)
      (E + (t_of C + 1) div 2) \<and>
    (\<forall>h'. indicator cl2 h' = (if h' = h then ind0 else indicator cl h'))"
proof -
  let ?M = "unat (cl_M cl)"
  have ok': "wf_client cl" "length (ciParity cl) = 2 * ?M" "length (IndicatorBit cl) = (?M + 7) div 8"
    "?M \<le> unat (NextHintIndex cl)"
    and backups: "\<And>j. j < ?M + ?M div 2 \<Longrightarrow> unat (NextHintIndex cl) \<le> j \<Longrightarrow> SelectCutoff cl ! j \<noteq> 0 \<Longrightarrow> backup_ok C s aes db E cl j"
    using ok by (auto simp: client_ok_def Let_def)
  note nv = next_valid_result[OF j(1)]
  have M: "2 * (?M div 2) = ?M" using ok'(1) by (simp add: wf_client_def)
  have S: "0 < unat (cl_PartSize cl)" using wf_client_PartSize[OF ok'(1)] by blast
  let ?cut = "SelectCutoff cl ! j"
  have jb: "backup_ok C s aes db E cl j" using backups[of j] nv j(2) by simp
  define cl1 where "cl1 = cl\<lparr>HintID := (HintID cl)[h := of_nat j], SelectCutoff := (SelectCutoff cl)[h := ?cut],
      ExtraPart := (ExtraPart cl)[h := qp], ExtraOffset := (ExtraOffset cl)[h := qo]\<rparr>"
  have jh: "j \<noteq> h" using nv ok'(4) h by linarith
  have cut1: "SelectCutoff cl1 ! j = ?cut" using jh by (simp add: cl1_def)
  have cl2': "cl2 = set_indicator cl1 h ind0" by (simp add: cl2 cl1_def)
  have h8: "h div 8 < length (IndicatorBit cl1)" using ok'(3) h by (simp add: cl1_def)
  have ind: "indicator cl2 h' = (if h' = h then ind0 else indicator cl h')" for h'
    using indicator_set_indicator[OF h8, of ind0 h'] by (simp add: cl2' indicator_def cl1_def)
  have f2: "cl_M cl2 = cl_M cl" "cl_PartSize cl2 = cl_PartSize cl" "ciParity cl2 = ciParity cl"
    by (simp_all add: cl2' cl1_def set_indicator_def)
  let ?ve = "(replicate (unat (cl_PartSize cl)) 0)[unat (cl_PartSize cl) - 1 := result]"
  let ?pl = "map (reduce (he_t C)) ?ve"
  let ?i = "j + of_bool ind0 * (?M div 2)"
  have i: "j + of_bool (indicator cl2 h) * unat (cl_M cl2) div 2 = ?i" using ind[of h] by (simp add: f2)
  have il: "?i < length (ciParity cl)" using j(2) M ok'(2) by (simp split: if_splits)
  have enc: "encodes C s (ciParity cl ! ?i) (unat (cl_PartSize cl) - 1) (split_sum aes cl db (of_nat j) ?cut ind0) E"
    using jb unfolding backup_ok_def by blast
  then have C: "wf_context C" by (simp add: encodes_def)
  have pl: "length ?pl = unat (cl_PartSize cl)" "uint (?pl ! (unat (cl_PartSize cl) - 1)) = uint result mod t_of C"
    using S reduce_correct[OF wf_contextD(2)[OF C]] by simp_all
  obtain ct where ct: "add_plain C (ciParity cl ! ?i) ?pl = Some (Inr ct)"
    "encodes C s ct (unat (cl_PartSize cl) - 1) (split_sum aes cl db (of_nat j) ?cut ind0
      + uint (?pl ! (unat (cl_PartSize cl) - 1))) (E + (t_of C + 1) div 2)"
    using encodes_add_plain[OF enc, of ?pl] pl(1) deg S by auto
  have ct': "encodes C s ct (unat (cl_PartSize cl) - 1) (split_sum aes cl db (of_nat j) ?cut ind0 + uint result)
      (E + (t_of C + 1) div 2)"
    by (rule encodes_cong[OF ct(2)], rule mod_add_cong[OF refl]) (use pl(2) in simp)
  have epl: "encode_polynomial C ?ve = Inr ?pl" using deg by (simp add: encode_polynomial_def)
  have "refresh C aes h qp qo result cl = Some (Inr (cl2\<lparr>ciParity := (ciParity cl)[h := ct], NextHintIndex := of_nat (j + 1)\<rparr>))"
    unfolding refresh_def j(1) option.case Let_def ind0[symmetric] cl1_def[symmetric]
    unfolding cut1 ind0[symmetric] cl2'[symmetric]
    unfolding i
    unfolding f2 epl sum.case ct(1) option.case
    unfolding if_not_P[OF iffD2[OF not_le il]] if_P[OF j(2)] ..
  with ct' ind show ?thesis by blast
qed

lemma refresh_ok:
  assumes ok: "client_ok C s aes db E cl" and h: "h < unat (cl_M cl)"
    and j: "next_valid (SelectCutoff cl) (unat (NextHintIndex cl)) = Some j" "j + 1 < unat (cl_M cl) + unat (cl_M cl) div 2"
    and p: "unat qp < unat (cl_PartNum cl)" "unat qo < unat (cl_PartSize cl)"
    and r: "uint result mod t_of C = db (unat qp) (unat qo) mod t_of C"
    and deg: "unat (cl_PartSize cl) \<le> he_degree C"
  shows "\<exists>cl'. refresh C aes h qp qo result cl = Some (Inr cl') \<and> client_ok C s aes db E cl' \<and>
    unat (NextHintIndex cl') = j + 1 \<and> cl_PartNum cl' = cl_PartNum cl \<and> cl_PartSize cl' = cl_PartSize cl \<and>
    cl_M cl' = cl_M cl \<and> encZeroCache cl' = encZeroCache cl \<and> encZeroNext cl' = encZeroNext cl"
proof -
  let ?M = "unat (cl_M cl)"
  have ok': "wf_client cl" "dummy_ok aes cl" "length (ciParity cl) = 2 * ?M" "length (IndicatorBit cl) = (?M + 7) div 8"
    "?M \<le> unat (NextHintIndex cl)"
    and hints: "\<And>h. h < ?M \<Longrightarrow> SelectCutoff cl ! h \<noteq> 0 \<Longrightarrow> hint_ok C s aes db (E + (t_of C + 1) div 2) cl h"
    and backups: "\<And>j. j < ?M + ?M div 2 \<Longrightarrow> unat (NextHintIndex cl) \<le> j \<Longrightarrow> SelectCutoff cl ! j \<noteq> 0 \<Longrightarrow> backup_ok C s aes db E cl j"
    using ok by (auto simp: client_ok_def Let_def)
  note nv = next_valid_result[OF j(1)]
  have len: "length (HintID cl) = ?M" "length (ExtraPart cl) = ?M" "length (ExtraOffset cl) = ?M"
    "length (SelectCutoff cl) = 2 * ?M" and M: "?M < 2 ^ 29" "2 * (?M div 2) = ?M"
    using ok'(1) by (simp_all add: wf_client_def)
  let ?cut = "SelectCutoff cl ! j"
  define ind0 where "ind0 = (\<not> PRF4Select aes (of_nat j) (ucast qp) ?cut)"
  have jb: "backup_ok C s aes db E cl j" using backups[of j] nv j(2) by simp
  define cl2 where "cl2 = set_indicator (cl\<lparr>HintID := (HintID cl)[h := of_nat j], SelectCutoff := (SelectCutoff cl)[h := ?cut],
      ExtraPart := (ExtraPart cl)[h := qp], ExtraOffset := (ExtraOffset cl)[h := qo]\<rparr>) h ind0"
  obtain ct where ref: "refresh C aes h qp qo result cl = Some (Inr (cl2\<lparr>ciParity := (ciParity cl)[h := ct], NextHintIndex := of_nat (j + 1)\<rparr>))"
    and ct: "encodes C s ct (unat (cl_PartSize cl) - 1) (split_sum aes cl db (of_nat j) ?cut ind0 + uint result) (E + (t_of C + 1) div 2)"
    and ind: "\<And>h'. indicator cl2 h' = (if h' = h then ind0 else indicator cl h')"
    using refresh_result[OF ok h j deg ind0_def cl2_def, of result] by blast
  have f2: "cl_M cl2 = cl_M cl" "cl_PartNum cl2 = cl_PartNum cl" "cl_PartSize cl2 = cl_PartSize cl"
    "SelectCutoff cl2 = (SelectCutoff cl)[h := ?cut]" "HintID cl2 = (HintID cl)[h := of_nat j]"
    "ExtraPart cl2 = (ExtraPart cl)[h := qp]" "ExtraOffset cl2 = (ExtraOffset cl)[h := qo]" "encZeroCache cl2 = encZeroCache cl"
    "encZeroNext cl2 = encZeroNext cl" "length (IndicatorBit cl2) = length (IndicatorBit cl)"
    by (simp_all add: cl2_def set_indicator_def)
  have ct': "encodes C s ct (unat (cl_PartSize cl) - 1) (split_sum aes cl db (of_nat j) ?cut ind0 + db (unat qp) (unat qo))
      (E + (t_of C + 1) div 2)"
    by (rule encodes_cong[OF ct], rule mod_add_cong[OF refl r])
  define cl3 where "cl3 = cl2\<lparr>ciParity := (ciParity cl)[h := ct], NextHintIndex := of_nat (j + 1)\<rparr>"
  have f3: "cl_M cl3 = cl_M cl" "cl_PartNum cl3 = cl_PartNum cl" "cl_PartSize cl3 = cl_PartSize cl"
    "ciParity cl3 = (ciParity cl)[h := ct]" "SelectCutoff cl3 = (SelectCutoff cl)[h := ?cut]"
    "HintID cl3 = (HintID cl)[h := of_nat j]" "ExtraPart cl3 = (ExtraPart cl)[h := qp]" "ExtraOffset cl3 = (ExtraOffset cl)[h := qo]"
    "encZeroCache cl3 = encZeroCache cl" "encZeroNext cl3 = encZeroNext cl" "IndicatorBit cl3 = IndicatorBit cl2"
    by (simp_all add: cl3_def f2)
  have "j + 1 < 2 ^ 32" using j(2) M by simp
  then have next3: "unat (NextHintIndex cl3) = j + 1"
    using unat_of_nat_u32[of "j + 1"] by (simp add: cl3_def)
  have ind3: "indicator cl3 h' = (if h' = h then ind0 else indicator cl h')" for h'
    using ind[of h'] by (simp add: indicator_def f3)
  have split: "split_sum aes cl3 = split_sum aes cl" "evenly_split aes cl3 = evenly_split aes cl"
    by (simp_all add: fun_eq_iff split_sum_def evenly_split_def f3)
  have "client_ok C s aes db E cl3"
    unfolding client_ok_def Let_def
  proof (intro conjI allI impI)
    show "wf_client cl3" using ok'(1) by (simp add: wf_client_def cl3_def cl2_def set_indicator_def)
    show "dummy_ok aes cl3" using ok'(2) by (simp add: dummy_ok_def cl3_def cl2_def set_indicator_def)
    show "length (ciParity cl3) = 2 * unat (cl_M cl3)" using ok'(3) by (simp add: f3)
    show "length (IndicatorBit cl3) = (unat (cl_M cl3) + 7) div 8" using ok'(4) by (simp add: f3 f2)
    show "unat (cl_M cl3) \<le> unat (NextHintIndex cl3)" using nv ok'(5) by (simp add: f3 next3)
    show "hint_ok C s aes db (E + (t_of C + 1) div 2) cl3 h'"
      if "h' < unat (cl_M cl3)" "SelectCutoff cl3 ! h' \<noteq> 0" for h'
    proof (cases "h' = h")
      case True
      have "evenly_split aes cl (of_nat j) ?cut" using jb by (simp add: backup_ok_def)
      then show ?thesis
        using True ct' p h len ok'(3) by (simp add: hint_ok_def f3 ind3 split) (simp add: ind0_def)
    next
      case False
      then have "hint_ok C s aes db (E + (t_of C + 1) div 2) cl h'" using hints that by (simp add: f3)
      with False show ?thesis by (simp add: hint_ok_def f3 ind3 split Let_def)
    qed
    show "backup_ok C s aes db E cl3 j'"
      if "j' < unat (cl_M cl3) + unat (cl_M cl3) div 2" "unat (NextHintIndex cl3) \<le> j'" "SelectCutoff cl3 ! j' \<noteq> 0" for j'
    proof -
      have "h < j'" using that(2) nv ok'(5) h next3 by linarith
      then have "backup_ok C s aes db E cl j'" using backups[of j'] that next3 nv by (simp add: f3)
      then show ?thesis using \<open>h < j'\<close> by (simp add: backup_ok_def f3 split)
    qed
  qed
  then show ?thesis using ref[folded cl3_def] next3 by (intro exI[of _ cl3]) (simp add: f3)
qed

subsection \<open>The query message\<close>

lemma client_ok_query:
  assumes "client_ok C s aes db E cl" "length bv = unat (cl_PartNum cl)" "length sv = unat (cl_PartNum cl)"
    and "cl' = cl\<lparr>cl_bvec := bv, cl_Svec := sv, prfDummyIndices := pd, dummyIdxUsed := du, encZeroNext := n\<rparr>"
    and "dummy_ok aes cl'"
  shows "client_ok C s aes db E cl'"
proof -
  have f: "cl_M cl' = cl_M cl" "cl_PartNum cl' = cl_PartNum cl" "cl_PartSize cl' = cl_PartSize cl" "ciParity cl' = ciParity cl"
    "SelectCutoff cl' = SelectCutoff cl" "HintID cl' = HintID cl" "ExtraPart cl' = ExtraPart cl" "ExtraOffset cl' = ExtraOffset cl"
    "IndicatorBit cl' = IndicatorBit cl" "NextHintIndex cl' = NextHintIndex cl"
    by (simp_all add: assms(4))
  have e: "split_sum aes cl' = split_sum aes cl" "evenly_split aes cl' = evenly_split aes cl" "indicator cl' = indicator cl"
    by (simp_all add: fun_eq_iff split_sum_def evenly_split_def indicator_def f)
  have g: "hint_ok C s aes db E' cl' = hint_ok C s aes db E' cl" "backup_ok C s aes db E cl' = backup_ok C s aes db E cl" for E'
    by (simp_all add: fun_eq_iff hint_ok_def backup_ok_def e f)
  have "wf_client cl'" using assms(1-3) by (simp add: client_ok_def wf_client_def assms(4) Let_def)
  then show ?thesis
    using assms(1,5) unfolding client_ok_def Let_def f g by blast
qed

lemma client_query_result:
  assumes ok: "client_ok C s aes db E cl"
    and q: "unat query < unat (cl_PartNum cl) * unat (cl_PartSize cl)"
    and find: "find_hint aes query (queryPartNum_of cl query) (queryOffset_of cl query) cl False = (h, ind)" "h < unat (cl_M cl)"
    and enc0: "encZeroNext cl < length (encZeroCache cl)"
      "encodes C s (encZeroCache cl ! encZeroNext cl) (unat (cl_PartSize cl) - 1) 0 E1"
    and rando: "uint rando < q_of C"
  shows "\<exists>msg cl'. client_query C aes query flip rando (mod_value (he_q C)) cl = Some (Inr (Some (h, ind, msg, cl'))) \<and>
    (\<forall>k < unat (cl_PartNum cl). q_bvec msg ! k = query_bit aes cl (unat (queryPartNum_of cl query)) ind flip h k \<and>
       unat (q_Svec msg ! k) < unat (cl_PartSize cl) \<and>
       (q_bvec msg ! k = (ind \<noteq> flip) \<longrightarrow> unat (q_Svec msg ! k) = query_offset aes cl h k)) \<and>
    length (q_bvec msg) = unat (cl_PartNum cl) \<and> length (q_Svec msg) = unat (cl_PartNum cl) \<and>
    wf_ct C (q_ct msg) \<and> (\<exists>e j. t_of C * phase C s (q_ct msg) (unat (cl_PartSize cl) - 1) =
       q_of C * (split_sum aes cl db (HintID cl ! h) (SelectCutoff cl ! h) ind + db (unat (ExtraPart cl ! h)) (unat (ExtraOffset cl ! h)))
       + t_of C * uint rando + e + t_of C * q_of C * j \<and> \<bar>e\<bar> \<le> E + (t_of C + 1) div 2 + E1) \<and>
    (\<exists>bv sv pd du. cl' = cl\<lparr>cl_bvec := bv, cl_Svec := sv, prfDummyIndices := pd, dummyIdxUsed := du, encZeroNext := encZeroNext cl + 1\<rparr> \<and>
       client_ok C s aes db E cl')"
proof -
  let ?P = "unat (cl_PartNum cl)" and ?S = "unat (cl_PartSize cl)" and ?qp = "queryPartNum_of cl query"
  have wf: "wf_client cl" "dummy_ok aes cl" "length (ciParity cl) = 2 * unat (cl_M cl)" "length (HintID cl) = unat (cl_M cl)"
    using ok by (auto simp: client_ok_def wf_client_def Let_def)
  have S: "0 < ?S" using wf_client_PartSize[OF wf(1)] by blast
  note fs = find_hint_sound[OF wf(1) find]
  have hok: "hint_ok C s aes db (E + (t_of C + 1) div 2) cl h"
    using ok find(2) fs(1) by (simp add: client_ok_def Let_def)
  then have enc: "encodes C s (ciParity cl ! h) (?S - 1) (split_sum aes cl db (HintID cl ! h) (SelectCutoff cl ! h) ind
      + db (unat (ExtraPart cl ! h)) (unat (ExtraOffset cl ! h))) (E + (t_of C + 1) div 2)"
    and xo: "unat (ExtraOffset cl ! h) < ?S"
    using fs(2) by (simp_all add: hint_ok_def Let_def)
  define cl1 where "cl1 = build_query aes ?qp ind flip h cl"
  obtain bv sv pd du where cl1: "cl1 = cl\<lparr>cl_bvec := bv, cl_Svec := sv, prfDummyIndices := pd, dummyIdxUsed := du\<rparr>"
    "dummy_ok aes cl1" "length bv = ?P" "length sv = ?P"
    and bits: "\<And>k. k < ?P \<Longrightarrow> bv ! k = query_bit aes cl (unat ?qp) ind flip h k \<and> unat (sv ! k) < ?S \<and>
       (k \<noteq> unat ?qp \<longrightarrow> query_bit aes cl (unat ?qp) ind flip h k = (ind \<noteq> flip) \<longrightarrow> unat (sv ! k) = query_offset aes cl h k)"
    using build_query_result[OF wf(1,2) xo, of ?qp ind flip] unfolding query_inv_def cl1_def by blast
  have qpbit: "query_bit aes cl p ind flip h p \<noteq> (ind \<noteq> flip)" for p by (auto simp: query_bit_def)
  define cl2 where "cl2 = cl1\<lparr>encZeroNext := encZeroNext cl + 1\<rparr>"
  have gz: "getNextEncZero cl1 = Inr (encZeroCache cl ! encZeroNext cl, cl2)"
    using enc0(1) by (auto simp: getNextEncZero_def cl1(1) cl2_def)
  let ?c = "add_inplace C (ciParity cl ! h) (encZeroCache cl ! encZeroNext cl)"
  have ec: "encodes C s ?c (?S - 1) (split_sum aes cl db (HintID cl ! h) (SelectCutoff cl ! h) ind
      + db (unat (ExtraPart cl ! h)) (unat (ExtraOffset cl ! h)) + 0) (E + (t_of C + 1) div 2 + E1)"
    by (rule encodes_add[OF enc enc0(2)])
  then have C: "wf_context C" "wf_ct C ?c" "?S - 1 < he_degree C" by (simp_all add: encodes_def)
  obtain ct where ct: "mask_coefficient ?c (?S - 1) rando (mod_value (he_q C)) = Some ct" "wf_ct C ct"
    "phase C s ct (?S - 1) = (phase C s ?c (?S - 1) + uint rando) mod q_of C"
    using mask_coefficient_phase[OF C rando] by blast
  obtain e j where ej: "t_of C * phase C s ?c (?S - 1) = q_of C * (split_sum aes cl db (HintID cl ! h) (SelectCutoff cl ! h) ind
      + db (unat (ExtraPart cl ! h)) (unat (ExtraOffset cl ! h))) + e + t_of C * q_of C * j" "\<bar>e\<bar> \<le> E + (t_of C + 1) div 2 + E1"
    using ec by (auto simp: encodes_def)
  define d where "d = (phase C s ?c (?S - 1) + uint rando) div q_of C"
  have "phase C s ct (?S - 1) = phase C s ?c (?S - 1) + uint rando - q_of C * d"
    unfolding ct(3) d_def by (simp add: minus_mult_div_eq_mod)
  then have "t_of C * phase C s ct (?S - 1) = t_of C * (phase C s ?c (?S - 1) + uint rando - q_of C * d)"
    by (simp only:)
  then have "t_of C * phase C s ct (?S - 1) = t_of C * phase C s ?c (?S - 1) + t_of C * uint rando - t_of C * q_of C * d"
    by (simp only: right_diff_distrib distrib_left mult.assoc)
  then have ph: "t_of C * phase C s ct (?S - 1) = q_of C * (split_sum aes cl db (HintID cl ! h) (SelectCutoff cl ! h) ind
      + db (unat (ExtraPart cl ! h)) (unat (ExtraOffset cl ! h))) + t_of C * uint rando + e + t_of C * q_of C * (j - d)"
    unfolding ej(1) by (simp only: algebra_simps)
  let ?msg = "\<lparr>q_bvec = bv, q_Svec = sv, q_ct = ct\<rparr>"
  have "unat (cl_PartSize cl - 1) = ?S - 1" using unat_sub_no_borrow[of 1 "cl_PartSize cl"] S by simp
  then have cq: "client_query C aes query flip rando (mod_value (he_q C)) cl = Some (Inr (Some (h, ind, ?msg, cl2)))"
    using find wf(3,4) gz ct(1) by (simp add: client_query_def Let_def cl1_def[symmetric]) (simp add: cl2_def cl1(1))
  have cl2: "cl2 = cl\<lparr>cl_bvec := bv, cl_Svec := sv, prfDummyIndices := pd, dummyIdxUsed := du, encZeroNext := encZeroNext cl + 1\<rparr>"
    by (simp add: cl2_def cl1(1))
  have "dummy_ok aes cl2" using cl1(2) by (simp add: cl2_def dummy_ok_def)
  then have "client_ok C s aes db E cl2" by (rule client_ok_query[OF ok cl1(3,4) cl2])
  moreover have "\<forall>k < ?P. bv ! k = query_bit aes cl (unat ?qp) ind flip h k \<and> unat (sv ! k) < ?S \<and>
      (bv ! k = (ind \<noteq> flip) \<longrightarrow> unat (sv ! k) = query_offset aes cl h k)"
    using bits qpbit by metis
  ultimately show ?thesis using cq cl2 ct(2) ph ej(2) cl1(3,4)
    by (intro exI[of _ ?msg] exI[of _ cl2]) auto
qed

subsection \<open>The answer decodes to the entry\<close>

text \<open>What the server's decryption and the oblivious transfer are used for.\<close>

definition decrypts_to_phase :: "he_context \<Rightarrow> secret \<Rightarrow> (ciphertext \<Rightarrow> u64 list) \<Rightarrow> bool" where
  "decrypts_to_phase C s decrypt \<longleftrightarrow> (\<forall>ct. wf_ct C ct \<longrightarrow> length (decrypt ct) = he_degree C \<and>
     (\<forall>k < he_degree C. uint (decrypt ct ! k) = phase C s ct k))"

definition transfers_chosen :: "(u64 \<times> u64 \<Rightarrow> bool \<Rightarrow> u64) \<Rightarrow> bool" where
  "transfers_chosen ot \<longleftrightarrow> (\<forall>a b c. ot (a, b) c = (if c then b else a))"

text \<open>The moduli of client, server and decoder agree.\<close>

definition matching :: "he_context \<Rightarrow> rns_tool \<Rightarrow> server \<Rightarrow> client \<Rightarrow> bool" where
  "matching C R sv cl \<longleftrightarrow> wf_server sv \<and> sv_PartNum sv = cl_PartNum cl \<and> sv_PartSize sv = cl_PartSize cl \<and>
     sv_plainModulus sv = mod_value (he_t C) \<and> wf_rns_tool R \<and> rns_q R = he_q C \<and> rns_t R = he_t C \<and>
     2 * t_of C \<le> q_of C \<and> q_of C < 2 ^ 54 \<and> unat (cl_PartSize cl) \<le> he_degree C"

lemma decode_answer_value:
  assumes "wf_rns_tool R" "0 < uint q" "uint q < 2 ^ 61" "rns_q R = m" "mod_value m = q" "uint qq < uint q" "uint rando < uint q"
    and "uint (mod_value (rns_t R)) * (uint qq - uint rando) = uint q * M + e + uint (mod_value (rns_t R)) * uint q * j"
    and "2 * uint (mod_value (gamma R)) * \<bar>e\<bar> \<le> (uint (mod_value (gamma R)) - 3) * uint q"
  shows "\<exists>r. decode_answer R qq rando q = Some r \<and> uint r = M mod uint (mod_value (rns_t R))"
proof -
  let ?t = "uint (mod_value (rns_t R))"
  let ?x = "(qq + q - (rando mod q)) mod q"
  have "uint (rando mod q) = uint rando" using assms(7) by (simp add: uint_mod)
  then have x: "uint ?x = (uint qq - uint rando) mod uint q"
    using answer_value[of "rando mod q" q qq] assms(3,6,7) by simp
  define d where "d = (uint qq - uint rando) div uint q"
  have "uint ?x = (uint qq - uint rando) - uint q * d" unfolding x d_def by (simp add: minus_mult_div_eq_mod)
  then have "?t * uint ?x = ?t * ((uint qq - uint rando) - uint q * d)" by (simp only:)
  also have "\<dots> = ?t * (uint qq - uint rando) - ?t * uint q * d" by (simp only: right_diff_distrib mult.assoc)
  also have "\<dots> = uint q * M + e + ?t * uint q * (j - d)" unfolding assms(8) by (simp only: algebra_simps)
  finally have "map uint (decrypt_scale_and_round R [?x] 1) = [M mod ?t]"
    using decrypt_scale_and_round_value[OF assms(1), of ?x M e "j - d"] assms(4,5,9) by simp
  then show ?thesis using assms(2) by (auto simp: decode_answer_def map_eq_Cons_conv)
qed

text \<open>
  What the server answers to a well-formed query: the word of the chosen group is the entry plus
  whatever the client masked the ciphertext with.
\<close>

lemma masked_answer_result:
  assumes ok: "client_ok C s aes (entry sv) E cl" and match: "matching C R sv cl" and C: "wf_context C"
    and query: "unat query < unat (cl_PartNum cl) * unat (cl_PartSize cl)"
    and find: "find_hint aes query (queryPartNum_of cl query) (queryOffset_of cl query) cl False = (h, ind)" "h < unat (cl_M cl)"
    and bits: "\<And>k. k < unat (cl_PartNum cl) \<Longrightarrow> bv ! k = query_bit aes cl (unat (queryPartNum_of cl query)) ind flip h k"
      "\<And>k. k < unat (cl_PartNum cl) \<Longrightarrow> unat (sel ! k) < unat (cl_PartSize cl)"
      "\<And>k. k < unat (cl_PartNum cl) \<Longrightarrow> bv ! k = (ind \<noteq> flip) \<Longrightarrow> unat (sel ! k) = query_offset aes cl h k"
    and ct: "wf_ct C ct" "t_of C * phase C s ct (unat (cl_PartSize cl) - 1) =
        q_of C * (split_sum aes cl (entry sv) (HintID cl ! h) (SelectCutoff cl ! h) ind
          + entry sv (unat (ExtraPart cl ! h)) (unat (ExtraOffset cl ! h))) + msk + e1 + t_of C * q_of C * j1" "\<bar>e1\<bar> \<le> E1"
    and decrypt: "decrypts_to_phase C s decrypt" and noise: "\<bar>sint answer_noise\<bar> \<le> D"
  shows "\<exists>r0 r1. onlineQuery Default sv decrypt (mod_value (he_q C)) answer_noise bv sel ct = Some (Inr (r0, r1)) \<and>
    uint (if ind \<noteq> flip then r1 else r0) < q_of C \<and>
    (\<exists>e j. t_of C * uint (if ind \<noteq> flip then r1 else r0) = q_of C * uint (sv_DB sv ! unat query) + msk + e + t_of C * q_of C * j \<and>
       \<bar>e\<bar> \<le> E1 + t_of C * (D + 13))"
proof -
  let ?P = "unat (cl_PartNum cl)" and ?S = "unat (cl_PartSize cl)" and ?q = "mod_value (he_q C)"
  let ?p = "unat (queryPartNum_of cl query)" and ?x = "unat (queryOffset_of cl query)"
  have sv: "wf_server sv" "sv_PartNum sv = cl_PartNum cl" "sv_PartSize sv = cl_PartSize cl" "sv_plainModulus sv = mod_value (he_t C)"
    and q: "2 * t_of C \<le> q_of C" "q_of C < 2 ^ 54" and deg: "?S \<le> he_degree C"
    using match by (simp_all add: matching_def)
  have wf: "wf_client cl" using ok by (simp add: client_ok_def Let_def)
  have S: "0 < ?S" using wf_client_PartSize[OF wf] by blast
  note fs = find_hint_sound[OF wf find] and D = wf_contextD[OF C]
  have px: "?p < ?P" "?x < ?S" "?p * ?S + ?x = unat query"
    using unat_queryPartNum[OF wf query] unat_queryOffset[OF wf, of query] S by simp_all
  have hok: "hint_ok C s aes (entry sv) (E + (t_of C + 1) div 2) cl h"
    using ok find(2) fs(1) by (simp add: client_ok_def Let_def)
  let ?v = "decrypt ct ! (?S - 1)" and ?R = "ind \<noteq> flip"
  have dec: "length (decrypt ct) = he_degree C" "uint ?v = phase C s ct (?S - 1)"
    using decrypt ct(1) deg S by (auto simp: decrypts_to_phase_def)
  have vq: "uint ?v < q_of C" unfolding dec(2) phase_def using D(5) by simp
  have ans: "\<exists>r0 r1. onlineQuery Default sv decrypt ?q answer_noise bv sel ct = Some (Inr (r0, r1)) \<and>
    (\<forall>b. uint (if b then r1 else r0) < q_of C \<and> (\<exists>e j. t_of C * uint (if b then r1 else r0) =
        t_of C * (uint ?v + sint answer_noise) - q_of C * selected_sum sv bv sel ?P b + e
        + t_of C * q_of C * j \<and> \<bar>e\<bar> \<le> 13 * t_of C))"
    using onlineQuery_result[OF sv(1), of sel ?q decrypt ct answer_noise bv] bits(2) q dec(1) deg vq by (simp add: sv)
  obtain r0 r1 e2 j2 where oq: "onlineQuery Default sv decrypt ?q answer_noise bv sel ct = Some (Inr (r0, r1))"
    and r: "uint (if ?R then r1 else r0) < q_of C" "t_of C * uint (if ?R then r1 else r0) =
        t_of C * (uint ?v + sint answer_noise) - q_of C * selected_sum sv bv sel ?P ?R + e2
        + t_of C * q_of C * j2" "\<bar>e2\<bar> \<le> 13 * t_of C"
    using ans by blast
  have "selected_sum sv bv sel ?P ?R
      = (\<Sum>k | k < ?P \<and> query_bit aes cl ?p ind flip h k = ?R. entry sv k (query_offset aes cl h k))"
    unfolding selected_sum_def by (rule sum.cong) (use bits in auto)
  then have m: "split_sum aes cl (entry sv) (HintID cl ! h) (SelectCutoff cl ! h) ind
      + entry sv (unat (ExtraPart cl ! h)) (unat (ExtraOffset cl ! h)) = selected_sum sv bv sel ?P ?R + entry sv ?p ?x"
    using query_sum[where db = "entry sv" and flip = flip and ind = ind, OF _ px(1) _ fs(3)] hok fs(2) by (simp add: hint_ok_def Let_def)
  have y: "entry sv ?p ?x = uint (sv_DB sv ! unat query)" using px(3) by (simp add: entry_def sv(3))
  have "t_of C * uint (if ?R then r1 else r0) =
      t_of C * uint ?v + t_of C * sint answer_noise - q_of C * selected_sum sv bv sel ?P ?R + e2 + t_of C * q_of C * j2"
    unfolding r(2) by (simp only: distrib_left)
  also have "\<dots> = q_of C * entry sv ?p ?x + msk + (e1 + t_of C * sint answer_noise + e2) + t_of C * q_of C * (j1 + j2)"
    unfolding dec(2) ct(2) m by (simp only: algebra_simps)
  finally have fin: "t_of C * uint (if ?R then r1 else r0) =
      q_of C * uint (sv_DB sv ! unat query) + msk + (e1 + t_of C * sint answer_noise + e2) + t_of C * q_of C * (j1 + j2)"
    unfolding y .
  have "\<bar>t_of C * sint answer_noise\<bar> \<le> t_of C * D"
    unfolding abs_mult using noise D(6) by (simp add: mult_left_mono)
  moreover have "t_of C * (D + 13) = t_of C * D + 13 * t_of C" by (simp add: algebra_simps)
  ultimately have "\<bar>e1 + t_of C * sint answer_noise + e2\<bar> \<le> E1 + t_of C * (D + 13)"
    using ct(3) r(3) by linarith
  with oq r(1) fin show ?thesis by blast
qed

lemma online_query_reaches_refresh:
  assumes ok: "client_ok C s aes (entry sv) E cl" and match: "matching C R sv cl"
    and query: "unat query < unat (cl_PartNum cl) * unat (cl_PartSize cl)"
    and find: "find_hint aes query (queryPartNum_of cl query) (queryOffset_of cl query) cl False = (h, ind)" "h < unat (cl_M cl)"
    and enc0: "encZeroNext cl < length (encZeroCache cl)"
      "encodes C s (encZeroCache cl ! encZeroNext cl) (unat (cl_PartSize cl) - 1) 0 E1"
    and decrypt: "decrypts_to_phase C s decrypt" and ot: "transfers_chosen ot"
    and rando: "uint rando < q_of C" and noise: "\<bar>sint answer_noise\<bar> \<le> D"
    and bound: "2 * uint (mod_value (gamma R)) * (E + (t_of C + 1) div 2 + E1 + t_of C * (D + 13))
      \<le> (uint (mod_value (gamma R)) - 3) * q_of C"
  shows "\<exists>cl1. online_query C aes R sv decrypt ot (mod_value (he_q C)) query flip rando answer_noise cl =
      map_option (map_sum id (\<lambda>cl'. Some (sv_DB sv ! unat query, cl')))
        (refresh C aes h (queryPartNum_of cl query) (queryOffset_of cl query) (sv_DB sv ! unat query) cl1) \<and>
    client_ok C s aes (entry sv) E cl1 \<and> uint (sv_DB sv ! unat query) mod t_of C
      = entry sv (unat (queryPartNum_of cl query)) (unat (queryOffset_of cl query)) mod t_of C \<and>
    (\<exists>bv sv1 pd du. cl1 = cl\<lparr>cl_bvec := bv, cl_Svec := sv1, prfDummyIndices := pd, dummyIdxUsed := du, encZeroNext := encZeroNext cl + 1\<rparr>)"
proof -
  let ?P = "unat (cl_PartNum cl)" and ?S = "unat (cl_PartSize cl)" and ?q = "mod_value (he_q C)"
  let ?p = "unat (queryPartNum_of cl query)" and ?x = "unat (queryOffset_of cl query)"
  have sv: "wf_server sv" "sv_PartNum sv = cl_PartNum cl" "sv_PartSize sv = cl_PartSize cl" "sv_plainModulus sv = mod_value (he_t C)"
    and R: "wf_rns_tool R" "rns_q R = he_q C" "rns_t R = he_t C"
    and q: "2 * t_of C \<le> q_of C" "q_of C < 2 ^ 54" and deg: "?S \<le> he_degree C"
    using match by (simp_all add: matching_def)
  have wf: "wf_client cl" using ok by (simp add: client_ok_def Let_def)
  have S: "0 < ?S" using wf_client_PartSize[OF wf] by blast
  note fs = find_hint_sound[OF wf find]
  have px: "?p < ?P" "?x < ?S" "?p * ?S + ?x = unat query"
    using unat_queryPartNum[OF wf query] unat_queryOffset[OF wf, of query] S by simp_all
  have hok: "hint_ok C s aes (entry sv) (E + (t_of C + 1) div 2) cl h"
    using ok find(2) fs(1) by (simp add: client_ok_def Let_def)
  let ?m = "split_sum aes cl (entry sv) (HintID cl ! h) (SelectCutoff cl ! h) ind
      + entry sv (unat (ExtraPart cl ! h)) (unat (ExtraOffset cl ! h))"
  obtain msg cl1 e1 j1 bv sv1 pd du where cq:
    "client_query C aes query flip rando ?q cl = Some (Inr (Some (h, ind, msg, cl1)))"
    and bits: "\<And>k. k < ?P \<Longrightarrow> q_bvec msg ! k = query_bit aes cl ?p ind flip h k"
      "\<And>k. k < ?P \<Longrightarrow> unat (q_Svec msg ! k) < ?S"
      "\<And>k. k < ?P \<Longrightarrow> q_bvec msg ! k = (ind \<noteq> flip) \<Longrightarrow> unat (q_Svec msg ! k) = query_offset aes cl h k"
    and ct: "wf_ct C (q_ct msg)" "t_of C * phase C s (q_ct msg) (?S - 1) = q_of C * ?m + t_of C * uint rando + e1 + t_of C * q_of C * j1"
      "\<bar>e1\<bar> \<le> E + (t_of C + 1) div 2 + E1"
    and cl1: "cl1 = cl\<lparr>cl_bvec := bv, cl_Svec := sv1, prfDummyIndices := pd, dummyIdxUsed := du, encZeroNext := encZeroNext cl + 1\<rparr>"
      "client_ok C s aes (entry sv) E cl1"
    using client_query_result[OF ok query find enc0 rando, of flip] by blast
  have C: "wf_context C" using enc0(2) by (simp add: encodes_def)
  note D = wf_contextD[OF C]
  let ?qq = "\<lambda>r0 r1. if ind \<noteq> flip then r1 else r0 :: u64"
  let ?B = "E + (t_of C + 1) div 2 + E1 + t_of C * (D + 13)"
  define y where "y = uint (sv_DB sv ! unat query)"
  obtain r0 r1 e2 j2 where oq: "onlineQuery Default sv decrypt ?q answer_noise (q_bvec msg) (q_Svec msg) (q_ct msg) = Some (Inr (r0, r1))"
    and r: "uint (?qq r0 r1) < q_of C" "t_of C * uint (?qq r0 r1) = q_of C * y + t_of C * uint rando + e2 + t_of C * q_of C * j2"
      "\<bar>e2\<bar> \<le> ?B"
    using masked_answer_result[OF ok match C query find bits ct decrypt noise] unfolding y_def by blast
  have ot: "ot (r0, r1) (resultBit ind flip) = ?qq r0 r1"
    using ot by (auto simp: transfers_chosen_def resultBit_def)
  have fin: "t_of C * (uint (?qq r0 r1) - uint rando) = q_of C * y + e2 + t_of C * q_of C * j2"
    using r(2) by (simp add: right_diff_distrib)
  have "2 * uint (mod_value (gamma R)) * \<bar>e2\<bar> \<le> 2 * uint (mod_value (gamma R)) * ?B"
    using r(3) by (intro mult_left_mono) simp_all
  then have nb: "2 * uint (mod_value (gamma R)) * \<bar>e2\<bar> \<le> (uint (mod_value (gamma R)) - 3) * q_of C"
    using bound by linarith
  obtain res where res: "decode_answer R (?qq r0 r1) rando ?q = Some res" "uint res = y mod t_of C"
    using decode_answer_value[OF R(1) D(5) _ R(2) refl r(1) rando _ nb, of y j2] fin q(2) R(3) by auto
  have "unat query < length (sv_DB sv)" using sv(1) query by (simp add: wf_server_def sv)
  then have "y < t_of C" using sv(1) by (simp add: y_def wf_server_def sv list_all_length word_less_def)
  then have rs: "res = sv_DB sv ! unat query" using res(2) by (simp add: y_def word_uint_eq_iff)
  moreover have qo: "queryPartNum_of cl1 query = queryPartNum_of cl query" "queryOffset_of cl1 query = queryOffset_of cl query"
    by (simp_all add: queryPartNum_of_def queryOffset_of_def cl1(1))
  ultimately have "online_query C aes R sv decrypt ot ?q query flip rando answer_noise cl =
      map_option (map_sum id (\<lambda>cl'. Some (sv_DB sv ! unat query, cl')))
        (refresh C aes h (queryPartNum_of cl query) (queryOffset_of cl query) (sv_DB sv ! unat query) cl1)"
    unfolding online_query_def cq option.case sum.case prod.case oq ot res(1) by simp
  moreover have "uint (sv_DB sv ! unat query) mod t_of C = entry sv ?p ?x mod t_of C"
    using px(3) by (simp add: entry_def sv(3))
  ultimately show ?thesis using cl1 by blast
qed

lemma online_query_result:
  assumes ok: "client_ok C s aes (entry sv) E cl" and match: "matching C R sv cl"
    and query: "unat query < unat (cl_PartNum cl) * unat (cl_PartSize cl)"
    and find: "find_hint aes query (queryPartNum_of cl query) (queryOffset_of cl query) cl False = (h, ind)" "h < unat (cl_M cl)"
    and backup: "next_valid (SelectCutoff cl) (unat (NextHintIndex cl)) = Some j" "j + 1 < unat (cl_M cl) + unat (cl_M cl) div 2"
    and enc0: "encZeroNext cl < length (encZeroCache cl)"
      "encodes C s (encZeroCache cl ! encZeroNext cl) (unat (cl_PartSize cl) - 1) 0 E1"
    and decrypt: "decrypts_to_phase C s decrypt" and ot: "transfers_chosen ot"
    and rando: "uint rando < q_of C" and noise: "\<bar>sint answer_noise\<bar> \<le> D"
    and bound: "2 * uint (mod_value (gamma R)) * (E + (t_of C + 1) div 2 + E1 + t_of C * (D + 13))
      \<le> (uint (mod_value (gamma R)) - 3) * q_of C"
  shows "\<exists>cl'. online_query C aes R sv decrypt ot (mod_value (he_q C)) query flip rando answer_noise cl =
      Some (Inr (Some (sv_DB sv ! unat query, cl'))) \<and> client_ok C s aes (entry sv) E cl' \<and>
    unat (NextHintIndex cl') = j + 1 \<and> cl_PartNum cl' = cl_PartNum cl \<and> cl_PartSize cl' = cl_PartSize cl \<and>
    cl_M cl' = cl_M cl \<and> encZeroCache cl' = encZeroCache cl \<and> encZeroNext cl' = encZeroNext cl + 1"
proof -
  let ?p = "unat (queryPartNum_of cl query)" and ?x = "unat (queryOffset_of cl query)"
  have wf: "wf_client cl" using ok by (simp add: client_ok_def Let_def)
  have deg: "unat (cl_PartSize cl) \<le> he_degree C" using match by (simp add: matching_def)
  have "0 < unat (cl_PartSize cl)" using wf_client_PartSize[OF wf] by blast
  then have px: "?p < unat (cl_PartNum cl)" "?x < unat (cl_PartSize cl)"
    using unat_queryPartNum[OF wf query] unat_queryOffset[OF wf, of query] by simp_all
  obtain cl1 bv sv1 pd du where q: "online_query C aes R sv decrypt ot (mod_value (he_q C)) query flip rando answer_noise cl =
      map_option (map_sum id (\<lambda>cl'. Some (sv_DB sv ! unat query, cl')))
        (refresh C aes h (queryPartNum_of cl query) (queryOffset_of cl query) (sv_DB sv ! unat query) cl1)"
    and ok1: "client_ok C s aes (entry sv) E cl1"
    and y: "uint (sv_DB sv ! unat query) mod t_of C = entry sv ?p ?x mod t_of C"
    and cl1: "cl1 = cl\<lparr>cl_bvec := bv, cl_Svec := sv1, prfDummyIndices := pd, dummyIdxUsed := du, encZeroNext := encZeroNext cl + 1\<rparr>"
    using online_query_reaches_refresh[OF ok match query find enc0 decrypt ot rando noise bound, of flip] by blast
  have "\<exists>cl'. refresh C aes h (queryPartNum_of cl query) (queryOffset_of cl query) (sv_DB sv ! unat query) cl1 = Some (Inr cl') \<and>
    client_ok C s aes (entry sv) E cl' \<and> unat (NextHintIndex cl') = j + 1 \<and> cl_PartNum cl' = cl_PartNum cl1 \<and>
    cl_PartSize cl' = cl_PartSize cl1 \<and> cl_M cl' = cl_M cl1 \<and> encZeroCache cl' = encZeroCache cl1 \<and> encZeroNext cl' = encZeroNext cl1"
    by (rule refresh_ok[OF ok1]) (use find(2) backup px deg y in \<open>simp_all add: cl1\<close>)
  then obtain cl' where r: "refresh C aes h (queryPartNum_of cl query) (queryOffset_of cl query) (sv_DB sv ! unat query) cl1 = Some (Inr cl')"
    "client_ok C s aes (entry sv) E cl'" "unat (NextHintIndex cl') = j + 1" "cl_PartNum cl' = cl_PartNum cl"
    "cl_PartSize cl' = cl_PartSize cl" "cl_M cl' = cl_M cl" "encZeroCache cl' = encZeroCache cl" "encZeroNext cl' = encZeroNext cl + 1"
    by (auto simp: cl1)
  then show ?thesis unfolding q by (intro exI[of _ cl']) simp
qed

text \<open>With the last backup the query runs into the assertion.\<close>

lemma online_query_last_backup:
  assumes ok: "client_ok C s aes (entry sv) E cl" and match: "matching C R sv cl"
    and query: "unat query < unat (cl_PartNum cl) * unat (cl_PartSize cl)"
    and find: "find_hint aes query (queryPartNum_of cl query) (queryOffset_of cl query) cl False = (h, ind)" "h < unat (cl_M cl)"
    and backup: "next_valid (SelectCutoff cl) (unat (NextHintIndex cl)) = Some j" "unat (cl_M cl) + unat (cl_M cl) div 2 \<le> j + 1"
    and enc0: "encZeroNext cl < length (encZeroCache cl)"
      "encodes C s (encZeroCache cl ! encZeroNext cl) (unat (cl_PartSize cl) - 1) 0 E1"
    and decrypt: "decrypts_to_phase C s decrypt" and ot: "transfers_chosen ot"
    and rando: "uint rando < q_of C" and noise: "\<bar>sint answer_noise\<bar> \<le> D"
    and bound: "2 * uint (mod_value (gamma R)) * (E + (t_of C + 1) div 2 + E1 + t_of C * (D + 13))
      \<le> (uint (mod_value (gamma R)) - 3) * q_of C"
  shows "online_query C aes R sv decrypt ot (mod_value (he_q C)) query flip rando answer_noise cl = None"
proof -
  have deg: "unat (cl_PartSize cl) \<le> he_degree C" using match by (simp add: matching_def)
  obtain cl1 bv sv1 pd du where q: "online_query C aes R sv decrypt ot (mod_value (he_q C)) query flip rando answer_noise cl =
      map_option (map_sum id (\<lambda>cl'. Some (sv_DB sv ! unat query, cl')))
        (refresh C aes h (queryPartNum_of cl query) (queryOffset_of cl query) (sv_DB sv ! unat query) cl1)"
    and cl1: "cl1 = cl\<lparr>cl_bvec := bv, cl_Svec := sv1, prfDummyIndices := pd, dummyIdxUsed := du, encZeroNext := encZeroNext cl + 1\<rparr>"
    using online_query_reaches_refresh[OF ok match query find enc0 decrypt ot rando noise bound, of flip] by blast
  have "refresh C aes h (queryPartNum_of cl query) (queryOffset_of cl query) (sv_DB sv ! unat query) cl1 = None"
    by (rule refresh_last_backup) (use deg backup in \<open>simp_all add: cl1\<close>)
  then show ?thesis unfolding q by simp
qed

end
