(* ===== verification/Session.thy ===== *)
theory Session
  imports Retrieval
begin

text \<open>
  A run of queries as a state machine: one step is one online query that returned a result.
  The invariant of the hint table holds in every reachable state, every result is the entry
  asked for, and the encryptions of zero are consumed one per query.
\<close>

record environment =
  env_C :: he_context
  env_aes :: block_cipher
  env_R :: rns_tool
  env_sv :: server
  env_decrypt :: "ciphertext \<Rightarrow> u64 list"
  env_ot :: "u64 \<times> u64 \<Rightarrow> bool \<Rightarrow> u64"

definition answered ::
  "environment \<Rightarrow> u32 \<Rightarrow> bool \<Rightarrow> u64 \<Rightarrow> u64 \<Rightarrow> client \<Rightarrow> u64 \<Rightarrow> client \<Rightarrow> bool" where
  "answered V query flip rando answer_noise cl result cl' \<longleftrightarrow>
     online_query (env_C V) (env_aes V) (env_R V) (env_sv V) (env_decrypt V) (env_ot V) (mod_value (he_q (env_C V)))
       query flip rando answer_noise cl = Some (Inr (Some (result, cl')))"

text \<open>A completed query implies what the search, the refresh and the cache needed.\<close>

lemma map_sum_Inr_iff: "map_sum f g z = Inr y \<longleftrightarrow> (\<exists>x. z = Inr x \<and> y = g x)"
  by (cases z) auto

lemma refresh_inv:
  assumes "refresh C aes h qp qo r cl = Some (Inr cl')"
  shows "\<exists>j. next_valid (SelectCutoff cl) (unat (NextHintIndex cl)) = Some j \<and> j + 1 < unat (cl_M cl) + unat (cl_M cl) div 2 \<and>
    NextHintIndex cl' = of_nat (j + 1) \<and> SelectCutoff cl' = (SelectCutoff cl)[h := SelectCutoff cl ! j] \<and> cl_M cl' = cl_M cl"
  using assms by (auto simp: refresh_def Let_def set_indicator_def split: option.splits sum.splits if_splits)

lemma online_query_inv:
  assumes "online_query C aes R sv decrypt ot q query flip rando noise cl = Some (Inr (Some (r, cl')))"
  obtains h ind msg cl1 res where "client_query C aes query flip rando q cl = Some (Inr (Some (h, ind, msg, cl1)))"
    "refresh C aes h (queryPartNum_of cl1 query) (queryOffset_of cl1 query) res cl1 = Some (Inr cl')"
  using assms by (auto simp: online_query_def map_sum_Inr_iff split: option.splits sum.splits prod.splits)

lemma client_query_inv:
  assumes "client_query C aes query flip rando q cl = Some (Inr (Some (h, ind, msg, cl1)))"
  shows "find_hint aes query (queryPartNum_of cl query) (queryOffset_of cl query) cl False = (h, ind)"
    and "h < length (HintID cl)"
    and "\<exists>z. getNextEncZero (build_query aes (queryPartNum_of cl query) ind flip h cl) = Inr (z, cl1)"
  using assms by (auto simp: client_query_def Let_def split: if_splits prod.splits sum.splits)

lemma completed_query_inv:
  assumes "online_query C aes R sv decrypt ot q query flip rando noise cl = Some (Inr (Some (r, cl')))"
    and ok: "client_ok C s aes db E cl"
  obtains h ind j where
    "find_hint aes query (queryPartNum_of cl query) (queryOffset_of cl query) cl False = (h, ind)" "h < unat (cl_M cl)"
    "next_valid (SelectCutoff cl) (unat (NextHintIndex cl)) = Some j" "j + 1 < unat (cl_M cl) + unat (cl_M cl) div 2"
    "encZeroNext cl < length (encZeroCache cl)"
    "NextHintIndex cl' = of_nat (j + 1)" "SelectCutoff cl' = (SelectCutoff cl)[h := SelectCutoff cl ! j]" "cl_M cl' = cl_M cl"
proof -
  have wf: "wf_client cl" "dummy_ok aes cl" "length (HintID cl) = unat (cl_M cl)"
    using ok by (auto simp: client_ok_def wf_client_def Let_def)
  obtain h ind msg cl1 res where cq: "client_query C aes query flip rando q cl = Some (Inr (Some (h, ind, msg, cl1)))"
    and ref: "refresh C aes h (queryPartNum_of cl1 query) (queryOffset_of cl1 query) res cl1 = Some (Inr cl')"
    using online_query_inv[OF assms(1)] by metis
  note Q = client_query_inv[OF cq]
  have h: "h < unat (cl_M cl)" using Q(2) wf(3) by simp
  have "SelectCutoff cl ! h \<noteq> 0" by (rule find_hint_sound(1)[OF wf(1) Q(1) h])
  then have "hint_ok C s aes db (E + (t_of C + 1) div 2) cl h" using ok h by (simp add: client_ok_def Let_def)
  then have x: "unat (ExtraOffset cl ! h) < unat (cl_PartSize cl)" by (simp add: hint_ok_def Let_def)
  obtain bv sv pd du where b: "build_query aes (queryPartNum_of cl query) ind flip h cl
      = cl\<lparr>cl_bvec := bv, cl_Svec := sv, prfDummyIndices := pd, dummyIdxUsed := du\<rparr>"
    using build_query_result[OF wf(1,2) x, of "queryPartNum_of cl query" ind flip] unfolding query_inv_def by blast
  have n: "encZeroNext cl < length (encZeroCache cl)"
    and f: "SelectCutoff cl1 = SelectCutoff cl" "NextHintIndex cl1 = NextHintIndex cl" "cl_M cl1 = cl_M cl"
    using Q(3) by (auto simp: b getNextEncZero_def split: if_splits)
  obtain j where "next_valid (SelectCutoff cl) (unat (NextHintIndex cl)) = Some j" "j + 1 < unat (cl_M cl) + unat (cl_M cl) div 2"
    "NextHintIndex cl' = of_nat (j + 1)" "SelectCutoff cl' = (SelectCutoff cl)[h := SelectCutoff cl ! j]" "cl_M cl' = cl_M cl"
    using refresh_inv[OF ref] by (auto simp: f)
  then show thesis using that Q(1) h n by blast
qed

subsection \<open>Runs of queries\<close>

text \<open>A run: the queries that completed with their results, from one client state to another.\<close>

inductive queries :: "environment \<Rightarrow> int \<Rightarrow> client \<Rightarrow> (u32 \<times> u64) list \<Rightarrow> client \<Rightarrow> bool" for V D where
  start: "queries V D cl [] cl"
| step: "queries V D cl tr cl1 \<Longrightarrow> unat query < unat (cl_PartNum cl) * unat (cl_PartSize cl) \<Longrightarrow>
    uint rando < uint (mod_value (he_q (env_C V))) \<Longrightarrow> \<bar>sint noise\<bar> \<le> D \<Longrightarrow>
    answered V query flip rando noise cl1 r cl2 \<Longrightarrow> queries V D cl (tr @ [(query, r)]) cl2"

text \<open>The assumptions of a run: matching parameters, decryption, transfer, cached encryptions of zero, and room for the noise.\<close>

definition ready :: "environment \<Rightarrow> secret \<Rightarrow> int \<Rightarrow> int \<Rightarrow> int \<Rightarrow> client \<Rightarrow> bool" where
  "ready V s E E1 D cl \<longleftrightarrow> (let C = env_C V in
     client_ok C s (env_aes V) (entry (env_sv V)) E cl \<and> matching C (env_R V) (env_sv V) cl \<and>
     decrypts_to_phase C s (env_decrypt V) \<and> transfers_chosen (env_ot V) \<and>
     (\<forall>i < length (encZeroCache cl). encodes C s (encZeroCache cl ! i) (unat (cl_PartSize cl) - 1) 0 E1) \<and>
     2 * uint (mod_value (gamma (env_R V))) * (E + (t_of C + 1) div 2 + E1 + t_of C * (D + 13))
       \<le> (uint (mod_value (gamma (env_R V))) - 3) * q_of C)"

lemma ready_answers:
  assumes "ready V s E E1 D cl" "unat query < unat (cl_PartNum cl) * unat (cl_PartSize cl)"
    and "find_hint (env_aes V) query (queryPartNum_of cl query) (queryOffset_of cl query) cl False = (h, ind)" "h < unat (cl_M cl)"
    and "next_valid (SelectCutoff cl) (unat (NextHintIndex cl)) = Some j" "j + 1 < unat (cl_M cl) + unat (cl_M cl) div 2"
    and "encZeroNext cl < length (encZeroCache cl)" "uint rando < uint (mod_value (he_q (env_C V)))" "\<bar>sint noise\<bar> \<le> D"
  shows "\<exists>cl'. answered V query flip rando noise cl (sv_DB (env_sv V) ! unat query) cl' \<and>
    client_ok (env_C V) s (env_aes V) (entry (env_sv V)) E cl' \<and> cl_PartNum cl' = cl_PartNum cl \<and>
    cl_PartSize cl' = cl_PartSize cl \<and> encZeroCache cl' = encZeroCache cl \<and> encZeroNext cl' = encZeroNext cl + 1"
proof -
  let ?C = "env_C V"
  have ok: "client_ok ?C s (env_aes V) (entry (env_sv V)) E cl" and m: "matching ?C (env_R V) (env_sv V) cl"
    and d: "decrypts_to_phase ?C s (env_decrypt V)" "transfers_chosen (env_ot V)"
    and z: "\<And>i. i < length (encZeroCache cl) \<Longrightarrow> encodes ?C s (encZeroCache cl ! i) (unat (cl_PartSize cl) - 1) 0 E1"
    and b: "2 * uint (mod_value (gamma (env_R V))) * (E + (t_of ?C + 1) div 2 + E1 + t_of ?C * (D + 13))
       \<le> (uint (mod_value (gamma (env_R V))) - 3) * q_of ?C"
    using assms(1) by (simp_all add: ready_def Let_def)
  show ?thesis
    using online_query_result[OF ok m assms(2-7) z[OF assms(7)] d assms(8,9) b] unfolding answered_def by blast
qed

lemma ready_last_backup:
  assumes "ready V s E E1 D cl" "unat query < unat (cl_PartNum cl) * unat (cl_PartSize cl)"
    and "find_hint (env_aes V) query (queryPartNum_of cl query) (queryOffset_of cl query) cl False = (h, ind)" "h < unat (cl_M cl)"
    and "next_valid (SelectCutoff cl) (unat (NextHintIndex cl)) = Some j" "unat (cl_M cl) + unat (cl_M cl) div 2 \<le> j + 1"
    and "encZeroNext cl < length (encZeroCache cl)" "uint rando < uint (mod_value (he_q (env_C V)))" "\<bar>sint noise\<bar> \<le> D"
  shows "online_query (env_C V) (env_aes V) (env_R V) (env_sv V) (env_decrypt V) (env_ot V) (mod_value (he_q (env_C V)))
    query flip rando noise cl = None"
proof -
  let ?C = "env_C V"
  have ok: "client_ok ?C s (env_aes V) (entry (env_sv V)) E cl" and m: "matching ?C (env_R V) (env_sv V) cl"
    and d: "decrypts_to_phase ?C s (env_decrypt V)" "transfers_chosen (env_ot V)"
    and z: "\<And>i. i < length (encZeroCache cl) \<Longrightarrow> encodes ?C s (encZeroCache cl ! i) (unat (cl_PartSize cl) - 1) 0 E1"
    and b: "2 * uint (mod_value (gamma (env_R V))) * (E + (t_of ?C + 1) div 2 + E1 + t_of ?C * (D + 13))
       \<le> (uint (mod_value (gamma (env_R V))) - 3) * q_of ?C"
    using assms(1) by (simp_all add: ready_def Let_def)
  show ?thesis
    using online_query_last_backup[OF ok m assms(2-6) assms(7) z[OF assms(7)] d assms(8,9) b] .
qed

lemma answered_step:
  assumes "ready V s E E1 D cl" "unat query < unat (cl_PartNum cl) * unat (cl_PartSize cl)"
    and "uint rando < uint (mod_value (he_q (env_C V)))" "\<bar>sint noise\<bar> \<le> D" "answered V query flip rando noise cl r cl'"
  shows "r = sv_DB (env_sv V) ! unat query \<and> ready V s E E1 D cl' \<and> encZeroNext cl' = encZeroNext cl + 1 \<and>
    cl_PartNum cl' = cl_PartNum cl \<and> cl_PartSize cl' = cl_PartSize cl \<and> encZeroCache cl' = encZeroCache cl \<and>
    encZeroNext cl < length (encZeroCache cl)"
proof -
  let ?C = "env_C V"
  have ok: "client_ok ?C s (env_aes V) (entry (env_sv V)) E cl" and m: "matching ?C (env_R V) (env_sv V) cl"
    using assms(1) by (simp_all add: ready_def Let_def)
  obtain h ind j where I: "find_hint (env_aes V) query (queryPartNum_of cl query) (queryOffset_of cl query) cl False = (h, ind)"
    "h < unat (cl_M cl)" "next_valid (SelectCutoff cl) (unat (NextHintIndex cl)) = Some j"
    "j + 1 < unat (cl_M cl) + unat (cl_M cl) div 2" "encZeroNext cl < length (encZeroCache cl)"
    using completed_query_inv[OF assms(5)[unfolded answered_def] ok] by metis
  obtain cl'' where R: "answered V query flip rando noise cl (sv_DB (env_sv V) ! unat query) cl''"
    "client_ok ?C s (env_aes V) (entry (env_sv V)) E cl''" "cl_PartNum cl'' = cl_PartNum cl" "cl_PartSize cl'' = cl_PartSize cl"
    "encZeroCache cl'' = encZeroCache cl" "encZeroNext cl'' = encZeroNext cl + 1"
    using ready_answers[OF assms(1,2) I assms(3,4)] by blast
  have "r = sv_DB (env_sv V) ! unat query" "cl'' = cl'" using R(1) assms(5) by (simp_all add: answered_def)
  then show ?thesis using R I(5) assms(1) by (simp add: ready_def matching_def Let_def)
qed

lemma queries_invariant:
  assumes "queries V D cl tr cl'" "ready V s E E1 D cl"
  shows "ready V s E E1 D cl' \<and> (\<forall>(query, r) \<in> set tr. r = sv_DB (env_sv V) ! unat query) \<and>
    encZeroNext cl' = encZeroNext cl + length tr \<and> cl_PartNum cl' = cl_PartNum cl \<and> cl_PartSize cl' = cl_PartSize cl \<and>
    encZeroCache cl' = encZeroCache cl \<and> (tr \<noteq> [] \<longrightarrow> encZeroNext cl' \<le> length (encZeroCache cl))"
  using assms
proof (induction rule: queries.induct)
  case (step cl tr cl1 query rando noise flip r cl2)
  then have IH: "ready V s E E1 D cl1" "cl_PartNum cl1 = cl_PartNum cl" "cl_PartSize cl1 = cl_PartSize cl"
    "encZeroNext cl1 = encZeroNext cl + length tr" "encZeroCache cl1 = encZeroCache cl"
    "\<forall>(query, r) \<in> set tr. r = sv_DB (env_sv V) ! unat query" by auto
  show ?case
    using answered_step[OF IH(1) _ step.hyps(3-5)] step.hyps(2) IH by (auto simp: IH(2,3))
qed simp

end
