(* ===== verification/Protocol.thy ===== *)
theory Protocol
  imports Session
begin

text \<open>
  The protocol end to end: the server encrypts its database, the client runs the offline phase
  and caches encryptions of zero, and is then ready for queries.
\<close>

text \<open>What the encryptor is used for: coefficient \<open>k\<close> of the result encodes coefficient \<open>k\<close> of the plaintext.\<close>

definition encrypts :: "he_context \<Rightarrow> secret \<Rightarrow> (nat \<Rightarrow> u64 list \<Rightarrow> ciphertext) \<Rightarrow> int \<Rightarrow> bool" where
  "encrypts C s encrypt E \<longleftrightarrow> (\<forall>i plain k. length plain \<le> he_degree C \<longrightarrow> k < length plain \<longrightarrow>
     encodes C s (encrypt i plain) k (uint (plain ! k)) E)"

lemma encryptsD:
  "encrypts C s encrypt E \<Longrightarrow> length plain \<le> he_degree C \<Longrightarrow> k < length plain \<Longrightarrow>
    encodes C s (encrypt i plain) k (uint (plain ! k)) E"
  by (simp add: encrypts_def)

subsection \<open>Encrypting the database\<close>

lemma partition_slice_eq:
  assumes "wf_server sv" "i < unat (sv_PartNum sv)"
  shows "partition_slice sv i = Some (part_slice (unat (sv_PartSize sv)) (sv_DB sv) i)"
proof -
  let ?P = "unat (sv_PartNum sv)" and ?S = "unat (sv_PartSize sv)"
  have lt: "?P * ?S < 2 ^ 32" "?P * ?S \<le> length (sv_DB sv)" using assms(1) by (simp_all add: wf_server_def)
  have m: "unat (of_nat j * sv_PartSize sv :: u32) = j * ?S" if "j \<le> ?P" for j
  proof -
    have "j * ?S \<le> ?P * ?S" using that by (rule mult_right_mono) simp
    then have "j * ?S < 2 ^ 32" using lt(1) by (rule le_less_trans)
    moreover have "unat (of_nat j :: u32) = j"
      by (rule unat_of_nat_u32) (use that unat_less_exp[of "sv_PartNum sv"] in simp)
    ultimately show ?thesis using unat_mult_no_overflow[of "of_nat j" "sv_PartSize sv"] by simp
  qed
  have "(i + 1) * ?S \<le> ?P * ?S" using assms(2) by (intro mult_right_mono) auto
  then have le: "(i + 1) * ?S \<le> length (sv_DB sv)" using lt(2) by simp
  have d: "(i + 1) * ?S - i * ?S = ?S" by simp
  have mi: "unat (of_nat i * sv_PartSize sv) = i * ?S" "unat (of_nat (i + 1) * sv_PartSize sv) = (i + 1) * ?S"
    using m[of i] m[of "i + 1"] assms(2) by (simp_all only: less_imp_le Suc_leI Suc_eq_plus1[symmetric])
  show ?thesis
    unfolding partition_slice_def Let_def part_slice_def mi d if_P[OF le] by (simp add: mult.commute)
qed

lemma preprocessDatabase_result:
  assumes sv: "wf_server sv" and C: "wf_context C" and deg: "unat (sv_PartSize sv) \<le> he_degree C"
    and t: "sv_plainModulus sv = mod_value (he_t C)" and enc: "encrypts C s encrypt E"
  shows "\<exists>db. preprocessDatabase C encrypt sv = Some (Inr (sv\<lparr>encryptedDB := db\<rparr>)) \<and> length db = unat (sv_PartNum sv) \<and>
    (\<forall>k < unat (sv_PartNum sv). \<forall>x < unat (sv_PartSize sv). encodes C s (db ! k) x (entry sv k x) E)"
proof -
  let ?P = "unat (sv_PartNum sv)" and ?S = "unat (sv_PartSize sv)"
  let ?sl = "part_slice ?S (sv_DB sv)"
  let ?p = "map (\<lambda>i. map (reduce (he_t C)) (?sl i)) [0..<?P]"
  let ?db = "map (\<lambda>i. encrypt i (?p ! i)) [0..<?P]"
  have lb: "k * ?S + x < length (sv_DB sv)" if "k < ?P" "x < ?S" for k x
    using partition_index(1)[OF sv that] .
  have len: "length (?sl k) = ?S" if "k < ?P" for k
  proof (cases "?S")
    case (Suc n)
    then have "k * ?S + ?S \<le> length (sv_DB sv)" using lb[OF that, of n] by simp
    then show ?thesis by (simp add: part_slice_def mult.commute)
  qed (simp add: part_slice_def)
  have those: "those (map (partition_slice sv) [0..<?P]) = Some (map ?sl [0..<?P])"
    by (rule those_map_Some) (simp add: partition_slice_eq[OF sv])
  have "map (encode_polynomial C) (map ?sl [0..<?P]) = map (\<lambda>i. Inr (map (reduce (he_t C)) (?sl i))) [0..<?P]"
    using deg len by (simp add: encode_polynomial_def)
  then have "sum_those (map (encode_polynomial C) (map ?sl [0..<?P])) = Inr ?p"
    by (simp only: sum_those_Inr)
  then have "preprocessDatabase C encrypt sv = Some (Inr (sv\<lparr>encryptedDB := ?db\<rparr>))"
    using deg those by (simp add: preprocessDatabase_def)
  moreover have "encodes C s (?db ! k) x (entry sv k x) E" if "k < ?P" "x < ?S" for k x
  proof -
    let ?v = "sv_DB sv ! (k * ?S + x)"
    have v: "?p ! k ! x = reduce (he_t C) ?v"
      using that len[OF that(1)] lb[OF that] by (simp add: part_slice_def mult.commute)
    have "?v < mod_value (he_t C)"
      using sv lb[OF that] by (simp add: wf_server_def list_all_length t)
    then have "uint (reduce (he_t C) ?v) = uint ?v"
      using reduce_correct[OF wf_contextD(2)[OF C], of ?v] by (simp add: word_less_def)
    then show ?thesis
      using encryptsD[OF enc, of "?p ! k" x k] that len[OF that(1)] deg v by (simp add: entry_def)
  qed
  ultimately show ?thesis by (intro exI[of _ ?db]) simp
qed

subsection \<open>Caching encryptions of zero\<close>

lemma precomputeEncZeros_result:
  assumes "wf_context C" "0 < unat (cl_PartSize cl)" "unat (cl_PartSize cl) \<le> he_degree C" "encrypts C s encrypt E"
  shows "\<exists>cache. precomputeEncZeros C encrypt n cl = Inr (cl\<lparr>encZeroCache := cache, encZeroNext := 0\<rparr>) \<and>
    length cache = n \<and> (\<forall>i < n. encodes C s (cache ! i) (unat (cl_PartSize cl) - 1) 0 E)"
proof -
  let ?S = "unat (cl_PartSize cl)" and ?z = "reduce (he_t C) 0"
  have "uint ?z = 0" using reduce_correct[OF wf_contextD(2)[OF assms(1)], of 0] by simp
  then have z: "?z = 0" by (simp only: word_uint_eq_iff unsigned_0)
  then have e: "encode_polynomial C (replicate ?S 0) = Inr (replicate ?S 0)"
    using assms(3) by (simp add: encode_polynomial_def)
  have "encodes C s (encrypt i (replicate ?S 0)) (?S - 1) 0 E" for i
    using encryptsD[OF assms(4), of "replicate ?S 0" "?S - 1" i] assms(2,3) by simp
  then show ?thesis
    by (intro exI[of _ "map (\<lambda>i. encrypt i (replicate ?S 0)) [0..<n]"]) (simp add: precomputeEncZeros_def e)
qed

subsection \<open>Ready for queries\<close>

text \<open>
  Set-up as both programs run it: \<open>enc0\<close> encrypts the zeros the parities start from, \<open>encrypt\<close> the
  plaintexts, first the partitions and then the \<open>n\<close> zeros of the cache.
\<close>

definition set_up ::
  "environment \<Rightarrow> nth_element \<Rightarrow> (nat \<Rightarrow> ciphertext) \<Rightarrow> (nat \<Rightarrow> u64 list \<Rightarrow> ciphertext) \<Rightarrow> nat \<Rightarrow> client
     \<Rightarrow> client outcome" where
  "set_up V ne enc0 encrypt n cl =
     (case preprocessDatabase (env_C V) encrypt (env_sv V) of
        None \<Rightarrow> None
      | Some (Inl e) \<Rightarrow> Some (Inl e)
      | Some (Inr sv) \<Rightarrow> map_option (precomputeEncZeros (env_C V) (\<lambda>i. encrypt (unat (sv_PartNum sv) + i)) n)
          (Offline (env_C V) (env_aes V) ne enc0 (encryptedDB sv) cl))"

text \<open>The noise of a backup after the offline phase: a start and one database ciphertext per partition.\<close>

definition backup_noise :: "client \<Rightarrow> int \<Rightarrow> int" where
  "backup_noise cl E = E + int (unat (cl_PartNum cl)) * E"

text \<open>
  The assumptions on parameters and the library: both phases rest on them, and on \<open>dummies_hit\<close>, without
  which the search for the extra partitions does not end.
\<close>

definition library_assumptions :: "environment \<Rightarrow> secret \<Rightarrow> (nat \<Rightarrow> ciphertext) \<Rightarrow>
    (nat \<Rightarrow> u64 list \<Rightarrow> ciphertext) \<Rightarrow> int \<Rightarrow> int \<Rightarrow> client \<Rightarrow> bool" where
  "library_assumptions V s enc0 encrypt E D cl \<longleftrightarrow> (let C = env_C V; g = uint (mod_value (gamma (env_R V))) in
     wf_context C \<and> matching C (env_R V) (env_sv V) cl \<and>
     encrypts C s encrypt E \<and> (\<forall>i. encodes C s (enc0 i) (unat (cl_PartSize cl) - 1) 0 E) \<and>
     decrypts_to_phase C s (env_decrypt V) \<and> transfers_chosen (env_ot V) \<and>
     2 * g * (backup_noise cl E + (t_of C + 1) div 2 + E + t_of C * (D + 13)) \<le> (g - 3) * q_of C)"

definition extras_exist :: "block_cipher \<Rightarrow> nth_element \<Rightarrow> client \<Rightarrow> bool" where
  "extras_exist aes ne cl \<longleftrightarrow>
     dummies_hit aes cl (\<lambda>h. fst (FindCutoff ne (select_values aes (unat (cl_PartNum cl)) h) (unat (cl_PartNum cl))))"

definition protocol_assumptions :: "environment \<Rightarrow> secret \<Rightarrow> nth_element \<Rightarrow> (nat \<Rightarrow> ciphertext) \<Rightarrow>
    (nat \<Rightarrow> u64 list \<Rightarrow> ciphertext) \<Rightarrow> int \<Rightarrow> int \<Rightarrow> client \<Rightarrow> bool" where
  "protocol_assumptions V s ne enc0 encrypt E D cl \<longleftrightarrow>
     library_assumptions V s enc0 encrypt E D cl \<and> extras_exist (env_aes V) ne cl"

lemma encodes_noise_nonneg: "encodes C s ct k m E \<Longrightarrow> 0 \<le> E"
  unfolding encodes_def by (meson abs_ge_zero order_trans)


lemma client_ok_cache:
  "client_ok C s aes db E (cl\<lparr>encZeroCache := cache, encZeroNext := n\<rparr>) = client_ok C s aes db E cl"
  by (simp add: client_ok_def wf_client_def dummy_ok_def hint_ok_def backup_ok_def split_sum_def evenly_split_def
      indicator_def Let_def)

context nth_element_spec
begin

lemma set_up_ready:
  assumes "wf_client cl" "dummy_ok aes cl" "env_aes V = aes" and A: "protocol_assumptions V s ne enc0 encrypt E D cl"
  shows "\<exists>cl'. set_up V ne enc0 encrypt n cl = Some (Inr cl') \<and> ready V s (backup_noise cl E) E D cl' \<and>
    encZeroNext cl' = 0 \<and> length (encZeroCache cl') = n \<and> cl_PartNum cl' = cl_PartNum cl \<and> cl_PartSize cl' = cl_PartSize cl"
proof -
  let ?C = "env_C V" and ?P = "unat (cl_PartNum cl)" and ?S = "unat (cl_PartSize cl)"
  have C: "wf_context ?C" and m: "matching ?C (env_R V) (env_sv V) cl" and enc: "encrypts ?C s encrypt E"
    and z: "\<And>i. encodes ?C s (enc0 i) (?S - 1) 0 E" and d: "decrypts_to_phase ?C s (env_decrypt V)" "transfers_chosen (env_ot V)"
    and hit: "dummies_hit aes cl (\<lambda>h. fst (FindCutoff ne (select_values aes ?P h) ?P))"
    and b: "2 * uint (mod_value (gamma (env_R V))) * (backup_noise cl E + (t_of ?C + 1) div 2 + E + t_of ?C * (D + 13))
       \<le> (uint (mod_value (gamma (env_R V))) - 3) * q_of ?C"
    using A assms(3) by (simp_all add: protocol_assumptions_def library_assumptions_def extras_exist_def Let_def)
  have M: "wf_server (env_sv V)" "sv_PartNum (env_sv V) = cl_PartNum cl" "sv_PartSize (env_sv V) = cl_PartSize cl"
    "sv_plainModulus (env_sv V) = mod_value (he_t ?C)" "?S \<le> he_degree ?C"
    using m by (simp_all add: matching_def)
  have S: "0 < ?S" using wf_client_PartSize[OF assms(1)] by blast
  obtain db where db: "preprocessDatabase ?C encrypt (env_sv V) = Some (Inr ((env_sv V)\<lparr>encryptedDB := db\<rparr>))"
    "\<And>k x. k < ?P \<Longrightarrow> x < ?S \<Longrightarrow> encodes ?C s (db ! k) x (entry (env_sv V) k x) E"
    using preprocessDatabase_result[OF M(1) C _ M(4) enc] M(2,3,5) by auto
  obtain cl1 where off: "Offline ?C aes ne enc0 db cl = Some cl1"
    "client_ok ?C s aes (entry (env_sv V)) (E + int ?P * E) cl1"
    and size: "cl_PartNum cl1 = cl_PartNum cl" "cl_PartSize cl1 = cl_PartSize cl" "cl_M cl1 = cl_M cl"
    using Offline_establishes[where encDB = db and ?enc0.0 = enc0, OF assms(1,2) hit z db(2) M(5) encodes_noise_nonneg[OF z]] by auto
  have "encrypts ?C s (\<lambda>i. encrypt (?P + i)) E" using enc by (simp add: encrypts_def)
  then obtain cache where cache: "precomputeEncZeros ?C (\<lambda>i. encrypt (?P + i)) n cl1 = Inr (cl1\<lparr>encZeroCache := cache, encZeroNext := 0\<rparr>)"
    "length cache = n" "\<forall>i < n. encodes ?C s (cache ! i) (?S - 1) 0 E"
    using precomputeEncZeros_result[OF C, of cl1 s "\<lambda>i. encrypt (?P + i)" E n] S M(5) size(2) by auto
  let ?cl2 = "cl1\<lparr>encZeroCache := cache, encZeroNext := 0\<rparr>"
  have "matching ?C (env_R V) (env_sv V) ?cl2" using m by (simp add: matching_def size)
  then have "ready V s (backup_noise cl E) E D ?cl2"
    using off(2) d b cache(2,3) assms(3) by (simp add: ready_def Let_def client_ok_cache backup_noise_def size)
  then show ?thesis
    using off(1) db(1) cache(1,2) assms(3) by (intro exI[of _ ?cl2]) (simp add: set_up_def size M(2))
qed

text \<open>Without such indices the set-up does not end.\<close>

lemma set_up_diverges:
  assumes "wf_client cl" "dummy_ok (env_aes V) cl" "library_assumptions V s enc0 encrypt E D cl"
    and "\<not> extras_exist (env_aes V) ne cl"
  shows "set_up V ne enc0 encrypt n cl = None"
proof -
  let ?C = "env_C V"
  have C: "wf_context ?C" and m: "matching ?C (env_R V) (env_sv V) cl" and enc: "encrypts ?C s encrypt E"
    using assms(3) by (simp_all add: library_assumptions_def Let_def)
  have M: "wf_server (env_sv V)" "unat (sv_PartSize (env_sv V)) \<le> he_degree ?C" "sv_plainModulus (env_sv V) = mod_value (he_t ?C)"
    using m by (simp_all add: matching_def)
  obtain db where db: "preprocessDatabase ?C encrypt (env_sv V) = Some (Inr ((env_sv V)\<lparr>encryptedDB := db\<rparr>))"
    using preprocessDatabase_result[OF M(1) C M(2,3) enc] by auto
  have "Offline ?C (env_aes V) ne enc0 db cl = None"
    using Offline_hits[OF assms(1,2)] assms(4) unfolding extras_exist_def by (metis option.exhaust)
  then show ?thesis by (simp add: set_up_def db)
qed

end

end
