(* ===== verification/Example.thy ===== *)
theory Example
  imports Protocol
begin

text \<open>
  A small concrete instance of client, server and parameters. It is used to show that the
  hypotheses of the protocol theorems can hold together: two partitions of two entries,
  four hints, ring degree 2, \<open>q = 10007\<close>, \<open>t = 17\<close>, \<open>gamma = 97\<close>.
\<close>

definition ex_operand :: "u64 \<Rightarrow> u64 \<Rightarrow> MultiplyUint64Operand" where
  "ex_operand x m = \<lparr>op_operand = x, op_quotient = word_of_int (uint x * 2 ^ 64 div uint m)\<rparr>"

definition ex_C :: he_context where
  "ex_C = \<lparr>he_degree = 2, he_q = sample_modulus 10007, he_t = sample_modulus 17,
     coeff_div_plain_modulus = ex_operand 588 10007, coeff_modulus_mod_plain_modulus = 11,
     plain_upper_half_threshold = 9\<rparr>"

definition ex_R :: rns_tool where
  "ex_R = \<lparr>rns_q = sample_modulus 10007, rns_t = sample_modulus 17, gamma = sample_modulus 97,
     inv_punctured_q = [ex_operand 1 10007], q_to_t_gamma_matrix = [1, 1],
     prod_t_gamma_mod_q = ex_operand 1649 10007,
     neg_inv_q_mod_t_gamma = [ex_operand 3 17, ex_operand 6 97],
     inv_gamma_mod_t = ex_operand 10 17\<rparr>"

text \<open>The block cipher tells the three uses apart by the tag in bytes 6 and 7 of its input.\<close>

definition ex_aes :: block_cipher where
  "ex_aes blk =
     (if blk ! 6 = 1 then concat (replicate 4 [blk ! 4 + 1, 0, 0, 0x80])
      else concat (replicate 4 [0, 0, 1, 0]))"

definition ex_server :: server where
  "ex_server = \<lparr>sv_DB = [3, 5, 7, 11], sv_N = 4, sv_B = 1, sv_EntrySize = 8, sv_PartNum = 2, sv_PartSize = 2,
     sv_lambda = 30, sv_M = 4, sv_plainModulus = 17, encryptedDB = []\<rparr>"

definition ex_client :: client where
  "ex_client = \<lparr>HintID = replicate 4 0, ExtraPart = replicate 4 0, ExtraOffset = replicate 4 0, SelectCutoff = replicate 8 0,
     IndicatorBit = [0], ciParity = [], prfDummyIndices = replicate 8 0, dummyIdxUsed = 0, prfSelectVals = replicate 8 0,
     cl_bvec = [False, False], cl_Svec = [0, 0], cl_N = 4, cl_B = 1, cl_PartNum = 2, cl_PartSize = 2, cl_lambda = 30,
     cl_M = 4, LastHintID = 0, Parity = replicate 8 0, DBPart = [0, 0], Response_b0 = [0], Response_b1 = [0],
     cl_tmpEntry = [0], cl_plainModulus = 17, NextHintIndex = 0, BackupUsedAgain = 0, encZeroCache = [], encZeroNext = 0\<rparr>"

definition ex_zero :: ciphertext where "ex_zero = \<lparr>polynomial_count = 2, ct_data = [0, 0, 0, 0]\<rparr>"

definition ex_secret :: secret where "ex_secret = (\<lambda>_. 1)"

definition ex_env :: environment where
  "ex_env = \<lparr>env_C = ex_C, env_aes = ex_aes, env_R = ex_R, env_sv = ex_server,
     env_decrypt = (\<lambda>ct. map (\<lambda>k. word_of_int (phase ex_C ex_secret ct k)) [0..<2]),
     env_ot = (\<lambda>(a, b) c. if c then b else a)\<rparr>"

lemma ex_C_wf: "wf_context ex_C"
  by (simp add: wf_context_def ex_C_def sample_modulus_def ex_operand_def wf_modulus_def wf_operand_def residue_def
      uint_word_of_int exI[of _ 1])

lemma ex_R_wf: "wf_rns_tool ex_R"
  by (simp add: wf_rns_tool_def ex_R_def sample_modulus_def ex_operand_def wf_modulus_def wf_operand_def residue_def
      neg_inverse_operand_def uint_word_of_int)

lemma ex_match: "matching ex_C ex_R ex_server ex_client"
  using ex_R_wf by (simp add: matching_def wf_server_def ex_C_def ex_R_def ex_server_def ex_client_def sample_modulus_def)

lemma ex_client_wf: "wf_client ex_client"
  unfolding wf_client_def by (intro conjI exI[of _ 1]) (simp_all add: ex_client_def)

lemma ex_client_dummy_ok: "dummy_ok ex_aes ex_client"
  by (simp add: dummy_ok_def ex_client_def)

lemma ex_cutoff:
  assumes "h < 4"
  shows "fst (FindCutoff std_nth_element (select_values ex_aes 2 h) 2) = 0x80000002"
proof -
  have "h \<in> set [0..<4]" using assms by simp
  moreover have "list_all (\<lambda>h. fst (FindCutoff std_nth_element (select_values ex_aes 2 h) 2) = 0x80000002) [0..<4]"
    by code_simp
  ultimately show ?thesis by (simp only: list_all_iff)
qed

lemma ex_dummies_hit:
  "dummies_hit ex_aes ex_client (\<lambda>h. fst (FindCutoff std_nth_element
     (select_values ex_aes (unat (cl_PartNum ex_client)) h) (unat (cl_PartNum ex_client))))"
proof -
  have d: "dummy_part ex_aes ex_client 1 = 1" by code_simp
  have n: "list_all (\<lambda>h. \<not> PRF4Select ex_aes (of_nat h) 1 0x80000002) [0..<4]" by code_simp
  show ?thesis
    unfolding dummies_hit_def
  proof (intro allI impI)
    fix h assume "h < unat (cl_M ex_client)"
    then have h: "h < 4" "h \<in> set [0..<4]" by (simp_all add: ex_client_def)
    have "\<not> PRF4Select ex_aes (of_nat h) (ucast (dummy_part ex_aes ex_client 1)) 0x80000002"
      unfolding d using n h(2) by (simp only: list_all_iff) simp
    then show "\<exists>u. \<not> PRF4Select ex_aes (of_nat h) (ucast (dummy_part ex_aes ex_client u))
        (fst (FindCutoff std_nth_element (select_values ex_aes (unat (cl_PartNum ex_client)) h) (unat (cl_PartNum ex_client))))"
      using ex_cutoff[OF h(1)] by (intro exI[of _ 1]) (simp add: ex_client_def)
  qed
qed

lemma ex_zero_encodes: "k < 2 \<Longrightarrow> encodes ex_C ex_secret ex_zero k 0 0"
proof -
  assume k: "k < 2"
  have "wf_ct ex_C ex_zero"
    by (simp add: wf_ct_def wf_polys_def ex_zero_def ex_C_def residue_def sample_modulus_def)
  moreover have "phase ex_C ex_secret ex_zero k = 0"
  proof -
    have "coeff 2 [0, 0, 0, 0] j i = 0" if "j < 2" "i < 2" for j i
      using that by (auto simp: coeff_def less_2_cases_iff)
    then have "nmul 2 (coeff 2 [0, 0, 0, 0] 1) ex_secret k = 0" "coeff 2 [0, 0, 0, 0] 0 k = 0"
      using k by (simp_all add: nmul_def)
    then show ?thesis by (simp add: phase_def ex_zero_def ex_C_def)
  qed
  ultimately show ?thesis using ex_C_wf k by (simp add: encodes_def ex_C_def exI[of _ 0])
qed

lemma ex_sizes: "unat (cl_PartNum ex_client) = 2" "unat (cl_PartSize ex_client) = 2" "unat (cl_M ex_client) = 4"
    "he_degree ex_C = 2" "t_of ex_C = 17" "q_of ex_C = 10007"
  by (simp_all add: ex_client_def ex_C_def sample_modulus_def)

text \<open>The set-up with these parameters: every encryption is noise-free except for rounding.\<close>

definition ex_encryption :: "nat \<Rightarrow> u64 list \<Rightarrow> ciphertext" where
  "ex_encryption i p = (case add_plain ex_C ex_zero p of Some (Inr c) \<Rightarrow> c | _ \<Rightarrow> ex_zero)"

lemma ex_encrypts: "encrypts ex_C ex_secret ex_encryption 9"
  unfolding encrypts_def
proof (intro allI impI)
  fix i k and plain :: "u64 list" assume p: "length plain \<le> he_degree ex_C" "k < length plain"
  obtain c where c: "add_plain ex_C ex_zero plain = Some (Inr c)"
      "encodes ex_C ex_secret c k (0 + uint (plain ! k)) (0 + (t_of ex_C + 1) div 2)"
    using encodes_add_plain[OF ex_zero_encodes p] p by (auto simp: ex_sizes)
  then show "encodes ex_C ex_secret (ex_encryption i plain) k (uint (plain ! k)) 9"
    by (simp add: ex_encryption_def ex_sizes)
qed

lemma ex_decrypts: "decrypts_to_phase ex_C ex_secret (env_decrypt ex_env)"
proof -
  have p: "0 \<le> phase ex_C ex_secret ct k" "phase ex_C ex_secret ct k < 10007" for ct k
    by (simp_all add: phase_def ex_sizes)
  have "phase ex_C ex_secret ct k mod 2 ^ 64 = phase ex_C ex_secret ct k" for ct k
    by (rule mod_pos_pos_trivial[OF p(1) less_trans[OF p(2)]]) simp
  then show ?thesis by (simp add: decrypts_to_phase_def ex_env_def ex_sizes uint_word_of_int)
qed

lemma ex_assumptions:
  "protocol_assumptions ex_env ex_secret std_nth_element (\<lambda>_. ex_zero) ex_encryption 9 4 ex_client"
proof -
  have E: "env_C ex_env = ex_C" "env_R ex_env = ex_R" "env_sv ex_env = ex_server" "env_aes ex_env = ex_aes"
    "transfers_chosen (env_ot ex_env)"
    by (simp_all add: ex_env_def transfers_chosen_def)
  have "encodes ex_C ex_secret ex_zero (unat (cl_PartSize ex_client) - 1) 0 9"
    unfolding ex_sizes by (rule encodes_mono[OF ex_zero_encodes]) simp_all
  moreover have "uint (mod_value (gamma ex_R)) = 97" by (simp add: ex_R_def sample_modulus_def)
  ultimately show ?thesis
    unfolding protocol_assumptions_def library_assumptions_def extras_exist_def E Let_def
    by (intro conjI allI ex_C_wf ex_match ex_encrypts ex_decrypts ex_dummies_hit E)
      (simp_all add: ex_sizes backup_noise_def)
qed

subsection \<open>A run\<close>

text \<open>One evaluation of the set-up: the search and the backups for query 2, and what query 0 will find.\<close>

lemma ex_search:
  "map_option (map_sum id (\<lambda>cl. ((find_hint ex_aes 2 (queryPartNum_of cl 2) (queryOffset_of cl 2) cl False,
       next_valid (SelectCutoff cl) (unat (NextHintIndex cl)), unat (cl_M cl)),
       fst (find_hint ex_aes 0 (queryPartNum_of cl 0) (queryOffset_of cl 0) cl False), NextHintIndex cl, cl_M cl,
       SelectCutoff cl ! 4 \<noteq> 0, SelectCutoff cl ! 5 \<noteq> 0, cl_N cl, cl_plainModulus cl)))
     (set_up ex_env std_nth_element (\<lambda>_. ex_zero) ex_encryption 2 ex_client)
   = Some (Inr (((0, True), Some 4, 4), 0, 4, 4, True, True, 4, 17))"
  by code_simp

text \<open>The set-up succeeds and meets what a first query needs.\<close>

lemma ex_first_query:
  obtains cl1 where "set_up ex_env std_nth_element (\<lambda>_. ex_zero) ex_encryption 2 ex_client = Some (Inr cl1)"
    "ready ex_env ex_secret (backup_noise ex_client 9) 9 4 cl1"
    "unat (2 :: u32) < unat (cl_PartNum cl1) * unat (cl_PartSize cl1)"
    "find_hint (env_aes ex_env) 2 (queryPartNum_of cl1 2) (queryOffset_of cl1 2) cl1 False = (0, True)" "0 < unat (cl_M cl1)"
    "next_valid (SelectCutoff cl1) (unat (NextHintIndex cl1)) = Some 4" "4 + 1 < unat (cl_M cl1) + unat (cl_M cl1) div 2"
    "encZeroNext cl1 < length (encZeroCache cl1)" "uint (5 :: u64) < uint (mod_value (he_q (env_C ex_env)))"
    "cl_PartNum cl1 = 2" "cl_PartSize cl1 = 2"
proof -
  have aes: "env_aes ex_env = ex_aes" by (simp add: ex_env_def)
  obtain cl1 where cl1: "set_up ex_env std_nth_element (\<lambda>_. ex_zero) ex_encryption 2 ex_client = Some (Inr cl1)"
    "ready ex_env ex_secret (backup_noise ex_client 9) 9 4 cl1" "encZeroNext cl1 = 0" "length (encZeroCache cl1) = 2"
    "cl_PartNum cl1 = cl_PartNum ex_client" "cl_PartSize cl1 = cl_PartSize ex_client"
    using std.set_up_ready[OF ex_client_wf ex_client_dummy_ok aes ex_assumptions] by blast
  have "unat (2 :: u32) < unat (cl_PartNum cl1) * unat (cl_PartSize cl1)"
    by (simp add: cl1(5,6) ex_sizes)
  moreover have "uint (5 :: u64) < uint (mod_value (he_q (env_C ex_env)))"
    by (simp add: ex_env_def ex_sizes)
  moreover have "cl_PartNum cl1 = 2" "cl_PartSize cl1 = 2" by (simp_all add: cl1(5,6) ex_client_def)
  moreover have "find_hint ex_aes 2 (queryPartNum_of cl1 2) (queryOffset_of cl1 2) cl1 False = (0, True)"
    "next_valid (SelectCutoff cl1) (unat (NextHintIndex cl1)) = Some 4" "unat (cl_M cl1) = 4"
    using ex_search unfolding cl1(1) option.map map_sum.simps option.inject sum.inject prod.inject by blast+
  ultimately show thesis using that cl1(1-4) aes by simp
qed

lemma ex_run:
  obtains cl1 cl2 where "set_up ex_env std_nth_element (\<lambda>_. ex_zero) ex_encryption 2 ex_client = Some (Inr cl1)"
    "queries ex_env 4 cl1 [(2, 7)] cl2"
proof -
  obtain cl1 where c: "set_up ex_env std_nth_element (\<lambda>_. ex_zero) ex_encryption 2 ex_client = Some (Inr cl1)"
    "ready ex_env ex_secret (backup_noise ex_client 9) 9 4 cl1"
    and q: "unat (2 :: u32) < unat (cl_PartNum cl1) * unat (cl_PartSize cl1)"
    "find_hint (env_aes ex_env) 2 (queryPartNum_of cl1 2) (queryOffset_of cl1 2) cl1 False = (0, True)" "0 < unat (cl_M cl1)"
    "next_valid (SelectCutoff cl1) (unat (NextHintIndex cl1)) = Some 4" "4 + 1 < unat (cl_M cl1) + unat (cl_M cl1) div 2"
    "encZeroNext cl1 < length (encZeroCache cl1)" "uint (5 :: u64) < uint (mod_value (he_q (env_C ex_env)))"
    by (rule ex_first_query)
  have d: "sv_DB (env_sv ex_env) ! unat (2 :: u32) = 7" by (simp add: ex_env_def ex_server_def)
  have n: "\<bar>sint (- 3 :: u64)\<bar> \<le> 4" by simp
  obtain cl2 where a: "answered ex_env 2 True 5 (- 3) cl1 7 cl2"
    using ready_answers[OF c(2) q n, of True] unfolding d by blast
  have "queries ex_env 4 cl1 ([] @ [(2, 7)]) cl2"
    by (rule queries.step[OF queries.start q(1) q(7) n a])
  then show thesis using that c(1) by simp
qed

end
