(* ===== verification/Distributed.thy ===== *)
theory Distributed
  imports Client_Main Example
begin

text \<open>
  The two programs together: a query of the client program, sent over the connection, answered by
  the loop of the server program and transferred obliviously, is the query of theory Retrieval.
\<close>

lemma online_query_parts:
  assumes "answered V query flip rando noise cl r cl'"
  obtains h ind msg cl1 pair where
    "client_query (env_C V) (env_aes V) query flip rando (mod_value (he_q (env_C V))) cl = Some (Inr (Some (h, ind, msg, cl1)))"
    "onlineQuery Default (env_sv V) (env_decrypt V) (mod_value (he_q (env_C V))) noise (q_bvec msg) (q_Svec msg) (q_ct msg) = Some (Inr pair)"
    "decode_answer (env_R V) (env_ot V pair (resultBit ind flip)) rando (mod_value (he_q (env_C V))) = Some r"
    "refresh (env_C V) (env_aes V) h (queryPartNum_of cl1 query) (queryOffset_of cl1 query) r cl1 = Some (Inr cl')"
  using assms unfolding answered_def online_query_def
  by (auto simp: map_sum_Inr_iff split: option.splits sum.splits prod.splits)

text \<open>
  C10: A completed query of a client ready for queries, run over the connection: the client's message
  reaches the server, whose loop sends nothing back on the connection and hands exactly one pair of answers
  to the oblivious transfer; the word the client selects decodes to the result, and this result is
  the entry asked for.
\<close>

theorem query_over_the_wire:
  fixes st :: loop_state
  fixes V :: environment
  defines "C \<equiv> env_C V"
  defines "P \<equiv> sv_PartNum (env_sv V)" and "degree \<equiv> of_nat (he_degree C)" and "q \<equiv> mod_value (he_q C)"
  assumes "ready V s E E1 D cl" "unat query < unat (cl_PartNum cl) * unat (cl_PartSize cl)" "uint rando < uint q"
    and "\<bar>sint (noise (samples st))\<bar> \<le> D" "answered V query flip rando (noise (samples st)) cl r cl'"
    and "ls_server st = env_sv V" "delivers os" "delivers os'" "length parms_id = 4" "he_degree C \<le> 32768"
  shows "\<exists>h ind msg cl1 pair wire. client_query C (env_aes V) query flip rando q cl = Some (Inr (Some (h, ind, msg, cl1))) \<and>
    sends (send_query os (save_query parms_id degree) P msg) wire \<and>
    exchanges (serve_one os' (load_query known sample_c1 unzstd) noise (env_decrypt V) q st) wire [] (Continue (after st [pair])) \<and>
    decode_answer (env_R V) (env_ot V pair (resultBit ind flip)) rando q = Some (sv_DB (env_sv V) ! unat query) \<and>
    r = sv_DB (env_sv V) ! unat query"
proof -
  obtain h ind msg cl1 pair where
    cq: "client_query C (env_aes V) query flip rando q cl = Some (Inr (Some (h, ind, msg, cl1)))"
    and oq: "onlineQuery Default (env_sv V) (env_decrypt V) q (noise (samples st)) (q_bvec msg) (q_Svec msg) (q_ct msg) = Some (Inr pair)"
    and da: "decode_answer (env_R V) (env_ot V pair (resultBit ind flip)) rando q = Some r"
    unfolding C_def q_def by (rule online_query_parts[OF assms(9)])
  have ok: "client_ok C s (env_aes V) (entry (env_sv V)) E cl" and m: "matching C (env_R V) (env_sv V) cl"
    using assms(5) by (simp_all add: ready_def Let_def C_def)
  obtain h' ind' j where I: "find_hint (env_aes V) query (queryPartNum_of cl query) (queryOffset_of cl query) cl False = (h', ind')"
    "h' < unat (cl_M cl)" "encZeroNext cl < length (encZeroCache cl)"
    using completed_query_inv[OF assms(9)[unfolded answered_def] ok[unfolded C_def]] by metis
  have z: "encodes C s (encZeroCache cl ! encZeroNext cl) (unat (cl_PartSize cl) - 1) 0 E1"
    using assms(5) I(3) by (simp add: ready_def Let_def C_def)
  have rq: "uint rando < q_of C" using assms(7) by (simp add: q_def)
  have shape: "length (q_bvec msg) = unat P" "length (q_Svec msg) = unat P" "wf_ct C (q_ct msg)"
    using client_query_result[OF ok assms(6) I z rq, of flip] cq m by (auto simp: q_def P_def matching_def)
  have d: "unat degree = he_degree C" using assms(14) by (simp add: degree_def unat_of_nat take_bit_nat_eq_self)
  have w: "wire_query parms_id degree P (batch_of msg)"
    using shape assms(13,14) d by (simp add: wire_query_def valid_query_def batch_of_def wire_ct_def wf_ct_def wf_polys_def)
  have "answers_to noise (env_decrypt V) q (ls_server st) (samples st) (batch_of msg) = Some (Inr pair)"
    using oq by (simp add: answers_to_def batch_of_def assms(10))
  then have "exchanges (serve_one os' (load_query known sample_c1 unzstd) noise (env_decrypt V) q st)
      (query_wire (\<lambda>ct. ciphertext_image (store parms_id degree ct)) P (batch_of msg)) [] (Continue (after st [pair]))"
    using query_ct.serve_batch_one[of os' parms_id degree st "batch_of msg"] w wire_query_size[OF w] assms(12)
    by (simp add: wire_query_def P_def assms(10))
  moreover have "r = sv_DB (env_sv V) ! unat query"
    using answered_step[OF assms(5,6) assms(7)[unfolded q_def C_def] assms(8,9)] by blast
  ultimately show ?thesis using cq da send_query_message[OF assms(11) w] by blast
qed

definition ex_loop :: loop_state where
  "ex_loop = \<lparr>ls_server = ex_server, queryCount = 0, ot_sent = [], samples = 0\<rparr>"

theorem query_over_the_wire_witness:
  "\<exists>cl1 h ind msg cl2 pair wire. client_query ex_C ex_aes 2 True 5 10007 cl1 = Some (Inr (Some (h, ind, msg, cl2))) \<and>
    sends (send_query (\<lambda>i n. 1) (save_query [1, 2, 3, 4] 2) 2 msg) wire \<and>
    exchanges (serve_one (\<lambda>i n. int n) (load_query (\<lambda>_. True) (\<lambda>s n. []) Inr) (\<lambda>_. - 3) (env_decrypt ex_env) 10007 ex_loop)
      wire [] (Continue (after ex_loop [pair])) \<and>
    decode_answer ex_R (env_ot ex_env pair (resultBit ind True)) 5 10007 = Some 7"
proof -
  obtain cl1 where c: "ready ex_env ex_secret (backup_noise ex_client 9) 9 4 cl1"
    and q: "unat (2 :: u32) < unat (cl_PartNum cl1) * unat (cl_PartSize cl1)"
    "find_hint (env_aes ex_env) 2 (queryPartNum_of cl1 2) (queryOffset_of cl1 2) cl1 False = (0, True)" "0 < unat (cl_M cl1)"
    "next_valid (SelectCutoff cl1) (unat (NextHintIndex cl1)) = Some 4" "4 + 1 < unat (cl_M cl1) + unat (cl_M cl1) div 2"
    "encZeroNext cl1 < length (encZeroCache cl1)" "uint (5 :: u64) < uint (mod_value (he_q (env_C ex_env)))"
    by (rule ex_first_query)
  have n: "\<bar>sint (- 3 :: u64)\<bar> \<le> 4" by simp
  have d: "sv_DB ex_server ! unat (2 :: u32) = 7" by (simp add: ex_server_def)
  have V: "env_C ex_env = ex_C" "env_aes ex_env = ex_aes" "env_R ex_env = ex_R" "env_sv ex_env = ex_server" "sv_PartNum ex_server = 2"
    "mod_value (he_q ex_C) = 10007" "he_degree ex_C = 2" "ls_server ex_loop = ex_server"
    by (simp_all add: ex_env_def ex_server_def ex_C_def ex_loop_def)
  obtain cl2 where a: "answered ex_env 2 True 5 (- 3) cl1 (sv_DB (env_sv ex_env) ! unat (2 :: u32)) cl2"
    using ready_answers[OF c q n, of True] by blast
  have "length [1, 2, 3, 4 :: u64] = 4" by simp
  from query_over_the_wire[where noise = "\<lambda>_. - 3" and st = ex_loop and known = "\<lambda>_. True"
      and ?sample_c1.0 = "\<lambda>s n. []" and unzstd = Inr, OF c q(1,7) n a _ delivers_one_byte delivers_all this]
  show ?thesis unfolding V d by (intro exI[of _ cl1]) (simp del: split_paired_Ex)
qed

subsection \<open>Concrete messages\<close>

definition ex_query :: "ciphertext batch_query" where
  "ex_query = \<lparr>bq_bvec = [True, False], bq_Svec = [1, 0], bq_ciphertext = \<lparr>polynomial_count = 2, ct_data = [1, 2, 3, 4]\<rparr>\<rparr>"

definition ex_connection :: "bytes \<Rightarrow> connection" where
  "ex_connection bs = \<lparr>outgoing = [], incoming = bs, syscalls = 0, totalBytesSent = 0, totalBytesRecv = 0,
     phaseBytesSent = 0, phaseBytesRecv = 0\<rparr>"

lemma ex_query_wire: "wire_query [1, 2, 3, 4] 2 (sv_PartNum ex_server) ex_query"
  by (simp add: wire_query_def valid_query_def wire_ct_def ex_query_def ex_server_def)

lemma ex_query_answer: "\<exists>r. answers_to (\<lambda>_. 5) (\<lambda>_. [100, 200]) 10007 ex_server i ex_query = Some (Inr r)"
proof -
  let ?d = "\<lambda>_ :: ciphertext. [100, 200 :: u64]"
  have sv: "wf_server ex_server" using ex_match by (simp add: matching_def)
  have k: "k < unat (sv_PartNum ex_server) \<Longrightarrow> unat (bq_Svec ex_query ! k) < unat (sv_PartSize ex_server)" for k
    by (auto simp: ex_server_def ex_query_def less_2_cases_iff)
  have "2 * uint (sv_plainModulus ex_server) \<le> uint (10007 :: u64)" "uint (10007 :: u64) < 2 ^ 54"
    "unat (sv_PartSize ex_server) \<le> length (?d (bq_ciphertext ex_query))"
    "uint (?d (bq_ciphertext ex_query) ! (unat (sv_PartSize ex_server) - 1)) < 2 ^ 62"
    by (simp_all add: ex_server_def)
  from onlineQuery_result[where decrypt = ?d and noise = 5 and bvec = "bq_bvec ex_query" and c = "bq_ciphertext ex_query", OF sv k this]
  show ?thesis unfolding answers_to_def by blast
qed

lemma serve_answers_in_order_witness:
  "\<exists>rs c'. serve (\<lambda>i n. 1) (load_query (\<lambda>_. True) (\<lambda>s n. []) Inr) (\<lambda>_. 5) (\<lambda>_. [100, 200]) 10007 ex_loop
      (ex_connection (concat (map (query_wire (\<lambda>ct. ciphertext_image (store [1, 2, 3, 4] 2 ct)) 2) [ex_query]) @ 0xFF # []))
    = (Done (after ex_loop rs), c') \<and> outgoing c' = [] \<and> length rs = 1"
proof -
  obtain r where r: "answers_to (\<lambda>_. 5) (\<lambda>_. [100, 200]) 10007 ex_server 0 ex_query = Some (Inr r)"
    using ex_query_answer by blast
  have L: "ls_server ex_loop = ex_server" "samples ex_loop = 0" "sv_PartNum ex_server = 2" by (simp_all add: ex_loop_def ex_server_def)
  have "all_answers (\<lambda>_. 5) (\<lambda>_. [100, 200]) 10007 (ls_server ex_loop) (samples ex_loop) [ex_query] = Some [r]"
    by (simp add: L r)
  from serve_answers_in_order[OF delivers_one_byte _ this, of "[1, 2, 3, 4]" 2
      "ex_connection (concat (map (query_wire (\<lambda>ct. ciphertext_image (store [1, 2, 3, 4] 2 ct)) 2) [ex_query]) @ 0xFF # [])" "[]"
      "\<lambda>_. True" "\<lambda>s n. []" Inr]
  obtain c' where "serve (\<lambda>i n. 1) (load_query (\<lambda>_. True) (\<lambda>s n. []) Inr) (\<lambda>_. 5) (\<lambda>_. [100, 200]) 10007 ex_loop
      (ex_connection (concat (map (query_wire (\<lambda>ct. ciphertext_image (store [1, 2, 3, 4] 2 ct)) 2) [ex_query]) @ 0xFF # []))
    = (Done (after ex_loop [r]), c')" "outgoing c' = []"
    using ex_query_wire by (auto simp: L ex_connection_def)
  then show ?thesis by (intro exI[of _ "[r]"] exI[of _ c']) simp
qed

lemma single_query_discloses_both_witness:
  "\<exists>c' st' b0 b1. serve_one (\<lambda>i n. 1) (load_query (\<lambda>_. True) (\<lambda>s n. []) Inr) (\<lambda>_. 5) (\<lambda>_. [100, 200]) 10007 ex_loop
      (ex_connection (0x01 # bool_array_bytes [True, False] @ word_array_bytes 4 [1, 0 :: u32] @
         sized (ciphertext_image (store [1, 2, 3, 4] 2 (bq_ciphertext ex_query)))))
    = (Done (Continue st'), c') \<and> outgoing c' = word_array_bytes 8 [b0 :: u64] @ word_array_bytes 8 [b1 :: u64] \<and> ot_sent st' = []"
proof -
  obtain b0 b1 where r: "answers_to (\<lambda>_. 5) (\<lambda>_. [100, 200]) 10007 ex_server 0 ex_query = Some (Inr (b0, b1))"
    using ex_query_answer by fastforce
  let ?c = "ex_connection ((0x01 # bool_array_bytes (bq_bvec ex_query) @ word_array_bytes 4 (bq_Svec ex_query) @
         sized (ciphertext_image (store [1, 2, 3, 4] 2 (bq_ciphertext ex_query)))) @ [])"
  have L: "ls_server ex_loop = ex_server" "samples ex_loop = 0" "sv_B ex_server = 1" "ot_sent ex_loop = []"
    by (simp_all add: ex_loop_def ex_server_def)
  have "\<exists>c' st'. serve_one (\<lambda>i n. 1) (load_query (\<lambda>_. True) (\<lambda>s n. []) Inr) (\<lambda>_. 5) (\<lambda>_. [100, 200]) 10007 ex_loop ?c =
      (Done (Continue st'), c') \<and> outgoing c' = outgoing ?c @ word_array_bytes 8 [b0] @ word_array_bytes 8 [b1] \<and> ot_sent st' = ot_sent ex_loop"
    by (rule single_query_discloses_both[OF delivers_one_byte, where bq = ex_query and queryType = "0x01" and parms_id = "[1, 2, 3, 4]" and degree = 2 and rest = "[]"])
      (simp_all add: L ex_query_wire r ex_connection_def)
  then show ?thesis by (auto simp: ex_connection_def ex_query_def L)
qed

lemma hostile_batch_traps_witness:
  "fst (serve (\<lambda>i n. 1) (load_query (\<lambda>_. True) (\<lambda>s n. []) Inr) (\<lambda>_. 5) (\<lambda>_. [100, 200]) 10007 ex_loop
     (ex_connection (0x02 # sized (hostile_payload 2 (2 ^ 64 - 1)) @ []))) = Trap \<and>
   fst (serve (\<lambda>i n. 1) (load_query (\<lambda>_. True) (\<lambda>s n. []) Inr) (\<lambda>_. 5) (\<lambda>_. [100, 200]) 10007 ex_loop
     (ex_connection (0x02 # sized (hostile_payload 2 7) @ []))) = Done ex_loop"
  using hostile_batch_traps[OF delivers_one_byte, where ctSize = "2 ^ 64 - 1" and rest = "[]" and st = ex_loop
      and c = "ex_connection (0x02 # sized (hostile_payload 2 (2 ^ 64 - 1)) @ [])"]
    hostile_batch_traps[OF delivers_one_byte, where ctSize = 7 and rest = "[]" and st = ex_loop
      and c = "ex_connection (0x02 # sized (hostile_payload 2 7) @ [])"]
  by (simp add: ex_loop_def ex_server_def ex_connection_def hostile_size_def)

end
