(* ===== verification/Sockets.thy ===== *)
theory Sockets
  imports Prelude
begin

text \<open>
  \<open>src/src/network.cpp\<close>, the two connection classes. The kernel is the list of the descriptors the
  process holds; \<open>stray_close\<close> records a \<open>close\<close> of a descriptor it does not hold, which in the
  program could close a descriptor of somebody else. The results of the system calls are arguments.
\<close>

record kernel =
  open_fds :: "int list"
  stray_close :: bool

definition close_fd :: "int \<Rightarrow> kernel \<Rightarrow> kernel" where
  "close_fd fd k =
     (if fd \<in> set (open_fds k) then k\<lparr>open_fds := remove1 fd (open_fds k)\<rparr> else k\<lparr>stray_close := True\<rparr>)"

text \<open>\<open>socket\<close> and \<open>accept\<close>: a negative result is a failure, else a descriptor not in use.\<close>

definition open_fd :: "int \<Rightarrow> kernel \<Rightarrow> kernel" where
  "open_fd fd k = (if fd < 0 then k else k\<lparr>open_fds := fd # open_fds k\<rparr>)"

record server_network =
  sn_serverSocket :: int
  sn_port :: int
  sn_running :: bool

record start_calls =
  sc_socket :: int
  sc_reuse_ok :: bool
  sc_bind_ok :: bool
  sc_listen_ok :: bool

definition ServerNetwork :: "int \<Rightarrow> server_network" where
  "ServerNetwork p = \<lparr>sn_serverSocket = -1, sn_port = p, sn_running = False\<rparr>"

definition start :: "start_calls \<Rightarrow> server_network \<times> kernel \<Rightarrow> bool \<times> server_network \<times> kernel" where
  "start calls s =
     (let (sn, k) = s;
          k = open_fd (sc_socket calls) k; sn = sn\<lparr>sn_serverSocket := sc_socket calls\<rparr> in
      if sn_serverSocket sn < 0 then (False, sn, k)
      else if \<not> sc_reuse_ok calls then (False, sn, k)
      else if \<not> sc_bind_ok calls then (False, sn, close_fd (sn_serverSocket sn) k)
      else if \<not> sc_listen_ok calls then (False, sn, close_fd (sn_serverSocket sn) k)
      else (True, sn\<lparr>sn_running := True\<rparr>, k))"

definition acceptClient :: "int \<Rightarrow> server_network \<times> kernel \<Rightarrow> int \<times> server_network \<times> kernel" where
  "acceptClient accepted s =
     (let (sn, k) = s in
      if \<not> sn_running sn then (-1, sn, k)
      else if accepted < 0 then (-1, sn, k)
      else (accepted, sn, open_fd accepted k))"

definition closeClient :: "int \<Rightarrow> server_network \<times> kernel \<Rightarrow> server_network \<times> kernel" where
  "closeClient clientSocket s = (let (sn, k) = s in (sn, if 0 \<le> clientSocket then close_fd clientSocket k else k))"

definition stop :: "server_network \<times> kernel \<Rightarrow> server_network \<times> kernel" where
  "stop s =
     (let (sn, k) = s in
      if sn_running sn then
        let sn = sn\<lparr>sn_running := False\<rparr> in
        if 0 \<le> sn_serverSocket sn then (sn\<lparr>sn_serverSocket := -1\<rparr>, close_fd (sn_serverSocket sn) k) else (sn, k)
      else (sn, k))"

subsection \<open>The client\<close>

record client_network =
  cn_clientSocket :: int
  cn_serverIP :: string
  cn_port :: int
  cn_connected :: bool

record connect_calls =
  cc_socket :: int
  cc_address_ok :: bool
  cc_connect_ok :: bool

definition ClientNetwork :: "string \<Rightarrow> int \<Rightarrow> client_network" where
  "ClientNetwork ip p = \<lparr>cn_clientSocket = -1, cn_serverIP = ip, cn_port = p, cn_connected = False\<rparr>"

definition connect :: "connect_calls \<Rightarrow> client_network \<times> kernel \<Rightarrow> bool \<times> client_network \<times> kernel" where
  "connect calls s =
     (let (cn, k) = s;
          k = open_fd (cc_socket calls) k; cn = cn\<lparr>cn_clientSocket := cc_socket calls\<rparr> in
      if cn_clientSocket cn < 0 then (False, cn, k)
      else if \<not> cc_address_ok calls then (False, cn, close_fd (cn_clientSocket cn) k)
      else if \<not> cc_connect_ok calls then (False, cn, close_fd (cn_clientSocket cn) k)
      else (True, cn\<lparr>cn_connected := True\<rparr>, k))"

definition disconnect :: "client_network \<times> kernel \<Rightarrow> client_network \<times> kernel" where
  "disconnect s =
     (let (cn, k) = s in
      if cn_connected cn then
        let cn = cn\<lparr>cn_connected := False\<rparr> in
        if 0 \<le> cn_clientSocket cn then (cn\<lparr>cn_clientSocket := -1\<rparr>, close_fd (cn_clientSocket cn) k) else (cn, k)
      else (cn, k))"

subsection \<open>The server program as a step relation\<close>

text \<open>
  The states of \<open>main\<close> in \<open>src/src/server_main.cpp\<close>: it starts the network, accepts one client, serves
  it, closes it and stops; every return runs the destructor, which stops again. While it serves, an
  exception can leave \<open>main\<close>, which has no handler: from sending, from the oblivious transfer, or from
  loading or answering a query (\<open>Threw\<close> in the model of the loop). The process is then terminated
  without running a destructor (\<open>Aborted\<close>), and what it holds is left to the operating system.
\<close>

datatype phase = Idle | Listening | Serving int | Closed | Exited int | Aborted

inductive server_step :: "phase \<times> server_network \<times> kernel \<Rightarrow> phase \<times> server_network \<times> kernel \<Rightarrow> bool" where
  start_ok: "start calls (sn, k) = (True, s) \<Longrightarrow> sc_socket calls \<notin> set (open_fds k) \<Longrightarrow>
    server_step (Idle, sn, k) (Listening, s)"
| start_failed: "start calls (sn, k) = (False, s) \<Longrightarrow> sc_socket calls \<notin> set (open_fds k) \<Longrightarrow>
    server_step (Idle, sn, k) (Exited 1, stop s)"
| accepted: "acceptClient fd (sn, k) = (fd, s) \<Longrightarrow> 0 \<le> fd \<Longrightarrow> fd \<notin> set (open_fds k) \<Longrightarrow>
    server_step (Listening, sn, k) (Serving fd, s)"
| not_accepted: "acceptClient fd (sn, k) = (r, s) \<Longrightarrow> r < 0 \<Longrightarrow> server_step (Listening, sn, k) (Exited 1, stop s)"
| send_failed: "server_step (Serving fd, s) (Exited 1, stop (closeClient fd s))"
| served: "server_step (Serving fd, s) (Closed, stop (closeClient fd s))"
| threw: "server_step (Serving fd, s) (Aborted, s)"
| returned: "server_step (Closed, s) (Exited 0, stop s)"

inductive_cases server_stepE: "server_step (p, sn, k) t"

lemmas socket_defs = start_def acceptClient_def closeClient_def stop_def connect_def disconnect_def open_fd_def close_fd_def
  ServerNetwork_def ClientNetwork_def Let_def







text \<open>
  When setting \<open>SO_REUSEADDR\<close> fails, \<open>start\<close> returns with the socket open and \<open>stop\<close> does not close it.
\<close>

theorem start_leaks_socket:
  assumes "0 \<le> sc_socket calls" "\<not> sc_reuse_ok calls" "start calls (ServerNetwork p, k) = (ok, s)"
  shows "\<not> ok \<and> open_fds (snd (stop s)) = sc_socket calls # open_fds k"
  using assms by (auto simp: socket_defs)

lemma start_leaks_socket_witness:
  "open_fds (snd (stop (snd (start \<lparr>sc_socket = 3, sc_reuse_ok = False, sc_bind_ok = True, sc_listen_ok = True\<rparr>
     (ServerNetwork 8080, \<lparr>open_fds = [0, 1, 2], stray_close = False\<rparr>))))) = [3, 0, 1, 2]"
  using start_leaks_socket[of "\<lparr>sc_socket = 3, sc_reuse_ok = False, sc_bind_ok = True, sc_listen_ok = True\<rparr>" 8080
    "\<lparr>open_fds = [0, 1, 2], stray_close = False\<rparr>"] by (simp add: socket_defs)

text \<open>
  C17: The client closes its descriptor exactly once: connecting and then disconnecting any number of
  times leaves the descriptors as they were, whether the connection succeeded or not.
\<close>

theorem connect_disconnect:
  assumes "cc_socket calls \<notin> set (open_fds k)" "connect calls (ClientNetwork ip p, k) = (ok, cn, k')"
  shows "disconnect (disconnect (cn, k')) = disconnect (cn, k') \<and> snd (disconnect (cn, k')) = k \<and>
    (ok \<longleftrightarrow> 0 \<le> cc_socket calls \<and> cc_address_ok calls \<and> cc_connect_ok calls) \<and>
    (ok \<longrightarrow> cn_clientSocket cn = cc_socket calls \<and> open_fds k' = cc_socket calls # open_fds k)"
  using assms by (auto simp: socket_defs split: if_splits)

lemma connect_disconnect_witness:
  "snd (disconnect (snd (connect \<lparr>cc_socket = 5, cc_address_ok = True, cc_connect_ok = False\<rparr>
     (ClientNetwork ''127.0.0.1'' 8080, \<lparr>open_fds = [0], stray_close = False\<rparr>)))) = \<lparr>open_fds = [0], stray_close = False\<rparr>"
  using connect_disconnect[of "\<lparr>cc_socket = 5, cc_address_ok = True, cc_connect_ok = False\<rparr>" "\<lparr>open_fds = [0], stray_close = False\<rparr>"
      "''127.0.0.1''" 8080] by (auto simp: socket_defs)

end
