(* ===== verification/Options.thy ===== *)
theory Options
  imports Prelude
begin

text \<open>
  The command lines of the three programs: \<open>std::stoi\<close> and the \<open>parse_options\<close> functions of
  \<open>src/src/main.cpp\<close>, \<open>server_main.cpp\<close> and \<open>client_main.cpp\<close>. \<open>None\<close> stands for printing the
  usage and exiting; every exception of \<open>stoi\<close> ends there too.
\<close>

subsection \<open>Reading an \<open>int\<close>\<close>

definition is_space :: "char \<Rightarrow> bool" where
  "is_space c \<longleftrightarrow> of_char c = (32 :: nat) \<or> (9 \<le> (of_char c :: nat) \<and> of_char c \<le> (13 :: nat))"

definition is_digit :: "char \<Rightarrow> bool" where
  "is_digit c \<longleftrightarrow> 48 \<le> (of_char c :: nat) \<and> of_char c \<le> (57 :: nat)"

definition read_digits :: "string \<Rightarrow> int" where
  "read_digits ds = foldl (\<lambda>a c. 10 * a + (of_char c - 48)) 0 ds"

fun read_sign :: "string \<Rightarrow> bool \<times> string" where
  "read_sign (c # s) = (if c = CHR ''-'' then (True, s) else if c = CHR ''+'' then (False, s) else (False, c # s))"
| "read_sign [] = (False, [])"

text \<open>Leading blanks and a sign are accepted, what follows the digits is ignored.\<close>

definition stoi :: "string \<Rightarrow> int option" where
  "stoi s =
     (let (neg, s) = read_sign (dropWhile is_space s); ds = takeWhile is_digit s;
          v = (if neg then - read_digits ds else read_digits ds)
      in if ds = [] \<or> v < - (2 ^ 31) \<or> 2 ^ 31 \<le> v then None else Some v)"

subsection \<open>The options\<close>

record main_options =
  mo_Log2DBSize :: u64
  mo_EntrySize :: u64
  mo_OutputFile :: string
  mo_OneSV :: bool

record server_options =
  so_Log2DBSize :: u64
  so_EntrySize :: u64
  so_Port :: int

record client_options =
  co_ServerIP :: string
  co_Port :: int
  co_OutputFile :: string

text \<open>\<open>argv\<close> includes the program's name; an \<open>int\<close> stored in a \<open>uint64_t\<close> wraps.\<close>

fun parse_main_options :: "string list \<Rightarrow> main_options option" where
  "parse_main_options [_, variant, log2, entry, file] =
     (if variant \<noteq> ''--two-server'' \<and> variant \<noteq> ''--one-server'' then None
      else case (stoi log2, stoi entry) of
          (Some n, Some e) \<Rightarrow> Some \<lparr>mo_Log2DBSize = word_of_int n, mo_EntrySize = word_of_int e, mo_OutputFile = file,
            mo_OneSV = (variant = ''--one-server'')\<rparr>
        | _ \<Rightarrow> None)"
| "parse_main_options _ = None"

fun parse_server_options :: "string list \<Rightarrow> server_options option" where
  "parse_server_options [_, log2, entry, port] =
     (case (stoi log2, stoi entry, stoi port) of
        (Some n, Some e, Some p) \<Rightarrow> Some \<lparr>so_Log2DBSize = word_of_int n, so_EntrySize = word_of_int e, so_Port = p\<rparr>
      | _ \<Rightarrow> None)"
| "parse_server_options _ = None"

fun parse_client_options :: "string list \<Rightarrow> client_options option" where
  "parse_client_options [_, ip, port, file] =
     (case stoi port of
        Some p \<Rightarrow> Some \<lparr>co_ServerIP = ip, co_Port = p, co_OutputFile = file\<rparr>
      | _ \<Rightarrow> None)"
| "parse_client_options _ = None"

text \<open>What \<open>main\<close> of \<open>main.cpp\<close> runs on: the other variant and other entry sizes are refused.\<close>

definition main_accepts :: "main_options \<Rightarrow> bool" where
  "main_accepts options \<longleftrightarrow> mo_OneSV options \<and> mo_EntrySize options = 8"

subsection \<open>Decimal numerals are read back\<close>

fun decimal :: "nat \<Rightarrow> string" where
  "decimal n = (if n < 10 then [char_of (48 + n)] else decimal (n div 10) @ [char_of (48 + n mod 10)])"

declare decimal.simps [simp del]

lemma digit_char: "d < 10 \<Longrightarrow> is_digit (char_of (48 + d)) \<and> (of_char (char_of (48 + d)) :: int) = 48 + int d"
  using of_nat_of_char[of "char_of (48 + d)", where 'a = int] by (simp add: is_digit_def)

lemma digits_decimal: "\<forall>c \<in> set (decimal n). is_digit c"
proof (induction n rule: decimal.induct)
  case (1 n)
  show ?case using 1 digit_char[of n] digit_char[of "n mod 10"]
    by (subst decimal.simps) auto
qed

lemma decimal_nonempty: "decimal n \<noteq> []"
  by (subst decimal.simps) simp

lemma read_digits_decimal: "read_digits (decimal n) = int n"
proof (induction n rule: decimal.induct)
  case (1 n)
  have m: "(of_char (char_of (48 + n mod 10)) :: int) = 48 + int (n mod 10)"
    by (rule conjunct2[OF digit_char]) simp
  show ?case
  proof (cases "n < 10")
    case True
    then show ?thesis using digit_char[of n] by (subst decimal.simps) (simp add: read_digits_def)
  next
    case False
    then have "read_digits (decimal n) = 10 * int (n div 10) + int (n mod 10)"
      using 1 m by (subst decimal.simps) (simp add: read_digits_def)
    then show ?thesis by presburger
  qed
qed

lemma digit_no_space: "is_digit c \<Longrightarrow> \<not> is_space c \<and> c \<noteq> CHR ''-'' \<and> c \<noteq> CHR ''+''"
  by (auto simp: is_digit_def is_space_def)

lemma takeWhile_digits: "\<forall>c \<in> set ds. is_digit c \<Longrightarrow> rest = [] \<or> \<not> is_digit (hd rest) \<Longrightarrow> takeWhile is_digit (ds @ rest) = ds"
  by (cases rest) simp_all

text \<open>The digits of a number, with or without a minus sign, up to the first character that is none.\<close>

lemma stoi_numeral:
  assumes "rest = [] \<or> \<not> is_digit (hd rest)"
  shows "stoi (decimal n @ rest) = (if n < 2 ^ 31 then Some (int n) else None)"
    and "stoi (CHR ''-'' # decimal n @ rest) = (if n \<le> 2 ^ 31 then Some (- int n) else None)"
proof -
  obtain c s where d: "decimal n = c # s" using decimal_nonempty[of n] by (cases "decimal n") auto
  have c: "is_digit c" using digits_decimal[of n] by (simp add: d)
  have t: "takeWhile is_digit (c # s @ rest) = c # s"
    using takeWhile_digits[OF digits_decimal[of n] assms] by (simp add: d)
  have r: "read_sign (dropWhile is_space (c # s @ rest)) = (False, c # s @ rest)"
    using digit_no_space[OF c] by simp
  have m: "read_sign (dropWhile is_space (CHR ''-'' # c # s @ rest)) = (True, c # s @ rest)"
    by (simp add: is_space_def)
  have v: "read_digits (c # s) = int n" using read_digits_decimal[of n] by (simp add: d)
  show "stoi (decimal n @ rest) = (if n < 2 ^ 31 then Some (int n) else None)"
    unfolding d append_Cons stoi_def r prod.case Let_def t v by auto
  show "stoi (CHR ''-'' # decimal n @ rest) = (if n \<le> 2 ^ 31 then Some (- int n) else None)"
    unfolding d append_Cons stoi_def m prod.case Let_def t v by auto
qed

lemma stoi_decimal: "n < 2 ^ 31 \<Longrightarrow> stoi (decimal n) = Some (int n)"
  using stoi_numeral(1)[of "[]" n] by simp


text \<open>
  Command lines are read back: decimal arguments below \<open>2^31\<close> reach the server and the client
  program as those numbers, whatever follows their digits, and a port out of the range of \<open>int\<close> ends
  the program with its usage.
\<close>

theorem options_round_trip:
  assumes "n < 2 ^ 31" "e < 2 ^ 31" "rest = [] \<or> \<not> is_digit (hd rest)"
  shows "parse_server_options [prog, decimal n, decimal e, decimal p @ rest] =
      (if p < 2 ^ 31 then Some \<lparr>so_Log2DBSize = of_nat n, so_EntrySize = of_nat e, so_Port = int p\<rparr> else None) \<and>
    parse_client_options [prog, ip, decimal p @ rest, file] =
      (if p < 2 ^ 31 then Some \<lparr>co_ServerIP = ip, co_Port = int p, co_OutputFile = file\<rparr> else None)"
  using assms by (simp add: stoi_decimal stoi_numeral(1))

theorem options_round_trip_witness:
  "parse_server_options [''PPFE_server'', decimal 20, decimal 8, decimal 8080] =
     Some \<lparr>so_Log2DBSize = 20, so_EntrySize = 8, so_Port = 8080\<rparr>"
  using conjunct1[OF options_round_trip[of 20 8 "[]" "''PPFE_server''" 8080]] by simp

end
