(* ===== verification/Client_Run.thy ===== *)
theory Client_Run
  imports Example Options
begin

text \<open>
  The query schedule of \<open>src/src/client_main.cpp\<close>: one query per index below \<open>num_queries\<close>, the results
  that are kept, and the comparison with the database that ends the program. \<open>rnd i\<close> holds the random
  draws of query \<open>i\<close>: the flip bit, the mask, and the server's answer noise.
\<close>

type_synonym draws = "nat \<Rightarrow> bool \<times> u64 \<times> u64"

definition num_queries :: "u64 \<Rightarrow> nat" where
  "num_queries Log2DBSize = 2 ^ unat (Log2DBSize div 2 + Log2DBSize mod 2)"

definition query_of :: "u64 \<Rightarrow> u32 \<Rightarrow> u32" where
  "query_of Log2DBSize i =
     (let k = unat (Log2DBSize div 2); part = ucast (i mod push_bit k 1) :: u16; offset = ucast (i mod push_bit k 1) :: u16
      in push_bit k (ucast part) + ucast offset)"

definition run_query ::
  "environment \<Rightarrow> u64 \<Rightarrow> draws \<Rightarrow> nat \<Rightarrow> (u32 \<times> u64) list \<times> client \<Rightarrow> ((u32 \<times> u64) list \<times> client) outcome" where
  "run_query V lg rnd i st =
     (let (results, cl) = st; (shouldFlip, rando, answer_noise) = rnd i; query = query_of lg (of_nat i) in
      case online_query (env_C V) (env_aes V) (env_R V) (env_sv V) (env_decrypt V) (env_ot V) (mod_value (he_q (env_C V)))
          query shouldFlip rando answer_noise cl of
        None \<Rightarrow> None
      | Some (Inl e) \<Rightarrow> Some (Inl e)
      | Some (Inr None) \<Rightarrow> Some (Inr (results, cl))
      | Some (Inr (Some (r, cl))) \<Rightarrow> Some (Inr (results @ [(query, r)], cl)))"

text \<open>The loop over the first \<open>n\<close> indices.\<close>

primrec run_queries :: "environment \<Rightarrow> u64 \<Rightarrow> draws \<Rightarrow> nat \<Rightarrow> client \<Rightarrow> ((u32 \<times> u64) list \<times> client) outcome" where
  "run_queries V lg rnd 0 cl = Some (Inr ([], cl))"
| "run_queries V lg rnd (Suc i) cl =
     (case run_queries V lg rnd i cl of
        Some (Inr st) \<Rightarrow> run_query V lg rnd i st
      | r \<Rightarrow> r)"

text \<open>\<open>allCorrect\<close>\<close>

definition verify :: "u64 list \<Rightarrow> (u32 \<times> u64) list \<Rightarrow> bool" where
  "verify tempDB queryResults = list_all (\<lambda>(query, result). tempDB ! unat query = result) queryResults"

subsection \<open>The scheduled queries lie in the database\<close>

lemma unat_query_of:
  assumes "lg < 32"
  shows "unat (query_of lg i) = unat i mod 2 ^ unat (lg div 2) * 2 ^ unat (lg div 2) + unat i mod 2 ^ unat (lg div 2)"
    and "unat i mod 2 ^ unat (lg div 2) < 2 ^ unat (lg div 2)" "unat (lg div 2) \<le> 15"
proof -
  let ?k = "unat (lg div 2)"
  have "unat (lg div 2) = unat lg div 2" by (simp add: unat_div)
  moreover have "unat lg < 32" using assms by (simp add: word_less_nat_alt)
  ultimately show k: "?k \<le> 15" by linarith
  show lt: "unat i mod 2 ^ ?k < 2 ^ ?k" by simp
  have k2: "2 ^ ?k \<le> (2 :: nat) ^ 15" using k by (simp only: power_increasing one_le_numeral)
  have "unat (push_bit ?k 1 :: u32) = 2 ^ ?k" unfolding push_bit_of_1 by (rule unat_two_power) (use k in simp)
  then have m: "unat (i mod push_bit ?k 1) = unat i mod 2 ^ ?k" by (simp add: unat_mod)
  have x15: "unat i mod 2 ^ ?k < 2 ^ 15" by (rule less_le_trans[OF lt k2])
  let ?r = "ucast (i mod push_bit ?k 1) :: u16"
  have "unat i mod 2 ^ ?k < 2 ^ 16" by (rule less_le_trans[OF lt order_trans[OF k2]]) simp
  then have r: "unat ?r = unat i mod 2 ^ ?k" by (simp only: unsigned_ucast_eq m) (simp add: take_bit_nat_eq_self)
  have c: "unat (ucast ?r :: u32) = unat i mod 2 ^ ?k" using r by (simp only: unat_ucast_u16_u32)
  have b: "unat i mod 2 ^ ?k * 2 ^ ?k < 2 ^ 15 * (2 :: nat) ^ 15"
    by (rule mult_less_le_imp_less[OF x15 k2]) simp_all
  have p: "unat (push_bit ?k (ucast ?r :: u32)) = unat i mod 2 ^ ?k * 2 ^ ?k"
    by (simp only: unsigned_push_bit_eq c push_bit_eq_mult[of ?k "unat i mod _"]) (rule take_bit_nat_eq_self, use b in simp)
  have "unat (push_bit ?k (ucast ?r :: u32) + ucast ?r) = unat (push_bit ?k (ucast ?r :: u32)) + unat (ucast ?r :: u32)"
    by (rule unat_add_no_overflow) (use p c b x15 in simp)
  then show "unat (query_of lg i) = unat i mod 2 ^ ?k * 2 ^ ?k + unat i mod 2 ^ ?k"
    using p c by (simp add: query_of_def Let_def)
qed

lemma scheduled_query:
  assumes "lg < 32" "unat P = 2 ^ unat (lg div 2)" "unat S = 2 ^ unat (lg div 2 + lg mod 2)"
  shows "unat (query_of lg i) < unat (P :: u32) * unat (S :: u32)"
proof -
  let ?k = "unat (lg div 2)"
  note q = unat_query_of[OF assms(1)]
  have "unat (lg div 2 + lg mod 2) = unat (lg div 2) + unat (lg mod 2)"
    by (rule unat_add_no_overflow) (use q(3) in \<open>simp add: unat_mod\<close>)
  then have "2 ^ ?k \<le> unat S" by (simp add: assms(3))
  then have "2 ^ ?k * 2 ^ ?k \<le> unat P * unat S" by (simp add: assms(2))
  moreover have "unat i mod 2 ^ ?k * 2 ^ ?k + unat i mod 2 ^ ?k < (unat i mod 2 ^ ?k + 1) * 2 ^ ?k" by simp
  moreover have "(unat i mod 2 ^ ?k + 1) * 2 ^ ?k \<le> (2 :: nat) ^ ?k * 2 ^ ?k"
    using q(2) by (intro mult_right_mono) (auto simp: Suc_le_eq)
  ultimately show ?thesis unfolding q(1) by linarith
qed

subsection \<open>The run\<close>

text \<open>What the run needs of the state after \<open>k\<close> queries: unused backups and encryptions of zero.\<close>

definition stocked :: "nat \<Rightarrow> nat \<Rightarrow> client \<Rightarrow> bool" where
  "stocked n k cl \<longleftrightarrow> unat (NextHintIndex cl) = unat (cl_M cl) + k \<and> n < unat (cl_M cl) div 2 \<and>
     (\<forall>j < unat (cl_M cl) + unat (cl_M cl) div 2. unat (cl_M cl) \<le> j \<longrightarrow> SelectCutoff cl ! j \<noteq> 0) \<and>
     encZeroNext cl + (n - k) \<le> length (encZeroCache cl)"

text \<open>No valid hint covers the query, neither by its half of the partitions nor by its extra pair.\<close>

definition uncovered :: "block_cipher \<Rightarrow> client \<Rightarrow> u32 \<Rightarrow> bool" where
  "uncovered aes cl query \<longleftrightarrow> (\<forall>h < unat (cl_M cl). SelectCutoff cl ! h \<noteq> 0 \<longrightarrow>
     \<not> covers aes cl h (unat query div unat (cl_PartSize cl)) (unat query mod unat (cl_PartSize cl)))"

lemma uncovered_search:
  assumes "wf_client cl" "unat query < unat (cl_PartNum cl) * unat (cl_PartSize cl)"
  shows "uncovered aes cl query \<longleftrightarrow>
    unat (cl_M cl) \<le> fst (find_hint aes query (queryPartNum_of cl query) (queryOffset_of cl query) cl b0)"
proof -
  note e = unat_queryPartNum(1)[OF assms] unat_queryOffset[OF assms(1), of query]
  obtain h b where f: "find_hint aes query (queryPartNum_of cl query) (queryOffset_of cl query) cl b0 = (h, b)"
    by (cases "find_hint aes query (queryPartNum_of cl query) (queryOffset_of cl query) cl b0") auto
  show ?thesis
    using find_hint_complete[OF assms(1), of aes query b0] find_hint_sound[OF assms(1) f]
    unfolding uncovered_def e f fst_conv by (metis not_le)
qed

lemma stocked_next:
  assumes "stocked n k cl" "k < n" "wf_client cl"
  shows "next_valid (SelectCutoff cl) (unat (NextHintIndex cl)) = Some (unat (cl_M cl) + k)"
    "unat (cl_M cl) + k + 1 < unat (cl_M cl) + unat (cl_M cl) div 2" "encZeroNext cl < length (encZeroCache cl)"
proof -
  show "unat (cl_M cl) + k + 1 < unat (cl_M cl) + unat (cl_M cl) div 2" "encZeroNext cl < length (encZeroCache cl)"
    using assms(1,2) by (auto simp: stocked_def)
  have "SelectCutoff cl ! (unat (cl_M cl) + k) \<noteq> 0" "unat (cl_M cl) + k < length (SelectCutoff cl)"
    using assms by (auto simp: stocked_def wf_client_def)
  then show "next_valid (SelectCutoff cl) (unat (NextHintIndex cl)) = Some (unat (cl_M cl) + k)"
    using assms(1) by (subst next_valid.simps) (simp add: stocked_def)
qed

lemma run_query_step:
  assumes R: "ready V s E E1 D cl" and st: "stocked n k cl" "k < n"
    and q: "unat (query_of lg (of_nat k)) < unat (cl_PartNum cl) * unat (cl_PartSize cl)"
    and draws: "rnd k = (flip, rando, noise)" "uint rando < uint (mod_value (he_q (env_C V)))" "\<bar>sint noise\<bar> \<le> D"
    and find: "fst (find_hint (env_aes V) (query_of lg (of_nat k)) (queryPartNum_of cl (query_of lg (of_nat k)))
      (queryOffset_of cl (query_of lg (of_nat k))) cl False) < unat (cl_M cl)"
  shows "\<exists>cl'. run_query V lg rnd k (results, cl) =
      Some (Inr (results @ [(query_of lg (of_nat k), sv_DB (env_sv V) ! unat (query_of lg (of_nat k)))], cl')) \<and>
    ready V s E E1 D cl' \<and> stocked n (Suc k) cl' \<and> cl_PartNum cl' = cl_PartNum cl \<and> cl_PartSize cl' = cl_PartSize cl"
proof -
  let ?query = "query_of lg (of_nat k)" and ?C = "env_C V"
  have ok: "client_ok ?C s (env_aes V) (entry (env_sv V)) E cl" using R by (simp add: ready_def Let_def)
  then have wf: "wf_client cl" by (simp add: client_ok_def Let_def)
  obtain h ind where f: "find_hint (env_aes V) ?query (queryPartNum_of cl ?query) (queryOffset_of cl ?query) cl False = (h, ind)" "h < unat (cl_M cl)"
    using find by (cases "find_hint (env_aes V) ?query (queryPartNum_of cl ?query) (queryOffset_of cl ?query) cl False") auto
  note N = stocked_next[OF st wf]
  obtain cl' where a: "answered V ?query flip rando noise cl (sv_DB (env_sv V) ! unat ?query) cl'"
    using ready_answers[OF R q f N draws(2,3)] by blast
  note step = answered_step[OF R q draws(2,3) a]
  obtain h' b j where "find_hint (env_aes V) ?query (queryPartNum_of cl ?query) (queryOffset_of cl ?query) cl False = (h', b)"
    and I: "h' < unat (cl_M cl)" "next_valid (SelectCutoff cl) (unat (NextHintIndex cl)) = Some j"
    and "j + 1 < unat (cl_M cl) + unat (cl_M cl) div 2" "encZeroNext cl < length (encZeroCache cl)"
    and I': "NextHintIndex cl' = of_nat (j + 1)" "SelectCutoff cl' = (SelectCutoff cl)[h' := SelectCutoff cl ! j]" "cl_M cl' = cl_M cl"
    by (rule completed_query_inv[OF a[unfolded answered_def] ok])
  have j: "j = unat (cl_M cl) + k" using I(2) N(1) by simp
  have "unat (cl_M cl) < 2 ^ 29" using wf by (simp add: wf_client_def)
  then have "j + 1 < 2 ^ 32" using N(2) by (simp add: j)
  then have "unat (NextHintIndex cl') = unat (cl_M cl) + Suc k"
    unfolding I'(1) using unat_of_nat_u32[of "j + 1"] by (simp add: j)
  moreover have "SelectCutoff cl' ! i \<noteq> 0" if "i < unat (cl_M cl) + unat (cl_M cl) div 2" "unat (cl_M cl) \<le> i" for i
    using that st(1) I(1) by (simp add: I'(2) stocked_def)
  moreover have "encZeroNext cl' + (n - Suc k) \<le> length (encZeroCache cl')"
    using step st by (auto simp: stocked_def)
  ultimately have "stocked n (Suc k) cl'" using st(1) I'(3) by (simp add: stocked_def)
  then show ?thesis using a step draws(1) by (simp add: run_query_def answered_def Let_def)
qed

text \<open>The search reports a miss with index \<open>M + 1\<close>, which passes the program's check and is read out of bounds.\<close>

lemma uncovered_traps:
  assumes "ready V s E E1 D cl" "0 < unat (cl_M cl)" "uncovered (env_aes V) cl (query_of lg (of_nat k))"
    and "unat (query_of lg (of_nat k)) < unat (cl_PartNum cl) * unat (cl_PartSize cl)"
  shows "run_query V lg rnd k (results, cl) = None"
proof -
  let ?query = "query_of lg (of_nat k)"
  have wf: "wf_client cl" and len: "length (ciParity cl) = 2 * unat (cl_M cl)"
    using assms(1) by (simp_all add: ready_def client_ok_def Let_def)
  obtain h b where f: "find_hint (env_aes V) ?query (queryPartNum_of cl ?query) (queryOffset_of cl ?query) cl False = (h, b)"
    by (cases "find_hint (env_aes V) ?query (queryPartNum_of cl ?query) (queryOffset_of cl ?query) cl False") auto
  have h: "unat (cl_M cl) \<le> h"
    using uncovered_search[OF wf assms(4), of "env_aes V" False] assms(3) by (simp add: f)
  have q: "unat ?query mod unat (cl_PartSize cl) = unat (queryOffset_of cl ?query)"
    by (simp add: unat_queryOffset[OF wf])
  have M: "unat (cl_M cl) < 2 ^ 29" "even (unat (cl_M cl))" "length (HintID cl) = unat (cl_M cl)"
    using wf by (simp_all add: wf_client_def)
  have "h = unat (cl_M cl + 1)"
    using find_hint_loop_sound[OF wf q f[unfolded find_hint_def]] h by auto
  also have "\<dots> = unat (cl_M cl) + 1" using M(1) by (subst unat_add_no_overflow) simp_all
  finally have "h < length (ciParity cl)" "length (HintID cl) \<le> h"
    using M(2,3) assms(2) len by presburger+
  then have "client_query C (env_aes V) ?query flip rando q cl = None" for C flip rando q
    unfolding client_query_def Let_def f prod.case by simp
  then show ?thesis by (simp add: run_query_def online_query_def split: prod.splits)
qed

lemma run_queries_result:
  assumes R: "ready V s E E1 D cl" and st: "stocked n 0 cl" "k \<le> n"
    and sizes: "lg < 32" "unat (cl_PartNum cl) = 2 ^ unat (lg div 2)" "unat (cl_PartSize cl) = 2 ^ unat (lg div 2 + lg mod 2)"
    and draws: "\<And>i. i < n \<Longrightarrow> uint (fst (snd (rnd i))) < uint (mod_value (he_q (env_C V))) \<and> \<bar>sint (snd (snd (rnd i)))\<bar> \<le> D"
  shows "(\<exists>results cl'. run_queries V lg rnd k cl = Some (Inr (results, cl')) \<and>
      map fst results = map (\<lambda>i. query_of lg (of_nat i)) [0..<k] \<and> verify (sv_DB (env_sv V)) results \<and>
      ready V s E E1 D cl' \<and> stocked n k cl' \<and> cl_PartNum cl' = cl_PartNum cl \<and> cl_PartSize cl' = cl_PartSize cl) \<or>
    (\<exists>i < k. \<exists>results cl'. run_queries V lg rnd i cl = Some (Inr (results, cl')) \<and>
      uncovered (env_aes V) cl' (query_of lg (of_nat i)) \<and> run_queries V lg rnd (Suc i) cl = None)"
  using st(2)
proof (induction k)
  case 0
  then show ?case using R st(1) by (simp add: verify_def)
next
  case (Suc k)
  have kn: "k < n" using Suc.prems by simp
  from Suc.IH[OF less_imp_le[OF kn]] show ?case
  proof (elim disjE)
    assume "\<exists>i < k. \<exists>results cl'. run_queries V lg rnd i cl = Some (Inr (results, cl')) \<and>
      uncovered (env_aes V) cl' (query_of lg (of_nat i)) \<and> run_queries V lg rnd (Suc i) cl = None"
    then show ?thesis by (meson less_SucI)
  next
    assume "\<exists>results cl'. run_queries V lg rnd k cl = Some (Inr (results, cl')) \<and>
      map fst results = map (\<lambda>i. query_of lg (of_nat i)) [0..<k] \<and> verify (sv_DB (env_sv V)) results \<and>
      ready V s E E1 D cl' \<and> stocked n k cl' \<and> cl_PartNum cl' = cl_PartNum cl \<and> cl_PartSize cl' = cl_PartSize cl"
    then obtain results cl' where IH: "run_queries V lg rnd k cl = Some (Inr (results, cl'))"
      "map fst results = map (\<lambda>i. query_of lg (of_nat i)) [0..<k]" "verify (sv_DB (env_sv V)) results"
      "ready V s E E1 D cl'" "stocked n k cl'" and size: "cl_PartNum cl' = cl_PartNum cl" "cl_PartSize cl' = cl_PartSize cl"
      by auto
    obtain flip rando noise where r: "rnd k = (flip, rando, noise)" by (cases "rnd k") auto
    have d: "uint rando < uint (mod_value (he_q (env_C V)))" "\<bar>sint noise\<bar> \<le> D" using draws[of k] Suc.prems r by auto
    have q: "unat (query_of lg (of_nat k)) < unat (cl_PartNum cl') * unat (cl_PartSize cl')"
      unfolding size by (rule scheduled_query[OF sizes])
    have wf: "wf_client cl'" using IH(4) by (simp add: ready_def client_ok_def Let_def)
    note search = uncovered_search[OF wf q, of "env_aes V" False]
    show ?thesis
    proof (cases "uncovered (env_aes V) cl' (query_of lg (of_nat k))")
      case True
      have "0 < unat (cl_M cl')" using IH(5) by (intro gr0I) (simp add: stocked_def)
      from uncovered_traps[OF IH(4) this True q, of rnd results] IH(1)
      have "run_queries V lg rnd (Suc k) cl = None" by simp
      with IH(1) True show ?thesis using lessI by blast
    next
      case False
      then have find: "fst (find_hint (env_aes V) (query_of lg (of_nat k)) (queryPartNum_of cl' (query_of lg (of_nat k)))
        (queryOffset_of cl' (query_of lg (of_nat k))) cl' False) < unat (cl_M cl')" unfolding search not_le .
      obtain cl2 where "run_query V lg rnd k (results, cl') =
          Some (Inr (results @ [(query_of lg (of_nat k), sv_DB (env_sv V) ! unat (query_of lg (of_nat k)))], cl2))"
        "ready V s E E1 D cl2" "stocked n (Suc k) cl2" "cl_PartNum cl2 = cl_PartNum cl'" "cl_PartSize cl2 = cl_PartSize cl'"
        using run_query_step[where results = results and rnd = rnd, OF IH(4,5) kn q r d find] by blast
      then show ?thesis using IH(1-3) size by (intro disjI1) (auto simp: verify_def)
    qed
  qed
qed


text \<open>
  C7: A run of the client program is correct. When the table is stocked (every backup has a non-zero
  cutoff, there are more than \<open>n\<close> of them, and \<open>n\<close> encryptions of zero are left), and whatever masks,
  flip bits and bounded noise are drawn, the first \<open>n\<close> scheduled queries all complete and pass the
  final verification against the database, unless one of them comes to a query that no valid hint
  covers; the program then reads out of bounds.
\<close>

theorem client_run_correct:
  assumes "ready V s E E1 D cl" "stocked n 0 cl" "lg < 32"
    and "unat (cl_PartNum cl) = 2 ^ unat (lg div 2)" "unat (cl_PartSize cl) = 2 ^ unat (lg div 2 + lg mod 2)"
    and "\<And>i. i < n \<Longrightarrow> uint (fst (snd (rnd i))) < uint (mod_value (he_q (env_C V))) \<and> \<bar>sint (snd (snd (rnd i)))\<bar> \<le> D"
  shows "(\<exists>results cl'. run_queries V lg rnd n cl = Some (Inr (results, cl')) \<and>
      map fst results = map (\<lambda>i. query_of lg (of_nat i)) [0..<n] \<and> verify (sv_DB (env_sv V)) results) \<or>
    (\<exists>i < n. \<exists>results cl'. run_queries V lg rnd i cl = Some (Inr (results, cl')) \<and>
      uncovered (env_aes V) cl' (query_of lg (of_nat i)) \<and> run_queries V lg rnd (Suc i) cl = None)"
  using run_queries_result[where rnd = rnd, OF assms(1,2) order_refl assms(3-6)] by blast

lemma ex_stocked:
  obtains cl1 where "set_up ex_env std_nth_element (\<lambda>_. ex_zero) ex_encryption 2 ex_client = Some (Inr cl1)"
    "ready ex_env ex_secret (backup_noise ex_client 9) 9 4 cl1" "stocked 1 0 cl1"
    "fst (find_hint ex_aes 0 (queryPartNum_of cl1 0) (queryOffset_of cl1 0) cl1 False) = 0" "query_of 2 0 = 0"
    "cl_PartNum cl1 = 2" "cl_PartSize cl1 = 2" "cl_M cl1 = 4" "cl_N cl1 = 4" "cl_plainModulus cl1 = 17"
proof -
  have V: "env_aes ex_env = ex_aes" by (simp add: ex_env_def)
  obtain cl1 where c: "set_up ex_env std_nth_element (\<lambda>_. ex_zero) ex_encryption 2 ex_client = Some (Inr cl1)"
    "ready ex_env ex_secret (backup_noise ex_client 9) 9 4 cl1" "encZeroNext cl1 = 0" "length (encZeroCache cl1) = 2"
    and s: "cl_PartNum cl1 = cl_PartNum ex_client" "cl_PartSize cl1 = cl_PartSize ex_client"
    using std.set_up_ready[OF ex_client_wf ex_client_dummy_ok V ex_assumptions] by blast
  have q0: "query_of 2 0 = 0" by code_simp
  have e: "fst (find_hint ex_aes 0 (queryPartNum_of cl1 0) (queryOffset_of cl1 0) cl1 False) = 0"
    "NextHintIndex cl1 = 4" "cl_M cl1 = 4" "SelectCutoff cl1 ! 4 \<noteq> 0" "SelectCutoff cl1 ! 5 \<noteq> 0" "cl_N cl1 = 4" "cl_plainModulus cl1 = 17"
    using ex_search by (simp_all add: c(1))
  have "SelectCutoff cl1 ! j \<noteq> 0" if "j < 6" "4 \<le> j" for j
  proof -
    have "j = 4 \<or> j = 5" using that by linarith
    then show ?thesis using e(4,5) by (elim disjE) simp_all
  qed
  then have "stocked 1 0 cl1" using c(3,4) by (simp add: stocked_def e)
  then show thesis using that c(1,2) e q0 s by (simp add: ex_client_def)
qed

theorem client_run_correct_witness:
  "\<exists>cl1 cl2. set_up ex_env std_nth_element (\<lambda>_. ex_zero) ex_encryption 2 ex_client = Some (Inr cl1) \<and>
     run_queries ex_env 2 (\<lambda>_. (True, 5, - 3)) 1 cl1 = Some (Inr ([(0, 3)], cl2))"
proof -
  have V: "env_aes ex_env = ex_aes" "sv_DB (env_sv ex_env) ! 0 = 3" by (simp_all add: ex_env_def ex_server_def)
  obtain cl1 where c: "set_up ex_env std_nth_element (\<lambda>_. ex_zero) ex_encryption 2 ex_client = Some (Inr cl1)"
    "ready ex_env ex_secret (backup_noise ex_client 9) 9 4 cl1" "stocked 1 0 cl1"
    and e: "fst (find_hint ex_aes 0 (queryPartNum_of cl1 0) (queryOffset_of cl1 0) cl1 False) = 0" "query_of 2 0 = 0"
    "cl_PartNum cl1 = 2" "cl_PartSize cl1 = 2" "cl_M cl1 = 4" "cl_N cl1 = 4" "cl_plainModulus cl1 = 17"
    by (rule ex_stocked)
  have "uint (fst (snd (True, 5 :: u64, - 3 :: u64))) < uint (mod_value (he_q (env_C ex_env))) \<and> \<bar>sint (snd (snd (True, 5 :: u64, - 3 :: u64)))\<bar> \<le> 4"
    by (simp add: ex_env_def ex_sizes)
  from client_run_correct[where rnd = "\<lambda>_. (True, 5, - 3)" and lg = 2, OF c(2,3) _ _ _ this]
  moreover have "\<not> uncovered ex_aes cl1 0"
    using uncovered_search[of cl1 0 ex_aes False] c(2) e by (simp add: ready_def client_ok_def Let_def)
  ultimately have "\<exists>results cl'. run_queries ex_env 2 (\<lambda>_. (True, 5, - 3)) 1 cl1 = Some (Inr (results, cl')) \<and>
      map fst results = [0] \<and> verify (sv_DB (env_sv ex_env)) results"
    using e by (simp add: V(1) del: run_queries.simps(2))
  then show ?thesis using c(1) V(2) by (auto simp: verify_def map_eq_Cons_conv simp del: run_queries.simps)
qed

end
