(* ===== verification/In_Process.thy ===== *)
theory In_Process
  imports Client_Run
begin

text \<open>
  The in-process program: \<open>OneSVClient::Online\<close> of \<open>src/src/client.cpp\<close>, where client and server are
  objects of one process, and the benchmark \<open>test_pir\<close> of \<open>src/src/main.cpp\<close>. Entries have eight
  bytes (\<open>B = 1\<close>), which \<open>main\<close> enforces. A failed assertion is \<open>None\<close>.
\<close>

definition unmask :: "u64 \<Rightarrow> u64 \<Rightarrow> u64 \<Rightarrow> u64" where
  "unmask plainModulus rando response =
     (if response \<ge> rando then response - rando else plainModulus + response - rando)"

text \<open>\<open>encoder.encode_polynomial_new\<close> of a polynomial that is zero but for its last coefficient.\<close>

definition encode_last :: "he_context \<Rightarrow> client \<Rightarrow> u64 \<Rightarrow> error + u64 list" where
  "encode_last C cl v =
     encode_polynomial C ((replicate (unat (cl_PartSize cl)) 0)[unat (cl_PartSize cl) - 1 := v])"

definition count_reuse :: "nat \<Rightarrow> client \<Rightarrow> client" where
  "count_reuse hintIndex cl =
     (if cl_M cl < HintID cl ! hintIndex then cl\<lparr>BackupUsedAgain := BackupUsedAgain cl + 1\<rparr> else cl)"

definition client_online ::
  "build \<Rightarrow> he_context \<Rightarrow> block_cipher \<Rightarrow> server \<Rightarrow> (ciphertext \<Rightarrow> u64 list) \<Rightarrow> u64 \<Rightarrow> u64 \<Rightarrow> u32 \<Rightarrow> bool \<Rightarrow> u64
     \<Rightarrow> client \<Rightarrow> (u64 \<times> client) outcome" where
  "client_online b C aes server decrypt modulus_q answer_noise query shouldFlip rando cl =
     (if cl_N cl < query then None
      else let qp = queryPartNum_of cl query; qo = queryOffset_of cl query;
          (hintIndex, b_indicator) = find_hint aes query qp qo cl False
        in if unat (cl_M cl) \<le> hintIndex then None
        else let cl = build_query aes qp b_indicator shouldFlip hintIndex (count_reuse hintIndex cl) in
          case encode_last C cl rando of
            Inl e \<Rightarrow> Some (Inl e)
          | Inr ra \<Rightarrow>
            (case add_plain C (ciParity cl ! hintIndex) ra of
               None \<Rightarrow> None
             | Some (Inl e) \<Rightarrow> Some (Inl e)
             | Some (Inr ci_copy) \<Rightarrow>
               (case onlineQuery b server decrypt modulus_q answer_noise (cl_bvec cl) (cl_Svec cl) ci_copy of
                  None \<Rightarrow> None
                | Some (Inl e) \<Rightarrow> Some (Inl e)
                | Some (Inr (b0, b1)) \<Rightarrow>
                    let cl = cl\<lparr>Response_b0 := [b0], Response_b1 := [b1]\<rparr>;
                        result = unmask (cl_plainModulus cl) rando (if (\<not> b_indicator) \<noteq> shouldFlip then b0 else b1)
                    in map_option (map_sum id (\<lambda>cl. (result, cl))) (refresh C aes hintIndex qp qo result cl))))"

subsection \<open>The benchmark\<close>

text \<open>One query of the loop, after the progress report; \<open>boo\<close> records whether all results were right.\<close>

definition test_query ::
  "build \<Rightarrow> he_context \<Rightarrow> block_cipher \<Rightarrow> server \<Rightarrow> (ciphertext \<Rightarrow> u64 list) \<Rightarrow> u64 \<Rightarrow> u64 \<Rightarrow> draws \<Rightarrow> nat \<Rightarrow> bool \<times> client
     \<Rightarrow> (bool \<times> client) outcome" where
  "test_query b C aes server decrypt modulus_q kLogDBSize rnd i st =
     (let (boo, cl) = st; (shouldFlip, rando, answer_noise) = rnd i; query = query_of kLogDBSize (of_nat i) in
      map_option (map_sum id (\<lambda>(result, cl). (if sv_DB server ! unat query \<noteq> result then False else boo, cl)))
        (client_online b C aes server decrypt modulus_q answer_noise query shouldFlip rando cl))"

text \<open>\<open>i % milestones\<close> with \<open>milestones = num_queries / 5\<close> divides by zero when there are fewer than five queries.\<close>

primrec test_queries ::
  "build \<Rightarrow> he_context \<Rightarrow> block_cipher \<Rightarrow> server \<Rightarrow> (ciphertext \<Rightarrow> u64 list) \<Rightarrow> u64 \<Rightarrow> u64 \<Rightarrow> draws \<Rightarrow> nat \<Rightarrow> client
     \<Rightarrow> (bool \<times> client) outcome" where
  "test_queries b C aes server decrypt modulus_q kLogDBSize rnd 0 cl = Some (Inr (True, cl))"
| "test_queries b C aes server decrypt modulus_q kLogDBSize rnd (Suc i) cl =
     (case test_queries b C aes server decrypt modulus_q kLogDBSize rnd i cl of
        Some (Inr st) \<Rightarrow>
          if num_queries kLogDBSize div 5 = 0 then None
          else test_query b C aes server decrypt modulus_q kLogDBSize rnd i st
      | r \<Rightarrow> r)"

text \<open>The objects, the offline phase and the loop; the result is what the program reports.\<close>

definition test_pir ::
  "build \<Rightarrow> he_context \<Rightarrow> block_cipher \<Rightarrow> nth_element \<Rightarrow> (nat \<Rightarrow> ciphertext) \<Rightarrow> (nat \<Rightarrow> u64 list \<Rightarrow> ciphertext)
     \<Rightarrow> (ciphertext \<Rightarrow> u64 list) \<Rightarrow> u64 \<Rightarrow> client \<Rightarrow> draws \<Rightarrow> u64 \<Rightarrow> u64 \<Rightarrow> u64 \<Rightarrow> bool outcome" where
  "test_pir b C aes ne enc0 encrypt decrypt modulus_q heap rnd kLogDBSize kEntrySize plainModulus =
     (case OneSVClient heap (ucast kLogDBSize) (ucast kEntrySize) plainModulus of
        None \<Rightarrow> None
      | Some cl \<Rightarrow>
        (case OneSVServer (initDatabase b kLogDBSize kEntrySize plainModulus) (ucast kLogDBSize) (ucast kEntrySize) plainModulus of
           None \<Rightarrow> None
         | Some server \<Rightarrow>
           (case preprocessDatabase C encrypt server of
              None \<Rightarrow> None
            | Some (Inl e) \<Rightarrow> Some (Inl e)
            | Some (Inr server) \<Rightarrow>
              (case Offline C aes ne enc0 (encryptedDB server) cl of
                 None \<Rightarrow> None
               | Some cl \<Rightarrow>
                   map_option (map_sum id fst)
                     (test_queries b C aes server decrypt modulus_q kLogDBSize rnd (num_queries kLogDBSize) cl)))))"

subsection \<open>Fewer than five queries\<close>

lemma num_queries_small:
  assumes "lg \<le> 4"
  shows "0 < num_queries lg" "num_queries lg < 5"
proof -
  have "unat lg \<le> 4" using assms by (simp add: word_le_nat_alt)
  then have "unat lg div 2 + unat lg mod 2 \<le> 2" by presburger
  moreover have "unat (lg div 2 + lg mod 2) = unat lg div 2 + unat lg mod 2"
    using \<open>unat lg \<le> 4\<close> unat_add_no_overflow[of "lg div 2" "lg mod 2"] by (simp add: unat_div unat_mod)
  ultimately have "2 ^ unat (lg div 2 + lg mod 2) \<le> (2 :: nat) ^ 2" by (simp only: power_increasing one_le_numeral)
  then show "num_queries lg < 5" by (simp add: num_queries_def)
qed (simp add: num_queries_def)

lemma test_queries_trap:
  assumes "num_queries lg div 5 = 0" "0 < n"
  shows "test_queries b C aes server decrypt q lg rnd n cl = None"
  using assms(2)
proof (induction n)
  case (Suc n)
  then show ?case using assms(1) by (cases n) auto
qed simp

subsection \<open>One query\<close>

lemma client_ok_counters:
  "client_ok C s aes db E (cl\<lparr>BackupUsedAgain := n\<rparr>) = client_ok C s aes db E cl"
  "client_ok C s aes db E (cl\<lparr>Response_b0 := b0, Response_b1 := b1\<rparr>) = client_ok C s aes db E cl"
  by (simp_all add: client_ok_def wf_client_def dummy_ok_def hint_ok_def backup_ok_def split_sum_def evenly_split_def
      indicator_def Let_def)

lemma count_reuse_result:
  assumes "client_ok C s aes db E cl"
  shows "client_ok C s aes db E (count_reuse h cl)" "\<exists>n. count_reuse h cl = cl\<lparr>BackupUsedAgain := n\<rparr>"
proof -
  show "client_ok C s aes db E (count_reuse h cl)" using assms by (simp add: count_reuse_def client_ok_counters)
  show "\<exists>n. count_reuse h cl = cl\<lparr>BackupUsedAgain := n\<rparr>"
    by (intro exI[of _ "if cl_M cl < HintID cl ! h then BackupUsedAgain cl + 1 else BackupUsedAgain cl"]) (simp add: count_reuse_def)
qed

text \<open>The vectors of the in-process query are those of the networked one, and the state stays intact.\<close>

lemma in_process_vectors:
  assumes ok: "client_ok C s aes db E cl"
    and find: "find_hint aes query (queryPartNum_of cl query) (queryOffset_of cl query) cl False = (h, ind)" "h < unat (cl_M cl)"
    and cl1: "cl1 = build_query aes (queryPartNum_of cl query) ind flip h (count_reuse h cl)"
  shows "client_ok C s aes db E cl1"
    and "\<exists>bv sel pd du n. cl1 = cl\<lparr>cl_bvec := bv, cl_Svec := sel, prfDummyIndices := pd, dummyIdxUsed := du, BackupUsedAgain := n\<rparr>"
    and "\<And>k. k < unat (cl_PartNum cl) \<Longrightarrow> cl_bvec cl1 ! k = query_bit aes cl (unat (queryPartNum_of cl query)) ind flip h k \<and>
      unat (cl_Svec cl1 ! k) < unat (cl_PartSize cl) \<and>
      (cl_bvec cl1 ! k = (ind \<noteq> flip) \<longrightarrow> unat (cl_Svec cl1 ! k) = query_offset aes cl h k)"
proof -
  let ?qp = "queryPartNum_of cl query"
  obtain n where n: "count_reuse h cl = cl\<lparr>BackupUsedAgain := n\<rparr>" using count_reuse_result(2)[OF ok] by blast
  define cl0 where "cl0 = cl\<lparr>BackupUsedAgain := n\<rparr>"
  have ok0: "client_ok C s aes db E cl0" using count_reuse_result(1)[OF ok, of h] by (simp add: n cl0_def)
  then have wf0: "wf_client cl0" "dummy_ok aes cl0" by (simp_all add: client_ok_def Let_def)
  have wf: "wf_client cl" using ok by (simp add: client_ok_def Let_def)
  have "SelectCutoff cl ! h \<noteq> 0" by (rule find_hint_sound(1)[OF wf find])
  then have "hint_ok C s aes db (E + (t_of C + 1) div 2) cl h" using ok find(2) by (simp add: client_ok_def Let_def)
  then have x: "unat (ExtraOffset cl0 ! h) < unat (cl_PartSize cl0)" by (simp add: hint_ok_def Let_def cl0_def)
  have qb: "query_bit aes cl0 = query_bit aes cl" "query_offset aes cl0 = query_offset aes cl"
    by (simp_all add: fun_eq_iff query_bit_def query_offset_def cl0_def)
  have qpbit: "query_bit aes cl p ind flip h p \<noteq> (ind \<noteq> flip)" for p by (auto simp: query_bit_def)
  obtain bv sel pd du where c: "cl1 = cl0\<lparr>cl_bvec := bv, cl_Svec := sel, prfDummyIndices := pd, dummyIdxUsed := du\<rparr>"
    "dummy_ok aes cl1" "length bv = unat (cl_PartNum cl0)" "length sel = unat (cl_PartNum cl0)"
    and bits: "\<And>k. k < unat (cl_PartNum cl0) \<Longrightarrow> bv ! k = query_bit aes cl0 (unat ?qp) ind flip h k \<and> unat (sel ! k) < unat (cl_PartSize cl0) \<and>
       (k \<noteq> unat ?qp \<longrightarrow> query_bit aes cl0 (unat ?qp) ind flip h k = (ind \<noteq> flip) \<longrightarrow> unat (sel ! k) = query_offset aes cl0 h k)"
    using build_query_result[OF wf0 x, of ?qp ind flip] unfolding query_inv_def cl1 n cl0_def[symmetric] by blast
  have "cl1 = cl0\<lparr>cl_bvec := bv, cl_Svec := sel, prfDummyIndices := pd, dummyIdxUsed := du, encZeroNext := encZeroNext cl0\<rparr>"
    by (simp add: c(1))
  from client_ok_query[OF ok0 c(3,4) this c(2)] show "client_ok C s aes db E cl1" .
  show "\<exists>bv sel pd du n. cl1 = cl\<lparr>cl_bvec := bv, cl_Svec := sel, prfDummyIndices := pd, dummyIdxUsed := du, BackupUsedAgain := n\<rparr>"
    using c(1) by (intro exI[of _ bv] exI[of _ sel] exI[of _ pd] exI[of _ du] exI[of _ n]) (cases cl, simp add: cl0_def)
  show "cl_bvec cl1 ! k = query_bit aes cl (unat ?qp) ind flip h k \<and> unat (cl_Svec cl1 ! k) < unat (cl_PartSize cl) \<and>
      (cl_bvec cl1 ! k = (ind \<noteq> flip) \<longrightarrow> unat (cl_Svec cl1 ! k) = query_offset aes cl h k)" if "k < unat (cl_PartNum cl)" for k
    using bits[unfolded qb, of k] that qpbit c(1) by (auto simp: cl0_def)
qed

lemma client_online_result:
  assumes ok: "client_ok C s aes (entry sv) E cl" and match: "matching C R sv cl" and t: "cl_plainModulus cl = mod_value (he_t C)"
    and query: "unat query < unat (cl_PartNum cl) * unat (cl_PartSize cl)" "query \<le> cl_N cl"
    and find: "find_hint aes query (queryPartNum_of cl query) (queryOffset_of cl query) cl False = (h, ind)" "h < unat (cl_M cl)"
    and backup: "next_valid (SelectCutoff cl) (unat (NextHintIndex cl)) = Some j" "j + 1 < unat (cl_M cl) + unat (cl_M cl) div 2"
    and decrypt: "decrypts_to_phase C s decrypt" and rando: "uint rando < t_of C" and noise: "\<bar>sint answer_noise\<bar> \<le> D"
  shows "\<exists>response cl'. client_online Default C aes sv decrypt (mod_value (he_q C)) answer_noise query flip rando cl =
      Some (Inr (unmask (mod_value (he_t C)) rando response, cl')) \<and>
    (\<exists>e i. t_of C * uint response = q_of C * (uint (sv_DB sv ! unat query) + uint rando) + e + t_of C * q_of C * i \<and>
       \<bar>e\<bar> \<le> E + 2 * ((t_of C + 1) div 2) + t_of C * (D + 13))"
proof -
  let ?S = "unat (cl_PartSize cl)" and ?qp = "queryPartNum_of cl query" and ?qo = "queryOffset_of cl query"
  have wf: "wf_client cl" using ok by (simp add: client_ok_def Let_def)
  have S: "0 < ?S" using wf_client_PartSize[OF wf] by blast
  have deg: "?S \<le> he_degree C" using match by (simp add: matching_def)
  note fs = find_hint_sound[OF wf find]
  have hok: "hint_ok C s aes (entry sv) (E + (t_of C + 1) div 2) cl h"
    using ok find(2) fs(1) by (simp add: client_ok_def Let_def)
  let ?m = "split_sum aes cl (entry sv) (HintID cl ! h) (SelectCutoff cl ! h) ind
      + entry sv (unat (ExtraPart cl ! h)) (unat (ExtraOffset cl ! h))"
  have enc: "encodes C s (ciParity cl ! h) (?S - 1) ?m (E + (t_of C + 1) div 2)"
    using hok fs(2) by (simp add: hint_ok_def Let_def)
  then have C: "wf_context C" by (simp add: encodes_def)
  let ?ra = "map (reduce (he_t C)) ((replicate ?S 0)[?S - 1 := rando])"
  have ra: "length ?ra = ?S" "uint (?ra ! (?S - 1)) = uint rando"
    using S rando reduce_correct[OF wf_contextD(2)[OF C]] by simp_all
  obtain ct where ct: "add_plain C (ciParity cl ! h) ?ra = Some (Inr ct)"
    "encodes C s ct (?S - 1) (?m + uint rando) (E + (t_of C + 1) div 2 + (t_of C + 1) div 2)"
    using encodes_add_plain[OF enc, of ?ra] ra deg S by auto
  obtain e1 i1 where e1: "wf_ct C ct" "t_of C * phase C s ct (?S - 1) = q_of C * (?m + uint rando) + e1 + t_of C * q_of C * i1"
    "\<bar>e1\<bar> \<le> E + 2 * ((t_of C + 1) div 2)"
    using ct(2) by (auto simp: encodes_def)
  have e1': "t_of C * phase C s ct (?S - 1) = q_of C * ?m + q_of C * uint rando + e1 + t_of C * q_of C * i1"
    unfolding e1(2) by (simp only: distrib_left)
  define cl1 where "cl1 = build_query aes ?qp ind flip h (count_reuse h cl)"
  note V = in_process_vectors[OF ok find cl1_def]
  obtain bv sel pd du n where cl1: "cl1 = cl\<lparr>cl_bvec := bv, cl_Svec := sel, prfDummyIndices := pd, dummyIdxUsed := du, BackupUsedAgain := n\<rparr>"
    using V(2) by blast
  have bits: "\<And>k. k < unat (cl_PartNum cl) \<Longrightarrow> cl_bvec cl1 ! k = query_bit aes cl (unat ?qp) ind flip h k"
    "\<And>k. k < unat (cl_PartNum cl) \<Longrightarrow> unat (cl_Svec cl1 ! k) < ?S"
    "\<And>k. k < unat (cl_PartNum cl) \<Longrightarrow> cl_bvec cl1 ! k = (ind \<noteq> flip) \<Longrightarrow> unat (cl_Svec cl1 ! k) = query_offset aes cl h k"
    using V(3) by blast+
  let ?B = "E + 2 * ((t_of C + 1) div 2) + t_of C * (D + 13)"
  obtain r0 r1 e i where oq: "onlineQuery Default sv decrypt (mod_value (he_q C)) answer_noise (cl_bvec cl1) (cl_Svec cl1) ct = Some (Inr (r0, r1))"
    and r: "t_of C * uint (if ind \<noteq> flip then r1 else r0) = q_of C * uint (sv_DB sv ! unat query) + q_of C * uint rando + e + t_of C * q_of C * i"
      "\<bar>e\<bar> \<le> ?B"
    using masked_answer_result[OF ok match C query(1) find bits e1(1) e1' e1(3) decrypt noise] by blast
  define resp where "resp = (if ind \<noteq> flip then r1 else r0)"
  define cl2 where "cl2 = cl1\<lparr>Response_b0 := [r0], Response_b1 := [r1]\<rparr>"
  have ok2: "client_ok C s aes (entry sv) E cl2" using V(1) by (simp add: cl2_def client_ok_counters)
  have f2: "cl_M cl2 = cl_M cl" "SelectCutoff cl2 = SelectCutoff cl" "NextHintIndex cl2 = NextHintIndex cl"
    "cl_PartSize cl2 = cl_PartSize cl" "cl_plainModulus cl2 = mod_value (he_t C)"
    by (simp_all add: cl2_def cl1 t)
  obtain cl' where ref: "refresh C aes h ?qp ?qo (unmask (mod_value (he_t C)) rando resp) cl2 = Some (Inr cl')"
    using refresh_result[OF ok2 _ _ _ _ refl refl, of h j ?qp ?qo "unmask (mod_value (he_t C)) rando resp"] find(2) backup deg
    unfolding f2 by blast
  have enc1: "encode_last C cl1 rando = Inr ?ra" using deg by (simp add: encode_last_def encode_polynomial_def cl1)
  have p1: "ciParity cl1 = ciParity cl" by (simp add: cl1)
  have sel: "(if (\<not> ind) \<noteq> flip then r0 else r1) = resp" by (simp add: resp_def)
  have "client_online Default C aes sv decrypt (mod_value (he_q C)) answer_noise query flip rando cl =
      Some (Inr (unmask (mod_value (he_t C)) rando resp, cl'))"
    unfolding client_online_def if_not_P[OF iffD2[OF not_less query(2)]] Let_def find(1) prod.case
      if_not_P[OF iffD2[OF not_le find(2)]] cl1_def[symmetric] enc1 sum.case p1 ct(1) option.case oq
      cl2_def[symmetric] f2(5) sel ref by simp
  moreover have "t_of C * uint resp = q_of C * (uint (sv_DB sv ! unat query) + uint rando) + e + t_of C * q_of C * i"
    unfolding resp_def r(1) by (simp only: distrib_left)
  ultimately show ?thesis using r(2) by blast
qed

text \<open>
  The server answers modulo \<open>q\<close>, the client unmasks modulo \<open>t\<close>: the response is about \<open>q / t\<close> times the
  masked entry, and the unmasked word is not the entry.
\<close>

lemma unmask_mismatch:
  assumes "uint rando < uint t" "uint y < uint t" "uint t < 2 ^ 61" "unmask t rando response = y"
    and "uint t * uint response = q * (uint y + uint rando) + e + uint t * q * i" "\<bar>e\<bar> + 2 * uint t * uint t < q"
  shows "(uint y + uint rando) mod uint t = 0"
proof -
  have r: "0 \<le> uint response" "uint response < 2 * uint t"
  proof -
    show "uint response < 2 * uint t"
    proof (cases "response \<ge> rando")
      case True
      then have "uint y = uint response - uint rando"
        using assms(4) uint_sub_no_borrow[of rando response] by (simp add: unmask_def word_le_def)
      then show ?thesis using assms(1,2) by linarith
    next
      case False
      then have "uint response < uint rando" by (simp add: word_le_def)
      then show ?thesis using assms(1) uint_ge_0[of t] by linarith
    qed
  qed simp
  have t: "0 \<le> uint t" by simp
  have q: "q * (uint y + uint rando + uint t * i) = uint t * uint response - e"
    using assms(5) by (simp only: algebra_simps)
  have "uint t * uint response \<le> uint t * (2 * uint t)" using r(2) t by (intro mult_left_mono) simp_all
  moreover have "0 \<le> uint t * uint response" by simp
  ultimately have b: "\<bar>q * (uint y + uint rando + uint t * i)\<bar> < q"
    unfolding q using assms(6) by (simp only: algebra_simps)
  then have "\<bar>q\<bar> * \<bar>uint y + uint rando + uint t * i\<bar> < \<bar>q\<bar> * 1" by (simp only: abs_mult[symmetric])
  then have "\<bar>uint y + uint rando + uint t * i\<bar> < 1" by (rule mult_less_cancel_left_disj[THEN iffD1, THEN disjE]) auto
  then have "uint y + uint rando = uint t * (- i)" by simp
  then show ?thesis by (simp only: mod_mult_self1_is_0)
qed

text \<open>
  C15: The in-process program misreads the answer. Its query returns, but whenever entry and mask do not
  add up to zero modulo \<open>t\<close> the unmasked word is not the entry, and the benchmark records an error,
  because \<open>Online\<close> unmasks a word modulo \<open>q\<close> as if it were one modulo \<open>t\<close> and never decodes it.
\<close>

theorem in_process_query_wrong:
  assumes "client_ok C s aes (entry sv) E cl" "matching C R sv cl" "cl_plainModulus cl = mod_value (he_t C)"
    and "query = query_of lg (of_nat i)" "unat query < unat (cl_PartNum cl) * unat (cl_PartSize cl)" "query \<le> cl_N cl"
    and "find_hint aes query (queryPartNum_of cl query) (queryOffset_of cl query) cl False = (h, ind)" "h < unat (cl_M cl)"
    and "next_valid (SelectCutoff cl) (unat (NextHintIndex cl)) = Some j" "j + 1 < unat (cl_M cl) + unat (cl_M cl) div 2"
    and "decrypts_to_phase C s decrypt" "rnd i = (flip, rando, answer_noise)" "uint rando < t_of C" "\<bar>sint answer_noise\<bar> \<le> D"
    and "E + 2 * ((t_of C + 1) div 2) + t_of C * (D + 13) + 2 * t_of C * t_of C < q_of C"
    and "(uint (sv_DB sv ! unat query) + uint rando) mod t_of C \<noteq> 0"
  shows "\<exists>cl'. test_query Default C aes sv decrypt (mod_value (he_q C)) lg rnd i (boo, cl) = Some (Inr (False, cl'))"
proof -
  obtain response cl' e k where r: "client_online Default C aes sv decrypt (mod_value (he_q C)) answer_noise query flip rando cl =
      Some (Inr (unmask (mod_value (he_t C)) rando response, cl'))"
    and eq: "t_of C * uint response = q_of C * (uint (sv_DB sv ! unat query) + uint rando) + e + t_of C * q_of C * k"
    and e: "\<bar>e\<bar> \<le> E + 2 * ((t_of C + 1) div 2) + t_of C * (D + 13)"
    using client_online_result[OF assms(1-3,5-11,13,14)] by blast
  have sv: "wf_server sv" "sv_plainModulus sv = mod_value (he_t C)" "sv_PartNum sv = cl_PartNum cl" "sv_PartSize sv = cl_PartSize cl"
    using assms(2) by (simp_all add: matching_def)
  have "unat query < length (sv_DB sv)" using sv assms(5) by (simp add: wf_server_def)
  then have y: "uint (sv_DB sv ! unat query) < t_of C" "t_of C < 2 ^ 61"
    using sv(1,2) by (simp_all add: wf_server_def list_all_length word_less_def)
  have "sv_DB sv ! unat query \<noteq> unmask (mod_value (he_t C)) rando response"
    using unmask_mismatch[OF assms(13) y _ eq] e assms(15,16) by fastforce
  then show ?thesis using r assms(4,12) by (simp add: test_query_def Let_def)
qed

text \<open>
  The benchmark does not get past its first query on the databases its options admit with at most
  sixteen entries: the progress report takes the index modulo \<open>num_queries / 5\<close>, which is zero.
\<close>

theorem test_pir_small_database_traps:
  assumes "kLogDBSize \<le> 4"
  shows "test_queries b C aes server decrypt modulus_q kLogDBSize rnd (num_queries kLogDBSize) cl = None \<and>
    test_pir b C aes ne enc0 encrypt decrypt modulus_q heap rnd kLogDBSize kEntrySize plainModulus \<noteq> Some (Inr verdict)"
proof -
  have "test_queries b C aes server decrypt modulus_q kLogDBSize rnd (num_queries kLogDBSize) cl = None" for server cl
    by (rule test_queries_trap) (use num_queries_small[OF assms] in simp_all)
  then show ?thesis by (simp add: test_pir_def split: option.splits sum.splits)
qed

theorem in_process_query_wrong_witness:
  "\<exists>cl1 cl2. set_up ex_env std_nth_element (\<lambda>_. ex_zero) ex_encryption 2 ex_client = Some (Inr cl1) \<and>
     test_query Default ex_C ex_aes ex_server (env_decrypt ex_env) (mod_value (he_q ex_C)) 2 (\<lambda>_. (True, 5, - 3)) 0 (True, cl1)
       = Some (Inr (False, cl2))"
proof -
  have V: "env_C ex_env = ex_C" "env_R ex_env = ex_R" "env_sv ex_env = ex_server" "env_aes ex_env = ex_aes" by (simp_all add: ex_env_def)
  obtain cl1 where c: "set_up ex_env std_nth_element (\<lambda>_. ex_zero) ex_encryption 2 ex_client = Some (Inr cl1)"
    "ready ex_env ex_secret (backup_noise ex_client 9) 9 4 cl1" "stocked 1 0 cl1"
    and e: "fst (find_hint ex_aes 0 (queryPartNum_of cl1 0) (queryOffset_of cl1 0) cl1 False) = 0" "query_of 2 0 = 0"
    "cl_PartNum cl1 = 2" "cl_PartSize cl1 = 2" "cl_M cl1 = 4" "cl_N cl1 = 4" "cl_plainModulus cl1 = 17"
    by (rule ex_stocked)
  have ok: "client_ok ex_C ex_secret ex_aes (entry ex_server) 27 cl1" and m: "matching ex_C ex_R ex_server cl1"
    using c(2) by (simp_all add: ready_def V backup_noise_def ex_sizes Let_def)
  obtain ind where f: "find_hint ex_aes 0 (queryPartNum_of cl1 0) (queryOffset_of cl1 0) cl1 False = (0, ind)"
    using e(1) by (metis prod.collapse)
  have "wf_client cl1" using ok by (simp add: client_ok_def Let_def)
  note N = stocked_next[OF c(3) zero_less_one this]
  have q: "(0 :: u32) = query_of 2 (of_nat 0)" using e(2) by simp
  have y: "sv_DB ex_server ! 0 = 3" by (simp add: ex_server_def)
  have "\<exists>cl2. test_query Default ex_C ex_aes ex_server (env_decrypt ex_env) (mod_value (he_q ex_C)) 2 (\<lambda>_. (True, 5, - 3)) 0 (True, cl1)
       = Some (Inr (False, cl2))"
    by (rule in_process_query_wrong[where D = 4, OF ok m _ q _ _ f _ N(1,2) ex_decrypts refl])
      (simp_all add: e ex_sizes y, simp add: ex_C_def sample_modulus_def)
  with c(1) show ?thesis by blast
qed

theorem test_pir_small_database_traps_witness:
  "test_queries Default ex_C ex_aes ex_server (env_decrypt ex_env) 10007 2 (\<lambda>_. (True, 5, - 3)) (num_queries 2) ex_client = None"
  by (rule conjunct1[OF test_pir_small_database_traps]) simp

end
