(* ===== verification/Ntt_Spec.thy ===== *)
theory Ntt_Spec
  imports Negacyclic
begin

text \<open>
  What the layers of a negacyclic number-theoretic transform compute. \<open>w i\<close> is the factor of
  node \<open>i\<close> of the tree of roots; block \<open>b\<close> of layer \<open>l\<close> is the polynomial modulo
  \<open>x^(n / 2^l) - root w (2^l + b)\<close>, so that the last layer is the evaluation at \<open>n\<close> roots.
\<close>

definition root :: "(nat \<Rightarrow> int) \<Rightarrow> nat \<Rightarrow> int" where
  "root w j = (if j = 1 then - 1 else if even j then w (j div 2) else - w (j div 2))"

lemma root_children: "0 < i \<Longrightarrow> root w (2 * i) = w i" "0 < i \<Longrightarrow> root w (2 * i + 1) = - w i"
  by (simp_all add: root_def)

definition root_tree :: "int \<Rightarrow> nat \<Rightarrow> (nat \<Rightarrow> int) \<Rightarrow> bool" where
  "root_tree q n w \<longleftrightarrow> (\<forall>i. 0 < i \<longrightarrow> i < n \<longrightarrow> w i * w i mod q = root w i mod q)"

definition level :: "nat \<Rightarrow> (nat \<Rightarrow> int) \<Rightarrow> (nat \<Rightarrow> int) \<Rightarrow> nat \<Rightarrow> nat \<Rightarrow> int" where
  "level L w a l pos =
     (\<Sum>m<2 ^ l. a (pos mod 2 ^ (L - l) + m * 2 ^ (L - l)) * root w (2 ^ l + pos div 2 ^ (L - l)) ^ m)"

definition evaluate_at :: "nat \<Rightarrow> (nat \<Rightarrow> int) \<Rightarrow> int \<Rightarrow> int" where
  "evaluate_at n a x = (\<Sum>m<n. a m * x ^ m)"

lemma level_0: "pos < 2 ^ L \<Longrightarrow> level L w a 0 pos = a pos"
  by (simp add: level_def)

lemma level_last: "level L w a L pos = evaluate_at (2 ^ L) a (root w (2 ^ L + pos))"
  by (simp add: level_def evaluate_at_def)

lemma sum_even_odd: "(\<Sum>m<2 * k. f m) = (\<Sum>m<k. f (2 * m) + f (2 * m + 1))" for f :: "nat \<Rightarrow> int"
  by (induction k) simp_all

lemma mod_sum_cong:
  fixes f g :: "'a \<Rightarrow> int"
  assumes "\<And>x. x \<in> A \<Longrightarrow> f x mod q = g x mod q"
  shows "sum f A mod q = sum g A mod q"
  by (subst (1 2) mod_sum_eq[symmetric]) (simp add: assms cong: sum.cong)

lemma mod_power_cong: "a mod q = b mod q \<Longrightarrow> a ^ k mod q = b ^ k mod q" for a b q :: int
  by (metis power_mod)

lemma block_index: "c < g \<Longrightarrow> (b * g + c) div g = b" "c < g \<Longrightarrow> (b * g + c) mod g = c" for b c g :: nat
  by simp_all

text \<open>One layer: both halves of a block.\<close>

lemma level_block:
  assumes "root_tree q (2 ^ L) w" "l < L" "b < 2 ^ l" "c < 2 ^ (L - Suc l)"
  defines "g \<equiv> 2 ^ (L - Suc l)"
  shows "level L w a (Suc l) (b * (2 * g) + c) mod q
      = (level L w a l (b * (2 * g) + c) + w (2 ^ l + b) * level L w a l (b * (2 * g) + c + g)) mod q"
    and "level L w a (Suc l) (b * (2 * g) + c + g) mod q
      = (level L w a l (b * (2 * g) + c) - w (2 ^ l + b) * level L w a l (b * (2 * g) + c + g)) mod q"
proof -
  let ?i = "2 ^ l + b" and ?w = "w (2 ^ l + b)"
  have g: "0 < g" "c < g" "2 ^ (L - l) = 2 * g" using assms(2,4) by (simp_all add: g_def Suc_diff_Suc flip: power_Suc)
  have i: "0 < ?i" "?i < 2 ^ L"
  proof -
    have "?i < 2 ^ Suc l" using assms(3) by simp
    also have "2 ^ Suc l \<le> (2 :: nat) ^ L" using assms(2) by (intro power_increasing) simp_all
    finally show "?i < 2 ^ L" .
  qed simp
  have sq: "(?w * ?w) ^ m mod q = root w ?i ^ m mod q" for m
    using assms(1) i by (intro mod_power_cong) (simp add: root_tree_def)
  have p: "(b * (2 * g) + c) div (2 * g) = b" "(b * (2 * g) + c) mod (2 * g) = c"
    "(b * (2 * g) + c + g) div (2 * g) = b" "(b * (2 * g) + c + g) mod (2 * g) = c + g"
    using g by (simp_all add: div_add1_eq[of _ "b * (2 * g)"] flip: add.assoc) (simp_all add: add.assoc)
  have e: "b * (2 * g) + c = 2 * b * g + c" "b * (2 * g) + c + g = (2 * b + 1) * g + c" by simp_all
  have h1: "(b * (2 * g) + c) div g = 2 * b" "(b * (2 * g) + c) mod g = c"
    unfolding e(1) by (rule block_index[OF g(2)])+
  have h2: "(b * (2 * g) + c + g) div g = 2 * b + 1" "(b * (2 * g) + c + g) mod g = c"
    by (subst e(2), rule block_index[OF g(2)])+
  have r: "root w (2 ^ Suc l + 2 * b) = ?w" "root w (2 ^ Suc l + (2 * b + 1)) = - ?w"
    using root_children[OF i(1), of w] by (simp_all only: power_Suc distrib_left add.assoc)
  have lo: "level L w a l (b * (2 * g) + c) = (\<Sum>m<2 ^ l. a (c + m * (2 * g)) * root w ?i ^ m)"
    and hi: "level L w a l (b * (2 * g) + c + g) = (\<Sum>m<2 ^ l. a (c + g + m * (2 * g)) * root w ?i ^ m)"
    unfolding level_def g(3) p by simp_all
  have pair: "(a (c + 2 * m * g) * s ^ (2 * m) + a (c + (2 * m + 1) * g) * s ^ (2 * m + 1)) mod q
      = (a (c + m * (2 * g)) * root w ?i ^ m + s * (a (c + g + m * (2 * g)) * root w ?i ^ m)) mod q"
    if "s * s = ?w * ?w" for s m
  proof -
    have "s ^ (2 * m) = (?w * ?w) ^ m" by (simp add: power_mult power2_eq_square that)
    then have "a (c + 2 * m * g) * s ^ (2 * m) + a (c + (2 * m + 1) * g) * s ^ (2 * m + 1)
        = (a (c + m * (2 * g)) + s * a (c + g + m * (2 * g))) * (?w * ?w) ^ m"
      by (simp add: algebra_simps)
    also have "\<dots> mod q = (a (c + m * (2 * g)) + s * a (c + g + m * (2 * g))) * root w ?i ^ m mod q"
      by (rule mod_mult_cong[OF refl sq])
    finally show ?thesis by (simp add: algebra_simps)
  qed
  have half: "(\<Sum>m<2 ^ Suc l. a (c + m * g) * s ^ m) mod q
      = ((\<Sum>m<2 ^ l. a (c + m * (2 * g)) * root w ?i ^ m) + s * (\<Sum>m<2 ^ l. a (c + g + m * (2 * g)) * root w ?i ^ m)) mod q"
    if "s * s = ?w * ?w" for s
    unfolding power_Suc sum_even_odd sum_distrib_left sum.distrib[symmetric]
    by (rule mod_sum_cong) (rule pair[OF that])
  show "level L w a (Suc l) (b * (2 * g) + c) mod q
      = (level L w a l (b * (2 * g) + c) + ?w * level L w a l (b * (2 * g) + c + g)) mod q"
    unfolding level_def[of L w a "Suc l"] g_def[symmetric] h1 r lo hi by (rule half) simp
  show "level L w a (Suc l) (b * (2 * g) + c + g) mod q
      = (level L w a l (b * (2 * g) + c) - ?w * level L w a l (b * (2 * g) + c + g)) mod q"
    unfolding level_def[of L w a "Suc l"] g_def[symmetric] h2 r lo hi using half[of "- ?w"] by simp
qed

subsection \<open>Evaluation turns the negacyclic product into a product\<close>

lemma root_power:
  assumes "root_tree q (2 ^ L) w" "l \<le> L" "b < 2 ^ l"
  shows "root w (2 ^ l + b) ^ 2 ^ l mod q = - 1 mod q"
  using assms(2,3)
proof (induction l arbitrary: b)
  case (Suc l)
  let ?j = "2 ^ Suc l + b" and ?i = "2 ^ l + b div 2"
  have b: "b div 2 < 2 ^ l" using Suc.prems by (simp add: less_mult_imp_div_less)
  have "(1 :: nat) \<le> 2 ^ l" by simp
  then have "?j \<noteq> 1" unfolding power_Suc by linarith
  then have j: "?j div 2 = ?i" "?j \<noteq> 1" by simp_all
  have "?i < 2 ^ Suc l" using b by simp
  also have "2 ^ Suc l \<le> (2 :: nat) ^ L" using Suc.prems(1) by (intro power_increasing) simp_all
  finally have i: "0 < ?i" "?i < 2 ^ L" by simp_all
  have "root w ?j * root w ?j = w ?i * w ?i" using j by (simp add: root_def)
  then have "root w ?j * root w ?j mod q = root w ?i mod q" using assms(1) i by (simp add: root_tree_def)
  then have "(root w ?j * root w ?j) ^ 2 ^ l mod q = root w ?i ^ 2 ^ l mod q" by (rule mod_power_cong)
  moreover have "root w ?j ^ 2 ^ Suc l = (root w ?j * root w ?j) ^ 2 ^ l"
    by (simp add: power_mult power2_eq_square)
  ultimately show ?case using Suc.IH[OF _ b] Suc.prems(1) by simp
qed (simp add: root_def)

lemma evaluate_shift:
  assumes "0 < n" "x ^ n mod q = - 1 mod q"
  shows "(\<Sum>k<n. ext n b (int k - int i) * x ^ k) mod q = x ^ i * evaluate_at n b x mod q"
proof (induction i)
  case 0
  show ?case by (simp add: evaluate_at_def ext_below)
next
  case (Suc i)
  obtain n' where n: "n = Suc n'" using assms(1) by (cases n) auto
  define S where "S = (\<Sum>k<n. ext n b (int k - int i) * x ^ k)"
  define e where "e = ext n b (- 1 - int i)"
  have "(\<Sum>k<n. ext n b (int k - int (Suc i)) * x ^ k) = e + (\<Sum>k<n'. ext n b (int k - int i) * x ^ Suc k)"
    unfolding n sum.lessThan_Suc_shift by (simp add: e_def n)
  also have "(\<Sum>k<n'. ext n b (int k - int i) * x ^ Suc k) = x * (\<Sum>k<n'. ext n b (int k - int i) * x ^ k)"
    by (simp add: sum_distrib_left mult.left_commute)
  also have "(\<Sum>k<n'. ext n b (int k - int i) * x ^ k) = S - ext n b (int n' - int i) * x ^ n'"
    by (simp add: S_def n)
  also have "ext n b (int n' - int i) = - e"
    using ext_add_n[OF assms(1), of b "- 1 - int i"] by (simp add: e_def n)
  also have "e + x * (S - - e * x ^ n') = x * S + e * (1 + x ^ n)"
    unfolding n power_Suc by (simp only: algebra_simps) simp
  finally have e: "(\<Sum>k<n. ext n b (int k - int (Suc i)) * x ^ k) = x * S + e * (1 + x ^ n)" .
  have "(1 + x ^ n) mod q = (1 + - 1) mod q" using mod_add_cong[OF refl assms(2), of 1] .
  then have "e * (1 + x ^ n) mod q = 0" by (simp add: mod_eq_0_iff_dvd)
  then have "(\<Sum>k<n. ext n b (int k - int (Suc i)) * x ^ k) mod q = x * S mod q"
    unfolding e by (metis add.right_neutral mod_add_right_eq)
  also have "\<dots> = x * (x ^ i * evaluate_at n b x) mod q" by (rule mod_mult_cong[OF refl Suc.IH[folded S_def]])
  finally show ?case by (simp add: mult.assoc)
qed

lemma evaluate_nmul:
  assumes "0 < n" "x ^ n mod q = - 1 mod q"
  shows "evaluate_at n (nmul n a b) x mod q = evaluate_at n a x * evaluate_at n b x mod q"
proof -
  have "evaluate_at n (nmul n a b) x = (\<Sum>k<n. \<Sum>i<n. a i * (ext n b (int k - int i) * x ^ k))"
    by (simp add: evaluate_at_def nmul_def sum_distrib_right mult.assoc)
  also have "\<dots> = (\<Sum>i<n. \<Sum>k<n. a i * (ext n b (int k - int i) * x ^ k))" by (rule sum.swap)
  also have "\<dots> = (\<Sum>i<n. a i * (\<Sum>k<n. ext n b (int k - int i) * x ^ k))" by (simp add: sum_distrib_left)
  also have "\<dots> mod q = (\<Sum>i<n. a i * (x ^ i * evaluate_at n b x)) mod q"
    by (rule mod_sum_cong) (rule mod_mult_cong[OF refl evaluate_shift[OF assms]])
  finally show ?thesis by (simp add: evaluate_at_def[of n a] sum_distrib_right mult.assoc)
qed

lemma evaluate_cong_mod:
  "(\<And>i. i < n \<Longrightarrow> a i mod q = b i mod q) \<Longrightarrow> evaluate_at n a x mod q = evaluate_at n b x mod q"
  unfolding evaluate_at_def by (rule mod_sum_cong) (auto intro: mod_mult_cong)

text \<open>The last layer of a product.\<close>

lemma level_nmul:
  assumes "root_tree q (2 ^ L) w" "pos < 2 ^ L"
  shows "level L w (nmul (2 ^ L) a b) L pos mod q = level L w a L pos * level L w b L pos mod q"
  unfolding level_last by (rule evaluate_nmul[OF _ root_power[OF assms(1) order_refl assms(2)]]) simp

end
