(* ===== verification/Multi_Limb.thy ===== *)
theory Multi_Limb
  imports Uint64 Mod_Ops
begin

text \<open>
  The multi-word arithmetic of \<open>src/encryption/utils/basics.h\<close>. A \<open>Slice\<close> of words is a list, the size of
  the result slice is an argument, and the result with its carry or borrow is returned. The
  in-place variants pass an operand as the result; every loop reads index \<open>i\<close> before it writes it.
\<close>

definition limb :: "u64 list \<Rightarrow> nat \<Rightarrow> u64" where
  "limb xs i = (if i < length xs then xs ! i else 0)"

definition pad :: "nat \<Rightarrow> u64 list \<Rightarrow> u64 list" where
  "pad n xs = map (limb xs) [0..<n]"

lemma length_pad [simp]: "length (pad n xs) = n"
  by (simp add: pad_def)

lemma pad_Suc: "pad (Suc n) xs = pad n xs @ [limb xs n]"
  by (simp add: pad_def)

lemma limbs_pad: "length xs \<le> n \<Longrightarrow> limbs (pad n xs) = limbs xs"
proof -
  assume "length xs \<le> n"
  then have "pad n xs = xs @ replicate (n - length xs) 0"
    by (intro nth_equalityI) (auto simp: pad_def limb_def nth_append)
  then show ?thesis by (simp add: limbs_append)
qed

lemma limbs_snoc: "limbs (xs @ [x]) = limbs xs + 2 ^ (64 * length xs) * uint x"
  by (simp add: limbs_append)

subsection \<open>Addition and subtraction\<close>

definition add_uint_carry :: "u64 list \<Rightarrow> u64 list \<Rightarrow> u8 \<Rightarrow> nat \<Rightarrow> u64 list \<times> u8" where
  "add_uint_carry operand1 operand2 carry n =
     fold (\<lambda>i (result, c). let (temp_result, c) = add_uint64_carry (limb operand1 i) (limb operand2 i) c
       in (result @ [temp_result], c)) [0..<n] ([], carry)"

definition add_uint_carry_inplace :: "u64 list \<Rightarrow> u64 list \<Rightarrow> u8 \<Rightarrow> u64 list \<times> u8" where
  "add_uint_carry_inplace operand1 operand2 carry = add_uint_carry operand1 operand2 carry (length operand1)"

definition add_uint :: "u64 list \<Rightarrow> u64 list \<Rightarrow> nat \<Rightarrow> u64 list \<times> u8" where
  "add_uint operand1 operand2 n = add_uint_carry operand1 operand2 0 n"

definition add_uint_inplace :: "u64 list \<Rightarrow> u64 list \<Rightarrow> u64 list \<times> u8" where
  "add_uint_inplace operand1 operand2 = add_uint_carry_inplace operand1 operand2 0"

definition sub_uint_borrow :: "u64 list \<Rightarrow> u64 list \<Rightarrow> u8 \<Rightarrow> nat \<Rightarrow> u64 list \<times> u8" where
  "sub_uint_borrow operand1 operand2 borrow n =
     fold (\<lambda>i (result, b). let (temp_result, b) = sub_uint64_borrow (limb operand1 i) (limb operand2 i) b
       in (result @ [temp_result], b)) [0..<n] ([], borrow)"

definition sub_uint_borrow_inplace :: "u64 list \<Rightarrow> u64 list \<Rightarrow> u8 \<Rightarrow> u64 list \<times> u8" where
  "sub_uint_borrow_inplace operand1 operand2 borrow = sub_uint_borrow operand1 operand2 borrow (length operand1)"

definition sub_uint :: "u64 list \<Rightarrow> u64 list \<Rightarrow> nat \<Rightarrow> u64 list \<times> u8" where
  "sub_uint operand1 operand2 n = sub_uint_borrow operand1 operand2 0 n"

definition sub_uint_inplace :: "u64 list \<Rightarrow> u64 list \<Rightarrow> u64 list \<times> u8" where
  "sub_uint_inplace operand1 operand2 = sub_uint_borrow_inplace operand1 operand2 0"

text \<open>Adding and subtracting one word; an empty operand or result is accessed out of bounds.\<close>

definition add_uint_uint64 :: "u64 list \<Rightarrow> u64 \<Rightarrow> nat \<Rightarrow> (u64 list \<times> u8) option" where
  "add_uint_uint64 operand1 operand2 n =
     (if n = 0 \<or> length operand1 < n then None
      else let (r0, carry) = add_uint64 (operand1 ! 0) operand2 in
        Some (fold (\<lambda>i (result, carry). let (temp_result, carry) = add_uint64_carry (operand1 ! i) 0 carry
          in (result @ [temp_result], carry)) [1..<n] ([r0], carry)))"

definition sub_uint_u64 :: "u64 list \<Rightarrow> u64 \<Rightarrow> nat \<Rightarrow> (u64 list \<times> u8) option" where
  "sub_uint_u64 operand1 operand2 n =
     (if n = 0 \<or> length operand1 < n then None
      else let (r0, borrow) = sub_uint64 (operand1 ! 0) operand2 in
        Some (fold (\<lambda>i (result, borrow). let (temp_result, borrow) = sub_uint64_borrow (operand1 ! i) 0 borrow
          in (result @ [temp_result], borrow)) [1..<n] ([r0], borrow)))"

definition increment_uint :: "u64 list \<Rightarrow> nat \<Rightarrow> (u64 list \<times> u8) option" where
  "increment_uint operand n = add_uint_uint64 operand 1 n"

definition decrement_uint :: "u64 list \<Rightarrow> nat \<Rightarrow> (u64 list \<times> u8) option" where
  "decrement_uint operand n = sub_uint_u64 operand 1 n"

text \<open>As written: the loop starts at index 0 again, with the carry of the first word.\<close>

definition negate_uint :: "u64 list \<Rightarrow> nat \<Rightarrow> u64 list option" where
  "negate_uint operand n =
     (if n = 0 \<or> length operand < n then None
      else let (r0, carry) = add_uint64 (NOT (operand ! 0)) 1 in
        Some (fst (fold (\<lambda>i (result, carry). let (temp_result, carry) = add_uint64_carry (NOT (operand ! i)) 0 carry
          in (result @ [temp_result], carry)) [0..<n] ([], carry))))"

lemma add_uint_carry_result:
  assumes "carry \<in> {0, 1}"
  shows "\<exists>r c. add_uint_carry a b carry n = (r, c) \<and> length r = n \<and> c \<in> {0, 1} \<and>
    limbs r + 2 ^ (64 * n) * uint c = limbs (pad n a) + limbs (pad n b) + uint carry"
proof (induction n)
  case 0
  then show ?case using assms by (auto simp: add_uint_carry_def pad_def)
next
  case (Suc n)
  then obtain r c where r: "add_uint_carry a b carry n = (r, c)" "length r = n" "c \<in> {0, 1}"
    "limbs r + 2 ^ (64 * n) * uint c = limbs (pad n a) + limbs (pad n b) + uint carry" by blast
  obtain t c' where t: "add_uint64_carry (limb a n) (limb b n) c = (t, c')" by fastforce
  have s: "uint t + 2 ^ 64 * uint c' = uint (limb a n) + uint (limb b n) + uint c" "c' \<in> {0, 1}"
    using add_uint64_carry_sum[OF t r(3)] by simp_all
  have "add_uint_carry a b carry (Suc n) = (r @ [t], c')"
    using r(1) t by (simp add: add_uint_carry_def)
  moreover have "2 ^ (64 * n) * (uint t + 2 ^ 64 * uint c') = 2 ^ (64 * n) * (uint (limb a n) + uint (limb b n) + uint c)"
    using s(1) by (simp only:)
  then have "limbs (r @ [t]) + 2 ^ (64 * Suc n) * uint c' = limbs (pad (Suc n) a) + limbs (pad (Suc n) b) + uint carry"
    using r(4) by (simp only: limbs_snoc pad_Suc length_pad r(2) mult_Suc_right power_add distrib_left mult.assoc) (simp add: algebra_simps)
  ultimately show ?case using r(2) s(2) by simp
qed

lemma sub_uint_borrow_result:
  assumes "borrow \<in> {0, 1}"
  shows "\<exists>r c. sub_uint_borrow a b borrow n = (r, c) \<and> length r = n \<and> c \<in> {0, 1} \<and>
    limbs r - 2 ^ (64 * n) * uint c = limbs (pad n a) - limbs (pad n b) - uint borrow"
proof (induction n)
  case 0
  then show ?case using assms by (auto simp: sub_uint_borrow_def pad_def)
next
  case (Suc n)
  then obtain r c where r: "sub_uint_borrow a b borrow n = (r, c)" "length r = n" "c \<in> {0, 1}"
    "limbs r - 2 ^ (64 * n) * uint c = limbs (pad n a) - limbs (pad n b) - uint borrow" by blast
  obtain t c' where t: "sub_uint64_borrow (limb a n) (limb b n) c = (t, c')" by fastforce
  have s: "uint t - 2 ^ 64 * uint c' = uint (limb a n) - uint (limb b n) - uint c" "c' \<in> {0, 1}"
    using sub_uint64_borrow_diff[OF t r(3)] by simp_all
  have "sub_uint_borrow a b borrow (Suc n) = (r @ [t], c')"
    using r(1) t by (simp add: sub_uint_borrow_def)
  moreover have "2 ^ (64 * n) * (uint t - 2 ^ 64 * uint c') = 2 ^ (64 * n) * (uint (limb a n) - uint (limb b n) - uint c)"
    using s(1) by (simp only:)
  then have "limbs (r @ [t]) - 2 ^ (64 * Suc n) * uint c' = limbs (pad (Suc n) a) - limbs (pad (Suc n) b) - uint borrow"
    using r(4) by (simp only: limbs_snoc pad_Suc length_pad r(2) mult_Suc_right power_add right_diff_distrib mult.assoc) (simp add: algebra_simps)
  ultimately show ?case using r(2) s(2) by simp
qed

text \<open>Adding one word is adding a one-word number, and the same for subtracting.\<close>

lemma add_uint64_as_carry: "add_uint64 a b = add_uint64_carry a b 0"
proof -
  have "a + b < a \<longleftrightarrow> a + b < b"
    using uint_add_overflow_iff[of a b] uint_add_overflow_iff[of b a] by (simp add: add.commute)
  then show ?thesis by (simp add: add_uint64_def add_uint64_carry_def Let_def)
qed

lemma add_uint_uint64_eq:
  assumes "0 < n" "n \<le> length a"
  shows "add_uint_uint64 a w n = Some (add_uint_carry a [w] 0 n)"
proof -
  have "[0..<n] = 0 # [1..<n]" using assms(1) by (simp add: upt_rec)
  moreover have "limb a 0 = a ! 0" "limb [w] 0 = w" using assms by (auto simp: limb_def)
  moreover have "fold (\<lambda>i (result, carry). let (t, carry) = add_uint64_carry (a ! i) 0 carry in (result @ [t], carry)) [1..<n] s =
      fold (\<lambda>i (result, carry). let (t, carry) = add_uint64_carry (limb a i) (limb [w] i) carry in (result @ [t], carry)) [1..<n] s" for s
    by (rule fold_cong) (use assms in \<open>auto simp: limb_def\<close>)
  ultimately show ?thesis
    using assms by (simp add: add_uint_uint64_def add_uint_carry_def add_uint64_as_carry split: prod.splits)
qed

lemma sub_uint_u64_eq:
  assumes "0 < n" "n \<le> length a"
  shows "sub_uint_u64 a w n = Some (sub_uint_borrow a [w] 0 n)"
proof -
  have "[0..<n] = 0 # [1..<n]" using assms(1) by (simp add: upt_rec)
  moreover have "limb a 0 = a ! 0" "limb [w] 0 = w" using assms by (auto simp: limb_def)
  moreover have "fold (\<lambda>i (result, borrow). let (t, borrow) = sub_uint64_borrow (a ! i) 0 borrow in (result @ [t], borrow)) [1..<n] s =
      fold (\<lambda>i (result, borrow). let (t, borrow) = sub_uint64_borrow (limb a i) (limb [w] i) borrow in (result @ [t], borrow)) [1..<n] s" for s
    by (rule fold_cong) (use assms in \<open>auto simp: limb_def\<close>)
  moreover have "sub_uint64 (a ! 0) w = sub_uint64_borrow (a ! 0) w 0"
    by (simp add: sub_uint64_def sub_uint64_borrow_def Let_def)
  ultimately show ?thesis
    using assms by (simp add: sub_uint_u64_def sub_uint_borrow_def split: prod.splits)
qed

subsection \<open>Comparison\<close>

fun compare_loop :: "u64 list \<Rightarrow> u64 list \<Rightarrow> nat \<Rightarrow> int" where
  "compare_loop operand1 operand2 0 = 0"
| "compare_loop operand1 operand2 (Suc i) =
     (if limb operand1 i > limb operand2 i then 1
      else if limb operand1 i < limb operand2 i then - 1
      else compare_loop operand1 operand2 i)"

definition compare_uint :: "u64 list \<Rightarrow> u64 list \<Rightarrow> int" where
  "compare_uint operand1 operand2 = compare_loop operand1 operand2 (max (length operand1) (length operand2))"

definition is_greater_or_equal_uint :: "u64 list \<Rightarrow> u64 list \<Rightarrow> bool" where
  "is_greater_or_equal_uint operand1 operand2 \<longleftrightarrow> compare_uint operand1 operand2 \<ge> 0"

definition add_uint_mod :: "u64 list \<Rightarrow> u64 list \<Rightarrow> u64 list \<Rightarrow> nat \<Rightarrow> u64 list" where
  "add_uint_mod operand1 operand2 modulus n =
     (let (result, carry) = add_uint operand1 operand2 n in
      if carry \<noteq> 0 \<or> is_greater_or_equal_uint result modulus then fst (sub_uint_inplace result modulus) else result)"

definition sub_uint_mod :: "u64 list \<Rightarrow> u64 list \<Rightarrow> u64 list \<Rightarrow> nat \<Rightarrow> u64 list" where
  "sub_uint_mod operand1 operand2 modulus n =
     (let (result, borrow) = sub_uint operand1 operand2 n in
      if borrow \<noteq> 0 then fst (add_uint_inplace result modulus) else result)"

lemma limbs_pad_bound: "limbs (pad n xs) < 2 ^ (64 * n)"
  using limbs_bound[of "pad n xs"] by simp

lemma compare_loop_sgn: "compare_loop a b n = sgn (limbs (pad n a) - limbs (pad n b))"
proof (induction n)
  case (Suc n)
  have b: "limbs (pad n a) < 2 ^ (64 * n)" "limbs (pad n b) < 2 ^ (64 * n)" by (rule limbs_pad_bound)+
  have n: "0 \<le> limbs (pad n a)" "0 \<le> limbs (pad n b)" by simp_all
  have key: "0 < limbs (pad n x) - limbs (pad n y) + 2 ^ (64 * n) * (uint (limb x n) - uint (limb y n))"
    if "limb y n < limb x n" for x y
  proof -
    have "1 \<le> uint (limb x n) - uint (limb y n)" using that by (simp add: word_less_def)
    then have "2 ^ (64 * n) * 1 \<le> (2 :: int) ^ (64 * n) * (uint (limb x n) - uint (limb y n))" by (rule mult_left_mono) simp
    moreover have "limbs (pad n y) < 2 ^ (64 * n)" "0 \<le> limbs (pad n x)" by (rule limbs_pad_bound) simp
    ultimately show ?thesis by linarith
  qed
  consider "limb b n < limb a n" | "limb a n < limb b n" | "limb a n = limb b n" by fastforce
  then show ?case
  proof cases
    case 1
    then show ?thesis using key[of b a] by (simp add: pad_Suc limbs_snoc algebra_simps)
  next
    case 2
    then show ?thesis using key[of a b] by (simp add: pad_Suc limbs_snoc algebra_simps)
  next
    case 3
    then show ?thesis using Suc by (simp add: pad_Suc limbs_snoc)
  qed
qed (simp add: pad_def)

lemma compare_uint_sgn: "compare_uint a b = sgn (limbs a - limbs b)"
  by (simp add: compare_uint_def compare_loop_sgn limbs_pad)

lemma is_greater_or_equal_uint_iff: "is_greater_or_equal_uint a b \<longleftrightarrow> limbs b \<le> limbs a"
  by (auto simp: is_greater_or_equal_uint_def compare_uint_sgn sgn_if)

lemma add_mod_cases:
  fixes r A r' m K P Q :: int
  assumes "r + P = A" "r' - Q = r - m" "P = 0 \<or> P = K" "Q = 0 \<or> Q = K"
    and "0 \<le> r" "r < K" "0 \<le> r'" "r' < K" "0 \<le> A" "A < 2 * m" "m < K"
  shows "P \<noteq> 0 \<or> m \<le> r \<Longrightarrow> r' = A mod m" and "\<not> (P \<noteq> 0 \<or> m \<le> r) \<Longrightarrow> r = A mod m"
proof -
  assume "P \<noteq> 0 \<or> m \<le> r"
  then have m: "m \<le> A" using assms(1,3,5,11) by linarith
  have "r' = A - m"
  proof (cases "Q = P")
    case True
    then show ?thesis using assms(1,2) by simp
  next
    case False
    then have "P = 0 \<and> Q = K \<or> P = K \<and> Q = 0" using assms(3,4) by auto
    then show ?thesis using assms(1,2,5-8,10,11) m by (elim disjE conjE) simp_all
  qed
  then show "r' = A mod m" using assms(10) m mod_pos_geq[of m A] mod_pos_pos_trivial[of "A - m" m] by simp
next
  assume "\<not> (P \<noteq> 0 \<or> m \<le> r)"
  then show "r = A mod m" using assms(1,5) by (simp add: mod_pos_pos_trivial)
qed

lemma sub_mod_cases:
  fixes r a b r' m K P Q :: int
  assumes "r - P = a - b" "r' + Q = r + m" "P = 0 \<or> P = K" "Q = 0 \<or> Q = K"
    and "0 \<le> r" "r < K" "0 \<le> r'" "r' < K" "0 \<le> a" "0 \<le> b" "a < m" "b < m" "m < K"
  shows "P \<noteq> 0 \<Longrightarrow> r' = (a - b) mod m" and "P = 0 \<Longrightarrow> r = (a - b) mod m"
proof -
  assume "P \<noteq> 0"
  then have P: "P = K" using assms(3) by simp
  have "Q = K" using assms(4)
  proof
    assume "Q = 0"
    then show "Q = K" using P assms(1,2,8-12) by linarith
  qed
  then have "r' = a - b + m" "a - b < 0" using P assms(1,2,6) by simp_all
  then show "r' = (a - b) mod m" using assms(9,12) mod_pos_pos_trivial[of "a - b + m" m] by simp
next
  assume "P = 0"
  then show "r = (a - b) mod m" using assms(1,5,10,11) by (simp add: mod_pos_pos_trivial)
qed

lemma add_uint_mod_result:
  assumes "length a \<le> n" "length b \<le> n" "length m \<le> n" "limbs a < limbs m" "limbs b < limbs m"
  shows "limbs (add_uint_mod a b m n) = (limbs a + limbs b) mod limbs m \<and> length (add_uint_mod a b m n) = n"
proof -
  obtain r c where r: "add_uint a b n = (r, c)" "length r = n" "c \<in> {0, 1}" "limbs r + 2 ^ (64 * n) * uint c = limbs a + limbs b"
    using add_uint_carry_result[of 0 a b n] assms(1,2) by (auto simp: add_uint_def limbs_pad)
  obtain r' c' where r': "sub_uint_inplace r m = (r', c')" "length r' = n" "c' \<in> {0, 1}" "limbs r' - 2 ^ (64 * n) * uint c' = limbs r - limbs m"
    using sub_uint_borrow_result[of 0 r m n] assms(3) r(2) by (auto simp: sub_uint_inplace_def sub_uint_borrow_inplace_def limbs_pad)
  let ?K = "2 ^ (64 * n) :: int"
  have P: "?K * uint c = 0 \<or> ?K * uint c = ?K" "?K * uint c = 0 \<longleftrightarrow> c = 0" "?K * uint c' = 0 \<or> ?K * uint c' = ?K"
    using r(3) r'(3) by auto
  have B: "limbs r < ?K" "limbs r' < ?K" "limbs m < ?K"
    using limbs_bound[of r] limbs_bound[of r'] limbs_pad_bound[of n m] r(2) r'(2) assms(3) by (simp_all add: limbs_pad)
  have s: "0 \<le> limbs a + limbs b" "limbs a + limbs b < 2 * limbs m" using assms(4,5) by simp_all
  note C = add_mod_cases[OF r(4) r'(4) P(1,3) limbs_nonneg B(1) limbs_nonneg B(2) s B(3)]
  show ?thesis
  proof (cases "c \<noteq> 0 \<or> limbs m \<le> limbs r")
    case True
    then show ?thesis using C(1) P(2) r(1) r'(1,2) by (simp add: add_uint_mod_def is_greater_or_equal_uint_iff)
  next
    case False
    then show ?thesis using C(2) P(2) r(1,2) by (simp add: add_uint_mod_def is_greater_or_equal_uint_iff)
  qed
qed

lemma sub_uint_mod_result:
  assumes "length a \<le> n" "length b \<le> n" "length m \<le> n" "limbs a < limbs m" "limbs b < limbs m"
  shows "limbs (sub_uint_mod a b m n) = (limbs a - limbs b) mod limbs m \<and> length (sub_uint_mod a b m n) = n"
proof -
  obtain r c where r: "sub_uint a b n = (r, c)" "length r = n" "c \<in> {0, 1}" "limbs r - 2 ^ (64 * n) * uint c = limbs a - limbs b"
    using sub_uint_borrow_result[of 0 a b n] assms(1,2) by (auto simp: sub_uint_def limbs_pad)
  obtain r' c' where r': "add_uint_inplace r m = (r', c')" "length r' = n" "c' \<in> {0, 1}" "limbs r' + 2 ^ (64 * n) * uint c' = limbs r + limbs m"
    using add_uint_carry_result[of 0 r m n] assms(3) r(2) by (auto simp: add_uint_inplace_def add_uint_carry_inplace_def limbs_pad)
  let ?K = "2 ^ (64 * n) :: int"
  have P: "?K * uint c = 0 \<or> ?K * uint c = ?K" "?K * uint c = 0 \<longleftrightarrow> c = 0" "?K * uint c' = 0 \<or> ?K * uint c' = ?K"
    using r(3) r'(3) by auto
  have B: "limbs r < ?K" "limbs r' < ?K" "limbs m < ?K"
    using limbs_bound[of r] limbs_bound[of r'] limbs_pad_bound[of n m] r(2) r'(2) assms(3) by (simp_all add: limbs_pad)
  note C = sub_mod_cases[OF r(4) r'(4) P(1,3) limbs_nonneg B(1) limbs_nonneg B(2) limbs_nonneg limbs_nonneg assms(4,5) B(3)]
  show ?thesis
  proof (cases "c = 0")
    case True
    then show ?thesis using C(2) P(2) r(1,2) by (simp add: sub_uint_mod_def)
  next
    case False
    then show ?thesis using C(1) P(2) r(1) r'(1,2) by (simp add: sub_uint_mod_def)
  qed
qed

subsection \<open>Properties\<close>

text \<open>
  Modular addition and subtraction of multi-word residues: one conditional correction by the modulus
  is enough, whatever the carry out of the highest word.
\<close>

theorem multi_limb_mod_arithmetic:
  assumes "length a \<le> n" "length b \<le> n" "length m \<le> n" "limbs a < limbs m" "limbs b < limbs m"
  shows "limbs (add_uint_mod a b m n) = (limbs a + limbs b) mod limbs m \<and>
    limbs (sub_uint_mod a b m n) = (limbs a - limbs b) mod limbs m"
  using add_uint_mod_result[OF assms] sub_uint_mod_result[OF assms] by blast

theorem multi_limb_mod_arithmetic_witness:
  "limbs (add_uint_mod [5, 2 ^ 63] [7, 2 ^ 63] [11, 2 ^ 63] 2) = 2 ^ 127 + 1 \<and>
    limbs (sub_uint_mod [5, 2 ^ 63] [7, 2 ^ 63] [11, 2 ^ 63] 2) = 2 ^ 127 + 9"
  using multi_limb_mod_arithmetic[of "[5, 2 ^ 63]" 2 "[7, 2 ^ 63]" "[11, 2 ^ 63]"] by simp

lemma limbs_NOT: "limbs (map NOT xs) = 2 ^ (64 * length xs) - 1 - limbs xs"
proof (induction xs)
  case (Cons x xs)
  then show ?case by (simp add: uint_NOT power_add algebra_simps)
qed simp

lemma negate_uint_result:
  assumes "0 < n" "length x = n"
  shows "\<exists>r. negate_uint x n = Some r \<and> limbs r = (of_bool (x ! 0 = 0) - 1 - limbs x) mod 2 ^ (64 * n)"
proof -
  let ?K = "2 ^ (64 * n) :: int"
  obtain r0 carry where c: "add_uint64 (NOT (x ! 0)) 1 = (r0, carry)" by fastforce
  have carry: "carry = (if x ! 0 = 0 then 1 else 0)"
  proof -
    have "uint (NOT (x ! 0) + 1) = (2 ^ 64 - uint (x ! 0)) mod 2 ^ 64"
      by (simp add: uint_word_ariths uint_NOT take_bit_eq_mod)
    also have "\<dots> = (if uint (x ! 0) = 0 then 0 else 2 ^ 64 - uint (x ! 0))"
    proof (cases "uint (x ! 0) = 0")
      case False
      then have "0 \<le> 2 ^ 64 - uint (x ! 0)" "2 ^ 64 - uint (x ! 0) < 2 ^ 64"
        using uint64_lt[of "x ! 0"] uint_ge_0[of "x ! 0"] by linarith+
      then show ?thesis unfolding if_not_P[OF False] by (rule mod_pos_pos_trivial)
    qed simp
    finally have "NOT (x ! 0) + 1 < NOT (x ! 0) \<longleftrightarrow> uint (x ! 0) = 0"
      by (simp add: word_less_def uint_NOT)
    then have "NOT (x ! 0) + 1 < NOT (x ! 0) \<longleftrightarrow> x ! 0 = 0" by (simp add: uint_0_iff)
    then show ?thesis using c by (auto simp: add_uint64_def Let_def of_flag_def)
  qed
  have "fold (\<lambda>i (result, carry). let (t, carry) = add_uint64_carry (NOT (x ! i)) 0 carry in (result @ [t], carry)) [0..<n] s =
      fold (\<lambda>i (result, carry). let (t, carry) = add_uint64_carry (limb (map NOT x) i) (limb [] i) carry in (result @ [t], carry)) [0..<n] s" for s
    by (rule fold_cong) (use assms in \<open>auto simp: limb_def\<close>)
  then have e: "negate_uint x n = Some (fst (add_uint_carry (map NOT x) [] carry n))"
    using assms c by (simp add: negate_uint_def add_uint_carry_def)
  have "pad n [] = replicate n 0" by (intro nth_equalityI) (simp_all add: pad_def limb_def)
  moreover have "carry \<in> {0, 1}" using carry by (simp split: if_splits)
  ultimately obtain r k where r: "add_uint_carry (map NOT x) [] carry n = (r, k)" "length r = n"
    "limbs r + ?K * uint k = ?K - 1 - limbs x + uint carry"
    using add_uint_carry_result[of carry "map NOT x" "[]" n] assms(2) by (auto simp: limbs_pad limbs_NOT)
  have b: "limbs r < ?K" using limbs_bound[of r] r(2) by simp
  have "limbs r = limbs r mod ?K" using b by (simp add: mod_pos_pos_trivial)
  also have "\<dots> = (limbs r + ?K * uint k) mod ?K" by simp
  also have "\<dots> = (uint carry - 1 - limbs x + ?K) mod ?K" unfolding r(3) by (simp add: algebra_simps)
  finally have l: "limbs r = (uint carry - 1 - limbs x) mod ?K" by simp
  then show ?thesis using e r(1) carry by (auto split: if_splits)
qed

text \<open>
  The negation is the two's complement exactly when the lowest word is zero: the loop adds the carry
  of the first word, not one.
\<close>

theorem negate_uint_low_word_zero:
  assumes "0 < n" "length x = n"
  shows "\<exists>r. negate_uint x n = Some r \<and> (limbs r = (- limbs x) mod 2 ^ (64 * n) \<longleftrightarrow> x ! 0 = 0)"
proof -
  obtain r where r: "negate_uint x n = Some r" "limbs r = (of_bool (x ! 0 = 0) - 1 - limbs x) mod 2 ^ (64 * n)"
    using negate_uint_result[OF assms] by blast
  have "(1 :: int) < 2 ^ (64 * n)" using assms(1) by (intro one_less_power) simp_all
  then have "\<not> 2 ^ (64 * n) dvd (- 1 - limbs x) - (- limbs x)" by simp
  then show ?thesis using r by (cases "x ! 0 = 0") (simp_all add: mod_eq_dvd_iff)
qed

theorem negate_uint_low_word_zero_witness:
  "(\<exists>r. negate_uint [1, 5] 2 = Some r \<and> limbs r \<noteq> (- (1 + 2 ^ 64 * 5)) mod 2 ^ 128)"
  using negate_uint_low_word_zero[of 2 "[1, 5]"] by auto

end
