(* ===== verification/Limb_Mult.thy ===== *)
theory Limb_Mult
  imports Multi_Limb
begin

text \<open>
  Multiplication of multi-word numbers in \<open>src/encryption/utils/basics.h\<close>: by one word, and the
  schoolbook product of two numbers truncated to the size of the result.
\<close>

definition get_significant_uint64_count_uint :: "u64 list \<Rightarrow> nat" where
  "get_significant_uint64_count_uint xs = length (dropWhile (\<lambda>x. x = 0) (rev xs))"

definition multiply_uint_uint64 :: "u64 list \<Rightarrow> u64 \<Rightarrow> nat \<Rightarrow> u64 list" where
  "multiply_uint_uint64 operand1 operand2 n =
     (if operand1 = [] \<or> operand2 = 0 then replicate n 0
      else if n = 1 then [operand1 ! 0 * operand2]
      else
        let max_index = (if length operand1 < n then length operand1 else n);
            (result, carry) = fold (\<lambda>i (result, carry).
                let (t0, t1) = multiply_uint64_uint64 (operand1 ! i) operand2;
                    (temp, c) = add_uint64_carry t0 carry 0
                in (result @ [temp], t1 + ucast c)) [0..<max_index] ([], 0)
        in if max_index < n then result @ carry # replicate (n - max_index - 1) 0 else result)"

text \<open>One pass of the inner loop, then the whole product. A one-word result is the square of the
  first operand: the code multiplies \<open>operand1[0]\<close> by itself.\<close>

definition multiply_row :: "u64 \<Rightarrow> u64 list \<Rightarrow> nat \<Rightarrow> nat \<Rightarrow> u64 list \<Rightarrow> u64 list \<times> u64" where
  "multiply_row x operand2 i operand2_index_max result =
     fold (\<lambda>j (result, carry).
         let (t0, t1) = multiply_uint64_uint64 x (operand2 ! j);
             (t0, c1) = add_uint64_carry t0 carry 0;
             carry = t1 + ucast c1;
             (temp, c2) = add_uint64_carry (result ! (i + j)) t0 0
         in (result[i + j := temp], carry + ucast c2)) [0..<operand2_index_max] (result, 0)"

definition row_step :: "u64 list \<Rightarrow> u64 list \<Rightarrow> nat \<Rightarrow> nat \<Rightarrow> u64 list \<Rightarrow> u64 list" where
  "row_step a b n i result =
     (let operand2_index_max = (if length b < n - i then length b else n - i);
          (result, carry) = multiply_row (a ! i) b i operand2_index_max result
      in if i + operand2_index_max < n then result[i + operand2_index_max := carry] else result)"

definition multiply_uint :: "u64 list \<Rightarrow> u64 list \<Rightarrow> nat \<Rightarrow> u64 list" where
  "multiply_uint operand1 operand2 n =
     (if operand1 = [] \<or> operand2 = [] then replicate n 0
      else if n = 1 then [operand1 ! 0 * operand1 ! 0]
      else if get_significant_uint64_count_uint operand1 = 1 then multiply_uint_uint64 operand2 (operand1 ! 0) n
      else if get_significant_uint64_count_uint operand2 = 1 then multiply_uint_uint64 operand1 (operand2 ! 0) n
      else fold (row_step operand1 operand2 n) [0..<if length operand1 < n then length operand1 else n] (replicate n 0))"

subsection \<open>One step\<close>

lemma multiply_uint64_uint64_sum:
  "multiply_uint64_uint64 a b = (lo, hi) \<Longrightarrow> uint lo + 2 ^ 64 * uint hi = uint a * uint b"
  using multiply_uint64_uint64_split[of a b lo hi] by simp

lemma uint_carry: "c \<in> {0, 1} \<Longrightarrow> uint (ucast c :: u64) = uint (c :: u8)"
  by auto

lemma high_no_overflow:
  fixes t h s :: u64
  assumes "uint t + 2 ^ 64 * (uint h + k) < 2 ^ 128" "0 \<le> k" "k = uint s"
  shows "uint (h + s) = uint h + k"
proof -
  have "uint h + k < 2 ^ 64"
  proof (rule ccontr)
    assume "\<not> uint h + k < 2 ^ 64"
    then have "2 ^ 64 * 2 ^ 64 \<le> 2 ^ 64 * (uint h + k)" by simp
    then show False using assms(1) uint_ge_0[of t] by simp
  qed
  then show ?thesis using assms(2,3) by (simp add: uint_word_ariths take_bit_int_eq_self mod_pos_pos_trivial)
qed

lemma product_add2_bound:
  fixes a b c d :: u64
  shows "uint a * uint b + uint c + uint d < 2 ^ 128"
  using uint_product_bound[of a b] uint64_lt[of c] uint64_lt[of d] by simp

lemma step_one:
  assumes "multiply_uint64_uint64 x w = (t0, t1)" "add_uint64_carry t0 carry 0 = (temp, c)"
  shows "uint temp + 2 ^ 64 * uint (t1 + ucast c) = uint x * uint w + uint carry"
proof -
  have s: "uint temp + 2 ^ 64 * uint c = uint t0 + uint carry" "c \<in> {0, 1}"
    using add_uint64_carry_sum[OF assms(2)] by simp_all
  have e: "uint temp + 2 ^ 64 * (uint t1 + uint c) = uint x * uint w + uint carry"
    using s(1) multiply_uint64_uint64_sum[OF assms(1)] by (simp add: algebra_simps)
  have "uint (t1 + ucast c) = uint t1 + uint c"
    by (rule high_no_overflow[of temp]) (use e product_add2_bound[of x w carry 0] uint_carry[OF s(2)] in simp_all)
  then show ?thesis using e by simp
qed

lemma step_two:
  assumes "multiply_uint64_uint64 x w = (t0, t1)" "add_uint64_carry t0 carry 0 = (t0', c1)" "add_uint64_carry r t0' 0 = (temp, c2)"
  shows "uint temp + 2 ^ 64 * uint (t1 + ucast c1 + ucast c2) = uint x * uint w + uint carry + uint r"
proof -
  have s: "uint temp + 2 ^ 64 * uint c2 = uint r + uint t0'" "c2 \<in> {0, 1}"
    using add_uint64_carry_sum[OF assms(3)] by simp_all
  have e: "uint temp + 2 ^ 64 * (uint (t1 + ucast c1) + uint c2) = uint x * uint w + uint carry + uint r"
    using s(1) step_one[OF assms(1,2)] by (simp add: algebra_simps)
  have "uint (t1 + ucast c1 + ucast c2) = uint (t1 + ucast c1) + uint c2"
    by (rule high_no_overflow[of temp]) (use e product_add2_bound[of x w carry r] uint_carry[OF s(2)] in simp_all)
  then show ?thesis using e by simp
qed

lemma limbs_take_next: "k < length xs \<Longrightarrow> limbs (take (Suc k) xs) = limbs (take k xs) + 2 ^ (64 * k) * uint (xs ! k)"
  by (rule limbs_take_Suc)

lemma limbs_update: "k < length xs \<Longrightarrow> limbs (xs[k := v]) = limbs xs + 2 ^ (64 * k) * (uint v - uint (xs ! k))"
proof (induction xs arbitrary: k)
  case (Cons x xs)
  show ?case
  proof (cases k)
    case (Suc j)
    then show ?thesis using Cons.IH[of j] Cons.prems by (simp add: power_add algebra_simps)
  qed (simp add: algebra_simps)
qed simp

subsection \<open>By one word\<close>

lemma multiply_word_loop:
  assumes "k \<le> length a"
  shows "\<exists>r c. fold (\<lambda>i (result, carry). let (t0, t1) = multiply_uint64_uint64 (a ! i) w; (temp, c) = add_uint64_carry t0 carry 0
      in (result @ [temp], t1 + ucast c)) [0..<k] ([], 0) = (r, c) \<and> length r = k \<and>
    limbs r + 2 ^ (64 * k) * uint c = limbs (take k a) * uint w"
  using assms
proof (induction k)
  case (Suc k)
  then obtain r c where r: "fold (\<lambda>i (result, carry). let (t0, t1) = multiply_uint64_uint64 (a ! i) w; (temp, c) = add_uint64_carry t0 carry 0
      in (result @ [temp], t1 + ucast c)) [0..<k] ([], 0) = (r, c)" "length r = k"
    "limbs r + 2 ^ (64 * k) * uint c = limbs (take k a) * uint w" by auto
  obtain t0 t1 where t: "multiply_uint64_uint64 (a ! k) w = (t0, t1)" by fastforce
  obtain temp c' where u: "add_uint64_carry t0 c 0 = (temp, c')" by fastforce
  have "2 ^ (64 * k) * (uint temp + 2 ^ 64 * uint (t1 + ucast c')) = 2 ^ (64 * k) * (uint (a ! k) * uint w + uint c)"
    using step_one[OF t u] by (simp only:)
  then have "limbs (r @ [temp]) + 2 ^ (64 * Suc k) * uint (t1 + ucast c') = limbs (take (Suc k) a) * uint w"
    using r(3) limbs_take_next[of k a] Suc.prems
    by (simp only: limbs_snoc r(2) mult_Suc_right power_add distrib_left distrib_right mult.assoc) (simp add: algebra_simps)
  then show ?case using r(1,2) t u by simp
qed simp

lemma multiply_uint_uint64_result:
  "length (multiply_uint_uint64 a w n) = n \<and> limbs (multiply_uint_uint64 a w n) = limbs a * uint w mod 2 ^ (64 * n)"
proof (cases "a = [] \<or> w = 0")
  case True
  then show ?thesis by (auto simp: multiply_uint_uint64_def)
next
  case nz: False
  show ?thesis
  proof (cases "n = 1")
    case True
    obtain x xs where a: "a = x # xs" using nz by (cases a) auto
    have "(uint x + 2 ^ 64 * limbs xs) * uint w mod 2 ^ 64 = uint x * uint w mod 2 ^ 64"
      by (simp add: distrib_right mult.assoc)
    then show ?thesis using True nz by (simp add: multiply_uint_uint64_def a uint_word_ariths)
  next
    case False
    let ?m = "if length a < n then length a else n"
    have m: "?m \<le> length a" by simp
    obtain r c where r: "fold (\<lambda>i (result, carry). let (t0, t1) = multiply_uint64_uint64 (a ! i) w; (temp, c) = add_uint64_carry t0 carry 0
      in (result @ [temp], t1 + ucast c)) [0..<?m] ([], 0) = (r, c)" "length r = ?m" "limbs r + 2 ^ (64 * ?m) * uint c = limbs (take ?m a) * uint w"
      using multiply_word_loop[OF m, of w] by blast
    have d: "multiply_uint_uint64 a w n = (if ?m < n then r @ c # replicate (n - ?m - 1) 0 else r)"
      using nz False r(1) by (simp add: multiply_uint_uint64_def Let_def)
    show ?thesis
    proof (cases "length a < n")
      case True
      let ?r = "r @ c # replicate (n - length a - 1) 0"
      have l: "limbs ?r = limbs a * uint w" "length ?r = n" using r(2,3) True by (simp_all add: limbs_append)
      then have "limbs a * uint w < 2 ^ (64 * n)" using limbs_bound[of ?r] by (simp only:)
      then have "limbs a * uint w mod 2 ^ (64 * n) = limbs a * uint w" by (intro mod_pos_pos_trivial) simp_all
      then show ?thesis using d True l by simp
    next
      case ge: False
      then have "limbs r = limbs (take n a) * uint w - 2 ^ (64 * n) * uint c" "length r = n" using r(2,3) by simp_all
      moreover have "limbs r = limbs r mod 2 ^ (64 * n)"
        using limbs_bound[of r] \<open>length r = n\<close> by (simp add: mod_pos_pos_trivial)
      ultimately have "limbs r = limbs (take n a) * uint w mod 2 ^ (64 * n)"
        by (metis mod_mult_self4 diff_add_cancel add.commute)
      also have "\<dots> = limbs a * uint w mod 2 ^ (64 * n)"
      proof -
        have "limbs a = limbs (take n a) + 2 ^ (64 * n) * limbs (drop n a)"
          using limbs_append[of "take n a" "drop n a"] ge by (simp add: min_def)
        then show ?thesis by (simp add: distrib_right mult.assoc)
      qed
      finally show ?thesis using d ge \<open>length r = n\<close> by simp
    qed
  qed
qed

subsection \<open>The schoolbook product\<close>

lemma multiply_row_result:
  assumes "k \<le> length b" "i + k \<le> length result"
  shows "\<exists>r c. multiply_row x b i k result = (r, c) \<and> length r = length result \<and> (\<forall>j \<ge> i + k. r ! j = result ! j) \<and>
    limbs r + 2 ^ (64 * (i + k)) * uint c = limbs result + 2 ^ (64 * i) * (uint x * limbs (take k b))"
  using assms
proof (induction k)
  case 0
  then show ?case by (simp add: multiply_row_def)
next
  case (Suc k)
  then obtain r c where r: "multiply_row x b i k result = (r, c)" "length r = length result" "\<forall>j \<ge> i + k. r ! j = result ! j"
    "limbs r + 2 ^ (64 * (i + k)) * uint c = limbs result + 2 ^ (64 * i) * (uint x * limbs (take k b))" by auto
  obtain t0 t1 where t: "multiply_uint64_uint64 x (b ! k) = (t0, t1)" by fastforce
  obtain t0' c1 where u: "add_uint64_carry t0 c 0 = (t0', c1)" by fastforce
  obtain temp c2 where v: "add_uint64_carry (r ! (i + k)) t0' 0 = (temp, c2)" by fastforce
  let ?c = "t1 + ucast c1 + ucast c2" and ?K = "2 ^ (64 * (i + k)) :: int"
  have "?K * (uint temp + 2 ^ 64 * uint ?c) = ?K * (uint x * uint (b ! k) + uint c + uint (r ! (i + k)))"
    using step_two[OF t u v] by (simp only:)
  moreover have "limbs (r[i + k := temp]) = limbs r + ?K * (uint temp - uint (r ! (i + k)))"
    by (rule limbs_update) (use r(2) Suc.prems in simp)
  moreover have "limbs (take (Suc k) b) = limbs (take k b) + 2 ^ (64 * k) * uint (b ! k)"
    by (rule limbs_take_next) (use Suc.prems in simp)
  moreover have "(2 :: int) ^ (64 * (i + Suc k)) = ?K * 2 ^ 64" "?K = 2 ^ (64 * i) * 2 ^ (64 * k)"
    by (simp_all add: power_add distrib_left)
  ultimately have "limbs (r[i + k := temp]) + 2 ^ (64 * (i + Suc k)) * uint ?c
      = limbs result + 2 ^ (64 * i) * (uint x * limbs (take (Suc k) b))"
    using r(4) by (simp only:) (simp add: algebra_simps)
  moreover have "multiply_row x b i (Suc k) result = (r[i + k := temp], ?c)"
    using r(1) t u v by (simp add: multiply_row_def)
  ultimately show ?case using r(2,3) by simp
qed

lemma limbs_take_mod: "limbs (take n xs) * y mod 2 ^ (64 * n) = limbs xs * y mod 2 ^ (64 * n)"
proof (cases "n \<le> length xs")
  case True
  then have "limbs xs = limbs (take n xs) + 2 ^ (64 * n) * limbs (drop n xs)"
    using limbs_append[of "take n xs" "drop n xs"] by (simp add: min_def)
  then show ?thesis by (simp add: distrib_right mult.assoc)
qed simp

lemma row_step_result:
  assumes "length result = n" "i < n" "\<forall>j. i + length b \<le> j \<longrightarrow> j < n \<longrightarrow> result ! j = 0"
  shows "length (row_step a b n i result) = n \<and> (\<forall>j. Suc i + length b \<le> j \<longrightarrow> j < n \<longrightarrow> row_step a b n i result ! j = 0) \<and>
    limbs (row_step a b n i result) mod 2 ^ (64 * n) = (limbs result + 2 ^ (64 * i) * (uint (a ! i) * limbs b)) mod 2 ^ (64 * n)"
proof (cases "length b < n - i")
  case True
  have m: "length b \<le> length b" "i + length b \<le> length result" using True assms(1) by simp_all
  obtain r c where r: "multiply_row (a ! i) b i (length b) result = (r, c)" "length r = length result" "\<forall>j \<ge> i + length b. r ! j = result ! j"
    "limbs r + 2 ^ (64 * (i + length b)) * uint c = limbs result + 2 ^ (64 * i) * (uint (a ! i) * limbs (take (length b) b))"
    using multiply_row_result[OF m, of "a ! i"] by blast
  have e: "row_step a b n i result = r[i + length b := c]" using True r(1) less_diff_conv[of "length b" n i] by (simp add: row_step_def Let_def add.commute)
  have z: "r ! (i + length b) = 0" using r(3) assms(3) True by simp
  have "limbs (r[i + length b := c]) = limbs r + 2 ^ (64 * (i + length b)) * uint c"
    using limbs_update[of "i + length b" r c] r(2) True assms(1) z by simp
  then have "limbs (row_step a b n i result) = limbs result + 2 ^ (64 * i) * (uint (a ! i) * limbs b)"
    unfolding e using r(4) by simp
  moreover have "row_step a b n i result ! j = 0" if "Suc i + length b \<le> j" "j < n" for j
    using that r(3) assms(3) by (simp add: e)
  ultimately show ?thesis using r(2) assms(1) e by simp
next
  case False
  have m: "n - i \<le> length b" "i + (n - i) \<le> length result" using False assms(1,2) by simp_all
  obtain r c where r: "multiply_row (a ! i) b i (n - i) result = (r, c)" "length r = length result"
    "limbs r + 2 ^ (64 * (i + (n - i))) * uint c = limbs result + 2 ^ (64 * i) * (uint (a ! i) * limbs (take (n - i) b))"
    using multiply_row_result[OF m, of "a ! i"] by blast
  have e: "row_step a b n i result = r" using False assms(2) r(1) by (simp add: row_step_def Let_def)
  have b: "limbs b = limbs (take (n - i) b) + 2 ^ (64 * (n - i)) * limbs (drop (n - i) b)"
    using limbs_append[of "take (n - i) b" "drop (n - i) b"] m(1) by (simp add: min_def)
  define X Y :: int where "X = 2 ^ (64 * i)" and "Y = 2 ^ (64 * (n - i))"
  have "64 * n = 64 * i + 64 * (n - i)" using assms(2) by simp
  then have p: "(2 :: int) ^ (64 * n) = X * Y" unfolding X_def Y_def by (simp only: power_add)
  have r3: "limbs r + X * Y * uint c = limbs result + X * (uint (a ! i) * limbs (take (n - i) b))"
    using r(3) assms(2) by (simp add: p X_def[symmetric])
  have "limbs result + 2 ^ (64 * i) * (uint (a ! i) * limbs b) = limbs r + 2 ^ (64 * n) * (uint c + uint (a ! i) * limbs (drop (n - i) b))"
    using r3 unfolding p b X_def[symmetric] Y_def[symmetric] by (simp add: algebra_simps)
  then have "(limbs result + 2 ^ (64 * i) * (uint (a ! i) * limbs b)) mod 2 ^ (64 * n) = limbs r mod 2 ^ (64 * n)"
    by (simp only: mod_mult_self2)
  moreover have "\<not> (Suc i + length b \<le> j \<and> j < n)" for j using False by auto
  ultimately show ?thesis using r(2) assms e by auto
qed

lemma limbs_zero: "\<forall>x \<in> set xs. x = 0 \<Longrightarrow> limbs xs = 0"
  by (induction xs) simp_all

lemma significant_one:
  assumes "get_significant_uint64_count_uint xs = 1"
  shows "limbs xs = uint (xs ! 0)"
proof -
  let ?d = "dropWhile (\<lambda>x. x = 0) (rev xs)" and ?t = "takeWhile (\<lambda>x. x = 0) (rev xs)"
  have "rev xs = ?t @ ?d" by simp
  then have e: "xs = rev ?d @ rev ?t" by (metis rev_append rev_rev_ident)
  obtain y where y: "rev ?d = [y]" using assms by (auto simp: get_significant_uint64_count_uint_def length_Suc_conv)
  have "limbs (rev ?t) = 0" by (rule limbs_zero) (auto dest: set_takeWhileD)
  then have "limbs (rev ?d @ rev ?t) = uint ((rev ?d @ rev ?t) ! 0)" unfolding y by (simp add: limbs_append)
  then show ?thesis using e by simp
qed

lemma multiply_uint_result:
  assumes "n \<noteq> 1"
  shows "length (multiply_uint a b n) = n \<and> limbs (multiply_uint a b n) = limbs a * limbs b mod 2 ^ (64 * n)"
proof -
  consider "a = [] \<or> b = []" | "a \<noteq> []" "b \<noteq> []" "get_significant_uint64_count_uint a = 1"
    | "a \<noteq> []" "b \<noteq> []" "get_significant_uint64_count_uint a \<noteq> 1" "get_significant_uint64_count_uint b = 1"
    | "a \<noteq> []" "b \<noteq> []" "get_significant_uint64_count_uint a \<noteq> 1" "get_significant_uint64_count_uint b \<noteq> 1" by blast
  then show ?thesis
  proof cases
    case 4
    let ?m = "if length a < n then length a else n"
    define P where "P = (\<lambda>k r. length r = n \<and> (\<forall>j. k + length b \<le> j \<longrightarrow> j < n \<longrightarrow> r ! j = 0) \<and>
      limbs r mod 2 ^ (64 * n) = limbs (take k a) * limbs b mod 2 ^ (64 * n))"
    have "P ?m (fold (row_step a b n) [0..<?m] (replicate n 0))"
    proof (rule fold_upt_invariant[where P = P])
      show "P 0 (replicate n 0)" by (simp add: P_def)
      fix k r assume k: "k < ?m" and r: "P k r"
      then have kn: "k < n" "k < length a" by (simp_all split: if_splits)
      have "(limbs r + 2 ^ (64 * k) * (uint (a ! k) * limbs b)) mod 2 ^ (64 * n)
          = (limbs (take k a) * limbs b + 2 ^ (64 * k) * (uint (a ! k) * limbs b)) mod 2 ^ (64 * n)"
        using r by (intro mod_add_cong) (simp_all add: P_def)
      also have "\<dots> = limbs (take (Suc k) a) * limbs b mod 2 ^ (64 * n)"
        using limbs_take_next[OF kn(2)] by (simp add: distrib_right mult.assoc)
      finally show "P (Suc k) (row_step a b n k r)"
        using row_step_result[of r n k b a] r kn(1) by (simp add: P_def)
    qed
    then have r: "length (multiply_uint a b n) = n"
      "limbs (multiply_uint a b n) mod 2 ^ (64 * n) = limbs (take ?m a) * limbs b mod 2 ^ (64 * n)"
      using 4 assms by (simp_all add: multiply_uint_def P_def)
    have "limbs (take ?m a) * limbs b mod 2 ^ (64 * n) = limbs a * limbs b mod 2 ^ (64 * n)"
      using limbs_take_mod[of n a "limbs b"] by simp
    moreover have "limbs (multiply_uint a b n) mod 2 ^ (64 * n) = limbs (multiply_uint a b n)"
      using limbs_bound[of "multiply_uint a b n"] r(1) by (simp add: mod_pos_pos_trivial)
    ultimately show ?thesis using r by simp
  qed (use assms multiply_uint_uint64_result significant_one in \<open>auto simp: multiply_uint_def mult.commute\<close>)
qed

subsection \<open>Property\<close>

text \<open>
  The schoolbook product, with its short cuts for one-word factors, is the product modulo the size
  of the result, for every result of zero or at least two words.
\<close>

theorem multiply_uint_correct:
  assumes "n \<noteq> 1"
  shows "limbs (multiply_uint a b n) = limbs a * limbs b mod 2 ^ (64 * n) \<and> length (multiply_uint a b n) = n"
  using multiply_uint_result[OF assms] by blast

theorem multiply_uint_correct_witness:
  "limbs (multiply_uint [- 1, - 1] [3, 1] 3) = (2 ^ 128 - 1) * (2 ^ 64 + 3) mod 2 ^ 192"
  using multiply_uint_correct[of 3 "[- 1, - 1]" "[3, 1]"]
  by (simp add: unsigned_minus_1_eq_mask mask_eq_exp_minus_1)

end
