(* ===== verification/Limb_Shift.thy ===== *)
theory Limb_Shift
  imports Limb_Mult
begin

unbundle bit_operations_syntax

text \<open>
  Shifts, bitwise operations and bit counts on multi-word numbers,
  \<open>src/encryption/utils/basics.h\<close>. Accesses outside the operands are \<open>None\<close>. The loops of the shifts
  run so that no word is read after it was overwritten: the words are those of the operand.
\<close>

subsection \<open>Shifts\<close>

definition shl_words :: "nat \<Rightarrow> u64 list \<Rightarrow> nat \<Rightarrow> u64 list" where
  "shl_words b r n =
     map (\<lambda>i. if i = 0 then push_bit b (r ! 0) else push_bit b (r ! i) OR drop_bit (64 - b) (r ! (i - 1))) [0..<n]"

definition left_shift_uint :: "u64 list \<Rightarrow> nat \<Rightarrow> nat \<Rightarrow> u64 list option" where
  "left_shift_uint operand shift_amount n =
     (let u = shift_amount div 64; b = shift_amount - u * 64 in
      if n < u \<or> length operand < n - u \<or> (n = 0 \<and> 0 < b) then None
      else let r = replicate u 0 @ take (n - u) operand in Some (if 0 < b then shl_words b r n else r))"

definition shr_words :: "nat \<Rightarrow> u64 list \<Rightarrow> nat \<Rightarrow> u64 list" where
  "shr_words b r n =
     map (\<lambda>i. drop_bit b (r ! i) OR push_bit (64 - b) (r ! (i + 1))) [0..<n - 1] @ [drop_bit b (r ! (n - 1))]"

definition right_shift_uint :: "u64 list \<Rightarrow> nat \<Rightarrow> nat \<Rightarrow> u64 list option" where
  "right_shift_uint operand shift_amount n =
     (let u = shift_amount div 64; b = shift_amount - u * 64 in
      if n < u \<or> length operand < n \<or> (n = 0 \<and> 0 < b) then None
      else let r = take (n - u) (drop u operand) @ replicate u 0 in Some (if 0 < b then shr_words b r n else r))"

definition left_shift_uint128 :: "u64 \<times> u64 \<Rightarrow> nat \<Rightarrow> u64 \<times> u64" where
  "left_shift_uint128 operand shift_amount =
     (let (r0, r1) = (if odd (shift_amount div 64) then (0, fst operand) else operand); b = shift_amount mod 64 in
      if 0 < b then (push_bit b r0, push_bit b r1 OR drop_bit (64 - b) r0) else (r0, r1))"

definition right_shift_uint128 :: "u64 \<times> u64 \<Rightarrow> nat \<Rightarrow> u64 \<times> u64" where
  "right_shift_uint128 operand shift_amount =
     (let (r0, r1) = (if odd (shift_amount div 64) then (snd operand, 0) else operand); b = shift_amount mod 64 in
      if 0 < b then (drop_bit b r0 OR push_bit (64 - b) r1, drop_bit b r1) else (r0, r1))"

definition left_shift_uint192 :: "u64 \<times> u64 \<times> u64 \<Rightarrow> nat \<Rightarrow> u64 \<times> u64 \<times> u64" where
  "left_shift_uint192 operand shift_amount =
     (let (a, b, c) = operand;
          (r0, r1, r2) = (if odd (shift_amount div 128) then (0, 0, a) else if odd (shift_amount div 64) then (0, a, b) else operand);
          k = shift_amount mod 64 in
      if 0 < k
      then (push_bit k r0, push_bit k r1 OR drop_bit (64 - k) r0, push_bit k r2 OR drop_bit (64 - k) r1)
      else (r0, r1, r2))"

definition right_shift_uint192 :: "u64 \<times> u64 \<times> u64 \<Rightarrow> nat \<Rightarrow> u64 \<times> u64 \<times> u64" where
  "right_shift_uint192 operand shift_amount =
     (let (a, b, c) = operand;
          (r0, r1, r2) = (if odd (shift_amount div 128) then (c, 0, 0) else if odd (shift_amount div 64) then (b, c, 0) else operand);
          k = shift_amount mod 64 in
      if 0 < k
      then (drop_bit k r0 OR push_bit (64 - k) r1, drop_bit k r1 OR push_bit (64 - k) r2, drop_bit k r2)
      else (r0, r1, r2))"

definition half_round_up_uint :: "u64 list \<Rightarrow> nat \<Rightarrow> u64 list option" where
  "half_round_up_uint operand n =
     (if n = 0 then Some []
      else if length operand < n then None
      else let r = shr_words 1 operand n in
        if bit (operand ! 0) 0 then map_option fst (increment_uint r n) else Some r)"

subsection \<open>Bitwise operations and counts\<close>

definition not_uint :: "u64 list \<Rightarrow> nat \<Rightarrow> u64 list" where
  "not_uint operand n = map (\<lambda>i. NOT (operand ! i)) [0..<n]"

definition and_uint :: "u64 list \<Rightarrow> u64 list \<Rightarrow> nat \<Rightarrow> u64 list" where
  "and_uint operand1 operand2 n = map (\<lambda>i. operand1 ! i AND operand2 ! i) [0..<n]"

definition or_uint :: "u64 list \<Rightarrow> u64 list \<Rightarrow> nat \<Rightarrow> u64 list" where
  "or_uint operand1 operand2 n = map (\<lambda>i. operand1 ! i OR operand2 ! i) [0..<n]"

definition xor_uint :: "u64 list \<Rightarrow> u64 list \<Rightarrow> nat \<Rightarrow> u64 list" where
  "xor_uint operand1 operand2 n = map (\<lambda>i. operand1 ! i XOR operand2 ! i) [0..<n]"

definition is_zero_uint :: "u64 list \<Rightarrow> bool" where
  "is_zero_uint xs = list_all (\<lambda>x. x = 0) xs"

definition set_bit_uint :: "u64 list \<Rightarrow> nat \<Rightarrow> u64 list option" where
  "set_bit_uint xs bit_index =
     (let word_index = bit_index div 64; bit_offset = bit_index mod 64 in
      if length xs \<le> word_index then None
      else Some (xs[word_index := xs ! word_index OR push_bit bit_offset 1]))"

definition get_nonzero_uint64_count_uint :: "u64 list \<Rightarrow> nat" where
  "get_nonzero_uint64_count_uint xs = length (filter (\<lambda>x. x \<noteq> 0) xs)"

text \<open>\<open>__builtin_clzll\<close> as the position of the highest set bit.\<close>

definition get_significant_bit_count :: "u64 \<Rightarrow> nat" where
  "get_significant_bit_count x = length (dropWhile (\<lambda>i. \<not> bit x i) (rev [0..<64]))"

definition get_power_of_two :: "u64 \<Rightarrow> int" where
  "get_power_of_two x = (if x = 0 \<or> x AND (x - 1) \<noteq> 0 then - 1 else int (get_significant_bit_count x) - 1)"

definition reverse_bits_uint32 :: "u32 \<Rightarrow> u32" where
  "reverse_bits_uint32 operand =
     (let x = operand;
          x = drop_bit 1 (x AND 0xaaaaaaaa) OR push_bit 1 (x AND 0x55555555);
          x = drop_bit 2 (x AND 0xcccccccc) OR push_bit 2 (x AND 0x33333333);
          x = drop_bit 4 (x AND 0xf0f0f0f0) OR push_bit 4 (x AND 0x0f0f0f0f);
          x = drop_bit 8 (x AND 0xff00ff00) OR push_bit 8 (x AND 0x00ff00ff)
      in drop_bit 16 x OR push_bit 16 x)"

definition reverse_bits_uint64 :: "u64 \<Rightarrow> u64" where
  "reverse_bits_uint64 operand =
     ucast (reverse_bits_uint32 (ucast (drop_bit 32 operand))) OR
     push_bit 32 (ucast (reverse_bits_uint32 (ucast (operand AND 0xFFFFFFFF))))"

definition reverse_low_bits_uint32 :: "u32 \<Rightarrow> nat \<Rightarrow> u32" where
  "reverse_low_bits_uint32 operand bit_count = (if bit_count = 0 then 0 else drop_bit (32 - bit_count) (reverse_bits_uint32 operand))"

definition reverse_low_bits_uint64 :: "u64 \<Rightarrow> nat \<Rightarrow> u64" where
  "reverse_low_bits_uint64 operand bit_count = (if bit_count = 0 then 0 else drop_bit (64 - bit_count) (reverse_bits_uint64 operand))"

definition hamming_weight :: "u8 \<Rightarrow> u64" where
  "hamming_weight x =
     (let t = ucast x :: u64;
          t = t - (drop_bit 1 t AND 0x55);
          t = (t AND 0x33) + (drop_bit 2 t AND 0x33)
      in (t + drop_bit 4 t) AND 0x0F)"

definition divide_round_up :: "u64 \<Rightarrow> u64 \<Rightarrow> u64" where
  "divide_round_up x divisor = (x + divisor - 1) div divisor"

subsection \<open>The shifts are multiplication and division by powers of two\<close>

lemma uint_or_disjoint: "a AND b = 0 \<Longrightarrow> uint (a OR b) = uint a + uint b" for a b :: u64
proof -
  assume "a AND b = 0"
  then have "uint a AND uint b = 0" by (metis unsigned_and_eq unsigned_0)
  then have "uint a OR uint b = uint a + uint b" by (rule disjunctive_add_eq_or[symmetric])
  then show "uint (a OR b) = uint a + uint b" by (simp add: unsigned_or_eq)
qed

lemma uint_shl: "uint (push_bit b x) = uint x * 2 ^ b mod 2 ^ 64" for x :: u64
  by (subst unsigned_push_bit_eq) (simp add: take_bit_eq_mod push_bit_eq_mult)

lemma uint_shr: "uint (drop_bit b x) = uint x div 2 ^ b" for x :: u64
proof -
  have "uint x mod 2 ^ 64 = uint x" using uint64_lt[of x] by (intro mod_pos_pos_trivial) simp_all
  then show ?thesis by (subst unsigned_drop_bit_eq) (simp add: drop_bit_eq_div take_bit_eq_mod)
qed

lemma limbs_mod: "length xs = n \<Longrightarrow> limbs xs mod 2 ^ (64 * n) = limbs xs"
  using limbs_bound[of xs] by (intro mod_pos_pos_trivial) simp_all

lemma shift_parts_disjoint:
  "b < 64 \<Longrightarrow> push_bit b x AND drop_bit (64 - b) y = 0" "0 < b \<Longrightarrow> b < 64 \<Longrightarrow> drop_bit b x AND push_bit (64 - b) y = 0" for x y :: u64
  by (rule bit_word_eqI; auto simp: bit_simps dest: bit_imp_le_length)+

lemma shifted_out:
  fixes x :: int
  assumes "b < 64"
  shows "x * 2 ^ b = x * 2 ^ b mod 2 ^ 64 + 2 ^ 64 * (x div 2 ^ (64 - b))"
proof -
  have e: "(2 :: int) ^ 64 = 2 ^ (64 - b) * 2 ^ b" using assms by (simp add: power_add[symmetric])
  have "x * 2 ^ b div 2 ^ 64 = x div 2 ^ (64 - b)" unfolding e by (subst div_mult_mult2) simp_all
  then show ?thesis using mod_mult_div_eq[of "x * 2 ^ b" "2 ^ 64"] by simp
qed

lemma shl_loop:
  assumes "b < 64" "k \<le> length r"
  shows "limbs (map (\<lambda>i. if i = 0 then push_bit b (r ! 0) else push_bit b (r ! i) OR drop_bit (64 - b) (r ! (i - 1))) [0..<k])
    + 2 ^ (64 * k) * (if k = 0 then 0 else uint (r ! (k - 1)) div 2 ^ (64 - b)) = limbs (take k r) * 2 ^ b"
  using assms(2)
proof (induction k)
  case (Suc k)
  let ?f = "\<lambda>i. if i = 0 then push_bit b (r ! 0) else push_bit b (r ! i) OR drop_bit (64 - b) (r ! (i - 1))"
  let ?p = "if k = 0 then 0 else uint (r ! (k - 1)) div 2 ^ (64 - b)"
  have f: "uint (?f k) = uint (r ! k) * 2 ^ b mod 2 ^ 64 + ?p"
    using assms(1) by (simp add: uint_or_disjoint shift_parts_disjoint(1)) (simp add: uint_shl uint_shr)
  have "uint (r ! k) * 2 ^ b = uint (r ! k) * 2 ^ b mod 2 ^ 64 + 2 ^ 64 * (uint (r ! k) div 2 ^ (64 - b))"
    by (rule shifted_out[OF assms(1)])
  then have "2 ^ (64 * k) * (uint (r ! k) * 2 ^ b)
      = 2 ^ (64 * k) * (uint (r ! k) * 2 ^ b mod 2 ^ 64 + 2 ^ 64 * (uint (r ! k) div 2 ^ (64 - b)))"
    by (simp only:)
  moreover have "limbs (map ?f [0..<Suc k]) = limbs (map ?f [0..<k]) + 2 ^ (64 * k) * uint (?f k)"
    by (simp only: upt_Suc_append[OF le0] map_append list.map limbs_snoc length_map length_upt diff_zero)
  moreover have "limbs (take (Suc k) r) = limbs (take k r) + 2 ^ (64 * k) * uint (r ! k)"
    by (rule limbs_take_next) (use Suc.prems in simp)
  moreover have "limbs (map ?f [0..<k]) + 2 ^ (64 * k) * ?p = limbs (take k r) * 2 ^ b" using Suc by simp
  moreover have "(2 :: int) ^ (64 * Suc k) = 2 ^ (64 * k) * 2 ^ 64" by (simp add: power_add)
  ultimately show ?case by (simp only: f diff_Suc_1 nat.simps(3) if_False) (simp add: algebra_simps)
qed simp

lemma shl_words_result:
  assumes "b < 64" "length r = n"
  shows "limbs (shl_words b r n) = limbs r * 2 ^ b mod 2 ^ (64 * n)" "length (shl_words b r n) = n"
proof -
  show l: "length (shl_words b r n) = n" by (simp add: shl_words_def)
  define c where "c = (if n = 0 then 0 else uint (r ! (n - 1)) div 2 ^ (64 - b))"
  have "limbs (shl_words b r n) + 2 ^ (64 * n) * c = limbs (take n r) * 2 ^ b"
    unfolding c_def shl_words_def by (rule shl_loop[OF assms(1)]) (simp add: assms(2))
  then have e: "limbs r * 2 ^ b = limbs (shl_words b r n) + 2 ^ (64 * n) * c" using assms(2) by simp
  show "limbs (shl_words b r n) = limbs r * 2 ^ b mod 2 ^ (64 * n)"
    unfolding e mod_mult_self2 limbs_mod[OF l] ..
qed

lemma limbs_take_scaled:
  assumes "m + u = n" "m \<le> length x"
  shows "limbs (take m x) * 2 ^ (64 * u + b) mod 2 ^ (64 * n) = limbs x * 2 ^ (64 * u + b) mod 2 ^ (64 * n)"
proof -
  have e: "limbs x = limbs (take m x) + 2 ^ (64 * m) * limbs (drop m x)"
    using limbs_append[of "take m x" "drop m x"] assms(2) by (simp add: min_def)
  have p: "(2 :: int) ^ (64 * n) = 2 ^ (64 * m) * 2 ^ (64 * u)"
    using assms(1) by (simp only: power_add[symmetric] distrib_left[symmetric])
  have "limbs x * 2 ^ (64 * u + b) = limbs (take m x) * 2 ^ (64 * u + b) + 2 ^ (64 * n) * (2 ^ b * limbs (drop m x))"
    unfolding p e power_add by (simp add: algebra_simps)
  then show ?thesis by simp
qed

lemma left_shift_uint_result:
  assumes "left_shift_uint x s n = Some r"
  shows "length r = n \<and> limbs r = limbs x * 2 ^ s mod 2 ^ (64 * n)"
proof -
  define u b where "u = s div 64" and "b = s mod 64"
  have s: "s = 64 * u + b" "s - u * 64 = b" "b < 64" by (simp_all add: u_def b_def minus_div_mult_eq_mod)
  define w where "w = replicate u 0 @ take (n - u) x"
  have c: "u \<le> n" "n - u \<le> length x" "r = (if 0 < b then shl_words b w n else w)"
    using assms s(2) by (auto simp: left_shift_uint_def Let_def u_def[symmetric] w_def split: if_splits)
  have lw: "length w = n" using c by (simp add: w_def)
  have w: "limbs w = 2 ^ (64 * u) * limbs (take (n - u) x)" by (simp add: w_def limbs_append)
  have "limbs r = limbs w * 2 ^ b mod 2 ^ (64 * n)" "length r = n"
    using shl_words_result[OF s(3) lw] limbs_mod[OF lw] lw c(3) by auto
  moreover have "limbs w * 2 ^ b = limbs (take (n - u) x) * 2 ^ (64 * u + b)" by (simp add: w power_add)
  ultimately show ?thesis using limbs_take_scaled[of "n - u" u n x b] c(1,2) s(1) by simp
qed

lemma shr_words_result:
  assumes "0 < b" "b < 64" "length r = n" "0 < n"
  shows "limbs (shr_words b r n) = limbs r div 2 ^ b" "length (shr_words b r n) = n"
proof -
  show "length (shr_words b r n) = n" using assms(4) by (simp add: shr_words_def)
  have e: "(2 :: int) ^ 64 = 2 ^ (64 - b) * 2 ^ b" using assms(2) by (simp add: power_add[symmetric])
  have "limbs (shr_words b r (length r)) = limbs r div 2 ^ b" if "r \<noteq> []" for r
    using that
  proof (induction r)
    case (Cons x xs)
    show ?case
    proof (cases xs)
      case Nil
      then show ?thesis by (simp add: shr_words_def) (simp add: uint_shr)
    next
      case (Cons y ys)
      have w: "shr_words b (x # xs) (length (x # xs)) = (drop_bit b x OR push_bit (64 - b) y) # shr_words b xs (length xs)"
        by (simp add: Cons shr_words_def map_upt_Suc del: upt_Suc)
      have IH: "limbs (shr_words b xs (length xs)) = limbs xs div 2 ^ b" using Cons.IH Cons by simp
      have "uint y = limbs xs mod 2 ^ 64" using uint64_lt[of y] by (simp add: Cons mod_pos_pos_trivial)
      then have y: "uint y * 2 ^ (64 - b) mod 2 ^ 64 = limbs xs * 2 ^ (64 - b) mod 2 ^ 64" by (simp add: mod_mult_left_eq)
      have "limbs xs * 2 ^ (64 - b) = limbs xs * 2 ^ (64 - b) mod 2 ^ 64 + 2 ^ 64 * (limbs xs div 2 ^ b)"
        using shifted_out[of "64 - b" "limbs xs"] assms(1,2) by simp
      moreover have "(uint x + 2 ^ 64 * limbs xs) div 2 ^ b = uint x div 2 ^ b + limbs xs * 2 ^ (64 - b)"
      proof -
        have "uint x + 2 ^ 64 * limbs xs = uint x + (limbs xs * 2 ^ (64 - b)) * 2 ^ b" unfolding e by (simp add: algebra_simps)
        moreover have "(uint x + q * 2 ^ b) div 2 ^ b = uint x div 2 ^ b + q" for q by simp
        ultimately show ?thesis by (simp only:)
      qed
      moreover have "uint (drop_bit b x OR push_bit (64 - b) y) = uint x div 2 ^ b + limbs xs * 2 ^ (64 - b) mod 2 ^ 64"
        unfolding y[symmetric] uint_or_disjoint[OF shift_parts_disjoint(2)[OF assms(1,2)]] uint_shr uint_shl ..
      ultimately show ?thesis unfolding w limbs.simps IH by linarith
    qed
  qed simp
  then show "limbs (shr_words b r n) = limbs r div 2 ^ b" using assms(3,4) by auto
qed

lemma right_shift_uint_result:
  assumes "right_shift_uint x s n = Some r"
  shows "length r = n \<and> limbs r = limbs (take n x) div 2 ^ s"
proof -
  define u b where "u = s div 64" and "b = s mod 64"
  have s: "s = 64 * u + b" "s - u * 64 = b" "b < 64" by (simp_all add: u_def b_def minus_div_mult_eq_mod)
  define w where "w = take (n - u) (drop u x) @ replicate u 0"
  have c: "u \<le> n" "n \<le> length x" "0 < b \<Longrightarrow> 0 < n" "r = (if 0 < b then shr_words b w n else w)"
    using assms s(2) by (auto simp: right_shift_uint_def Let_def u_def[symmetric] w_def split: if_splits)
  have lw: "length w = n" using c by (simp add: w_def)
  have "take n x = take u x @ take (n - u) (drop u x)" using c(1) by (metis le_add_diff_inverse take_add)
  then have t: "limbs (take n x) = limbs (take u x) + 2 ^ (64 * u) * limbs w"
    using c by (simp add: limbs_append w_def min_def)
  have "length (take u x) = u" using c by simp
  then have "limbs (take u x) < 2 ^ (64 * u)" using limbs_bound[of "take u x"] by (simp only:)
  then have w: "limbs (take n x) div 2 ^ (64 * u) = limbs w" by (simp add: t div_pos_pos_trivial)
  have "limbs r = limbs w div 2 ^ b" "length r = n"
    using shr_words_result[OF _ s(3) lw] lw c(3,4) by auto
  then show ?thesis by (simp add: s(1) power_add zdiv_zmult2_eq flip: w)
qed

text \<open>The two- and three-word shifts are the general ones.\<close>

lemma upt2: "[0..<2] = [0, 1]" "[0..<3] = [0, 1, 2]"
  by (simp_all add: upt_rec)

lemma left_shift_uint128_eq:
  assumes "s < 128"
  shows "left_shift_uint [a, b] s 2 = Some (let (r0, r1) = left_shift_uint128 (a, b) s in [r0, r1])"
proof -
  have "s div 64 = 0 \<or> s div 64 = 1" using assms by auto
  moreover have "s - s div 64 * 64 = s mod 64" by (rule minus_div_mult_eq_mod)
  ultimately show ?thesis
    by (auto simp: left_shift_uint_def left_shift_uint128_def shl_words_def upt2 Let_def)
qed

lemma right_shift_uint128_eq:
  assumes "s < 128"
  shows "right_shift_uint [a, b] s 2 = Some (let (r0, r1) = right_shift_uint128 (a, b) s in [r0, r1])"
proof -
  have "s div 64 = 0 \<or> s div 64 = 1" using assms by auto
  moreover have "s - s div 64 * 64 = s mod 64" by (rule minus_div_mult_eq_mod)
  ultimately show ?thesis
    by (auto simp: right_shift_uint_def right_shift_uint128_def shr_words_def upt2 Let_def)
qed

lemma shift_cases:
  "s < 192 \<Longrightarrow> s div 64 = 0 \<and> s div 128 = 0 \<or> s div 64 = 1 \<and> s div 128 = 0 \<or> s div 64 = 2 \<and> s div 128 = 1" for s :: nat
proof -
  assume "s < 192"
  then have "s div 64 < 3" by simp
  then have "s div 64 = 0 \<or> s div 64 = 1 \<or> s div 64 = 2" by arith
  moreover have "s div 128 = s div 64 div 2" by (simp flip: div_mult2_eq)
  ultimately show ?thesis by fastforce
qed

lemma words3: "replicate 2 (0 :: u64) = [0, 0]" "take 2 [a, b, c] = [a, b]" "take 3 [a, b, c] = [a, b, c]" "drop 2 [a, b, c] = [c]" "[a, b, c] ! 2 = c"
  by (simp_all add: numeral_2_eq_2 numeral_3_eq_3)

lemma left_shift_uint192_eq:
  assumes "s < 192"
  shows "left_shift_uint [a, b, c] s 3 = Some (let (r0, r1, r2) = left_shift_uint192 (a, b, c) s in [r0, r1, r2])"
proof -
  have e: "s - s div 64 * 64 = s mod 64" by (rule minus_div_mult_eq_mod)
  consider "s div 64 = 0" "s div 128 = 0" | "s div 64 = 1" "s div 128 = 0" | "s div 64 = 2" "s div 128 = 1"
    using shift_cases[OF assms] by metis
  then show ?thesis
    unfolding left_shift_uint_def left_shift_uint192_def shl_words_def Let_def e by cases (simp_all add: upt2 words3)
qed

lemma right_shift_uint192_eq:
  assumes "s < 192"
  shows "right_shift_uint [a, b, c] s 3 = Some (let (r0, r1, r2) = right_shift_uint192 (a, b, c) s in [r0, r1, r2])"
proof -
  have e: "s - s div 64 * 64 = s mod 64" by (rule minus_div_mult_eq_mod)
  consider "s div 64 = 0" "s div 128 = 0" | "s div 64 = 1" "s div 128 = 0" | "s div 64 = 2" "s div 128 = 1"
    using shift_cases[OF assms] by metis
  then show ?thesis
    unfolding right_shift_uint_def right_shift_uint192_def shr_words_def Let_def e by cases (simp_all add: upt2 words3)
qed

subsection \<open>Property\<close>

text \<open>
  Left and right shifts of whole numbers are multiplication and division by a power of two; the
  special routines for two and three words agree with the general ones.
\<close>

theorem shifts_scale:
  assumes "left_shift_uint x s n = Some l" "right_shift_uint x s n = Some r" "t < 128" "v < 192"
  shows "limbs l = limbs x * 2 ^ s mod 2 ^ (64 * n) \<and> limbs r = limbs (take n x) div 2 ^ s \<and>
    left_shift_uint [a, b] t 2 = Some (let (r0, r1) = left_shift_uint128 (a, b) t in [r0, r1]) \<and>
    right_shift_uint [a, b] t 2 = Some (let (r0, r1) = right_shift_uint128 (a, b) t in [r0, r1]) \<and>
    left_shift_uint [a, b, c] v 3 = Some (let (r0, r1, r2) = left_shift_uint192 (a, b, c) v in [r0, r1, r2]) \<and>
    right_shift_uint [a, b, c] v 3 = Some (let (r0, r1, r2) = right_shift_uint192 (a, b, c) v in [r0, r1, r2])"
  using left_shift_uint_result[OF assms(1)] right_shift_uint_result[OF assms(2)] left_shift_uint128_eq[OF assms(3)]
    right_shift_uint128_eq[OF assms(3)] left_shift_uint192_eq[OF assms(4)] right_shift_uint192_eq[OF assms(4)]
  by blast

theorem shifts_scale_witness:
  "(\<exists>l. left_shift_uint [5, 7] 65 2 = Some l \<and> limbs l = (5 + 2 ^ 64 * 7) * 2 ^ 65 mod 2 ^ 128) \<and>
    right_shift_uint [5, 7, 9] 130 3 = Some (let (r0, r1, r2) = right_shift_uint192 (5, 7, 9) 130 in [r0, r1, r2])"
proof -
  obtain l r where "left_shift_uint [5, 7] 65 2 = Some l" "right_shift_uint [5, 7] 65 2 = Some r"
    by (simp add: left_shift_uint_def right_shift_uint_def)
  then show ?thesis using shifts_scale[of "[5, 7]" 65 2 l r 3 130 5 7 9] by simp
qed

end
