(* ===== verification/Ntt.thy ===== *)
theory Ntt
  imports Ntt_Spec Limb_Shift
begin

text \<open>
  The host path of the number-theoretic transform: \<open>src/encryption/fgk/ntt_grouped.cu\<close> and the
  wrappers of \<open>src/encryption/utils/ntt.h\<close>. A buffer holds \<open>pcount\<close> polynomials of \<open>component_count\<close>
  components of \<open>2^log_degree\<close> coefficients. A source \<open>None\<close> is the result buffer itself, as in the
  in-place calls and in every layer but the first. Device flags are not modelled.
\<close>

record ntt_tables =
  nt_root :: u64
  nt_coeff_count_power :: nat
  nt_coeff_count :: nat
  nt_modulus :: modulus
  inv_degree_modulo :: MultiplyUint64Operand
  root_powers :: "MultiplyUint64Operand list"
  inv_root_powers :: "MultiplyUint64Operand list"

datatype table_indexer =
    Componentwise "ntt_tables list"
  | KeySwitchingSetProducts nat "ntt_tables list"
  | KeySwitchingSkipFinals nat "ntt_tables list"

fun get_table :: "table_indexer \<Rightarrow> nat \<Rightarrow> nat \<Rightarrow> ntt_tables" where
  "get_table (Componentwise tables) poly_index component_index = tables ! component_index"
| "get_table (KeySwitchingSetProducts decomp_modulus_size tables) poly_index component_index =
     (if poly_index = decomp_modulus_size then tables ! (length tables - 1) else tables ! poly_index)"
| "get_table (KeySwitchingSkipFinals decomp_modulus_size tables) poly_index component_index =
     (if component_index = decomp_modulus_size then tables ! (length tables - 1) else tables ! component_index)"

definition read_from :: "u64 list option \<Rightarrow> u64 list \<Rightarrow> nat \<Rightarrow> u64" where
  "read_from src result i = (case src of None \<Rightarrow> result ! i | Some operand \<Rightarrow> operand ! i)"

text \<open>The position of the \<open>i\<close>-th pair of a layer in block \<open>block\<close> of the buffer.\<close>

definition pair_index :: "nat \<Rightarrow> nat \<Rightarrow> nat \<Rightarrow> nat \<Rightarrow> nat" where
  "pair_index log_degree gap_power block i =
     push_bit log_degree block + (push_bit (gap_power + 1) (drop_bit gap_power i) + (i AND (2 ^ gap_power - 1)))"

definition final_subtractions :: "modulus \<Rightarrow> u64 \<Rightarrow> u64" where
  "final_subtractions m x =
     (let mv = mod_value m; tmv = push_bit 1 (mod_value m); x = (if x \<ge> tmv then x - tmv else x)
      in if x \<ge> mv then x - mv else x)"

subsection \<open>The forward transform\<close>

definition to_rev_butterfly :: "modulus \<Rightarrow> MultiplyUint64Operand \<Rightarrow> u64 \<Rightarrow> u64 \<Rightarrow> u64 \<times> u64" where
  "to_rev_butterfly m r x y =
     (let two_times_modulus = push_bit 1 (mod_value m);
          u = (if x \<ge> two_times_modulus then x - two_times_modulus else x);
          v = multiply_uint64operand_mod_lazy y r m
      in (u + v, u + two_times_modulus - v))"

definition host_ntt_transfer_to_rev_layer ::
  "nat \<Rightarrow> u64 list option \<Rightarrow> nat \<Rightarrow> nat \<Rightarrow> nat \<Rightarrow> bool \<Rightarrow> u64 list \<Rightarrow> table_indexer \<Rightarrow> u64 list" where
  "host_ntt_transfer_to_rev_layer layer src pcount component_count log_degree use_inv_root_powers result tables =
     (let gap_power = log_degree - layer - 1;
          result = for_ps component_count (2 ^ (log_degree - 1)) pcount (\<lambda>j i k result.
            let table = get_table tables k j;
                rid = 2 ^ layer + drop_bit gap_power i;
                r = (if use_inv_root_powers then inv_root_powers table else root_powers table) ! rid;
                x_index = pair_index log_degree gap_power (k * component_count + j) i;
                y_index = x_index + 2 ^ gap_power;
                (x, y) = to_rev_butterfly (nt_modulus table) r (read_from src result x_index) (read_from src result y_index)
            in result[x_index := x, y_index := y]) result
      in if layer = log_degree - 1 then
           for_ps component_count (2 ^ log_degree) pcount (\<lambda>j i k result.
             let index = push_bit log_degree (k * component_count + j) + i
             in result[index := final_subtractions (nt_modulus (get_table tables k j)) (result ! index)]) result
         else result)"

definition ntt :: "u64 list option \<Rightarrow> nat \<Rightarrow> nat \<Rightarrow> nat \<Rightarrow> bool \<Rightarrow> u64 list \<Rightarrow> table_indexer \<Rightarrow> u64 list" where
  "ntt src pcount component_count log_degree use_inv_root_powers result tables =
     snd (fold (\<lambda>layer (src, result). (None,
         host_ntt_transfer_to_rev_layer layer src pcount component_count log_degree use_inv_root_powers result tables))
       [0..<log_degree] (src, result))"

subsection \<open>The inverse transform\<close>

definition from_rev_butterfly :: "modulus \<Rightarrow> MultiplyUint64Operand \<Rightarrow> u64 \<Rightarrow> u64 \<Rightarrow> u64 \<times> u64" where
  "from_rev_butterfly m r u v =
     (let two_times_modulus = push_bit 1 (mod_value m)
      in (if u + v > two_times_modulus then u + v - two_times_modulus else u + v,
          multiply_uint64operand_mod_lazy (u + two_times_modulus - v) r m))"

definition host_ntt_transfer_from_rev_layer ::
  "nat \<Rightarrow> u64 list option \<Rightarrow> nat \<Rightarrow> nat \<Rightarrow> nat \<Rightarrow> bool \<Rightarrow> u64 list \<Rightarrow> table_indexer \<Rightarrow> u64 list" where
  "host_ntt_transfer_from_rev_layer layer src pcount component_count log_degree use_inv_root_powers result tables =
     (let m = 2 ^ (log_degree - layer - 1); gap_power = layer;
          result = for_ps component_count (2 ^ (log_degree - 1)) pcount (\<lambda>j i k result.
            let table = get_table tables k j;
                rid = 2 ^ log_degree - push_bit 1 m + 1 + drop_bit gap_power i;
                r = (if use_inv_root_powers then inv_root_powers table else root_powers table) ! rid;
                x_index = pair_index log_degree gap_power (k * component_count + j) i;
                y_index = x_index + 2 ^ gap_power;
                (x, y) = from_rev_butterfly (nt_modulus table) r (read_from src result x_index) (read_from src result y_index)
            in result[x_index := x, y_index := y]) result
      in if layer = log_degree - 1 then
           for_ps component_count (2 ^ log_degree) pcount (\<lambda>j i k result.
             let table = get_table tables k j;
                 index = push_bit log_degree (k * component_count + j) + i
             in result[index := multiply_uint64operand_mod_lazy (final_subtractions (nt_modulus table) (result ! index))
                  (inv_degree_modulo table) (nt_modulus table)]) result
         else result)"

definition intt :: "u64 list option \<Rightarrow> nat \<Rightarrow> nat \<Rightarrow> nat \<Rightarrow> bool \<Rightarrow> u64 list \<Rightarrow> table_indexer \<Rightarrow> u64 list" where
  "intt src pcount component_count log_degree use_inv_root_powers result tables =
     snd (fold (\<lambda>layer (src, result). (None,
         host_ntt_transfer_from_rev_layer layer src pcount component_count log_degree use_inv_root_powers result tables))
       [0..<log_degree] (src, result))"

text \<open>The wrappers: the degree must be a power of two.\<close>

definition ntt_ps :: "u64 list \<Rightarrow> nat \<Rightarrow> nat \<Rightarrow> nat \<Rightarrow> u64 list \<Rightarrow> table_indexer \<Rightarrow> error + u64 list" where
  "ntt_ps operand pcount component_count degree result tables =
     (let logd = get_power_of_two (of_nat degree)
      in if logd < 0 then Inl (InvalidArgument ''[ntt_ps] degree is invalid'')
         else Inr (ntt (Some operand) pcount component_count (nat logd) False result tables))"

definition ntt_inplace_ps :: "u64 list \<Rightarrow> nat \<Rightarrow> nat \<Rightarrow> nat \<Rightarrow> table_indexer \<Rightarrow> error + u64 list" where
  "ntt_inplace_ps operand pcount component_count degree tables =
     (let logd = get_power_of_two (of_nat degree)
      in if logd < 0 then Inl (InvalidArgument ''[ntt_inplace_ps] degree is invalid'')
         else Inr (ntt None pcount component_count (nat logd) False operand tables))"

definition intt_ps :: "u64 list \<Rightarrow> nat \<Rightarrow> nat \<Rightarrow> nat \<Rightarrow> u64 list \<Rightarrow> table_indexer \<Rightarrow> error + u64 list" where
  "intt_ps operand pcount component_count degree result tables =
     (let logd = get_power_of_two (of_nat degree)
      in if logd < 0 then Inl (InvalidArgument ''[inverse_ntt_negacyclic_harvey_lazy_ps] degree is invalid'')
         else Inr (intt (Some operand) pcount component_count (nat logd) True result tables))"

definition intt_inplace_ps :: "u64 list \<Rightarrow> nat \<Rightarrow> nat \<Rightarrow> nat \<Rightarrow> table_indexer \<Rightarrow> error + u64 list" where
  "intt_inplace_ps operand pcount component_count degree tables =
     (let logd = get_power_of_two (of_nat degree)
      in if logd < 0 then Inl (InvalidArgument ''[inverse_ntt_negacyclic_harvey_lazy_ps] degree is invalid'')
         else Inr (intt None pcount component_count (nat logd) True operand tables))"

subsection \<open>Loops that update disjoint pairs\<close>

definition update_pair :: "('p \<Rightarrow> nat) \<Rightarrow> ('p \<Rightarrow> nat) \<Rightarrow> ('p \<Rightarrow> u64 \<Rightarrow> u64 \<Rightarrow> u64 \<times> u64) \<Rightarrow> u64 list option \<Rightarrow> 'p \<Rightarrow> u64 list \<Rightarrow> u64 list" where
  "update_pair X Y f src p r =
     r[X p := fst (f p (read_from src r (X p)) (read_from src r (Y p))),
       Y p := snd (f p (read_from src r (X p)) (read_from src r (Y p)))]"

definition pair_at :: "('p \<Rightarrow> nat) \<Rightarrow> ('p \<Rightarrow> nat) \<Rightarrow> (nat \<Rightarrow> 'p) \<Rightarrow> nat \<Rightarrow> 'p \<Rightarrow> bool" where
  "pair_at X Y D n p \<longleftrightarrow> D (X p) = p \<and> D (Y p) = p \<and> X p \<noteq> Y p \<and> X p < n \<and> Y p < n"

lemma length_fold_pairs: "length (fold (update_pair X Y f src) ps r) = length r"
  by (induction ps arbitrary: r) (simp_all add: update_pair_def)

lemma fold_pairs_other:
  assumes "\<And>p. p \<in> set ps \<Longrightarrow> pair_at X Y D n p" "D i \<notin> set ps"
  shows "fold (update_pair X Y f src) ps r ! i = r ! i"
  using assms
proof (induction ps arbitrary: r)
  case (Cons p ps)
  have "i \<noteq> X p" "i \<noteq> Y p" using Cons.prems(1)[of p] Cons.prems(2) by (auto simp: pair_at_def)
  then show ?case using Cons.IH[of "update_pair X Y f src p r"] Cons.prems by (simp add: update_pair_def)
qed simp

lemma fold_pairs:
  assumes "distinct ps" "\<And>p. p \<in> set ps \<Longrightarrow> pair_at X Y D (length r) p" "p \<in> set ps"
  shows "(fold (update_pair X Y f src) ps r ! X p, fold (update_pair X Y f src) ps r ! Y p)
    = f p (read_from src r (X p)) (read_from src r (Y p))"
  using assms
proof (induction ps arbitrary: r)
  case (Cons p' ps)
  let ?r = "update_pair X Y f src p' r"
  have len: "length ?r = length r" by (simp add: update_pair_def)
  have p': "pair_at X Y D (length r) p'" and d: "distinct ps" "p' \<notin> set ps" using Cons.prems by simp_all
  have q: "pair_at X Y D (length ?r) p" if "p \<in> set ps" for p using Cons.prems(2)[of p] that len by simp
  show ?case
  proof (cases "p = p'")
    case True
    have "(?r ! X p', ?r ! Y p') = f p' (read_from src r (X p')) (read_from src r (Y p'))"
      using p' by (simp add: update_pair_def pair_at_def)
    then show ?thesis
      using p' d(2) by (simp add: True pair_at_def fold_pairs_other[OF q])
  next
    case False
    then have p: "p \<in> set ps" using Cons.prems(3) by simp
    have "X p \<noteq> X p'" "X p \<noteq> Y p'" "Y p \<noteq> X p'" "Y p \<noteq> Y p'"
      using q[OF p] p' False unfolding pair_at_def by metis+
    then have "read_from src ?r (X p) = read_from src r (X p)" "read_from src ?r (Y p) = read_from src r (Y p)"
      by (simp_all add: read_from_def update_pair_def split: option.split)
    then show ?thesis using Cons.IH[OF d(1) q p] by simp
  qed
qed simp

definition update_point :: "('p \<Rightarrow> nat) \<Rightarrow> ('p \<Rightarrow> u64 \<Rightarrow> u64) \<Rightarrow> 'p \<Rightarrow> u64 list \<Rightarrow> u64 list" where
  "update_point X f p r = r[X p := f p (r ! X p)]"

lemma length_fold_points: "length (fold (update_point X f) ps r) = length r"
  by (induction ps arbitrary: r) (simp_all add: update_point_def)

lemma fold_points:
  assumes "distinct ps" "inj_on X (set ps)" "\<And>p. p \<in> set ps \<Longrightarrow> X p < length r" "p \<in> set ps"
  shows "fold (update_point X f) ps r ! X p = f p (r ! X p)"
  using assms
proof (induction ps arbitrary: r rule: rev_induct)
  case (snoc p' ps)
  let ?r = "fold (update_point X f) ps r"
  show ?case
  proof (cases "p = p'")
    case True
    have "?r ! X p' = r ! X p'"
    proof -
      have "X p' \<notin> X ` set ps" using snoc.prems(1,2) by (auto simp: inj_on_def)
      then show ?thesis by (induction ps arbitrary: r) (auto simp: update_point_def)
    qed
    moreover have "X p' < length ?r" using snoc.prems(3)[of p'] by (simp add: length_fold_points)
    ultimately show ?thesis by (simp add: True update_point_def[of X f p'])
  next
    case False
    then have p: "p \<in> set ps" using snoc.prems(4) by simp
    have "X p \<noteq> X p'" using snoc.prems(2) p False by (auto simp: inj_on_def)
    moreover have "?r ! X p = f p (r ! X p)"
      using snoc.prems p by (intro snoc.IH) (auto intro: inj_on_subset)
    ultimately show ?thesis by (simp add: update_point_def[of X f p'])
  qed
qed simp


subsection \<open>The pairs of a layer\<close>

lemma distinct_ps_triples: "distinct (ps_triples pcount msize degree)"
proof -
  have "ps_triples pcount msize degree = List.product [0..<pcount] (List.product [0..<msize] [0..<degree])"
    unfolding ps_triples_def List.product_concat_map by (simp add: map_concat o_def)
  then show ?thesis by (simp add: distinct_product)
qed

lemma pair_index_eq:
  assumes "i = b * 2 ^ gap + c" "c < 2 ^ gap"
  shows "pair_index L gap block i = block * 2 ^ L + b * (2 * 2 ^ gap) + c"
proof -
  have "drop_bit gap i = b" using assms by (simp add: drop_bit_eq_div)
  moreover have "i AND (2 ^ gap - 1) = c"
    using assms unfolding mask_eq_exp_minus_1[symmetric] take_bit_eq_mask[symmetric] by (simp add: take_bit_eq_mod)
  ultimately  show ?thesis by (simp add: pair_index_def push_bit_eq_mult)
qed


definition pair_lo :: "nat \<Rightarrow> nat \<Rightarrow> nat \<Rightarrow> nat \<times> nat \<times> nat \<Rightarrow> nat" where
  "pair_lo L gap cms = (\<lambda>(j, i, k). pair_index L gap (k * cms + j) i)"

definition pair_hi :: "nat \<Rightarrow> nat \<Rightarrow> nat \<Rightarrow> nat \<times> nat \<times> nat \<Rightarrow> nat" where
  "pair_hi L gap cms p = pair_lo L gap cms p + 2 ^ gap"

definition pair_of :: "nat \<Rightarrow> nat \<Rightarrow> nat \<Rightarrow> nat \<Rightarrow> nat \<times> nat \<times> nat" where
  "pair_of L gap cms pos =
     (let block = pos div 2 ^ L; c = pos mod 2 ^ L
      in (block mod cms, c div (2 * 2 ^ gap) * 2 ^ gap + c mod 2 ^ gap, block div cms))"

lemma block_pos:
  assumes "gap < L" "b < 2 ^ (L - Suc gap)" "c < 2 * 2 ^ gap"
  shows "b * (2 * 2 ^ gap) + c < (2 :: nat) ^ L"
proof -
  have "b * (2 * 2 ^ gap) + c < (b + 1) * (2 * 2 ^ gap)" using assms(3) by simp
  also have "\<dots> \<le> 2 ^ (L - Suc gap) * (2 * 2 ^ gap)" using assms(2) by (intro mult_right_mono) simp_all
  also have "\<dots> = 2 ^ (L - Suc gap + Suc gap)" by (simp only: power_add power_Suc)
  finally show ?thesis using assms(1) by simp
qed

lemma pair_of_block:
  assumes "gap < L" "b < 2 ^ (L - Suc gap)" "c < 2 ^ gap" "j < cms" "h \<le> 1"
  shows "pair_of L gap cms ((k * cms + j) * 2 ^ L + b * (2 * 2 ^ gap) + c + h * 2 ^ gap) = (j, b * 2 ^ gap + c, k)"
proof -
  let ?g = "2 ^ gap :: nat" and ?B = "k * cms + j"
  have c: "c + h * ?g < 2 * ?g" using assms(3,5) by (cases h) simp_all
  define p where "p = b * (2 * ?g) + (c + h * ?g)"
  have p: "p < 2 ^ L" unfolding p_def by (rule block_pos[OF assms(1,2) c])
  have e: "?B * 2 ^ L + b * (2 * ?g) + c + h * ?g = ?B * 2 ^ L + p" by (simp add: p_def)
  have d: "p div (2 * ?g) = b" unfolding p_def by (rule block_index(1)[OF c])
  have "p = (2 * b + h) * ?g + c" by (simp add: p_def algebra_simps)
  then have m: "p mod ?g = c" using block_index(2)[OF assms(3)] by simp
  show ?thesis
    unfolding pair_of_def e Let_def block_index[OF p] d m using assms(4) by simp
qed

lemma pair_lo_eq:
  "c < 2 ^ gap \<Longrightarrow> pair_lo L gap cms (j, b * 2 ^ gap + c, k) = (k * cms + j) * 2 ^ L + b * (2 * 2 ^ gap) + c"
  by (simp add: pair_lo_def pair_index_eq)

lemma block_pos_bound:
  assumes "j < cms" "k < pcount" "p < d"
  shows "(k * cms + j) * d + p < pcount * cms * (d :: nat)"
  using ps_idx_bound[OF assms(2,1,3)] by (simp add: ps_idx_def algebra_simps)

lemma pairs_phase:
  assumes "gap < L" "j < cms" "k < pcount" "b < 2 ^ (L - Suc gap)" "c < 2 ^ gap" "length r = pcount * cms * 2 ^ L"
    and res: "res = fold (update_pair (pair_lo L gap cms) (pair_hi L gap cms) f src) (ps_triples cms (2 ^ (L - 1)) pcount) r"
    and x_def: "x = (k * cms + j) * 2 ^ L + b * (2 * 2 ^ gap) + c"
  shows "(res ! x, res ! (x + 2 ^ gap))
    = f (j, b * 2 ^ gap + c, k) (read_from src r x) (read_from src r (x + 2 ^ gap))"
proof -
  let ?X = "pair_lo L gap cms" and ?Y = "pair_hi L gap cms"
  have half: "2 ^ (L - 1) = 2 ^ (L - Suc gap) * (2 :: nat) ^ gap" using assms(1) by (simp flip: power_add)
  have pair: "pair_at ?X ?Y (pair_of L gap cms) (length r) p" if "p \<in> set (ps_triples cms (2 ^ (L - 1)) pcount)" for p
  proof -
    obtain j i k where p: "p = (j, i, k)" by (cases p)
    have v: "j < cms" "i < 2 ^ (L - 1)" "k < pcount" using that by (simp_all add: p)
    have b: "i div 2 ^ gap < 2 ^ (L - Suc gap)" using v(2)[unfolded half] by (rule less_mult_imp_div_less)
    have c: "i mod 2 ^ gap < 2 ^ gap" by simp
    have i: "i = i div 2 ^ gap * 2 ^ gap + i mod 2 ^ gap" by (rule div_mult_mod_eq[symmetric])
    have lo: "?X p = (k * cms + j) * 2 ^ L + i div 2 ^ gap * (2 * 2 ^ gap) + i mod 2 ^ gap"
      unfolding p by (subst i) (rule pair_lo_eq[OF c])
    have hi: "?Y p = (k * cms + j) * 2 ^ L + i div 2 ^ gap * (2 * 2 ^ gap) + i mod 2 ^ gap + 2 ^ gap"
      by (simp add: pair_hi_def lo)
    have "pair_of L gap cms (?X p) = p" "pair_of L gap cms (?Y p) = p"
      using pair_of_block[OF assms(1) b c v(1), of 0 k] pair_of_block[OF assms(1) b c v(1), of 1 k] i
      unfolding lo hi by (simp_all add: p)
    moreover have "?X p < length r" "?Y p < length r"
      using block_pos_bound[OF v(1,3) block_pos[OF assms(1) b, of "i mod 2 ^ gap"]]
        block_pos_bound[OF v(1,3) block_pos[OF assms(1) b, of "i mod 2 ^ gap + 2 ^ gap"]] c
      unfolding lo hi assms(6) by (simp_all add: add.assoc)
    ultimately show ?thesis by (simp add: pair_at_def pair_hi_def)
  qed
  have "b * 2 ^ gap + c < (b + 1) * 2 ^ gap" using assms(5) by simp
  also have "\<dots> \<le> 2 ^ (L - 1)" unfolding half using assms(4) by (intro mult_right_mono) simp_all
  finally have mem: "(j, b * 2 ^ gap + c, k) \<in> set (ps_triples cms (2 ^ (L - 1)) pcount)" using assms(2,3) by simp
  have e: "?X (j, b * 2 ^ gap + c, k) = x" "?Y (j, b * 2 ^ gap + c, k) = x + 2 ^ gap"
    using pair_lo_eq[OF assms(5), of L cms j b k] by (simp_all add: pair_hi_def x_def)
  show ?thesis unfolding res using fold_pairs[OF distinct_ps_triples pair mem, of f src] by (simp add: e)
qed

text \<open>The last loop of a transform touches every coefficient once.\<close>

definition coeff_index :: "nat \<Rightarrow> nat \<Rightarrow> nat \<times> nat \<times> nat \<Rightarrow> nat" where
  "coeff_index L cms = (\<lambda>(j, i, k). push_bit L (k * cms + j) + i)"

lemma points_phase:
  assumes "j < cms" "k < pcount" "i < 2 ^ L" "length r = pcount * cms * 2 ^ L"
  shows "fold (update_point (coeff_index L cms) f) (ps_triples cms (2 ^ L) pcount) r ! ((k * cms + j) * 2 ^ L + i)
    = f (j, i, k) (r ! ((k * cms + j) * 2 ^ L + i))"
proof -
  let ?T = "ps_triples cms (2 ^ L) pcount"
  have e: "coeff_index L cms (j, i, k) = (k * cms + j) * 2 ^ L + i" for j i k
    by (simp add: coeff_index_def push_bit_eq_mult)
  have inj: "inj_on (coeff_index L cms) (set ?T)"
  proof (rule inj_onI, clarsimp simp: e)
    fix j i k j' i' k'
    assume "j < cms" "i < 2 ^ L" "j' < cms" "i' < 2 ^ L" "(k * cms + j) * 2 ^ L + i = (k' * cms + j') * 2 ^ L + i'"
    then show "j = j' \<and> i = i' \<and> k = k'"
      using ps_idx_inject[of j cms i "2 ^ L" j' i' k k'] by (simp add: ps_idx_def algebra_simps)
  qed
  have b: "coeff_index L cms p < length r" if "p \<in> set ?T" for p
  proof -
    obtain j i k where p: "p = (j, i, k)" by (cases p)
    show ?thesis using that block_pos_bound[of j cms k pcount i "2 ^ L"] by (simp add: p e assms(4))
  qed
  show ?thesis using fold_points[OF distinct_ps_triples inj b, of "(j, i, k)" f] assms(1-3) by (simp add: e)
qed

end
