(* ===== verification/Ntt_Correct.thy ===== *)
theory Ntt_Correct
  imports Ntt
begin

text \<open>
  What the host transform computes: the forward transform leaves the values of the polynomial at the
  roots of the tree, fully reduced; the inverse transform undoes it; so the inverse of a dyadic product
  of transforms is the negacyclic product.
\<close>

definition ntt_q :: "ntt_tables \<Rightarrow> int" where
  "ntt_q t = uint (mod_value (nt_modulus t))"

definition ntt_w :: "ntt_tables \<Rightarrow> nat \<Rightarrow> int" where
  "ntt_w t i = uint (op_operand (root_powers t ! i))"

definition ntt_w_inv :: "ntt_tables \<Rightarrow> nat \<Rightarrow> int" where
  "ntt_w_inv t i = uint (op_operand (inv_root_powers t ! i))"

definition wf_ntt_tables :: "nat \<Rightarrow> ntt_tables \<Rightarrow> bool" where
  "wf_ntt_tables L t \<longleftrightarrow> wf_modulus (nt_modulus t) \<and>
     (\<forall>i<2 ^ L. wf_operand (nt_modulus t) (root_powers t ! i) \<and> wf_operand (nt_modulus t) (inv_root_powers t ! i)) \<and>
     root_tree (ntt_q t) (2 ^ L) (ntt_w t) \<and>
     (\<forall>l<L. \<forall>b<2 ^ l. ntt_w_inv t (2 ^ L - 2 ^ Suc l + 1 + b) * ntt_w t (2 ^ l + b) mod ntt_q t = 1) \<and>
     wf_operand (nt_modulus t) (inv_degree_modulo t) \<and>
     uint (op_operand (inv_degree_modulo t)) * 2 ^ L mod ntt_q t = 1"

lemma wf_ntt_tablesD:
  assumes "wf_ntt_tables L t"
  shows "wf_modulus (nt_modulus t)" "root_tree (ntt_q t) (2 ^ L) (ntt_w t)"
    "\<And>i. i < 2 ^ L \<Longrightarrow> wf_operand (nt_modulus t) (root_powers t ! i)"
    "\<And>i. i < 2 ^ L \<Longrightarrow> wf_operand (nt_modulus t) (inv_root_powers t ! i)"
    "\<And>l b. l < L \<Longrightarrow> b < 2 ^ l \<Longrightarrow> ntt_w_inv t (2 ^ L - 2 ^ Suc l + 1 + b) * ntt_w t (2 ^ l + b) mod ntt_q t = 1"
    "wf_operand (nt_modulus t) (inv_degree_modulo t)"
    "uint (op_operand (inv_degree_modulo t)) * 2 ^ L mod ntt_q t = 1"
  using assms by (simp_all add: wf_ntt_tables_def)

lemma ntt_q_bounds:
  assumes "wf_modulus (nt_modulus t)"
  shows "1 < ntt_q t" "8 * ntt_q t < 2 ^ 64" "uint (push_bit 1 (mod_value (nt_modulus t))) = 2 * ntt_q t"
proof -
  note q = wf_modulusD[OF assms]
  show "1 < ntt_q t" "8 * ntt_q t < 2 ^ 64" using q by (simp_all add: ntt_q_def)
  show "uint (push_bit 1 (mod_value (nt_modulus t))) = 2 * ntt_q t"
    using q(5) by (simp add: ntt_q_def uint_word_ariths mult.commute)
qed

subsection \<open>The butterflies\<close>

lemma conditional_subtraction:
  fixes x p :: u64
  assumes "0 < uint p" "uint x < 2 * uint p"
  shows "uint (if x \<ge> p then x - p else x) < uint p"
    "uint (if x \<ge> p then x - p else x) mod uint p = uint x mod uint p"
proof -
  have e: "uint (if x \<ge> p then x - p else x) = (if x \<ge> p then uint x - uint p else uint x)"
    using uint_sub_no_borrow[of p x] by simp
  show "uint (if x \<ge> p then x - p else x) < uint p"
    unfolding e using assms by (auto simp: word_le_def)
  show "uint (if x \<ge> p then x - p else x) mod uint p = uint x mod uint p"
    unfolding e by (simp add: minus_mod_self2)
qed

lemma final_subtractions_correct:
  assumes "wf_modulus (nt_modulus t)" "uint x < 4 * ntt_q t"
  shows "uint (final_subtractions (nt_modulus t) x) = uint x mod ntt_q t"
proof -
  let ?q = "mod_value (nt_modulus t)" and ?p = "push_bit 1 (mod_value (nt_modulus t)) :: u64"
  let ?y = "if x \<ge> ?p then x - ?p else x"
  note q = ntt_q_bounds[OF assms(1)]
  have y: "uint ?y < 2 * ntt_q t" "uint ?y mod (2 * ntt_q t) = uint x mod (2 * ntt_q t)"
    using conditional_subtraction[of ?p x] q assms(2) by simp_all
  have z: "uint (if ?y \<ge> ?q then ?y - ?q else ?y) < ntt_q t"
    "uint (if ?y \<ge> ?q then ?y - ?q else ?y) mod ntt_q t = uint ?y mod ntt_q t"
    using conditional_subtraction[of ?q ?y] y(1) q(1) by (simp_all add: ntt_q_def)
  have "uint ?y mod ntt_q t = uint x mod ntt_q t"
    using arg_cong[OF y(2), of "\<lambda>v. v mod ntt_q t"] by (simp add: mod_mod_cancel)
  then show ?thesis using z unfolding final_subtractions_def Let_def by simp
qed

lemma uint_add_sub:
  fixes u p v :: u64
  assumes "uint u + uint p < 2 ^ 64" "uint v \<le> uint p"
  shows "uint (u + p - v) = uint u + uint p - uint v"
proof -
  have s: "uint (u + p) = uint u + uint p" using assms(1) by (intro uint_add_no_overflow) simp
  have "v \<le> u + p" using assms(2) uint_ge_0[of u] unfolding word_le_def s by linarith
  then show ?thesis using uint_sub_no_borrow[of v "u + p"] by (simp add: s)
qed

lemma to_rev_butterfly_correct:
  assumes "wf_modulus (nt_modulus t)" "wf_operand (nt_modulus t) r" "uint x < 4 * ntt_q t"
  defines "q \<equiv> ntt_q t" and "w \<equiv> uint (op_operand r)"
  shows "uint (fst (to_rev_butterfly (nt_modulus t) r x y)) < 4 * q"
    "uint (fst (to_rev_butterfly (nt_modulus t) r x y)) mod q = (uint x + w * uint y) mod q"
    "uint (snd (to_rev_butterfly (nt_modulus t) r x y)) < 4 * q"
    "uint (snd (to_rev_butterfly (nt_modulus t) r x y)) mod q = (uint x - w * uint y) mod q"
proof -
  let ?p = "push_bit 1 (mod_value (nt_modulus t)) :: u64"
  define u where "u = (if x \<ge> ?p then x - ?p else x)"
  define v where "v = multiply_uint64operand_mod_lazy y r (nt_modulus t)"
  note q = ntt_q_bounds[OF assms(1)]
  have u: "uint u < 2 * q" "uint u mod (2 * q) = uint x mod (2 * q)"
    using conditional_subtraction[of ?p x] q assms(3) unfolding u_def q_def by simp_all
  have uq: "uint u mod q = uint x mod q"
    using arg_cong[OF u(2), of "\<lambda>z. z mod q"] by (simp add: mod_mod_cancel)
  have v: "uint v < 2 * q" "uint v mod q = w * uint y mod q"
    using multiply_uint64operand_mod_lazy_correct[OF assms(1,2), of y]
    by (simp_all add: v_def q_def ntt_q_def w_def mult.commute)
  have e: "to_rev_butterfly (nt_modulus t) r x y = (u + v, u + ?p - v)"
    by (simp add: to_rev_butterfly_def u_def v_def Let_def)
  have p: "uint ?p = 2 * q" using q(3) by (simp add: q_def)
  have s: "uint (u + v) = uint u + uint v"
    using u v q(2) by (intro uint_add_no_overflow) (simp add: q_def)
  have d: "uint (u + ?p - v) = uint u + 2 * q - uint v"
    unfolding p[symmetric] by (rule uint_add_sub; unfold p) (use u(1) v(1) q(1,2)[folded q_def] in \<open>linarith+\<close>)
  show "uint (fst (to_rev_butterfly (nt_modulus t) r x y)) < 4 * q"
    "uint (snd (to_rev_butterfly (nt_modulus t) r x y)) < 4 * q"
    unfolding e fst_conv snd_conv s d using u(1) v(1) uint_ge_0[of v] by linarith+
  show "uint (fst (to_rev_butterfly (nt_modulus t) r x y)) mod q = (uint x + w * uint y) mod q"
    unfolding e fst_conv s by (rule mod_add_cong[OF uq v(2)])
  have "(uint u + 2 * q - uint v) mod q = (uint u - uint v) mod q"
    by (metis add_diff_eq diff_add_eq mod_mult_self2 mult.commute)
  also have "\<dots> = (uint x - w * uint y) mod q" by (rule mod_diff_cong[OF uq v(2)])
  finally show "uint (snd (to_rev_butterfly (nt_modulus t) r x y)) mod q = (uint x - w * uint y) mod q"
    unfolding e snd_conv d .
qed

lemma from_rev_butterfly_correct:
  assumes "wf_modulus (nt_modulus t)" "wf_operand (nt_modulus t) r" "uint u \<le> 2 * ntt_q t" "uint v \<le> 2 * ntt_q t"
  defines "q \<equiv> ntt_q t" and "w \<equiv> uint (op_operand r)"
  shows "uint (fst (from_rev_butterfly (nt_modulus t) r u v)) \<le> 2 * q"
    "uint (fst (from_rev_butterfly (nt_modulus t) r u v)) mod q = (uint u + uint v) mod q"
    "uint (snd (from_rev_butterfly (nt_modulus t) r u v)) \<le> 2 * q"
    "uint (snd (from_rev_butterfly (nt_modulus t) r u v)) mod q = w * (uint u - uint v) mod q"
proof -
  let ?p = "push_bit 1 (mod_value (nt_modulus t)) :: u64"
  note q = ntt_q_bounds[OF assms(1)]
  have p: "uint ?p = 2 * q" using q(3) by (simp add: q_def)
  have s: "uint (u + v) = uint u + uint v"
    using assms(3,4) q(2) by (intro uint_add_no_overflow) (simp add: q_def)
  have d: "uint (u + ?p - v) = uint u + 2 * q - uint v"
    unfolding p[symmetric] by (rule uint_add_sub; unfold p) (use assms(3,4)[folded q_def] q(1,2)[folded q_def] in \<open>linarith+\<close>)
  have f: "uint (fst (from_rev_butterfly (nt_modulus t) r u v))
      = (if u + v > ?p then uint u + uint v - 2 * q else uint u + uint v)"
    using uint_sub_no_borrow[of ?p "u + v"] unfolding p s by (simp add: from_rev_butterfly_def Let_def s)
  show "uint (fst (from_rev_butterfly (nt_modulus t) r u v)) \<le> 2 * q"
    unfolding f word_less_def s p using assms(3,4)[folded q_def] by simp
  show "uint (fst (from_rev_butterfly (nt_modulus t) r u v)) mod q = (uint u + uint v) mod q"
    unfolding f using mod_mult_self2[of "uint u + uint v - 2 * q" q 2] by (simp add: mult.commute)
  note l = multiply_uint64operand_mod_lazy_correct[OF assms(1,2), of "u + ?p - v"]
  show "uint (snd (from_rev_butterfly (nt_modulus t) r u v)) \<le> 2 * q"
    using l(1) by (simp add: from_rev_butterfly_def Let_def q_def ntt_q_def)
  have "(uint u + 2 * q - uint v) mod q = (uint u - uint v) mod q"
    by (metis add_diff_eq diff_add_eq mod_mult_self2 mult.commute)
  then have "w * (uint u + 2 * q - uint v) mod q = w * (uint u - uint v) mod q"
    by (rule mod_mult_cong[OF refl])
  then show "uint (snd (from_rev_butterfly (nt_modulus t) r u v)) mod q = w * (uint u - uint v) mod q"
    using l(2) unfolding d by (simp add: from_rev_butterfly_def Let_def q_def ntt_q_def w_def mult.commute)
qed

text \<open>The last multiplication of the inverse transform is lazy, and still exact.\<close>

lemma lazy_inverse_degree:
  assumes "wf_modulus (nt_modulus t)" "wf_operand (nt_modulus t) y" "uint (op_operand y) * 2 ^ L mod ntt_q t = 1"
    "L \<le> 64" "uint x < ntt_q t"
  shows "uint (multiply_uint64operand_mod_lazy x y (nt_modulus t)) = uint x * uint (op_operand y) mod ntt_q t"
proof -
  define q w X where "q = ntt_q t" and "w = uint (op_operand y)" and "X = uint x"
  define h where "h = uint (op_quotient y)"
  define r where "r = X * w mod q"
  have q0: "0 < q" using ntt_q_bounds(1)[OF assms(1)] by (simp add: q_def)
  have h: "h = w * 2 ^ 64 div q" using assms(2) by (simp add: wf_operand_def h_def w_def q_def ntt_q_def)
  have X: "0 \<le> X" "X < q" using assms(5) by (simp_all add: X_def q_def)
  have r: "0 \<le> r" "r < q" using q0 by (simp_all add: r_def)
  have "w * 2 ^ 64 = w * 2 ^ L * 2 ^ (64 - L)" using assms(4) by (simp add: mult.assoc flip: power_add)
  then have "w * 2 ^ 64 mod q = 2 ^ (64 - L) mod q"
    using assms(3) by (metis mod_mult_left_eq mult_1 q_def w_def)
  also have "\<dots> \<le> 2 ^ (64 - L)" by (rule zmod_le_nonneg_dividend) simp
  finally have e: "w * 2 ^ 64 mod q \<le> 2 ^ (64 - L)" .
  have "r * 2 ^ L mod q = X * (w * 2 ^ L) mod q" by (simp add: r_def mod_mult_left_eq mult.assoc)
  also have "\<dots> = X mod q" using assms(3) by (metis mod_mult_right_eq mult_1_right q_def w_def)
  finally have "X = r * 2 ^ L mod q" using X by simp
  also have "\<dots> \<le> r * 2 ^ L" by (rule zmod_le_nonneg_dividend) (simp add: r)
  finally have rX: "X \<le> r * 2 ^ L" .
  have "X * (w * 2 ^ 64 mod q) \<le> r * 2 ^ L * 2 ^ (64 - L)"
    using rX e X r by (intro mult_mono) simp_all
  also have "\<dots> = r * 2 ^ 64" using assms(4) by (simp add: mult.assoc flip: power_add)
  finally have g: "X * (w * 2 ^ 64 mod q) \<le> r * 2 ^ 64" .
  let ?F = "X * w div q"
  have F: "X * w = ?F * q + r" by (simp add: r_def)
  have H: "h * q = w * 2 ^ 64 - w * 2 ^ 64 mod q" unfolding h by (simp add: minus_mod_eq_div_mult)
  have "?F * 2 ^ 64 * q = X * w * 2 ^ 64 - r * 2 ^ 64" using F by (simp add: algebra_simps)
  also have "\<dots> \<le> X * (w * 2 ^ 64) - X * (w * 2 ^ 64 mod q)" using g by simp
  also have "\<dots> = X * h * q" unfolding mult.assoc H by (simp add: right_diff_distrib)
  finally have "?F * 2 ^ 64 \<le> X * h" using q0 by simp
  then have lo: "?F \<le> X * h div 2 ^ 64" by (simp add: zdiv_mono1[of "?F * 2 ^ 64" "X * h" "2 ^ 64", simplified])
  have s: "uint (multiply_uint64operand_mod_lazy x y (nt_modulus t)) = X * w - X * h div 2 ^ 64 * q"
    "0 \<le> X * w - X * h div 2 ^ 64 * q"
    using shoup_estimate(1,3)[OF assms(1,2), of x]
    by (simp_all add: multiply_uint64operand_mod_lazy_def X_def w_def h_def q_def ntt_q_def)
  have "X * h div 2 ^ 64 * q \<le> X * w" using s(2) by simp
  then have "X * h div 2 ^ 64 \<le> ?F" using q0 by (simp add: zdiv_mono1 pos_imp_zdiv_nonneg_iff) (metis nonzero_mult_div_cancel_right zdiv_mono1 less_irrefl)
  then show ?thesis using lo s(1) F by (simp add: r_def X_def w_def q_def)
qed

subsection \<open>One layer\<close>

definition table_roots :: "bool \<Rightarrow> ntt_tables \<Rightarrow> MultiplyUint64Operand list" where
  "table_roots use_inv_root_powers t = (if use_inv_root_powers then inv_root_powers t else root_powers t)"

definition to_rev_pair :: "nat \<Rightarrow> nat \<Rightarrow> bool \<Rightarrow> table_indexer \<Rightarrow> nat \<times> nat \<times> nat \<Rightarrow> u64 \<Rightarrow> u64 \<Rightarrow> u64 \<times> u64" where
  "to_rev_pair L layer invt tables = (\<lambda>(j, i, k). to_rev_butterfly (nt_modulus (get_table tables k j))
     (table_roots invt (get_table tables k j) ! (2 ^ layer + drop_bit (L - layer - 1) i)))"

definition from_rev_pair :: "nat \<Rightarrow> nat \<Rightarrow> bool \<Rightarrow> table_indexer \<Rightarrow> nat \<times> nat \<times> nat \<Rightarrow> u64 \<Rightarrow> u64 \<Rightarrow> u64 \<times> u64" where
  "from_rev_pair L layer invt tables = (\<lambda>(j, i, k). from_rev_butterfly (nt_modulus (get_table tables k j))
     (table_roots invt (get_table tables k j) ! (2 ^ L - push_bit 1 (2 ^ (L - layer - 1)) + 1 + drop_bit layer i)))"

lemma to_rev_layer_phases:
  "host_ntt_transfer_to_rev_layer layer src pcount cms L invt r tables =
     (let g = L - layer - 1;
          r' = fold (update_pair (pair_lo L g cms) (pair_hi L g cms) (to_rev_pair L layer invt tables) src)
            (ps_triples cms (2 ^ (L - 1)) pcount) r
      in if layer = L - 1
         then fold (update_point (coeff_index L cms) (\<lambda>(j, i, k). final_subtractions (nt_modulus (get_table tables k j))))
           (ps_triples cms (2 ^ L) pcount) r'
         else r')"
proof -
  have p: "(\<lambda>(j, i, k). \<lambda>result. let table = get_table tables k j; rid = 2 ^ layer + drop_bit (L - layer - 1) i;
            r = (if invt then inv_root_powers table else root_powers table) ! rid;
            x_index = pair_index L (L - layer - 1) (k * cms + j) i; y_index = x_index + 2 ^ (L - layer - 1);
            (x, y) = to_rev_butterfly (nt_modulus table) r (read_from src result x_index) (read_from src result y_index)
         in result[x_index := x, y_index := y])
      = update_pair (pair_lo L (L - layer - 1) cms) (pair_hi L (L - layer - 1) cms) (to_rev_pair L layer invt tables) src"
    by (intro ext)
      (simp add: update_pair_def pair_lo_def pair_hi_def to_rev_pair_def table_roots_def Let_def split: prod.split)
  have q: "(\<lambda>(j, i, k). \<lambda>result. let index = push_bit L (k * cms + j) + i
         in result[index := final_subtractions (nt_modulus (get_table tables k j)) (result ! index)])
      = update_point (coeff_index L cms) (\<lambda>(j, i, k). final_subtractions (nt_modulus (get_table tables k j)))"
    by (intro ext) (simp add: update_point_def coeff_index_def Let_def split: prod.split)
  show ?thesis unfolding host_ntt_transfer_to_rev_layer_def for_ps_triples p[symmetric] q[symmetric] Let_def ..
qed

lemma from_rev_layer_phases:
  "host_ntt_transfer_from_rev_layer layer src pcount cms L invt r tables =
     (let r' = fold (update_pair (pair_lo L layer cms) (pair_hi L layer cms) (from_rev_pair L layer invt tables) src)
            (ps_triples cms (2 ^ (L - 1)) pcount) r
      in if layer = L - 1
         then fold (update_point (coeff_index L cms) (\<lambda>(j, i, k) x. multiply_uint64operand_mod_lazy
             (final_subtractions (nt_modulus (get_table tables k j)) x)
             (inv_degree_modulo (get_table tables k j)) (nt_modulus (get_table tables k j))))
           (ps_triples cms (2 ^ L) pcount) r'
         else r')"
proof -
  have p: "(\<lambda>(j, i, k). \<lambda>result. let table = get_table tables k j;
            rid = 2 ^ L - push_bit 1 (2 ^ (L - layer - 1)) + 1 + drop_bit layer i;
            r = (if invt then inv_root_powers table else root_powers table) ! rid;
            x_index = pair_index L layer (k * cms + j) i; y_index = x_index + 2 ^ layer;
            (x, y) = from_rev_butterfly (nt_modulus table) r (read_from src result x_index) (read_from src result y_index)
         in result[x_index := x, y_index := y])
      = update_pair (pair_lo L layer cms) (pair_hi L layer cms) (from_rev_pair L layer invt tables) src"
    by (intro ext)
      (simp add: update_pair_def pair_lo_def pair_hi_def from_rev_pair_def table_roots_def Let_def split: prod.split)
  have q: "(\<lambda>(j, i, k). \<lambda>result. let table = get_table tables k j; index = push_bit L (k * cms + j) + i
         in result[index := multiply_uint64operand_mod_lazy (final_subtractions (nt_modulus table) (result ! index))
              (inv_degree_modulo table) (nt_modulus table)])
      = update_point (coeff_index L cms) (\<lambda>(j, i, k) x. multiply_uint64operand_mod_lazy
             (final_subtractions (nt_modulus (get_table tables k j)) x)
             (inv_degree_modulo (get_table tables k j)) (nt_modulus (get_table tables k j)))"
    by (intro ext) (simp add: update_point_def coeff_index_def Let_def split: prod.split)
  show ?thesis unfolding host_ntt_transfer_from_rev_layer_def for_ps_triples p[symmetric] q[symmetric] Let_def ..
qed

lemma length_to_rev_layer [simp]:
  "length (host_ntt_transfer_to_rev_layer layer src pcount cms L invt r tables) = length r"
  by (simp add: to_rev_layer_phases length_fold_pairs length_fold_points Let_def)

lemma length_from_rev_layer [simp]:
  "length (host_ntt_transfer_from_rev_layer layer src pcount cms L invt r tables) = length r"
  by (simp add: from_rev_layer_phases length_fold_pairs length_fold_points Let_def)

text \<open>Every position of a slice is one half of a pair.\<close>

lemma pos_in_pair:
  fixes pos :: nat
  assumes "gap < L" "pos < 2 ^ L"
  obtains b c where "b < 2 ^ (L - Suc gap)" "c < 2 ^ gap"
    "pos = b * (2 * 2 ^ gap) + c \<or> pos = b * (2 * 2 ^ gap) + c + 2 ^ gap"
proof -
  let ?g = "2 ^ gap :: nat"
  have "2 ^ L = 2 ^ (L - Suc gap) * (2 * ?g)" using assms(1) by (simp flip: power_Suc power_add)
  then have b: "pos div (2 * ?g) < 2 ^ (L - Suc gap)" using assms(2) by (simp add: less_mult_imp_div_less)
  have e: "pos = pos div (2 * ?g) * (2 * ?g) + pos mod (2 * ?g)" by (rule div_mult_mod_eq[symmetric])
  show thesis
  proof (cases "pos mod (2 * ?g) < ?g")
    case True
    then show thesis using that[OF b True] e by simp
  next
    case False
    have "pos mod (2 * ?g) < 2 * ?g" by simp
    then have "pos mod (2 * ?g) - ?g < ?g" using False by linarith
    moreover have "pos = pos div (2 * ?g) * (2 * ?g) + (pos mod (2 * ?g) - ?g) + ?g" using False e by linarith
    ultimately show thesis using that[OF b] by blast
  qed
qed

lemma node_bound:
  assumes "l < L" "b < 2 ^ l"
  shows "2 ^ l + b < (2 :: nat) ^ L"
proof -
  have "2 ^ l + b < 2 ^ Suc l" using assms(2) by simp
  also have "\<dots> \<le> 2 ^ L" using assms(1) by (intro power_increasing) simp_all
  finally show ?thesis .
qed

lemma inv_node_bound:
  assumes "l < L" "b < 2 ^ l"
  shows "2 ^ L - 2 ^ Suc l + 1 + b < (2 :: nat) ^ L"
proof -
  have "2 ^ Suc l \<le> (2 :: nat) ^ L" using assms(1) by (intro power_increasing) simp_all
  moreover have "b + 1 < 2 ^ Suc l \<or> l = 0" using assms(2) by (cases l) auto
  ultimately show ?thesis using assms(2) by auto
qed

definition slice :: "u64 list option \<Rightarrow> u64 list \<Rightarrow> nat \<Rightarrow> nat \<Rightarrow> int" where
  "slice src r start pos = uint (read_from src r (start + pos))"

text \<open>A slice whose values are those of a layer, modulo \<open>q\<close>, below a bound.\<close>

definition holds_level :: "nat \<Rightarrow> int \<Rightarrow> (nat \<Rightarrow> int) \<Rightarrow> int \<Rightarrow> (nat \<Rightarrow> int) \<Rightarrow> bool" where
  "holds_level L q f bound v \<longleftrightarrow> (\<forall>pos<2 ^ L. v pos \<le> bound \<and> v pos mod q = f pos mod q)"

lemma holds_levelD:
  assumes "holds_level L q f bound v" "pos < 2 ^ L"
  shows "v pos \<le> bound" "v pos mod q = f pos mod q"
  using assms by (simp_all add: holds_level_def)

lemma level_pairs:
  assumes "gap < L"
    and "\<And>b c. b < 2 ^ (L - Suc gap) \<Longrightarrow> c < 2 ^ gap \<Longrightarrow>
      (v (b * (2 * 2 ^ gap) + c) \<le> bound \<and> v (b * (2 * 2 ^ gap) + c) mod q = f (b * (2 * 2 ^ gap) + c) mod q) \<and>
      (v (b * (2 * 2 ^ gap) + c + 2 ^ gap) \<le> bound \<and>
       v (b * (2 * 2 ^ gap) + c + 2 ^ gap) mod q = f (b * (2 * 2 ^ gap) + c + 2 ^ gap) mod q)"
  shows "holds_level L q f bound v"
  unfolding holds_level_def
proof (intro allI impI)
  fix pos :: nat
  assume "pos < 2 ^ L"
  then show "v pos \<le> bound \<and> v pos mod q = f pos mod q"
    by (rule pos_in_pair[OF assms(1)]) (use assms(2) in blast)
qed

lemma to_rev_pairs:
  assumes "wf_ntt_tables L (get_table tables k j)" "layer < L" "j < cms" "k < pcount" "length r = pcount * cms * 2 ^ L"
  defines "t \<equiv> get_table tables k j" and "start \<equiv> (k * cms + j) * 2 ^ L" and "g \<equiv> L - layer - 1"
  assumes "holds_level L (ntt_q t) (level L (ntt_w t) a layer) (4 * ntt_q t - 1) (slice src r start)"
    and res: "res = fold (update_pair (pair_lo L g cms) (pair_hi L g cms) (to_rev_pair L layer False tables) src)
      (ps_triples cms (2 ^ (L - 1)) pcount) r"
  shows "holds_level L (ntt_q t) (level L (ntt_w t) a (Suc layer)) (4 * ntt_q t - 1) (slice None res start)"
proof (rule level_pairs)
  show g: "g < L" using assms(2) by (simp add: g_def)
  have gg: "L - Suc layer = g" "L - Suc g = layer" using assms(2) by (simp_all add: g_def)
  note T = wf_ntt_tablesD[OF assms(1)[folded t_def]]
  fix b c :: nat
  assume b: "b < 2 ^ (L - Suc g)" and c: "c < 2 ^ g"
  let ?p = "b * (2 * 2 ^ g) + c" and ?q = "ntt_q t" and ?r = "root_powers t ! (2 ^ layer + b)"
  have b': "b < 2 ^ layer" using b gg by simp
  have lo: "?p < 2 ^ L" and hi: "?p + 2 ^ g < 2 ^ L"
    using block_pos[OF g b, of c] block_pos[OF g b, of "c + 2 ^ g"] c by (simp_all add: add.assoc)
  have d: "drop_bit g (b * 2 ^ g + c) = b" using c by (simp add: drop_bit_eq_div)
  define x y where "x = read_from src r (start + ?p)" and "y = read_from src r (start + ?p + 2 ^ g)"
  have res': "(res ! (start + ?p), res ! (start + ?p + 2 ^ g)) = to_rev_butterfly (nt_modulus t) ?r x y"
    using pairs_phase[OF g assms(3,4) b c assms(5) res refl] d gg(1)
    by (simp add: to_rev_pair_def table_roots_def t_def start_def x_def y_def add.assoc flip: g_def)
  have X: "slice None res start ?p = uint (fst (to_rev_butterfly (nt_modulus t) ?r x y))"
    "slice None res start (?p + 2 ^ g) = uint (snd (to_rev_butterfly (nt_modulus t) ?r x y))"
    by (simp_all add: slice_def read_from_def add.assoc flip: res')
  have x: "uint x < 4 * ?q" "uint x mod ?q = level L (ntt_w t) a layer ?p mod ?q"
    and y: "uint y mod ?q = level L (ntt_w t) a layer (?p + 2 ^ g) mod ?q"
    using holds_levelD[OF assms(9) lo] holds_levelD[OF assms(9) hi] by (simp_all add: slice_def x_def y_def add.assoc)
  note B = to_rev_butterfly_correct[OF T(1) T(3)[OF node_bound[OF assms(2) b']] x(1), of y]
  note V = level_block[OF T(2) assms(2) b', of c a, unfolded gg, OF c]
  have wy: "ntt_w t (2 ^ layer + b) * uint y mod ?q
      = ntt_w t (2 ^ layer + b) * level L (ntt_w t) a layer (?p + 2 ^ g) mod ?q"
    by (rule mod_mult_cong[OF refl y])
  show "(slice None res start ?p \<le> 4 * ?q - 1 \<and>
        slice None res start ?p mod ?q = level L (ntt_w t) a (Suc layer) ?p mod ?q) \<and>
      (slice None res start (?p + 2 ^ g) \<le> 4 * ?q - 1 \<and>
        slice None res start (?p + 2 ^ g) mod ?q = level L (ntt_w t) a (Suc layer) (?p + 2 ^ g) mod ?q)"
    unfolding X V using B mod_add_cong[OF x(2) wy] mod_diff_cong[OF x(2) wy] by (simp add: ntt_w_def)
qed

lemma to_rev_layer_step:
  assumes "wf_ntt_tables L (get_table tables k j)" "layer < L" "j < cms" "k < pcount" "length r = pcount * cms * 2 ^ L"
  defines "t \<equiv> get_table tables k j" and "start \<equiv> (k * cms + j) * 2 ^ L"
  assumes "holds_level L (ntt_q t) (level L (ntt_w t) a layer) (4 * ntt_q t - 1) (slice src r start)"
  shows "holds_level L (ntt_q t) (level L (ntt_w t) a (Suc layer)) (if Suc layer = L then ntt_q t - 1 else 4 * ntt_q t - 1)
    (slice None (host_ntt_transfer_to_rev_layer layer src pcount cms L False r tables) start)"
proof -
  define g where "g = L - layer - 1"
  define r' where "r' = fold (update_pair (pair_lo L g cms) (pair_hi L g cms) (to_rev_pair L layer False tables) src)
      (ps_triples cms (2 ^ (L - 1)) pcount) r"
  have P: "holds_level L (ntt_q t) (level L (ntt_w t) a (Suc layer)) (4 * ntt_q t - 1) (slice None r' start)"
    using to_rev_pairs[OF assms(1-5) assms(8)[unfolded t_def start_def], OF r'_def[unfolded g_def]]
    by (simp add: t_def start_def)
  have m: "wf_modulus (nt_modulus t)" using wf_ntt_tablesD(1)[OF assms(1)] by (simp add: t_def)
  show ?thesis
  proof (cases "layer = L - 1")
    case True
    let ?r = "host_ntt_transfer_to_rev_layer layer src pcount cms L False r tables"
    have "slice None ?r start pos = uint (final_subtractions (nt_modulus t) (r' ! (start + pos)))" if "pos < 2 ^ L" for pos
      using points_phase[OF assms(3,4) that, of r'] assms(5) True
      by (simp add: to_rev_layer_phases slice_def read_from_def Let_def start_def t_def r'_def g_def length_fold_pairs)
    moreover have "uint (r' ! (start + pos)) < 4 * ntt_q t" if "pos < 2 ^ L" for pos
      using holds_levelD(1)[OF P that] by (simp add: slice_def read_from_def)
    ultimately have "slice None ?r start pos = slice None r' start pos mod ntt_q t" if "pos < 2 ^ L" for pos
      using final_subtractions_correct[OF m] that by (simp add: slice_def read_from_def)
    moreover have "Suc layer = L" using True assms(2) by simp
    ultimately show ?thesis
      using holds_levelD(2)[OF P] ntt_q_bounds(1)[OF m] by (simp add: holds_level_def)
  next
    case False
    then have "Suc layer \<noteq> L" by auto
    then show ?thesis using P False by (simp add: to_rev_layer_phases Let_def r'_def g_def)
  qed
qed

text \<open>The inverse layers; the roots of the inverse tree are consumed in order.\<close>

definition scaled_level :: "nat \<Rightarrow> (nat \<Rightarrow> int) \<Rightarrow> (nat \<Rightarrow> int) \<Rightarrow> nat \<Rightarrow> nat \<Rightarrow> int" where
  "scaled_level L w a layer pos = 2 ^ layer * level L w a (L - layer) pos"

lemma from_rev_pairs:
  assumes "wf_ntt_tables L (get_table tables k j)" "layer < L" "j < cms" "k < pcount" "length r = pcount * cms * 2 ^ L"
  defines "t \<equiv> get_table tables k j" and "start \<equiv> (k * cms + j) * 2 ^ L"
  assumes "holds_level L (ntt_q t) (scaled_level L (ntt_w t) a layer) (2 * ntt_q t) (slice src r start)"
    and res: "res = fold (update_pair (pair_lo L layer cms) (pair_hi L layer cms) (from_rev_pair L layer True tables) src)
      (ps_triples cms (2 ^ (L - 1)) pcount) r"
  shows "holds_level L (ntt_q t) (scaled_level L (ntt_w t) a (Suc layer)) (2 * ntt_q t) (slice None res start)"
proof (rule level_pairs)
  show "layer < L" by (rule assms(2))
  define l where "l = L - Suc layer"
  have l: "l < L" "L - Suc l = layer" "Suc l = L - layer" using assms(2) by (simp_all add: l_def)
  note T = wf_ntt_tablesD[OF assms(1)[folded t_def]]
  fix b c :: nat
  assume b: "b < 2 ^ (L - Suc layer)" and c: "c < 2 ^ layer"
  let ?g = "2 ^ layer" let ?p = "b * (2 * ?g) + c" and ?q = "ntt_q t" and ?n = "2 ^ L - 2 ^ Suc l + 1 + b"
  let ?w = "ntt_w t (2 ^ l + b)" and ?wi = "ntt_w_inv t ?n"
  let ?A = "level L (ntt_w t) a l ?p" and ?B = "level L (ntt_w t) a l (?p + ?g)"
  have b': "b < 2 ^ l" using b by (simp add: l_def)
  have lo: "?p < 2 ^ L" and hi: "?p + ?g < 2 ^ L"
    using block_pos[OF assms(2) b, of c] block_pos[OF assms(2) b, of "c + ?g"] c by (simp_all add: add.assoc)
  have d: "drop_bit layer (b * ?g + c) = b" using c by (simp add: drop_bit_eq_div)
  define u v where "u = read_from src r (start + ?p)" and "v = read_from src r (start + ?p + ?g)"
  have res': "(res ! (start + ?p), res ! (start + ?p + ?g)) = from_rev_butterfly (nt_modulus t) (inv_root_powers t ! ?n) u v"
    using pairs_phase[OF assms(2-4) b c assms(5) res refl] d
    by (simp add: from_rev_pair_def table_roots_def t_def start_def u_def v_def l_def push_bit_eq_mult add.assoc mult.commute)
  have X: "slice None res start ?p = uint (fst (from_rev_butterfly (nt_modulus t) (inv_root_powers t ! ?n) u v))"
    "slice None res start (?p + ?g) = uint (snd (from_rev_butterfly (nt_modulus t) (inv_root_powers t ! ?n) u v))"
    unfolding res'[symmetric] by (simp_all add: slice_def read_from_def add.assoc)
  have u: "uint u \<le> 2 * ?q" "uint u mod ?q = scaled_level L (ntt_w t) a layer ?p mod ?q"
    and v: "uint v \<le> 2 * ?q" "uint v mod ?q = scaled_level L (ntt_w t) a layer (?p + ?g) mod ?q"
    using holds_levelD[OF assms(8) lo] holds_levelD[OF assms(8) hi] by (simp_all add: slice_def u_def v_def add.assoc)
  note B = from_rev_butterfly_correct[OF T(1) T(4)[OF inv_node_bound[OF l(1) b']] u(1) v(1)]
  note V = level_block[OF T(2) l(1) b', of c a, unfolded l(2), OF c]
  have u': "uint u mod ?q = 2 ^ layer * (?A + ?w * ?B) mod ?q"
    unfolding u(2) scaled_level_def l(3)[symmetric] by (rule mod_mult_cong[OF refl V(1)])
  have v': "uint v mod ?q = 2 ^ layer * (?A - ?w * ?B) mod ?q"
    unfolding v(2) scaled_level_def l(3)[symmetric] by (rule mod_mult_cong[OF refl V(2)])
  have s: "(uint u + uint v) mod ?q = 2 ^ Suc layer * ?A mod ?q"
    unfolding mod_add_cong[OF u' v'] by (simp add: algebra_simps)
  have "?wi * (uint u - uint v) mod ?q = ?wi * (2 ^ Suc layer * ?B * ?w) mod ?q"
    by (rule mod_mult_cong[OF refl]) (unfold mod_diff_cong[OF u' v'], simp add: algebra_simps)
  also have "\<dots> = 2 ^ Suc layer * ?B * (?wi * ?w) mod ?q" by (simp only: ac_simps)
  also have "\<dots> = 2 ^ Suc layer * ?B mod ?q" using T(5)[OF l(1) b'] by (metis mod_mult_right_eq mult_1_right)
  finally have e: "?wi * (uint u - uint v) mod ?q = 2 ^ Suc layer * ?B mod ?q" .
  show "(slice None res start ?p \<le> 2 * ?q \<and>
        slice None res start ?p mod ?q = scaled_level L (ntt_w t) a (Suc layer) ?p mod ?q) \<and>
      (slice None res start (?p + ?g) \<le> 2 * ?q \<and>
        slice None res start (?p + ?g) mod ?q = scaled_level L (ntt_w t) a (Suc layer) (?p + ?g) mod ?q)"
    unfolding X scaled_level_def l_def[symmetric] using B(1,3) B(2)[unfolded s] B(4)[folded ntt_w_inv_def, unfolded e] by blast
qed

lemma from_rev_layer_step:
  assumes "wf_ntt_tables L (get_table tables k j)" "layer < L" "j < cms" "k < pcount" "length r = pcount * cms * 2 ^ L"
    "L \<le> 64"
  defines "t \<equiv> get_table tables k j" and "start \<equiv> (k * cms + j) * 2 ^ L"
  assumes "holds_level L (ntt_q t) (scaled_level L (ntt_w t) a layer) (2 * ntt_q t) (slice src r start)"
  shows "if Suc layer = L
    then holds_level L (ntt_q t) a (ntt_q t - 1)
      (slice None (host_ntt_transfer_from_rev_layer layer src pcount cms L True r tables) start)
    else holds_level L (ntt_q t) (scaled_level L (ntt_w t) a (Suc layer)) (2 * ntt_q t)
      (slice None (host_ntt_transfer_from_rev_layer layer src pcount cms L True r tables) start)"
proof -
  define r' where "r' = fold (update_pair (pair_lo L layer cms) (pair_hi L layer cms) (from_rev_pair L layer True tables) src)
      (ps_triples cms (2 ^ (L - 1)) pcount) r"
  have P: "holds_level L (ntt_q t) (scaled_level L (ntt_w t) a (Suc layer)) (2 * ntt_q t) (slice None r' start)"
    using from_rev_pairs[OF assms(1-5) assms(9)[unfolded t_def start_def], OF r'_def]
    by (simp add: t_def start_def)
  note T = wf_ntt_tablesD[OF assms(1)[folded t_def]]
  note q = ntt_q_bounds[OF T(1)]
  let ?r = "host_ntt_transfer_from_rev_layer layer src pcount cms L True r tables"
  let ?d = "uint (op_operand (inv_degree_modulo t))"
  show ?thesis
  proof (cases "layer = L - 1")
    case True
    have sl: "Suc layer = L" using True assms(2) by simp
    have "slice None ?r start pos \<le> ntt_q t - 1 \<and> slice None ?r start pos mod ntt_q t = a pos mod ntt_q t"
      if pos: "pos < 2 ^ L" for pos
    proof -
      let ?x = "r' ! (start + pos)"
      have s: "slice None ?r start pos = uint (multiply_uint64operand_mod_lazy (final_subtractions (nt_modulus t) ?x)
          (inv_degree_modulo t) (nt_modulus t))"
        using points_phase[OF assms(3,4) pos, of r'] assms(5) True
        by (simp add: from_rev_layer_phases slice_def read_from_def Let_def start_def t_def r'_def length_fold_pairs)
      have x: "uint ?x \<le> 2 * ntt_q t" "uint ?x mod ntt_q t = 2 ^ L * a pos mod ntt_q t"
        using holds_levelD[OF P pos] by (simp_all add: slice_def read_from_def sl scaled_level_def level_0[OF pos])
      have f: "uint (final_subtractions (nt_modulus t) ?x) = uint ?x mod ntt_q t"
        by (rule final_subtractions_correct[OF T(1)]) (use x(1) q(1) in linarith)
      have "slice None ?r start pos = uint ?x mod ntt_q t * ?d mod ntt_q t"
        unfolding s f[symmetric] by (rule lazy_inverse_degree[OF T(1,6,7) assms(6)]) (use q(1) f in simp)
      also have "\<dots> = a pos * (?d * 2 ^ L) mod ntt_q t" unfolding x(2) mod_mult_left_eq by (simp only: ac_simps)
      also have "\<dots> = a pos mod ntt_q t" using T(7) by (metis mod_mult_right_eq mult_1_right)
      finally show ?thesis using q(1) by simp
    qed
    then show ?thesis using sl by (simp add: holds_level_def)
  next
    case False
    then have "Suc layer \<noteq> L" by auto
    then show ?thesis using P False by (simp add: from_rev_layer_phases Let_def r'_def)
  qed
qed

subsection \<open>The whole transform\<close>

definition to_rev_layers :: "nat \<Rightarrow> u64 list option \<Rightarrow> nat \<Rightarrow> nat \<Rightarrow> nat \<Rightarrow> bool \<Rightarrow> u64 list \<Rightarrow> table_indexer \<Rightarrow> u64 list option \<times> u64 list" where
  "to_rev_layers l src pcount cms L invt r tables = fold (\<lambda>layer (src, r). (None :: u64 list option,
     host_ntt_transfer_to_rev_layer layer src pcount cms L invt r tables)) [0..<l] (src, r)"

definition from_rev_layers :: "nat \<Rightarrow> u64 list option \<Rightarrow> nat \<Rightarrow> nat \<Rightarrow> nat \<Rightarrow> bool \<Rightarrow> u64 list \<Rightarrow> table_indexer \<Rightarrow> u64 list option \<times> u64 list" where
  "from_rev_layers l src pcount cms L invt r tables = fold (\<lambda>layer (src, r). (None :: u64 list option,
     host_ntt_transfer_from_rev_layer layer src pcount cms L invt r tables)) [0..<l] (src, r)"

lemma layers_0: "to_rev_layers 0 src pcount cms L invt r tables = (src, r)" "from_rev_layers 0 src pcount cms L invt r tables = (src, r)"
  by (simp_all add: to_rev_layers_def from_rev_layers_def)

lemma layers_Suc:
  "to_rev_layers (Suc l) src pcount cms L invt r tables =
     (None, host_ntt_transfer_to_rev_layer l (fst (to_rev_layers l src pcount cms L invt r tables)) pcount cms L invt
       (snd (to_rev_layers l src pcount cms L invt r tables)) tables)"
  "from_rev_layers (Suc l) src pcount cms L invt r tables =
     (None, host_ntt_transfer_from_rev_layer l (fst (from_rev_layers l src pcount cms L invt r tables)) pcount cms L invt
       (snd (from_rev_layers l src pcount cms L invt r tables)) tables)"
  by (simp_all add: to_rev_layers_def from_rev_layers_def split: prod.split)

lemma length_layers [simp]:
  "length (snd (to_rev_layers l src pcount cms L invt r tables)) = length r"
  "length (snd (from_rev_layers l src pcount cms L invt r tables)) = length r"
  by (induction l) (simp_all add: layers_0 layers_Suc)

lemma fst_layers:
  "0 < l \<Longrightarrow> fst (to_rev_layers l src pcount cms L invt r tables) = None"
  "0 < l \<Longrightarrow> fst (from_rev_layers l src pcount cms L invt r tables) = None"
  by (cases l; simp add: layers_Suc)+

lemma length_ntt [simp]:
  "length (ntt src pcount cms L invt r tables) = length r" "length (intt src pcount cms L invt r tables) = length r"
  using length_layers[of L src pcount cms L invt r tables]
  by (simp_all add: ntt_def intt_def to_rev_layers_def from_rev_layers_def)

lemma to_rev_layers_level:
  assumes "wf_ntt_tables L (get_table tables k j)" "j < cms" "k < pcount" "length r = pcount * cms * 2 ^ L" "l \<le> L"
  defines "t \<equiv> get_table tables k j" and "start \<equiv> (k * cms + j) * 2 ^ L"
  assumes "holds_level L (ntt_q t) (level L (ntt_w t) a 0) (4 * ntt_q t - 1) (slice src r start)"
  shows "holds_level L (ntt_q t) (level L (ntt_w t) a l) (if 0 < l \<and> l = L then ntt_q t - 1 else 4 * ntt_q t - 1)
    (case to_rev_layers l src pcount cms L False r tables of (src, r) \<Rightarrow> slice src r start)"
  using assms(5)
proof (induction l)
  case 0
  then show ?case using assms(8) by (simp add: layers_0)
next
  case (Suc l)
  let ?s = "to_rev_layers l src pcount cms L False r tables"
  have "holds_level L (ntt_q t) (level L (ntt_w t) a l) (4 * ntt_q t - 1) (slice (fst ?s) (snd ?s) start)"
    using Suc by (simp add: case_prod_beta)
  from to_rev_layer_step[OF assms(1) _ assms(2,3), where r = "snd ?s" and src = "fst ?s" and layer = l and a = a]
    this Suc.prems assms(4)
  show ?case unfolding t_def start_def by (simp add: layers_Suc split del: if_split)
qed

lemma from_rev_layers_level:
  assumes "wf_ntt_tables L (get_table tables k j)" "j < cms" "k < pcount" "length r = pcount * cms * 2 ^ L" "l < L" "L \<le> 64"
  defines "t \<equiv> get_table tables k j" and "start \<equiv> (k * cms + j) * 2 ^ L"
  assumes "holds_level L (ntt_q t) (level L (ntt_w t) a L) (2 * ntt_q t) (slice src r start)"
  shows "holds_level L (ntt_q t) (scaled_level L (ntt_w t) a l) (2 * ntt_q t)
    (case from_rev_layers l src pcount cms L True r tables of (src, r) \<Rightarrow> slice src r start)"
  using assms(5)
proof (induction l)
  case 0
  then show ?case using assms(9) by (simp add: layers_0 scaled_level_def[abs_def])
next
  case (Suc l)
  let ?s = "from_rev_layers l src pcount cms L True r tables"
  have "holds_level L (ntt_q t) (scaled_level L (ntt_w t) a l) (2 * ntt_q t) (slice (fst ?s) (snd ?s) start)"
    using Suc by (simp add: case_prod_beta)
  from from_rev_layer_step[OF assms(1) _ assms(2,3) _ assms(6), where r = "snd ?s" and src = "fst ?s" and layer = l and a = a]
    this Suc.prems assms(4)
  show ?case by (simp add: layers_Suc t_def start_def)
qed

text \<open>The values of a polynomial at the roots, in the order of the transform.\<close>

definition transform :: "nat \<Rightarrow> ntt_tables \<Rightarrow> (nat \<Rightarrow> int) \<Rightarrow> nat \<Rightarrow> int" where
  "transform L t a pos = evaluate_at (2 ^ L) a (root (ntt_w t) (2 ^ L + pos)) mod ntt_q t"

lemma ntt_transform:
  assumes "0 < L" "wf_ntt_tables L (get_table tables k j)" "j < cms" "k < pcount" "length r = pcount * cms * 2 ^ L"
    "pos < 2 ^ L"
  defines "t \<equiv> get_table tables k j" and "start \<equiv> (k * cms + j) * 2 ^ L"
  assumes "\<And>i. i < 2 ^ L \<Longrightarrow> slice src r start i < 4 * ntt_q t"
  shows "uint (ntt src pcount cms L False r tables ! (start + pos)) = transform L t (slice src r start) pos"
proof -
  let ?s = "to_rev_layers L src pcount cms L False r tables"
  have "holds_level L (ntt_q t) (level L (ntt_w t) (slice src r start) 0) (4 * ntt_q t - 1) (slice src r start)"
    using assms(9) by (simp add: holds_level_def level_0)
  from to_rev_layers_level[OF assms(2-5) order_refl this[unfolded t_def start_def]]
  have "holds_level L (ntt_q t) (level L (ntt_w t) (slice src r start) L) (ntt_q t - 1) (slice (fst ?s) (snd ?s) start)"
    using assms(1) by (simp add: case_prod_beta t_def start_def)
  from holds_levelD[OF this assms(6)] fst_layers(1)[OF assms(1)]
  have "uint (snd ?s ! (start + pos)) \<le> ntt_q t - 1"
    "uint (snd ?s ! (start + pos)) mod ntt_q t = level L (ntt_w t) (slice src r start) L pos mod ntt_q t"
    by (simp_all add: slice_def read_from_def)
  then show ?thesis by (simp add: ntt_def to_rev_layers_def transform_def level_last)
qed

lemma intt_inverse:
  assumes "0 < L" "L \<le> 64" "wf_ntt_tables L (get_table tables k j)" "j < cms" "k < pcount" "length r = pcount * cms * 2 ^ L"
    "pos < 2 ^ L"
  defines "t \<equiv> get_table tables k j" and "start \<equiv> (k * cms + j) * 2 ^ L"
  assumes "\<And>i. i < 2 ^ L \<Longrightarrow> slice src r start i \<le> 2 * ntt_q t \<and> slice src r start i mod ntt_q t = transform L t a i"
  shows "uint (intt src pcount cms L True r tables ! (start + pos)) = a pos mod ntt_q t"
proof -
  obtain l where L: "L = Suc l" using assms(1) by (cases L) auto
  let ?s = "from_rev_layers l src pcount cms L True r tables"
  have l: "l < L" by (simp add: L)
  have "holds_level L (ntt_q t) (level L (ntt_w t) a L) (2 * ntt_q t) (slice src r start)"
    using assms(10) by (simp add: holds_level_def level_last transform_def)
  from from_rev_layers_level[OF assms(3-6) l assms(2) this[unfolded t_def start_def]]
  have "holds_level L (ntt_q t) (scaled_level L (ntt_w t) a l) (2 * ntt_q t) (slice (fst ?s) (snd ?s) start)"
    by (simp add: case_prod_beta t_def start_def)
  from from_rev_layer_step[OF assms(3) l assms(4,5) _ assms(2) this[unfolded t_def start_def]] assms(6)
  have "holds_level L (ntt_q t) a (ntt_q t - 1) (slice None (snd (from_rev_layers L src pcount cms L True r tables)) start)"
    using L by (simp add: layers_Suc t_def start_def)
  from holds_levelD[OF this assms(7)] show ?thesis
    by (simp add: intt_def from_rev_layers_def slice_def read_from_def)
qed

lemma transform_cong:
  "(\<And>i. i < 2 ^ L \<Longrightarrow> a i mod ntt_q t = b i mod ntt_q t) \<Longrightarrow> transform L t a = transform L t b"
  unfolding transform_def by (intro ext evaluate_cong_mod)

lemma transform_nmul:
  assumes "wf_ntt_tables L t" "pos < 2 ^ L"
  shows "transform L t (nmul (2 ^ L) a b) pos = transform L t a pos * transform L t b pos mod ntt_q t"
  using level_nmul[OF wf_ntt_tablesD(2)[OF assms(1)] assms(2), of a b]
  by (simp add: transform_def level_last mod_mult_eq)

end
