(* ===== verification/Limb_Div.thy ===== *)
theory Limb_Div
  imports Limb_Shift
begin

unbundle bit_operations_syntax

text \<open>
  The bit-wise long division of \<open>src/encryption/utils/basics.cu\<close>. The general and the three-word
  division run the same loop with other shift routines, so the shift is an argument of the loop.
  The loop is a partial function: it does not end for a zero divisor. \<open>None\<close> also stands for an
  access outside an operand and for a division trap.
\<close>

subsection \<open>Significant bits\<close>

fun significant_index :: "u64 list \<Rightarrow> nat \<Rightarrow> nat" where
  "significant_index xs 0 = 0"
| "significant_index xs (Suc c) = (if xs ! Suc c = 0 then significant_index xs c else Suc c)"

definition get_significant_bit_count_uint :: "u64 list \<Rightarrow> nat option" where
  "get_significant_bit_count_uint xs =
     (if xs = [] then None
      else let c = significant_index xs (length xs - 1) in Some (get_significant_bit_count (xs ! c) + c * 64))"

definition has_bits :: "int \<Rightarrow> nat \<Rightarrow> bool" where
  "has_bits x b \<longleftrightarrow> 0 \<le> x \<and> x < 2 ^ b \<and> (0 < b \<longrightarrow> 2 ^ (b - 1) \<le> x)"

lemma has_bits_zero: "has_bits x b \<Longrightarrow> x = 0 \<longleftrightarrow> b = 0"
proof -
  assume h: "has_bits x b"
  have "(0 :: int) < 2 ^ (b - 1)" by simp
  then show ?thesis using h by (cases "b = 0") (auto simp: has_bits_def)
qed

lemma has_bits_less: "has_bits x a \<Longrightarrow> has_bits y b \<Longrightarrow> a < b \<Longrightarrow> x < y"
proof -
  assume h: "has_bits x a" "has_bits y b" "a < b"
  have "(2 :: int) ^ a \<le> 2 ^ (b - 1)" using h(3) by (intro power_increasing) auto
  moreover have "x < 2 ^ a" "2 ^ (b - 1) \<le> y" using h by (simp_all add: has_bits_def)
  ultimately show ?thesis by linarith
qed

lemma has_bits_le: "has_bits x a \<Longrightarrow> has_bits y b \<Longrightarrow> x \<le> y \<Longrightarrow> a \<le> b"
  using has_bits_less[of y b x a] by (cases "b < a") auto

lemma has_bits_shift: "has_bits x b \<Longrightarrow> x \<noteq> 0 \<Longrightarrow> has_bits (x * 2 ^ k) (b + k)"
proof -
  assume h: "has_bits x b" "x \<noteq> 0"
  then have b: "0 < b" using has_bits_zero by blast
  then have e: "b + k - 1 = (b - 1) + k" by simp
  have "2 ^ (b - 1) * 2 ^ k \<le> x * 2 ^ k" using h b by (intro mult_right_mono) (simp_all add: has_bits_def)
  then have "2 ^ (b + k - 1) \<le> x * 2 ^ k" unfolding e power_add .
  then show ?thesis using h by (simp add: has_bits_def power_add)
qed

lemma high_bit_loop: "has_bits (take_bit n (uint x)) (length (dropWhile (\<lambda>i. \<not> bit x i) (rev [0..<n])))" if "n \<le> 64" for x :: u64
  using that
proof (induction n)
  case (Suc n)
  have t: "take_bit (Suc n) (uint x) = 2 ^ n * of_bool (bit x n) + take_bit n (uint x)"
    by (simp add: take_bit_Suc_from_most bit_uint_iff) (use Suc.prems in auto)
  have "0 \<le> take_bit n (uint x)" "take_bit n (uint x) < 2 ^ n" by simp_all
  then show ?case using Suc t by (auto simp: has_bits_def)
qed (simp add: has_bits_def)

lemma significant_bits_word: "has_bits (uint x) (get_significant_bit_count x)" for x :: u64
proof -
  have "take_bit 64 (uint x) = uint x" using uint64_lt[of x] by (simp add: take_bit_int_eq_self)
  then show ?thesis using high_bit_loop[of 64 x] by (simp add: get_significant_bit_count_def)
qed

lemma significant_index_le: "significant_index xs c \<le> c"
  by (induction c) auto

lemma significant_index_high: "significant_index xs c < j \<Longrightarrow> j \<le> c \<Longrightarrow> xs ! j = 0"
  by (induction c) (auto simp: le_Suc_eq split: if_splits)

lemma significant_index_word: "0 < significant_index xs c \<Longrightarrow> xs ! significant_index xs c \<noteq> 0"
  by (induction c) (auto split: if_splits)

lemma has_bits_limb:
  assumes "has_bits x b" "x \<noteq> 0 \<or> c = 0" "0 \<le> y" "y < 2 ^ (64 * c)"
  shows "has_bits (y + 2 ^ (64 * c) * x) (b + c * 64)"
proof (cases "b = 0")
  case True
  then show ?thesis using assms has_bits_zero[OF assms(1)] by (auto simp: has_bits_def)
next
  case False
  have "x + 1 \<le> 2 ^ b" using assms(1) by (simp add: has_bits_def)
  then have "2 ^ (64 * c) * (x + 1) \<le> 2 ^ (64 * c) * 2 ^ b" by (intro mult_left_mono) simp_all
  then have u: "y + 2 ^ (64 * c) * x < 2 ^ (b + c * 64)" using assms(4) by (simp add: power_add algebra_simps)
  have "2 ^ (64 * c) * 2 ^ (b - 1) \<le> 2 ^ (64 * c) * x" using assms(1) False by (intro mult_left_mono) (simp_all add: has_bits_def)
  moreover have "b + c * 64 - 1 = 64 * c + (b - 1)" using False by simp
  moreover have "2 ^ (64 * c) * x \<le> y + 2 ^ (64 * c) * x" using assms(3) by simp
  ultimately have "2 ^ (b + c * 64 - 1) \<le> y + 2 ^ (64 * c) * x" by (simp only: power_add order_trans)
  then show ?thesis using u assms(3) assms(1) by (simp add: has_bits_def)
qed

lemma significant_bits:
  assumes "xs \<noteq> []"
  shows "\<exists>b. get_significant_bit_count_uint xs = Some b \<and> has_bits (limbs xs) b"
proof -
  define c where "c = significant_index xs (length xs - 1)"
  have c: "c < length xs" using significant_index_le[of xs "length xs - 1"] assms by (cases xs) (auto simp: c_def)
  have "limbs (drop (Suc c) xs) = 0"
    by (rule limbs_zero) (use significant_index_high[of xs "length xs - 1"] c in \<open>auto simp: c_def in_set_conv_nth\<close>)
  moreover have "xs = take (Suc c) xs @ drop (Suc c) xs" by simp
  ultimately have "limbs xs = limbs (take (Suc c) xs)" by (metis limbs_append add.right_neutral mult_zero_right)
  then have e: "limbs xs = limbs (take c xs) + 2 ^ (64 * c) * uint (xs ! c)" using limbs_take_next[OF c] by simp
  have "uint (xs ! c) \<noteq> 0 \<or> c = 0" using significant_index_word[of xs "length xs - 1"] by (auto simp: c_def uint_0_iff)
  moreover have "limbs (take c xs) < 2 ^ (64 * c)" using limbs_bound[of "take c xs"] c by simp
  ultimately have "has_bits (limbs xs) (get_significant_bit_count (xs ! c) + c * 64)"
    unfolding e by (intro has_bits_limb[OF significant_bits_word]) simp_all
  then show ?thesis using assms by (simp add: get_significant_bit_count_uint_def c_def Let_def)
qed

subsection \<open>The loop\<close>

text \<open>A routine writes its words over the first ones of a slice.\<close>

definition overwrite :: "u64 list \<Rightarrow> u64 list \<Rightarrow> u64 list" where
  "overwrite xs r = r @ drop (length r) xs"

text \<open>The part of the body after the subtraction: set the quotient bit and realign.\<close>

definition divide_align ::
  "(u64 list \<Rightarrow> nat \<Rightarrow> u64 list option) \<Rightarrow> nat \<Rightarrow> u64 list \<Rightarrow> u64 list \<Rightarrow> u64 list \<Rightarrow> nat
    \<Rightarrow> (u64 list \<times> u64 list \<times> nat \<times> nat) option" where
  "divide_align shl denominator_bits numerator difference quo remaining_shifts =
     (if quo = [] then None
      else let quo = quo[0 := quo ! 0 OR 1] in
        case get_significant_bit_count_uint difference of
          None \<Rightarrow> None
        | Some numerator_bits \<Rightarrow>
            let numerator_shift = (if denominator_bits < numerator_bits \<or> remaining_shifts < denominator_bits - numerator_bits
                  then remaining_shifts else denominator_bits - numerator_bits)
            in case (if 0 < numerator_bits then map_option (overwrite numerator) (shl difference numerator_shift)
                     else Some (replicate (length numerator) 0)) of
                 None \<Rightarrow> None
               | Some numerator \<Rightarrow>
                   map_option (\<lambda>q. (numerator, overwrite quo q,
                       if 0 < numerator_bits then numerator_bits + numerator_shift else numerator_bits,
                       remaining_shifts - numerator_shift))
                     (shl quo numerator_shift))"

definition divide_step ::
  "(u64 list \<Rightarrow> nat \<Rightarrow> u64 list option) \<Rightarrow> nat \<Rightarrow> u64 list \<Rightarrow> u64 list \<Rightarrow> u64 list \<Rightarrow> u64 list \<Rightarrow> nat
    \<Rightarrow> (u64 list \<times> u64 list \<times> nat \<times> nat) option" where
  "divide_step shl denominator_bits numerator shifted_denominator difference quo remaining_shifts =
     (case shl quo 1 of
        None \<Rightarrow> None
      | Some q \<Rightarrow> divide_align shl denominator_bits numerator (fst (add_uint_inplace difference numerator))
          (overwrite quo q) (remaining_shifts - 1))"

partial_function (option) divide_loop ::
  "(u64 list \<Rightarrow> nat \<Rightarrow> u64 list option) \<Rightarrow> nat \<Rightarrow> nat \<Rightarrow> u64 list \<Rightarrow> u64 list \<Rightarrow> u64 list \<Rightarrow> nat \<Rightarrow> nat
    \<Rightarrow> (u64 list \<times> u64 list \<times> nat) option" where
  "divide_loop shl uint64_count denominator_bits shifted_denominator numerator quo numerator_bits remaining_shifts =
     (if numerator_bits \<noteq> denominator_bits then Some (numerator, quo, numerator_bits)
      else let (difference, borrow) = sub_uint numerator shifted_denominator uint64_count in
        if borrow \<noteq> 0 \<and> remaining_shifts = 0 then Some (numerator, quo, numerator_bits)
        else case (if borrow \<noteq> 0 then divide_step shl denominator_bits numerator shifted_denominator difference quo remaining_shifts
                   else divide_align shl denominator_bits numerator difference quo remaining_shifts) of
               None \<Rightarrow> None
             | Some (numerator, quo, numerator_bits, remaining_shifts) \<Rightarrow>
                 divide_loop shl uint64_count denominator_bits shifted_denominator numerator quo numerator_bits remaining_shifts)"

declare divide_loop.simps [code]

subsection \<open>Correctness\<close>

lemma overwrite_result:
  assumes "length r = k" "k \<le> length x" "limbs x < 2 ^ (64 * k)"
  shows "length (overwrite x r) = length x \<and> limbs (overwrite x r) = limbs r"
proof -
  have e: "limbs x = limbs (take k x) + 2 ^ (64 * k) * limbs (drop k x)"
    using limbs_append[of "take k x" "drop k x"] assms(2) by (simp add: min_def)
  have "limbs (drop k x) = 0"
  proof (rule ccontr)
    assume "limbs (drop k x) \<noteq> 0"
    then have "1 \<le> limbs (drop k x)" using limbs_nonneg[of "drop k x"] by linarith
    then have "2 ^ (64 * k) * 1 \<le> 2 ^ (64 * k) * limbs (drop k x)" by (intro mult_left_mono) simp_all
    then show False using e assms(3) limbs_nonneg[of "take k x"] by linarith
  qed
  then show ?thesis using assms(1,2) by (simp add: overwrite_def limbs_append)
qed

lemma limbs_set_low_bit:
  assumes "even (limbs q)" "q \<noteq> []"
  shows "limbs (q[0 := q ! 0 OR 1]) = limbs q + 1"
proof -
  have "even (uint (q ! 0))" using assms by (cases q) auto
  then have "\<not> bit (q ! 0) 0" using bit_uint_iff[of "q ! 0" 0] by (simp add: bit_0)
  then have "q ! 0 AND 1 = 0" by (simp add: and_one_eq mod_2_eq_odd bit_0)
  then have "uint (q ! 0 OR 1) = uint (q ! 0) + 1" using uint_or_disjoint[of "q ! 0" 1] by simp
  then show ?thesis using limbs_update[of 0 q "q ! 0 OR 1"] assms(2) by simp
qed

definition div_inv :: "nat \<Rightarrow> int \<Rightarrow> nat \<Rightarrow> int \<Rightarrow> nat \<Rightarrow> u64 list \<Rightarrow> u64 list \<Rightarrow> nat \<Rightarrow> nat \<Rightarrow> bool" where
  "div_inv N D b n S num q nb r \<longleftrightarrow> length num = N \<and> length q = N \<and> r \<le> S \<and> has_bits (limbs num) nb \<and> nb \<le> b \<and>
     limbs num + limbs q * D = n * 2 ^ (S - r) \<and> (even (limbs q) \<or> limbs num < D) \<and> (nb = b \<or> r = 0)"

lemma quotient_bound:
  fixes X Q D n :: int
  assumes "X + Q * D = n * 2 ^ m" "0 \<le> X" "0 \<le> Q" "n < 2 ^ b" "0 < b" "2 ^ (b - 1) \<le> D"
  shows "Q < 2 ^ (m + 1)"
proof -
  have p: "(2 :: int) ^ b = 2 * 2 ^ (b - 1)" using assms(5) by (cases b) simp_all
  have "Q * 2 ^ (b - 1) \<le> Q * D" using assms(3,6) by (intro mult_left_mono)
  also have "\<dots> \<le> n * 2 ^ m" using assms(1,2) by linarith
  also have "\<dots> < 2 ^ b * 2 ^ m" using assms(4) by simp
  also have "\<dots> = 2 ^ (m + 1) * 2 ^ (b - 1)" unfolding p by simp
  finally show ?thesis by simp
qed

text \<open>
  The contract of a shift routine: at the sizes \<open>ok k N\<close> it computes \<open>k\<close> words from an operand of
  \<open>k\<close> or \<open>N\<close> words.
\<close>

locale word_shift =
  fixes shl :: "nat \<Rightarrow> u64 list \<Rightarrow> nat \<Rightarrow> u64 list option" and ok :: "nat \<Rightarrow> nat \<Rightarrow> bool"
  assumes shl: "ok k N \<Longrightarrow> length x = k \<or> length x = N \<Longrightarrow> s < 64 * k \<Longrightarrow>
      \<exists>r. shl k x s = Some r \<and> length r = k \<and> limbs r = limbs x * 2 ^ s mod 2 ^ (64 * k)"
    and size: "ok k N \<Longrightarrow> 0 < k \<and> k \<le> N"
begin

lemma shl_exact:
  assumes "ok k N" "length x = k \<or> length x = N" "s < 64 * k" "limbs x * 2 ^ s < 2 ^ (64 * k)"
  shows "\<exists>r. shl k x s = Some r \<and> length r = k \<and> limbs r = limbs x * 2 ^ s"
  using shl[OF assms(1-3)] assms(4) by (simp add: mod_pos_pos_trivial)

lemma align_result:
  assumes ok: "ok k N" and D: "has_bits D b" "0 < b" "b \<le> 64 * k" and n: "n < 2 ^ b" and S: "S < b" "r \<le> S"
    and num: "length num = N" "limbs num < 2 ^ (64 * k)" and q: "length q = N" "even (limbs q)"
    and X: "length x = k" "limbs x < D" "limbs x + (limbs q + 1) * D = n * 2 ^ (S - r)"
  shows "\<exists>num' q' nb' r'. divide_align (shl k) b num x q r = Some (num', q', nb', r') \<and>
    div_inv N D b n S num' q' nb' r' \<and> r' \<le> r \<and> (limbs x < 2 ^ (b - 1) \<longrightarrow> r' < r \<or> nb' \<noteq> b)"
proof -
  note size_pos = size[OF ok, THEN conjunct1] and size_le = size[OF ok, THEN conjunct2]
  have ne: "q \<noteq> []" "x \<noteq> []" using q(1) X(1) size_pos size_le by auto
  obtain d where d: "get_significant_bit_count_uint x = Some d" "has_bits (limbs x) d" using significant_bits[OF ne(2)] by blast
  have db: "d \<le> b" using has_bits_le[OF d(2) D(1)] X(2) by simp
  define s where "s = (if b < d \<or> r < b - d then r else b - d)"
  have s: "s \<le> r" "s \<le> b - d" "s = r \<or> s = b - d" using db by (auto simp: s_def)
  have s64: "s < 64 * k" using s(1) S D(3) by linarith
  let ?q = "q[0 := q ! 0 OR 1]"
  have q1: "limbs ?q = limbs q + 1" "length ?q = N" using limbs_set_low_bit[OF q(2) ne(1)] q(1) by simp_all
  have K: "(2 :: int) ^ m \<le> 2 ^ (64 * k)" if "m \<le> b" for m using that D(3) by (intro power_increasing) simp_all
  have Db: "2 ^ (b - 1) \<le> D" using D(1,2) by (simp add: has_bits_def)
  have "limbs ?q < 2 ^ (S - r + 1)"
    by (rule quotient_bound[OF _ limbs_nonneg limbs_nonneg n D(2) Db]) (use X(3) q1(1) in simp)
  then have "limbs ?q * 2 ^ s < 2 ^ (S - r + 1) * 2 ^ s" "limbs ?q < 2 ^ (S - r + 1)" by simp_all
  moreover have "(2 :: int) ^ (S - r + 1) * 2 ^ s \<le> 2 ^ (64 * k)"
    unfolding power_add[symmetric] by (rule K) (use S s(1) in simp)
  moreover have "(2 :: int) ^ (S - r + 1) \<le> 2 ^ (64 * k)" by (rule K) (use S in simp)
  ultimately have B: "limbs ?q * 2 ^ s < 2 ^ (64 * k)" "limbs ?q < 2 ^ (64 * k)" by (blast intro: less_le_trans)+
  obtain q2 where q2: "shl k ?q s = Some q2" "length q2 = k" "limbs q2 = limbs ?q * 2 ^ s"
    using shl_exact[OF ok _ s64 B(1)] q1(2) by blast
  define q' where "q' = overwrite ?q q2"
  have q': "length q' = N" "limbs q' = (limbs q + 1) * 2 ^ s"
    using overwrite_result[OF q2(2) _ B(2)] q1 size_le q2(3) by (simp_all add: q'_def)
  define num' where "num' = (if 0 < d then overwrite num (the (shl k x s)) else replicate N 0)"
  define nb' where "nb' = (if 0 < d then d + s else d)"
  have num': "length num' = N" "limbs num' = limbs x * 2 ^ s" "has_bits (limbs num') nb'"
    "(if 0 < d then map_option (overwrite num) (shl k x s) else Some (replicate (length num) 0)) = Some num'"
  proof -
    have "length num' = N \<and> limbs num' = limbs x * 2 ^ s \<and> has_bits (limbs num') nb' \<and>
      (if 0 < d then map_option (overwrite num) (shl k x s) else Some (replicate (length num) 0)) = Some num'"
    proof (cases "d = 0")
      case True
      then show ?thesis using has_bits_zero[OF d(2)] d(2) num(1) by (simp add: num'_def nb'_def)
    next
      case False
      then have h: "has_bits (limbs x * 2 ^ s) (d + s)" using has_bits_shift[OF d(2)] has_bits_zero[OF d(2)] by blast
      then have "limbs x * 2 ^ s < 2 ^ (d + s)" by (simp add: has_bits_def)
      also have "\<dots> \<le> 2 ^ (64 * k)" by (rule K) (use s(2) db in linarith)
      finally obtain y where y: "shl k x s = Some y" "length y = k" "limbs y = limbs x * 2 ^ s"
        using shl_exact[OF ok _ s64] X(1) by blast
      then show ?thesis using False h overwrite_result[OF y(2) _ num(2)] num(1) size_le by (simp add: num'_def nb'_def)
    qed
    then show "length num' = N" "limbs num' = limbs x * 2 ^ s" "has_bits (limbs num') nb'"
      "(if 0 < d then map_option (overwrite num) (shl k x s) else Some (replicate (length num) 0)) = Some num'" by blast+
  qed
  have "divide_align (shl k) b num x q r = Some (num', q', nb', r - s)"
    using ne(1) d(1) q2(1) num'(4) by (simp add: divide_align_def Let_def s_def[symmetric] q'_def[symmetric] nb'_def[symmetric])
  moreover have "div_inv N D b n S num' q' nb' (r - s)"
  proof -
    have e: "S - (r - s) = (S - r) + s" using s(1) S(2) by simp
    have "limbs num' + limbs q' * D = (limbs x + (limbs q + 1) * D) * 2 ^ s" unfolding num'(2) q'(2) by (simp add: algebra_simps)
    also have "\<dots> = n * 2 ^ (S - (r - s))" unfolding X(3) e power_add by simp
    finally have i: "limbs num' + limbs q' * D = n * 2 ^ (S - (r - s))" .
    have "even (limbs q') \<or> limbs num' < D" using X(2) by (cases "s = 0") (simp_all add: q'(2) num'(2))
    moreover have "nb' \<le> b" "nb' = b \<or> r - s = 0" using s db S by (auto simp: nb'_def)
    ultimately show ?thesis using num' q' S i by (simp add: div_inv_def)
  qed
  moreover have "r - s < r \<or> nb' \<noteq> b" if "limbs x < 2 ^ (b - 1)"
  proof -
    have "d < b" using that d(2) D(2) db by (cases "d = b") (auto simp: has_bits_def)
    then show ?thesis using s by (auto simp: nb'_def)
  qed
  ultimately show ?thesis by (meson diff_le_self)
qed

lemma loop_step:
  assumes ok: "ok k N" and D: "length shifted = k" "limbs shifted = D" "has_bits D b" "0 < b" "b \<le> 64 * k"
    and n: "n < 2 ^ b" and S: "S < b" and inv: "div_inv N D b n S num q b r"
    and sub: "sub_uint num shifted k = (x, c)"
  shows "limbs num < D \<longleftrightarrow> c \<noteq> 0"
    and "c = 0 \<or> 0 < r \<Longrightarrow> \<exists>num' q' nb' r'.
      (if c \<noteq> 0 then divide_step (shl k) b num shifted x q r else divide_align (shl k) b num x q r) = Some (num', q', nb', r') \<and>
      div_inv N D b n S num' q' nb' r' \<and> (r' < r \<or> nb' \<noteq> b)"
proof -
  note size_pos = size[OF ok, THEN conjunct1] and size_le = size[OF ok, THEN conjunct2]
  note I = inv[unfolded div_inv_def]
  have "(2 :: int) ^ b \<le> 2 ^ (64 * k)" using D(5) by (intro power_increasing) simp_all
  moreover have "D < 2 ^ b" "limbs num < 2 ^ b" using D(3) I by (simp_all add: has_bits_def)
  ultimately have Dk: "D < 2 ^ (64 * k)" "limbs num < 2 ^ (64 * k)" by linarith+
  have b1: "2 ^ (b - 1) \<le> D" "2 ^ (b - 1) \<le> limbs num" "limbs num < 2 ^ b" "(2 :: int) ^ b = 2 * 2 ^ (b - 1)"
    using D(3,4) I by (auto simp: has_bits_def simp flip: power_Suc)
  have p: "limbs (pad k num) = limbs num"
  proof -
    have "pad k num = take k num" using I size_le by (intro nth_equalityI) (auto simp: pad_def limb_def)
    moreover have "limbs (overwrite num (take k num)) = limbs (take k num)"
      using overwrite_result[of "take k num" k num] I size_le Dk(2) by simp
    moreover have "overwrite num (take k num) = num" using I size_le by (simp add: overwrite_def)
    ultimately show ?thesis by simp
  qed
  obtain x' c' where s: "sub_uint num shifted k = (x', c')" "length x' = k" "c' \<in> {0, 1}" "limbs x' - 2 ^ (64 * k) * uint c' = limbs num - D"
    using sub_uint_borrow_result[of 0 num shifted k] D(1,2) p by (auto simp: sub_uint_def limbs_pad)
  then have x: "length x = k" "c \<in> {0, 1}" "limbs x - 2 ^ (64 * k) * uint c = limbs num - D" using sub by simp_all
  have xb: "limbs x < 2 ^ (64 * k)" using limbs_bound[of x] x(1) by simp
  have c: "limbs num < D \<longleftrightarrow> c \<noteq> 0" 
  proof -
    have "c = 0 \<or> c = 1" using x(2) by simp
    then show ?thesis using x(3) xb limbs_nonneg[of x] by (elim disjE) auto
  qed
  then show "limbs num < D \<longleftrightarrow> c \<noteq> 0" .
  assume cr: "c = 0 \<or> 0 < r"
  show "\<exists>num' q' nb' r'. (if c \<noteq> 0 then divide_step (shl k) b num shifted x q r else divide_align (shl k) b num x q r) = Some (num', q', nb', r') \<and>
      div_inv N D b n S num' q' nb' r' \<and> (r' < r \<or> nb' \<noteq> b)"
  proof (cases "c = 0")
    case True
    then have X: "limbs x = limbs num - D" "even (limbs q)" using x(3) c I by auto
    then have "limbs x < 2 ^ (b - 1)" "limbs x < D" using b1 by linarith+
    moreover have "limbs x + (limbs q + 1) * D = n * 2 ^ (S - r)" using X(1) I by (simp add: algebra_simps)
    ultimately show ?thesis
      using align_result[OF ok D(3-5) n S, of r num q x] I Dk(2) x(1) X(2) True by auto
  next
    case False
    then have r: "0 < r" "r \<le> S" "c = 1" "limbs num < D" using cr I x(2) c by auto
    obtain y d where y: "add_uint_inplace x num = (y, d)" "length y = k" "d \<in> {0, 1}" "limbs y + 2 ^ (64 * k) * uint d = limbs x + limbs num"
      using add_uint_carry_result[of 0 x num k] x(1) p by (auto simp: add_uint_inplace_def add_uint_carry_inplace_def limbs_pad)
    have yb: "limbs y < 2 ^ (64 * k)" using limbs_bound[of y] y(2) by simp
    have X: "limbs x = limbs num - D + 2 ^ (64 * k)" using x(3) r(3) by simp
    have "d = 0 \<or> d = 1" using y(3) by simp
    moreover have "D < 2 ^ b" using D(3) by (simp add: has_bits_def)
    then have "D \<le> 2 * limbs num" using b1 by linarith
    ultimately have "limbs y = 2 * limbs num - D" using y(4) X yb by (elim disjE) auto
    then have Y: "limbs y = 2 * limbs num - D" "limbs y < D" using r(4) by simp_all
    have e: "S - (r - 1) = (S - r) + 1" and rS: "r - 1 \<le> S" using r by simp_all
    have Q: "limbs q < 2 ^ (S - r + 1)"
      using quotient_bound[OF _ limbs_nonneg limbs_nonneg n D(4) b1(1)] I by blast
    have "(2 :: int) ^ (S - r + 1) * 2 \<le> 2 ^ b"
      unfolding power_Suc2[symmetric] by (rule power_increasing) (use r S in simp_all)
    then have B: "limbs q * 2 ^ 1 < 2 ^ (64 * k)" "limbs q < 2 ^ (64 * k)"
      using Q \<open>(2 :: int) ^ b \<le> 2 ^ (64 * k)\<close> limbs_nonneg[of q] unfolding power_one_right by linarith+
    obtain q1 where q1: "shl k q 1 = Some q1" "length q1 = k" "limbs q1 = limbs q * 2 ^ 1"
      using shl_exact[OF ok _ _ B(1)] I size_pos by auto
    have q2: "length (overwrite q q1) = N" "limbs (overwrite q q1) = 2 * limbs q"
      using overwrite_result[OF q1(2) _ B(2)] I size_le q1(3) by simp_all
    have "limbs y + (2 * limbs q + 1) * D = 2 * (limbs num + limbs q * D)" unfolding Y(1) by (simp add: algebra_simps)
    also have "\<dots> = n * 2 ^ (S - (r - 1))" using I unfolding e by simp
    finally have "limbs y + (2 * limbs q + 1) * D = n * 2 ^ (S - (r - 1))" .
    then obtain num' q' nb' r' where "divide_align (shl k) b num y (overwrite q q1) (r - 1) = Some (num', q', nb', r')"
      "div_inv N D b n S num' q' nb' r'" "r' \<le> r - 1"
      using align_result[OF ok D(3-5) n S rS _ Dk(2) q2(1) _ y(2) Y(2)] I q2(2) by auto
    then show ?thesis using False q1(1) y(1) r(1) by (auto simp: divide_step_def)
  qed
qed

lemma loop_result:
  assumes ok: "ok k N" and D: "length shifted = k" "limbs shifted = D" "has_bits D b" "0 < b" "b \<le> 64 * k"
    and n: "n < 2 ^ b" and S: "S < b" and inv: "div_inv N D b n S num q nb r"
  shows "\<exists>num' q' nb'. divide_loop (shl k) k b shifted num q nb r = Some (num', q', nb') \<and>
    div_inv N D b n S num' q' nb' 0 \<and> limbs num' < D"
  using inv
proof (induction r arbitrary: num q nb rule: less_induct)
  case (less r)
  have stop: "\<exists>num' q' nb'. divide_loop (shl k) k b shifted num q nb r = Some (num', q', nb') \<and>
      div_inv N D b n S num' q' nb' 0 \<and> limbs num' < D"
    if "nb \<noteq> b" "div_inv N D b n S num q nb r" for num q nb r
  proof -
    have "limbs num < D" "r = 0" using that has_bits_less[of "limbs num" nb D b] D(3) by (auto simp: div_inv_def)
    then show ?thesis using that by (subst divide_loop.simps) simp
  qed
  show ?case
  proof (cases "nb = b")
    case True
    obtain x c where s: "sub_uint num shifted k = (x, c)" by fastforce
    note step = loop_step[OF ok D n S less.prems[unfolded True] s]
    show ?thesis
    proof (cases "c \<noteq> 0 \<and> r = 0")
      case c: True
      then show ?thesis using step(1) less.prems True s by (subst divide_loop.simps) simp
    next
      case False
      then obtain num' q' nb' r' where t: "(if c \<noteq> 0 then divide_step (shl k) b num shifted x q r else divide_align (shl k) b num x q r) = Some (num', q', nb', r')"
        "div_inv N D b n S num' q' nb' r'" "r' < r \<or> nb' \<noteq> b" using step(2) by blast
      have "divide_loop (shl k) k b shifted num q nb r = divide_loop (shl k) k b shifted num' q' nb' r'"
        by (subst divide_loop.simps) (simp only: True s False t(1) if_False not_not Let_def prod.case option.case refl simp_thms)
      then show ?thesis using t(2,3) stop[OF _ t(2)] less.IH[OF _ t(2)] by (cases "nb' = b") auto
    qed
  qed (rule stop[OF _ less.prems])
qed

lemma divide_core:
  assumes ok: "ok k N" and num: "length num = N" "limbs num < 2 ^ (64 * k)" "has_bits (limbs num) nb"
    and den: "has_bits d db" "0 < d" "db \<le> nb" "nb \<le> 64 * k"
    and shifted: "length shifted = k" "limbs shifted = d * 2 ^ (nb - db)"
  shows "\<exists>num' q' nb'. divide_loop (shl k) k (db + (nb - db)) shifted num (replicate N 0) nb (nb - db) = Some (num', q', nb') \<and>
    length num' = N \<and> length q' = N \<and> has_bits (limbs num') nb' \<and> limbs num' < 2 ^ (64 * k) \<and>
    limbs q' = limbs num div d \<and> limbs num' div 2 ^ (nb - db) = limbs num mod d"
proof -
  define S where "S = nb - db"
  have d0: "0 < db" using has_bits_zero[OF den(1)] den(2) by simp
  have b: "db + S = nb" "0 < nb" "S < nb" using den(3) d0 by (simp_all add: S_def)
  have D: "has_bits (d * 2 ^ S) nb" using has_bits_shift[OF den(1), of S] den(2) b(1) by simp
  have n: "limbs num < 2 ^ nb" using num(3) by (simp add: has_bits_def)
  have "div_inv N (d * 2 ^ S) nb (limbs num) S num (replicate N 0) nb S"
    using num by (simp add: div_inv_def)
  then obtain num' q' nb' where r: "divide_loop (shl k) k nb shifted num (replicate N 0) nb S = Some (num', q', nb')"
    "div_inv N (d * 2 ^ S) nb (limbs num) S num' q' nb' 0" "limbs num' < d * 2 ^ S"
    using loop_result[OF ok shifted(1) shifted(2)[folded S_def] D b(2) den(4) n b(3)] by blast
  have e: "limbs num' = (limbs num - limbs q' * d) * 2 ^ S" using r(2) by (simp add: div_inv_def algebra_simps)
  have "0 \<le> (limbs num - limbs q' * d) * 2 ^ S" "(limbs num - limbs q' * d) * 2 ^ S < d * 2 ^ S"
    unfolding e[symmetric] using r(3) by simp_all
  then have "0 \<le> limbs num - limbs q' * d" "limbs num - limbs q' * d < d" by (simp_all add: zero_le_mult_iff)
  then have "limbs q' = limbs num div d" "limbs num - limbs q' * d = limbs num mod d"
    using int_div_pos_eq[of "limbs num" d "limbs q'" "limbs num - limbs q' * d"]
      int_mod_pos_eq[of "limbs num" d "limbs q'" "limbs num - limbs q' * d"] by (simp_all add: mult.commute)
  moreover have "limbs num' < 2 ^ (64 * k)"
  proof -
    have "d * 2 ^ S < 2 ^ nb" using D by (simp add: has_bits_def)
    moreover have "(2 :: int) ^ nb \<le> 2 ^ (64 * k)" using den(4) by (intro power_increasing) simp_all
    ultimately show ?thesis using r(3) by linarith
  qed
  ultimately show ?thesis using r(1,2) b(1) e unfolding S_def[symmetric] by (simp add: div_inv_def)
qed

end

subsection \<open>The two divisions\<close>

text \<open>From the aligned denominator on: the loop, and shifting the remainder back.\<close>

definition divide_aligned ::
  "(u64 list \<Rightarrow> nat \<Rightarrow> u64 list option) \<Rightarrow> (u64 list \<Rightarrow> nat \<Rightarrow> u64 list option) \<Rightarrow> nat \<Rightarrow> nat \<Rightarrow> nat
    \<Rightarrow> u64 list \<Rightarrow> u64 list \<Rightarrow> u64 list \<Rightarrow> nat \<Rightarrow> (u64 list \<times> u64 list) option" where
  "divide_aligned shl shr uint64_count denominator_bits denominator_shift shifted_denominator numerator quo numerator_bits =
     (case divide_loop shl uint64_count (denominator_bits + denominator_shift) shifted_denominator numerator quo numerator_bits denominator_shift of
        None \<Rightarrow> None
      | Some (numerator, quo, numerator_bits) \<Rightarrow>
          if 0 < numerator_bits then map_option (\<lambda>r. (overwrite numerator r, quo)) (shr numerator denominator_shift)
          else Some (numerator, quo))"

definition divide_uint_inplace :: "u64 list \<Rightarrow> u64 list \<Rightarrow> u64 list \<Rightarrow> (u64 list \<times> u64 list) option" where
  "divide_uint_inplace numerator denominator quo =
     (if quo = [] then Some (numerator, quo)
      else let quo = replicate (length quo) 0 in
        case (get_significant_bit_count_uint numerator, get_significant_bit_count_uint denominator) of
          (Some numerator_bits, Some denominator_bits) \<Rightarrow>
            let uint64_count = (numerator_bits + 64 - 1) div 64; denominator_shift = numerator_bits - denominator_bits in
            if numerator_bits < denominator_bits then Some (numerator, quo)
            else if uint64_count = 1 then
              (if denominator ! 0 = 0 then None
               else let q = numerator ! 0 div denominator ! 0
                 in Some (numerator[0 := numerator ! 0 - q * denominator ! 0], quo[0 := q]))
            else if length quo < uint64_count then None
            else (case left_shift_uint denominator denominator_shift uint64_count of
                None \<Rightarrow> None
              | Some shifted_denominator \<Rightarrow>
                  divide_aligned (\<lambda>x s. left_shift_uint x s uint64_count) (\<lambda>x s. right_shift_uint x s uint64_count)
                    uint64_count denominator_bits denominator_shift shifted_denominator numerator quo numerator_bits)
        | _ \<Rightarrow> None)"

definition divide_uint :: "u64 list \<Rightarrow> u64 list \<Rightarrow> u64 list \<Rightarrow> nat \<Rightarrow> (u64 list \<times> u64 list) option" where
  "divide_uint numerator denominator quo n =
     (if length numerator < n then None else divide_uint_inplace (take n numerator) denominator quo)"

text \<open>The three-word shifts of a slice: a shorter slice is accessed out of bounds.\<close>

definition shl192 :: "u64 list \<Rightarrow> nat \<Rightarrow> u64 list option" where
  "shl192 x s = (case x of [a, b, c] \<Rightarrow> (let (r0, r1, r2) = left_shift_uint192 (a, b, c) s in Some [r0, r1, r2]) | _ \<Rightarrow> None)"

definition shr192 :: "u64 list \<Rightarrow> nat \<Rightarrow> u64 list option" where
  "shr192 x s = (case x of [a, b, c] \<Rightarrow> (let (r0, r1, r2) = right_shift_uint192 (a, b, c) s in Some [r0, r1, r2]) | _ \<Rightarrow> None)"

definition divide_uint192_uint64_inplace :: "u64 list \<Rightarrow> u64 \<Rightarrow> (u64 list \<times> u64 list) option" where
  "divide_uint192_uint64_inplace numerator denominator =
     (let quo = [0, 0, 0] in
      case get_significant_bit_count_uint numerator of
        None \<Rightarrow> None
      | Some numerator_bits \<Rightarrow>
          let denominator_bits = get_significant_bit_count denominator;
              uint64_count = (numerator_bits + 64 - 1) div 64; denominator_shift = numerator_bits - denominator_bits in
          if numerator_bits < denominator_bits then Some (numerator, quo)
          else if uint64_count = 1 then
            (if denominator = 0 then None
             else let q = numerator ! 0 div denominator in Some (numerator[0 := numerator ! 0 - q * denominator], quo[0 := q]))
          else (case shl192 ((replicate uint64_count 0)[0 := denominator]) denominator_shift of
              None \<Rightarrow> None
            | Some shifted_denominator \<Rightarrow>
                divide_aligned shl192 shr192 uint64_count denominator_bits denominator_shift shifted_denominator numerator quo numerator_bits))"

lemma left_shift_uint_some:
  assumes "k \<le> length x" "s < 64 * k"
  shows "\<exists>r. left_shift_uint x s k = Some r"
proof -
  have "s div 64 < k" using assms(2) by (simp add: less_mult_imp_div_less)
  then show ?thesis using assms(1) by (auto simp: left_shift_uint_def Let_def)
qed

interpretation uint_shift: word_shift "\<lambda>k x s. left_shift_uint x s k" "\<lambda>k N. 0 < k \<and> k \<le> N"
proof (unfold_locales, goal_cases)
  case (1 k N x s)
  then have "k \<le> length x" by auto
  then show ?case using left_shift_uint_some[OF _ 1(3)] left_shift_uint_result by blast
qed

lemma three_words: "length x = 3 \<Longrightarrow> \<exists>a b c. x = [a, b, c]"
  by (auto simp: numeral_3_eq_3 length_Suc_conv)

lemma shl192_eq: "length x = 3 \<Longrightarrow> s < 192 \<Longrightarrow> shl192 x s = left_shift_uint x s 3"
  by (elim three_words[elim_format] exE) (simp add: shl192_def left_shift_uint192_eq split: prod.splits)

lemma shr192_eq: "length x = 3 \<Longrightarrow> s < 192 \<Longrightarrow> shr192 x s = right_shift_uint x s 3"
  by (elim three_words[elim_format] exE) (simp add: shr192_def right_shift_uint192_eq split: prod.splits)

interpretation shift192: word_shift "\<lambda>k. shl192" "\<lambda>k N. k = 3 \<and> N = 3"
proof (unfold_locales, goal_cases)
  case (1 k N x s)
  then have "length x = 3" "s < 192" "k = 3" by auto
  then show ?case using shl192_eq[of x s] left_shift_uint_some[of 3 x s] left_shift_uint_result[of x s 3] by auto
qed auto

lemma one_limb:
  assumes "limbs x < 2 ^ 64" "x \<noteq> []"
  shows "limbs x = uint (x ! 0)" "limbs (x[0 := v]) = uint v"
proof -
  have "limbs (overwrite x [x ! 0]) = limbs [x ! 0]" "overwrite x [x ! 0] = x"
    using overwrite_result[of "[x ! 0]" 1 x] assms by (auto simp: overwrite_def Suc_le_eq neq_Nil_conv)
  then show e: "limbs x = uint (x ! 0)" by simp
  show "limbs (x[0 := v]) = uint v" using limbs_update[of 0 x v] assms(2) e by simp
qed

lemma one_limb_division:
  fixes x d :: u64
  shows "uint (x div d) = uint x div uint d" "uint (x - x div d * d) = uint x mod uint d"
  by (simp_all add: uint_div uint_mod minus_div_mult_eq_mod)

lemma words_for_bits: "b \<le> 64 * ((b + 64 - 1) div 64) \<and> 64 * ((b + 64 - 1) div 64) < b + 64" for b :: nat
  using mult_div_mod_eq[of 64 "b + 64 - 1"] mod_less_divisor[of 64 "b + 64 - 1"] by linarith

lemma word_count:
  assumes "has_bits x b"
  shows "(b + 64 - 1) div 64 = 1 \<Longrightarrow> x < 2 ^ 64" "b \<le> 64 * ((b + 64 - 1) div 64)" "x < 2 ^ (64 * n) \<Longrightarrow> (b + 64 - 1) div 64 \<le> n"
proof -
  show le: "b \<le> 64 * ((b + 64 - 1) div 64)" using words_for_bits by blast
  show "x < 2 ^ 64" if "(b + 64 - 1) div 64 = 1"
  proof -
    have "(2 :: int) ^ b \<le> 2 ^ 64" using le that by (intro power_increasing) simp_all
    then show ?thesis using assms by (auto simp: has_bits_def)
  qed
  show "(b + 64 - 1) div 64 \<le> n" if "x < 2 ^ (64 * n)"
  proof (rule ccontr)
    assume "\<not> (b + 64 - 1) div 64 \<le> n"
    then have "64 * n < b" using words_for_bits[of b] by linarith
    then have "(2 :: int) ^ (64 * n) \<le> 2 ^ (b - 1)" "0 < b" by (auto intro: power_increasing)
    moreover have "0 < b \<longrightarrow> 2 ^ (b - 1) \<le> x" using assms by (simp add: has_bits_def)
    ultimately show False using that by linarith
  qed
qed

lemma right_shift_uint_exists:
  assumes "0 < k \<and> k \<le> N" "s < 64 * k" "length x = N"
  shows "\<exists>r. right_shift_uint x s k = Some r \<and> length r = k \<and> limbs r = limbs (take k x) div 2 ^ s"
proof -
  have "s div 64 < k" using assms(2) by (simp add: less_mult_imp_div_less)
  then have "\<exists>r. right_shift_uint x s k = Some r" using assms by (auto simp: right_shift_uint_def Let_def)
  then show ?thesis using right_shift_uint_result by blast
qed

lemma aligned_result:
  assumes "\<exists>num' q' nb'. divide_loop shl k (db + S) sh num quo nb S = Some (num', q', nb') \<and>
      length num' = N \<and> length q' = N \<and> has_bits (limbs num') nb' \<and> limbs num' < 2 ^ (64 * k) \<and> limbs q' = Q \<and> limbs num' div 2 ^ S = R"
    and "\<And>x. length x = N \<Longrightarrow> \<exists>r. shr x S = Some r \<and> length r = k \<and> limbs r = limbs (take k x) div 2 ^ S"
    and "k \<le> N"
  shows "\<exists>r q. divide_aligned shl shr k db S sh num quo nb = Some (r, q) \<and> length r = N \<and> length q = N \<and> limbs q = Q \<and> limbs r = R"
proof -
  obtain num' q' nb' where l: "divide_loop shl k (db + S) sh num quo nb S = Some (num', q', nb')"
    "length num' = N" "length q' = N" "has_bits (limbs num') nb'" "limbs num' < 2 ^ (64 * k)" "limbs q' = Q" "limbs num' div 2 ^ S = R"
    using assms(1) by blast
  show ?thesis
  proof (cases "nb' = 0")
    case True
    then show ?thesis using l has_bits_zero[OF l(4)] by (auto simp: divide_aligned_def)
  next
    case False
    obtain r where r: "shr num' S = Some r" "length r = k" "limbs r = limbs (take k num') div 2 ^ S" using assms(2)[OF l(2)] by blast
    have "limbs (overwrite num' (take k num')) = limbs (take k num')" "overwrite num' (take k num') = num'"
      using overwrite_result[of "take k num'" k num'] l(2,5) assms(3) by (simp_all add: overwrite_def)
    then have "limbs (overwrite num' r) = R" "length (overwrite num' r) = N"
      using overwrite_result[OF r(2) _ l(5)] l(2,7) r(3) assms(3) by simp_all
    then show ?thesis using False l r(1) by (simp add: divide_aligned_def)
  qed
qed

lemma divide_uint_inplace_result:
  assumes "length num = N" "length den = N" "length quo = N" "0 < limbs den"
  shows "\<exists>r q. divide_uint_inplace num den quo = Some (r, q) \<and> length r = N \<and> length q = N \<and>
    limbs q = limbs num div limbs den \<and> limbs r = limbs num mod limbs den"
proof -
  have ne: "num \<noteq> []" "den \<noteq> []" "quo \<noteq> []" using assms by auto
  obtain nb where nb: "get_significant_bit_count_uint num = Some nb" "has_bits (limbs num) nb" using significant_bits[OF ne(1)] by blast
  obtain db where db: "get_significant_bit_count_uint den = Some db" "has_bits (limbs den) db" using significant_bits[OF ne(2)] by blast
  define k where "k = (nb + 64 - 1) div 64"
  have unfolded: "divide_uint_inplace num den quo =
     (if nb < db then Some (num, replicate N 0)
      else if k = 1 then
        (if den ! 0 = 0 then None
         else Some (num[0 := num ! 0 - num ! 0 div den ! 0 * den ! 0], (replicate N 0)[0 := num ! 0 div den ! 0]))
      else if N < k then None
      else case left_shift_uint den (nb - db) k of None \<Rightarrow> None
        | Some shifted \<Rightarrow> divide_aligned (\<lambda>x s. left_shift_uint x s k) (\<lambda>x s. right_shift_uint x s k)
            k db (nb - db) shifted num (replicate N 0) nb)"
    using ne(3) by (simp only: divide_uint_inplace_def Let_def nb(1) db(1) assms(3) length_replicate k_def[symmetric] prod.case option.case if_False)
  have kN: "k \<le> N" "nb \<le> 64 * k" "k = 1 \<Longrightarrow> limbs num < 2 ^ 64"
    using word_count[OF nb(2)] limbs_bound[of num] assms(1) by (simp_all add: k_def)
  consider "nb < db" | "db \<le> nb" "k = 1" | "db \<le> nb" "k \<noteq> 1" by fastforce
  then show ?thesis
  proof cases
    case 1
    then have "limbs num < limbs den" using has_bits_less[OF nb(2) db(2)] by simp
    then show ?thesis using 1 unfolded assms(1) by (simp add: div_pos_pos_trivial mod_pos_pos_trivial)
  next
    case 2
    have l: "limbs num < 2 ^ 64" "limbs den < 2 ^ 64"
    proof -
      show "limbs num < 2 ^ 64" using kN(3) 2 by simp
      have "(2 :: int) ^ db \<le> 2 ^ 64" using 2 kN(2) by (intro power_increasing) simp_all
      then show "limbs den < 2 ^ 64" using db(2) by (simp add: has_bits_def)
    qed
    have "den ! 0 \<noteq> 0" using one_limb(1)[OF l(2) ne(2)] assms(4) by auto
    moreover have "limbs ((replicate N (0 :: u64))[0 := v]) = uint v" for v
      by (rule one_limb(2)) (use assms(3) ne(3) in auto)
    ultimately show ?thesis
      using 2 unfolded one_limb[OF l(1) ne(1)] one_limb(1)[OF l(2) ne(2)] assms(1) one_limb_division by simp
  next
    case 3
    have d0: "0 < db" using has_bits_zero[OF db(2)] assms(4) by simp
    then have ok: "0 < k \<and> k \<le> N" and s: "nb - db < 64 * k" using 3 kN by auto
    have "limbs den * 2 ^ (nb - db) < 2 ^ nb" using has_bits_shift[OF db(2), of "nb - db"] 3(1) assms(4) by (simp add: has_bits_def)
    also have "\<dots> \<le> 2 ^ (64 * k)" using kN(2) by (intro power_increasing) simp_all
    finally obtain sh where sh: "left_shift_uint den (nb - db) k = Some sh" "length sh = k" "limbs sh = limbs den * 2 ^ (nb - db)"
      using uint_shift.shl_exact[OF ok _ s, of den] assms(2) by blast
    have "limbs num < 2 ^ nb" using nb(2) by (simp add: has_bits_def)
    also have "\<dots> \<le> 2 ^ (64 * k)" using kN(2) by (intro power_increasing) simp_all
    finally have nk: "limbs num < 2 ^ (64 * k)" .
    have shr: "\<exists>r. right_shift_uint x (nb - db) k = Some r \<and> length r = k \<and> limbs r = limbs (take k x) div 2 ^ (nb - db)"
      if "length x = N" for x using right_shift_uint_exists[OF ok s that] .
    show ?thesis
      using aligned_result[where shr = "\<lambda>x s. right_shift_uint x s k",
          OF uint_shift.divide_core[OF ok assms(1) nk nb(2) db(2) assms(4) 3(1) kN(2) sh(2,3)] shr] ok
        unfolded sh(1) 3 by (simp add: not_less)
  qed
qed

lemma divide_uint_result:
  assumes "n \<le> length num" "length den = n" "length quo = n" "0 < limbs den"
  shows "\<exists>r q. divide_uint num den quo n = Some (r, q) \<and> length r = n \<and> length q = n \<and>
    limbs q = limbs (take n num) div limbs den \<and> limbs r = limbs (take n num) mod limbs den"
  using divide_uint_inplace_result[of "take n num" n den quo] assms by (simp add: divide_uint_def)

lemma divide192_unfold:
  fixes d :: u64 and nb :: nat
  assumes "get_significant_bit_count_uint num = Some nb"
  defines "db \<equiv> get_significant_bit_count d" and "k \<equiv> (nb + 64 - 1) div 64"
  shows "divide_uint192_uint64_inplace num d =
     (if nb < db then Some (num, [0, 0, 0])
      else if k = 1 then (if d = 0 then None else Some (num[0 := num ! 0 - num ! 0 div d * d], [0, 0, 0][0 := num ! 0 div d]))
      else case shl192 ((replicate k 0)[0 := d]) (nb - db) of None \<Rightarrow> None
        | Some shifted \<Rightarrow> divide_aligned shl192 shr192 k db (nb - db) shifted num [0, 0, 0] nb)"
  by (simp only: divide_uint192_uint64_inplace_def Let_def assms(1) k_def db_def option.case)

lemma divide_uint192_uint64_inplace_result:
  assumes "length num = 3" "0 < d" "limbs num < 2 ^ 64 \<or> 2 ^ 128 \<le> limbs num"
  shows "\<exists>r q. divide_uint192_uint64_inplace num d = Some (r, q) \<and> length r = 3 \<and> length q = 3 \<and>
    limbs q = limbs num div uint d \<and> limbs r = limbs num mod uint d"
proof -
  have ne: "num \<noteq> []" using assms(1) by auto
  obtain nb where nb: "get_significant_bit_count_uint num = Some nb" "has_bits (limbs num) nb" using significant_bits[OF ne] by blast
  define db where "db = get_significant_bit_count d"
  have db: "has_bits (uint d) db" unfolding db_def by (rule significant_bits_word)
  have d: "0 < uint d" "d \<noteq> 0" using assms(2) by (auto simp: word_less_def)
  define k where "k = (nb + 64 - 1) div 64"
  note unfolded = divide192_unfold[OF nb(1), of d, folded db_def k_def]
  have kN: "k \<le> 3" "nb \<le> 64 * k" "k = 1 \<Longrightarrow> limbs num < 2 ^ 64"
    using word_count[OF nb(2)] limbs_bound[of num] assms(1) by (simp_all add: k_def)
  have d0: "0 < db" using has_bits_zero[OF db] d by simp
  consider "nb < db" | "db \<le> nb" "k = 1" | "db \<le> nb" "k \<noteq> 1" by fastforce
  then show ?thesis
  proof cases
    case 1
    then have "limbs num < uint d" using has_bits_less[OF nb(2) db] by simp
    then show ?thesis using 1 unfolded assms(1) by (simp add: div_pos_pos_trivial mod_pos_pos_trivial)
  next
    case 2
    have "limbs num < 2 ^ 64" using kN(3) 2 by simp
    then show ?thesis using 2 unfolded one_limb[OF _ ne] assms(1) d one_limb_division by simp
  next
    case 3
    have "0 < nb" using 3 d0 by simp
    have "k = 3"
    proof -
      have "k \<noteq> 0" using 3 kN(2) d0 by (intro notI) simp
      moreover have "k \<noteq> 2"
      proof
        assume "k = 2"
        then have "nb \<le> 128" "64 < nb" using words_for_bits[of nb] unfolding k_def by linarith+
        then have "(2 :: int) ^ nb \<le> 2 ^ 128" "(2 :: int) ^ 64 \<le> 2 ^ (nb - 1)" by (auto intro: power_increasing simp del: power_numeral)
        then show False using nb(2) assms(3) \<open>0 < nb\<close> unfolding has_bits_def by linarith
      qed
      ultimately show ?thesis using 3(2) kN(1) by linarith
    qed
    then have k: "k = 3" .
    have s: "nb - db < 64 * 3" "nb \<le> 64 * 3" using kN k d0 by auto
    let ?d = "(replicate k (0 :: u64))[0 := d]"
    have l: "length ?d = 3" "limbs ?d = uint d" using k by (simp_all add: numeral_3_eq_3)
    have "uint d * 2 ^ (nb - db) < 2 ^ nb" using has_bits_shift[OF db, of "nb - db"] 3(1) d by (simp add: has_bits_def)
    also have "\<dots> \<le> 2 ^ (64 * 3)" using s(2) by (intro power_increasing) simp_all
    finally obtain sh where sh: "shl192 ?d (nb - db) = Some sh" "length sh = 3" "limbs sh = uint d * 2 ^ (nb - db)"
      using shift192.shl_exact[of 3 3 ?d "nb - db"] l s(1) by auto
    have ok: "(3 :: nat) = 3 \<and> (3 :: nat) = 3" by simp
    have "limbs num < 2 ^ (64 * 3)" using limbs_bound[of num] assms(1) by simp
    note core = shift192.divide_core[OF ok assms(1) this nb(2) db d(1) 3(1) s(2) sh(2,3)]
    have shr: "\<exists>r. shr192 x (nb - db) = Some r \<and> length r = 3 \<and> limbs r = limbs (take 3 x) div 2 ^ (nb - db)" if "length x = 3" for x
      using shr192_eq[OF that] right_shift_uint_exists[of 3 3 "nb - db" x] s(1) that by simp
    have "replicate 3 0 = [0, 0, 0 :: u64]" by (simp add: numeral_3_eq_3)
    then show ?thesis
      using aligned_result[where shr = shr192, OF core shr order_refl] unfolded sh(1) 3 k by (simp add: not_less)
  qed
qed

text \<open>Between one and two words the copy of the denominator has two words, and the three-word shift
  leaves it.\<close>

lemma divide_uint192_uint64_inplace_two_words:
  assumes "length num = 3" "2 ^ 64 \<le> limbs num" "limbs num < 2 ^ 128"
  shows "divide_uint192_uint64_inplace num d = None"
proof -
  have ne: "num \<noteq> []" using assms(1) by auto
  obtain nb where nb: "get_significant_bit_count_uint num = Some nb" "has_bits (limbs num) nb" using significant_bits[OF ne] by blast
  define db where "db = get_significant_bit_count d"
  have db: "has_bits (uint d) db" unfolding db_def by (rule significant_bits_word)
  have "\<not> nb < db" using has_bits_less[OF nb(2) db] assms(2) uint64_lt[of d] by auto
  moreover have "(nb + 64 - 1) div 64 = 2"
  proof -
    have "(nb + 64 - 1) div 64 \<le> 2" using word_count(3)[OF nb(2), of 2] assms(3) by simp
    moreover have "\<not> (nb + 64 - 1) div 64 \<le> 1"
    proof
      assume "(nb + 64 - 1) div 64 \<le> 1"
      then have "nb \<le> 64" using words_for_bits[of nb] by linarith
      then have "(2 :: int) ^ nb \<le> 2 ^ 64" by (intro power_increasing) simp_all
      then show False using nb(2) assms(2) by (simp add: has_bits_def)
    qed
    ultimately show ?thesis by linarith
  qed
  ultimately show ?thesis
    using divide192_unfold[OF nb(1), of d, folded db_def] by (simp add: shl192_def numeral_2_eq_2)
qed

subsection \<open>Properties\<close>

text \<open>
  C40: The bit-wise long division ends for every non-zero divisor and returns quotient and remainder.
\<close>

theorem long_division_correct:
  assumes "length num = n" "length den = n" "length quo = n" "0 < limbs den"
  shows "\<exists>r q. divide_uint_inplace num den quo = Some (r, q) \<and>
    limbs q = limbs num div limbs den \<and> limbs r = limbs num mod limbs den"
  using divide_uint_inplace_result[OF assms] by blast

theorem long_division_correct_witness:
  "\<exists>r q. divide_uint_inplace [5, 0, 9] [3, 1, 0] [0, 0, 0] = Some (r, q) \<and>
    limbs q = (5 + 2 ^ 128 * 9) div (3 + 2 ^ 64) \<and> limbs r = (5 + 2 ^ 128 * 9) mod (3 + 2 ^ 64)"
  using long_division_correct[of "[5, 0, 9]" 3 "[3, 1, 0]" "[0, 0, 0]"] by simp

text \<open>
  Dividing a three-word number of exactly two significant words by one word writes outside the copy
  of the divisor, which has as many words as the numerator has significant ones.
\<close>

theorem two_word_numerator_leaves_buffer:
  assumes "length num = 3" "2 ^ 64 \<le> limbs num" "limbs num < 2 ^ 128"
  shows "divide_uint192_uint64_inplace num d = None"
  by (rule divide_uint192_uint64_inplace_two_words[OF assms])

theorem two_word_numerator_leaves_buffer_witness: "divide_uint192_uint64_inplace [0, 1, 0] 3 = None"
  by (rule two_word_numerator_leaves_buffer) simp_all

end
