(* ===== verification/Modulus_Setup.thy ===== *)
theory Modulus_Setup
  imports Limb_Div
begin

unbundle bit_operations_syntax

text \<open>
  Building a modulus: \<open>Modulus::set_value\<close> of \<open>src/encryption/modulus.cu\<close> with its Barrett constants, the
  primality test of \<open>src/encryption/utils/uint_small_mod.h\<close> and the product of the moduli. The numbers
  \<open>rand()\<close> returns are an argument: \<open>rands i\<close> is used in round \<open>i\<close>.
\<close>

definition IS_PRIME_TEST_COUNT :: nat where "IS_PRIME_TEST_COUNT = 40"

partial_function (option) halve_loop :: "u64 \<Rightarrow> nat \<Rightarrow> (u64 \<times> nat) option" where
  "halve_loop d r = (if d AND 1 = 0 then halve_loop (drop_bit 1 d) (r + 1) else Some (d, r))"

declare halve_loop.simps [code]

function square_loop :: "modulus \<Rightarrow> nat \<Rightarrow> u64 \<Rightarrow> nat \<Rightarrow> u64" where
  "square_loop m r x counter =
     (let x = multiply_uint64_mod x x m; counter = counter + 1 in
      if x = mod_value m - 1 \<or> r - 1 \<le> counter then x else square_loop m r x counter)"
  by pat_completeness auto
termination by (relation "measure (\<lambda>(m, r, x, c). r - c)") auto

declare square_loop.simps [simp del]

definition test_base :: "(nat \<Rightarrow> u64) \<Rightarrow> u64 \<Rightarrow> nat \<Rightarrow> u64" where
  "test_base rands v i = (if i = 0 then 2 else rands i mod (v - 3) + 3)"

definition prime_round :: "(nat \<Rightarrow> u64) \<Rightarrow> modulus \<Rightarrow> u64 \<Rightarrow> nat \<Rightarrow> nat \<Rightarrow> bool" where
  "prime_round rands m d r i =
     (let v = mod_value m; x = exponentiate_uint64_mod (test_base rands v i) d m in
      if x = 1 \<or> x = v - 1 then True else square_loop m r x 0 = v - 1)"

definition is_prime :: "(nat \<Rightarrow> u64) \<Rightarrow> modulus \<Rightarrow> bool option" where
  "is_prime rands m =
     (let v = mod_value m in
      if v < 2 then Some False
      else if v = 2 then Some True else if v mod 2 = 0 then Some False
      else if v = 3 then Some True else if v mod 3 = 0 then Some False
      else if v = 5 then Some True else if v mod 5 = 0 then Some False
      else if v = 7 then Some True else if v mod 7 = 0 then Some False
      else if v = 11 then Some True else if v mod 11 = 0 then Some False
      else if v = 13 then Some True else if v mod 13 = 0 then Some False
      else case halve_loop (v - 1) 0 of
          None \<Rightarrow> None
        | Some (d, r) \<Rightarrow> if r = 0 then Some False else Some (list_all (prime_round rands m d r) [0..<IS_PRIME_TEST_COUNT]))"

definition set_value :: "(nat \<Rightarrow> u64) \<Rightarrow> u64 \<Rightarrow> (error + modulus) option" where
  "set_value rands v =
     (if v = 0 then Some (Inr \<lparr>mod_value = 0, ratio0 = 0, ratio1 = 0, ratio2 = 0, mod_bit_count = 0, mod_is_prime = False\<rparr>)
      else if drop_bit HE_MOD_BIT_COUNT_MAX v \<noteq> 0 \<or> v = 1 then Some (Inl (InvalidArgument ''[Modulus::set_value] Value can be at most 61-bit and cannot be 1.''))
      else case divide_uint192_uint64_inplace [0, 0, 1] v of
          None \<Rightarrow> None
        | Some (numerator, quo) \<Rightarrow>
            let m = \<lparr>mod_value = v, ratio0 = quo ! 0, ratio1 = quo ! 1, ratio2 = numerator ! 0,
                  mod_bit_count = get_significant_bit_count v, mod_is_prime = False\<rparr>
            in map_option (\<lambda>p. Inr (m\<lparr>mod_is_prime := p\<rparr>)) (is_prime rands m))"

definition multiply_many_step :: "u64 list \<Rightarrow> nat \<Rightarrow> u64 list \<Rightarrow> u64 list" where
  "multiply_many_step operands i result = overwrite result (take (i + 1) (multiply_uint_uint64 result (operands ! i) (length operands)))"

definition multiply_many_uint64 :: "u64 list \<Rightarrow> u64 list \<Rightarrow> u64 list option" where
  "multiply_many_uint64 operands result =
     (if operands = [] then Some result
      else if length result < length operands then None
      else Some (fold (multiply_many_step operands) [1..<length operands] ((replicate (length result) 0)[0 := operands ! 0])))"

subsection \<open>Fermat's little theorem\<close>

definition prime_number :: "int \<Rightarrow> bool" where
  "prime_number p \<longleftrightarrow> 1 < p \<and> (\<forall>d. d dvd p \<longrightarrow> 0 < d \<longrightarrow> d = 1 \<or> d = p)"

lemma prime_coprime: "prime_number p \<Longrightarrow> \<not> p dvd a \<Longrightarrow> coprime p a"
proof -
  assume p: "prime_number p" and a: "\<not> p dvd a"
  have "gcd p a dvd p" "0 < gcd p a" using p by (auto simp: prime_number_def)
  then have "gcd p a = 1 \<or> gcd p a = p" using p by (auto simp: prime_number_def)
  then show ?thesis using a by (metis coprime_iff_gcd_eq_1 gcd_dvd2)
qed

lemma prime_dvd_mult: "prime_number p \<Longrightarrow> p dvd a * b \<Longrightarrow> p dvd a \<or> p dvd b" for a b :: int
  using prime_coprime[of p a] coprime_dvd_mult_right_iff[of p a b] by blast

lemma prime_dvd_binomial:
  assumes "prime_number (int p)" "0 < k" "k < p"
  shows "int p dvd int (p choose k)"
proof -
  obtain n j where p: "p = Suc n" "k = Suc j" using assms by (metis gr0_implies_Suc less_trans)
  have "k * (p choose k) = p * (n choose j)" using Suc_times_binomial_eq[of n j] unfolding p by simp
  then have "int p dvd int k * int (p choose k)" by (metis dvd_triv_left of_nat_mult)
  moreover have "\<not> int p dvd int k" using assms(2,3) by (simp add: int_dvd_int_iff nat_dvd_not_less)
  ultimately show ?thesis using prime_dvd_mult[OF assms(1)] by blast
qed

lemma fermat_nat:
  assumes "prime_number (int p)"
  shows "int p dvd int a ^ p - int a"
proof (induction a)
  case 0
  have "0 < p" using assms by (auto simp: prime_number_def)
  then show ?case by (simp add: zero_power)
next
  case (Suc a)
  have p: "0 < p" using assms by (auto simp: prime_number_def)
  have "(int a + 1) ^ p = (\<Sum>k\<le>p. int (p choose k) * int a ^ k)"
    using binomial_ring[of "int a" 1 p] by simp
  also have "\<dots> = 1 + (\<Sum>k=1..<p. int (p choose k) * int a ^ k) + int a ^ p"
  proof -
    have "{..p} = insert 0 (insert p {1..<p})" using p by auto
    then show ?thesis using p by simp
  qed
  finally have e: "(int a + 1) ^ p - (int a + 1) = (int a ^ p - int a) + (\<Sum>k=1..<p. int (p choose k) * int a ^ k)" by simp
  have "int p dvd (\<Sum>k=1..<p. int (p choose k) * int a ^ k)"
    by (intro dvd_sum dvd_mult2 prime_dvd_binomial[OF assms]) simp_all
  then have "int p dvd (int a + 1) ^ p - (int a + 1)" unfolding e by (rule dvd_add[OF Suc])
  then show ?case by (simp add: add.commute)
qed

lemma fermat:
  assumes "prime_number p" "0 < a" "\<not> p dvd a"
  shows "a ^ nat (p - 1) mod p = 1"
proof -
  have p: "1 < p" using assms(1) by (simp add: prime_number_def)
  have "int (nat p) dvd int (nat a) ^ nat p - int (nat a)" by (rule fermat_nat) (use assms(1) p in simp)
  then have "p dvd a ^ nat p - a" using p assms(2) by simp
  moreover have "nat p = Suc (nat (p - 1))" using p by simp
  ultimately have "p dvd a * (a ^ nat (p - 1) - 1)" by (simp add: algebra_simps)
  then have "p dvd a ^ nat (p - 1) - 1" using prime_dvd_mult[OF assms(1)] assms(3) by blast
  then have "a ^ nat (p - 1) mod p = 1 mod p" by (simp add: mod_eq_dvd_iff)
  then show ?thesis using p by simp
qed

lemma prime_square_root:
  assumes "prime_number p" "x * x mod p = 1" "0 \<le> x" "x < p"
  shows "x = 1 \<or> x = p - 1"
proof -
  have p: "1 < p" using assms(1) by (simp add: prime_number_def)
  then have "x * x mod p = 1 mod p" using assms(2) by simp
  then have "p dvd x * x - 1" by (simp add: mod_eq_dvd_iff)
  then have "p dvd (x - 1) * (x + 1)" by (simp add: algebra_simps)
  then have "p dvd x - 1 \<or> p dvd x + 1" using prime_dvd_mult[OF assms(1)] by blast
  then show ?thesis
  proof
    assume "p dvd x - 1"
    moreover have "x = 0 \<or> x = 1 \<or> 0 < x - 1" using assms(3) by linarith
    moreover have "\<not> p dvd 0 - 1" using p by auto
    ultimately show ?thesis using assms(4) zdvd_not_zless[of "x - 1" p] by auto
  next
    assume "p dvd x + 1"
    then show ?thesis using assms(3,4) zdvd_imp_le[of p "x + 1"] by auto
  qed
qed

subsection \<open>The primality test accepts every prime\<close>

lemma halve_loop_result:
  "d \<noteq> 0 \<Longrightarrow> \<exists>d' j. halve_loop d r = Some (d', r + j) \<and> uint d = 2 ^ j * uint d' \<and> odd (uint d')"
proof (induction "unat d" arbitrary: d r rule: less_induct)
  case less
  show ?case
  proof (cases "d AND 1 = 0")
    case True
    then have e: "even (uint d)" using and_one_gt_zero[of d] by simp
    have h: "uint (drop_bit 1 d) = uint d div 2" using uint_shr[of 1 d] by simp
    then have u: "uint d = 2 * uint (drop_bit 1 d)" using e by simp
    then have nz: "drop_bit 1 d \<noteq> 0" using less.prems by (auto simp: uint_0_iff)
    obtain d' j where "halve_loop (drop_bit 1 d) (r + 1) = Some (d', r + 1 + j)" "uint (drop_bit 1 d) = 2 ^ j * uint d'" "odd (uint d')"
      using less.hyps[OF drop_bit_less[OF nz] nz, of "r + 1"] by blast
    then have "halve_loop d r = Some (d', r + Suc j)" "uint d = 2 ^ Suc j * uint d'" "odd (uint d')"
      using True u by (simp_all add: halve_loop.simps[of d])
    then show ?thesis by blast
  next
    case False
    then have "odd (uint d)" using and_one_gt_zero[of d] by (simp add: word_neq_0_conv)
    then show ?thesis using False by (intro exI[of _ d] exI[of _ 0]) (simp add: halve_loop.simps[of d])
  qed
qed

lemma uint_minus_one: "0 < uint v \<Longrightarrow> uint (v - 1) = uint v - 1" for v :: u64
  using uint_sub_no_borrow[of 1 v] by (simp add: word_le_def)

lemma square_root_residue:
  assumes "wf_modulus m" "prime_number (uint (mod_value m))" "residue m z" "uint z * uint z mod uint (mod_value m) = 1"
  shows "z = 1 \<or> z = mod_value m - 1"
proof -
  have "uint z = 1 \<or> uint z = uint (mod_value m) - 1"
    by (rule prime_square_root[OF assms(2,4)]) (use assms(3) in \<open>simp_all add: residue_def\<close>)
  moreover have "uint (mod_value m - 1) = uint (mod_value m) - 1"
    by (rule uint_minus_one[OF wf_modulusD(2)[OF assms(1)]])
  ultimately show ?thesis by (metis uint_1 word_uint_eqI)
qed

lemma square_loop_prime:
  assumes "wf_modulus m" "prime_number (uint (mod_value m))"
  shows "residue m x \<Longrightarrow> x \<noteq> 1 \<Longrightarrow> x \<noteq> mod_value m - 1 \<Longrightarrow> c < r \<Longrightarrow>
    uint x ^ 2 ^ (r - c) mod uint (mod_value m) = 1 \<Longrightarrow> square_loop m r x c = mod_value m - 1"
proof (induction "r - c" arbitrary: x c rule: less_induct)
  case less
  let ?v = "uint (mod_value m)" and ?y = "multiply_uint64_mod x x m"
  have y: "uint ?y = uint x * uint x mod ?v" by (rule multiply_uint64_mod_correct[OF assms(1)])
  have ry: "residue m ?y" using y wf_modulusD(2)[OF assms(1)] by (simp add: residue_def)
  have ne: "uint ?y \<noteq> 1" using square_root_residue[OF assms less.prems(1)] less.prems(2,3) y by auto
  have p: "uint ?y ^ 2 ^ (r - c - 1) mod ?v = 1"
  proof -
    have "r - c = Suc (r - c - 1)" using less.prems(4) by simp
    then have "uint x ^ 2 ^ (r - c) = (uint x * uint x) ^ 2 ^ (r - c - 1)"
      by (metis power_Suc power_mult power2_eq_square)
    then show ?thesis using less.prems(5) unfolding y power_mod by simp
  qed
  show ?case
  proof (cases "?y = mod_value m - 1")
    case True
    then show ?thesis by (simp add: square_loop.simps[of m r x c] Let_def)
  next
    case False
    have "\<not> r - 1 \<le> c + 1"
    proof
      assume "r - 1 \<le> c + 1"
      then have "r - c - 1 = 0 \<or> r - c - 1 = 1" by linarith
      then show False
      proof
        assume "r - c - 1 = 0"
        then show False using p ne ry by (simp add: residue_mod)
      next
        assume "r - c - 1 = 1"
        then have "uint ?y * uint ?y mod ?v = 1" using p by (simp add: power2_eq_square)
        then show False using square_root_residue[OF assms ry] ne False by auto
      qed
    qed
    then have "square_loop m r x c = square_loop m r ?y (c + 1)"
      using False by (simp add: square_loop.simps[of m r x c] Let_def)
    also have "\<dots> = mod_value m - 1"
      by (rule less.hyps) (use ry ne False p less.prems(4) \<open>\<not> r - 1 \<le> c + 1\<close> in auto)
    finally show ?thesis .
  qed
qed

lemma prime_round_prime:
  assumes "wf_modulus m" "prime_number (uint (mod_value m))" "13 < uint (mod_value m)"
    and "uint (mod_value m) - 1 = 2 ^ r * uint d" "0 < r"
  shows "prime_round rands m d r i"
proof -
  let ?v = "uint (mod_value m)" and ?a = "test_base rands (mod_value m) i"
  let ?x = "exponentiate_uint64_mod ?a d m"
  have v3: "uint (mod_value m - 3) = ?v - 3"
    using uint_sub_no_borrow[of 3 "mod_value m"] assms(3) by (simp add: word_le_def)
  have a: "0 < uint ?a" "uint ?a < ?v"
  proof -
    have "uint (rands i mod (mod_value m - 3)) < ?v - 3" using assms(3) v3 by (simp add: uint_mod)
    moreover have "uint (rands i mod (mod_value m - 3) + 3) = uint (rands i mod (mod_value m - 3)) + 3"
      using calculation uint64_lt[of "mod_value m"] by (simp add: uint_word_ariths)
    ultimately show "0 < uint ?a" "uint ?a < ?v"
      using assms(3) unfolding test_base_def by (auto intro: add_nonneg_pos)
  qed
  have "\<not> ?v dvd uint ?a" using a by (simp add: zdvd_not_zless)
  then have f: "uint ?a ^ nat (?v - 1) mod ?v = 1" by (rule fermat[OF assms(2) a(1)])
  have x: "uint ?x = uint ?a ^ unat d mod ?v"
    using exponentiate_uint64_mod_correct[OF assms(1)] a(2) by (simp add: residue_def)
  have "nat (?v - 1) = unat d * 2 ^ r" unfolding assms(4) by (simp add: nat_mult_distrib nat_power_eq)
  then have "uint ?x ^ 2 ^ r mod ?v = 1" using f unfolding x power_mod by (simp add: power_mult)
  moreover have "residue m ?x" using x assms(3) by (simp add: residue_def)
  ultimately show ?thesis
    using square_loop_prime[OF assms(1,2), of ?x 0 r] assms(5) by (simp add: prime_round_def Let_def)
qed

lemma is_prime_prime:
  assumes "wf_modulus m" "prime_number (uint (mod_value m))"
  shows "is_prime rands m = Some True"
proof -
  let ?v = "uint (mod_value m)"
  have small: "(mod_value m mod q = 0 \<longrightarrow> mod_value m = q)" if "1 < uint q" for q
  proof
    assume "mod_value m mod q = 0"
    then have "uint q dvd ?v" by (metis uint_mod unsigned_0 dvd_eq_mod_eq_0)
    then have "uint q = ?v" using assms(2) that by (auto simp: prime_number_def)
    then show "mod_value m = q" by (simp add: word_uint_eqI)
  qed
  have w: "mod_value m = word_of_int ?v" by simp
  have v1: "1 < ?v" by (rule wf_modulusD(1)[OF assms(1)])
  note q = small[of 2] small[of 3] small[of 5] small[of 7] small[of 11] small[of 13]
  show ?thesis
  proof (cases "?v \<le> 13")
    case True
    have "k \<in> {2, 3, 4, 5, 6, 7, 8, 9, 10, 11, 12, 13}" if "k \<le> 13" "1 < k" for k :: int
      using that unfolding insert_iff empty_iff by presburger
    then have "?v \<in> {2, 3, 4, 5, 6, 7, 8, 9, 10, 11, 12, 13}" using True v1 by blast
    then have "mod_value m \<in> {2, 3, 4, 5, 6, 7, 8, 9, 10, 11, 12, 13}" using w by (elim insertE) simp_all
    then show ?thesis using q by (elim insertE) (simp_all add: is_prime_def)
  next
    case False
    then have v: "13 < ?v" by simp
    have e: "uint (mod_value m - 1) = ?v - 1" by (rule uint_minus_one) (use v in simp)
    then have nz: "mod_value m - 1 \<noteq> 0" using v by (metis unsigned_0 diff_eq_eq add_0 less_irrefl one_less_numeral_iff semiring_norm(77) less_trans)
    obtain d j where h: "halve_loop (mod_value m - 1) 0 = Some (d, j)" "?v - 1 = 2 ^ j * uint d" "odd (uint d)"
      using halve_loop_result[OF nz, of 0] e by auto
    have ne: "mod_value m \<noteq> k" if "uint k \<le> 13" for k using v that by auto
    have nd: "mod_value m mod k \<noteq> 0" if "1 < uint k" "uint k \<le> 13" for k using small[OF that(1)] ne[OF that(2)] by auto
    have "odd ?v"
    proof
      assume "even ?v"
      then have "uint (mod_value m mod 2) = 0" by (simp add: uint_mod)
      then have "mod_value m mod 2 = 0" by (simp only: uint_0_iff)
      then show False using nd[of 2] by simp
    qed
    then have "even (?v - 1)" by simp
    then have "j \<noteq> 0" using h(2,3) by (intro notI) simp
    then have "0 < j" by simp
    then have r: "list_all (prime_round rands m d j) [0..<IS_PRIME_TEST_COUNT]" "j \<noteq> 0"
      using prime_round_prime[OF assms v h(2)] by (simp_all add: list_all_iff)
    have "\<not> mod_value m < 2" using v by (simp add: word_less_def)
    then show ?thesis
      using h(1) r ne[of 2] ne[of 3] ne[of 5] ne[of 7] ne[of 11] ne[of 13] nd[of 2] nd[of 3] nd[of 5] nd[of 7] nd[of 11] nd[of 13]
      by (simp add: is_prime_def Let_def)
  qed
qed

lemma is_prime_some: "is_prime rands m \<noteq> None"
proof (cases "mod_value m < 2")
  case False
  then have "mod_value m - 1 \<noteq> 0" by auto
  then obtain d j where "halve_loop (mod_value m - 1) 0 = Some (d, j)" using halve_loop_result[of "mod_value m - 1" 0] by auto
  then show ?thesis by (simp add: is_prime_def Let_def del: not_None_eq)
qed (simp add: is_prime_def)

subsection \<open>The Barrett constants\<close>

lemma set_value_result:
  assumes "1 < uint v" "uint v < 2 ^ 61"
  shows "\<exists>m. set_value rands v = Some (Inr m) \<and> wf_modulus m \<and> mod_value m = v \<and>
    has_bits (uint v) (mod_bit_count m) \<and> (prime_number (uint v) \<longrightarrow> mod_is_prime m)"
proof -
  have v: "v \<noteq> 0" "v \<noteq> 1" "0 < v" using assms(1) by (auto simp: word_less_def)
  have "uint (drop_bit HE_MOD_BIT_COUNT_MAX v) = 0" using uint_shr[of 61 v] assms(2) by (simp add: HE_MOD_BIT_COUNT_MAX_def div_pos_pos_trivial)
  then have d: "drop_bit HE_MOD_BIT_COUNT_MAX v = 0" by (simp add: uint_0_iff)
  obtain r q where rq: "divide_uint192_uint64_inplace [0, 0, 1] v = Some (r, q)" "length r = 3" "length q = 3"
    "limbs q = 2 ^ 128 div uint v" "limbs r = 2 ^ 128 mod uint v"
    using divide_uint192_uint64_inplace_result[of "[0, 0, 1]" v] v(3) by auto
  have "limbs r < uint v" unfolding rq(5) using assms(1) by (intro pos_mod_bound) simp
  then have "limbs r < 2 ^ 64" using assms(2) by simp
  then have r: "uint (r ! 0) = 2 ^ 128 mod uint v" using one_limb(1)[of r] rq(2,5) by (cases r) simp_all
  obtain a b c where q: "q = [a, b, c]" using three_words[OF rq(3)] by blast
  have "limbs q \<le> 2 ^ 128 div 2" unfolding rq(4) using assms(1) by (intro zdiv_mono2) auto
  then have "uint a + 2 ^ 64 * uint b + 2 ^ 128 * uint c < 2 ^ 128" unfolding q by simp
  moreover have "0 \<le> uint a + 2 ^ 64 * uint b" by simp
  ultimately have "2 ^ 128 * uint c < 2 ^ 128 * 1" by linarith
  then have "uint c < 1" unfolding mult_less_cancel_left_disj by simp
  then have "uint c = 0" using uint_ge_0[of c] by linarith
  then have ab: "uint a + 2 ^ 64 * uint b = 2 ^ 128 div uint v" using rq(4) unfolding q by simp
  define m where "m = \<lparr>mod_value = v, ratio0 = a, ratio1 = b, ratio2 = r ! 0, mod_bit_count = get_significant_bit_count v, mod_is_prime = False\<rparr>"
  have wf: "wf_modulus m" "mod_value m = v" using assms r ab by (simp_all add: wf_modulus_def m_def)
  obtain p where p: "is_prime rands m = Some p" using is_prime_some by blast
  have "set_value rands v = Some (Inr (m\<lparr>mod_is_prime := p\<rparr>))"
    using v d rq(1) p q by (simp add: set_value_def m_def)
  moreover have "wf_modulus (m\<lparr>mod_is_prime := p\<rparr>)" using wf by (simp add: wf_modulus_def)
  moreover have "prime_number (uint v) \<longrightarrow> p" using is_prime_prime[OF wf(1), of rands] wf(2) p by simp
  moreover have "has_bits (uint v) (mod_bit_count m)" by (simp add: m_def significant_bits_word)
  ultimately show ?thesis using wf(2) by (intro exI[of _ "m\<lparr>mod_is_prime := p\<rparr>"]) simp
qed

lemma set_value_refused:
  assumes "uint v = 1 \<or> 2 ^ 61 \<le> uint v"
  shows "\<exists>e. set_value rands v = Some (Inl e)"
proof -
  have "drop_bit 61 v \<noteq> 0" if "2 ^ 61 \<le> uint v"
  proof
    assume "drop_bit 61 v = 0"
    with that show False using uint_shr[of 61 v] by (simp add: div_eq_0_iff)
  qed
  moreover have "uint v = 1 \<Longrightarrow> v = 1" by (simp add: word_uint_eqI)
  ultimately have "drop_bit HE_MOD_BIT_COUNT_MAX v \<noteq> 0 \<or> v = 1" using assms unfolding HE_MOD_BIT_COUNT_MAX_def by blast
  moreover have "v \<noteq> 0" using assms by auto
  ultimately show ?thesis by (simp add: set_value_def)
qed

subsection \<open>The product of the moduli\<close>

lemma multiply_many_uint64_result:
  assumes "ops \<noteq> []" "length ops \<le> length res"
  shows "\<exists>r. multiply_many_uint64 ops res = Some r \<and> length r = length res \<and> limbs r = (\<Prod>x\<leftarrow>ops. uint x)"
proof -
  let ?n = "length ops"
  define P where "P = (\<lambda>i r. length r = length res \<and> limbs r = (\<Prod>x\<leftarrow>take i ops. uint x))"
  have bound: "(\<Prod>x\<leftarrow>xs. uint x) < 2 ^ (64 * length xs) \<and> 0 \<le> (\<Prod>x\<leftarrow>xs. uint x)" if "xs \<noteq> []" for xs :: "u64 list"
    using that
  proof (induction xs rule: list_nonempty_induct)
    case (cons x xs)
    have "uint x * (\<Prod>x\<leftarrow>xs. uint x) < 2 ^ 64 * 2 ^ (64 * length xs)"
      using cons uint64_lt[of x] by (intro mult_strict_mono') simp_all
    then show ?case using cons by (simp add: power_add)
  qed (use uint64_lt in simp)
  have step: "P (Suc i) (multiply_many_step ops i r)" if "P i r" "0 < i" "i < ?n" for i r
  proof -
    let ?t = "multiply_uint_uint64 r (ops ! i) ?n" and ?p = "\<Prod>x\<leftarrow>take (Suc i) ops. uint x"
    have e: "?p = (\<Prod>x\<leftarrow>take i ops. uint x) * uint (ops ! i)" using that(3) by (simp add: take_Suc_conv_app_nth)
    have "length (take (Suc i) ops) = i + 1" "take (Suc i) ops \<noteq> []" using that(3) assms(1) by simp_all
    then have b: "?p < 2 ^ (64 * (i + 1))" "0 \<le> ?p" using bound[of "take (Suc i) ops"] by (simp_all only: not_False_eq_True simp_thms)
    have "(2 :: int) ^ (64 * (i + 1)) \<le> 2 ^ (64 * ?n)" using that(3) by (intro power_increasing) simp_all
    then have "?p < 2 ^ (64 * ?n)" using b(1) by linarith
    then have t: "limbs ?t = ?p" "length ?t = ?n"
      using multiply_uint_uint64_result[of r "ops ! i" ?n] that(1) b(2) e by (simp_all add: P_def mod_pos_pos_trivial)
    have "limbs (overwrite ?t (take (i + 1) ?t)) = limbs (take (i + 1) ?t)" "overwrite ?t (take (i + 1) ?t) = ?t"
      using overwrite_result[of "take (i + 1) ?t" "i + 1" ?t] b(1) t that(3) by (simp_all add: overwrite_def)
    then have tt: "limbs (take (i + 1) ?t) = ?p" "length (take (i + 1) ?t) = i + 1" using t that(3) by simp_all
    have "(\<Prod>x\<leftarrow>take i ops. uint x) < 2 ^ (64 * i)" using bound[of "take i ops"] that(2,3) assms(1) by simp
    moreover have "(2 :: int) ^ (64 * i) \<le> 2 ^ (64 * (i + 1))" by (intro power_increasing) simp_all
    ultimately have "(\<Prod>x\<leftarrow>take i ops. uint x) < 2 ^ (64 * (i + 1))" by linarith
    then have "limbs r < 2 ^ (64 * (i + 1))" using that(1) by (simp only: P_def)
    then show ?thesis
      using overwrite_result[OF tt(2), of r] tt(1) that(1,3) assms(2) by (simp add: P_def multiply_many_step_def)
  qed
  have "limbs ((replicate (length res) 0)[0 := ops ! 0]) = uint (ops ! 0)"
    by (rule one_limb(2)) (use assms in auto)
  then have "P 1 ((replicate (length res) 0)[0 := ops ! 0])"
    using assms(1) by (cases ops) (simp_all add: P_def)
  moreover have "P 1 r \<Longrightarrow> 1 \<le> k \<Longrightarrow> k \<le> ?n \<Longrightarrow> P k (fold (multiply_many_step ops) [1..<k] r)" for k r
  proof (induction k)
    case (Suc k)
    then show ?case using step[of k] by (cases "k = 0") (simp_all add: P_def)
  qed simp
  ultimately have "P ?n (fold (multiply_many_step ops) [1..<?n] ((replicate (length res) 0)[0 := ops ! 0]))"
    using assms(1) by (simp add: Suc_le_eq)
  then show ?thesis using assms by (simp add: multiply_many_uint64_def P_def)
qed

subsection \<open>Properties\<close>

text \<open>
  C38: Which values build a modulus. Every value from 2 to 61 bits does: its Barrett constants are the
  quotient and the remainder of $2^{128}$ by the value and its bit count is exact, whatever numbers
  the primality test draws; it is marked prime when it is. Value 0, the default, is accepted as
  the empty modulus with all fields zero. Value 1 and values of more than 61 bits are refused.
\<close>

theorem set_value_well_formed:
  "if uint v = 0 then set_value rands v =
      Some (Inr \<lparr>mod_value = 0, ratio0 = 0, ratio1 = 0, ratio2 = 0, mod_bit_count = 0, mod_is_prime = False\<rparr>)
    else if 1 < uint v \<and> uint v < 2 ^ 61
    then \<exists>m. set_value rands v = Some (Inr m) \<and> wf_modulus m \<and> mod_value m = v \<and> has_bits (uint v) (mod_bit_count m) \<and>
      (prime_number (uint v) \<longrightarrow> mod_is_prime m)
    else \<exists>e. set_value rands v = Some (Inl e)"
proof -
  have "v = 0" if "uint v = 0" using that by (simp add: uint_0_iff)
  then have "set_value rands v =
      Some (Inr \<lparr>mod_value = 0, ratio0 = 0, ratio1 = 0, ratio2 = 0, mod_bit_count = 0, mod_is_prime = False\<rparr>)" if "uint v = 0"
    using that by (simp add: set_value_def)
  moreover have "uint v = 1 \<or> 2 ^ 61 \<le> uint v" if "uint v \<noteq> 0" "\<not> (1 < uint v \<and> uint v < 2 ^ 61)"
    using that uint_ge_0[of v] by linarith
  ultimately show ?thesis using set_value_result[of v rands] set_value_refused[of v rands] by (auto split: if_splits)
qed

theorem set_value_well_formed_witness:
  "(\<exists>m. set_value (\<lambda>_. 7) 65537 = Some (Inr m) \<and> wf_modulus m \<and> mod_value m = 65537) \<and>
    (\<exists>e. set_value (\<lambda>_. 7) (2 ^ 61) = Some (Inl e)) \<and> (\<exists>m. set_value (\<lambda>_. 7) 0 = Some (Inr m) \<and> mod_value m = 0)"
  using set_value_well_formed[of 65537 "\<lambda>_. 7"] set_value_well_formed[of "2 ^ 61" "\<lambda>_. 7"] set_value_well_formed[of 0 "\<lambda>_. 7"] by auto

text \<open>
  C39: The Miller-Rabin test never rejects a prime, for every sequence of random bases.
\<close>

theorem is_prime_accepts_primes:
  assumes "wf_modulus m" "prime_number (uint (mod_value m))"
  shows "is_prime rands m = Some True"
  by (rule is_prime_prime[OF assms])

theorem is_prime_accepts_primes_witness: "is_prime (\<lambda>_. 123456) (sample_modulus 17) = Some True"
proof -
  have "\<forall>d \<in> set [1..17]. d dvd (17 :: int) \<longrightarrow> d = 1 \<or> d = 17" by (simp add: upto_rec1)
  moreover have "d \<in> set [1..17]" if "d dvd 17" "0 < d" for d :: int using zdvd_imp_le[OF that(1)] that(2) by simp
  ultimately have "prime_number 17" unfolding prime_number_def by auto
  then show ?thesis using is_prime_accepts_primes[of "sample_modulus 17"] wf_sample_modulus[of 17] by simp
qed

end
