(* ===== verification/Number_Theory.thy ===== *)
theory Number_Theory
  imports Modulus_Setup
begin

unbundle bit_operations_syntax

text \<open>
  \<open>src/encryption/utils/number_theory.h\<close> and \<open>number_theory.cu\<close>: the extended Euclidean algorithm in
  64-bit arithmetic, inversion, the search for primes and for primitive roots, and
  \<open>CoeffModulus::create\<close>. The value of the \<open>i\<close>-th call to \<open>rand()\<close> is \<open>rands i\<close>. A signed overflow, a
  shift by 64 or more and a division by zero are \<open>None\<close>.
\<close>

function gcd_uint64 :: "u64 \<Rightarrow> u64 \<Rightarrow> u64" where
  "gcd_uint64 x y = (if y \<noteq> 0 then gcd_uint64 y (x mod y) else x)"
  by pat_completeness auto
termination
  by (relation "measure (\<lambda>(x, y). unat y)") (auto simp: unat_mod word_neq_0_conv unat_gt_0)

declare gcd_uint64.simps [simp del]

definition int64 :: "int \<Rightarrow> int option" where
  "int64 z = (if - (2 ^ 63) \<le> z \<and> z < 2 ^ 63 then Some z else None)"

definition int64_sub_mult :: "int \<Rightarrow> int \<Rightarrow> int \<Rightarrow> int option" where
  "int64_sub_mult x q y = (case int64 (q * y) of None \<Rightarrow> None | Some p \<Rightarrow> int64 (x - p))"

function xgcd_loop :: "u64 \<Rightarrow> u64 \<Rightarrow> int \<Rightarrow> int \<Rightarrow> int \<Rightarrow> int \<Rightarrow> (u64 \<times> int \<times> int) option" where
  "xgcd_loop a b x0 y0 x1 y1 =
     (if b \<noteq> 0 then
        let q = sint (a div b); r = a mod b in
        case int64_sub_mult x0 q x1 of
          None \<Rightarrow> None
        | Some x2 \<Rightarrow>
          (case int64_sub_mult y0 q y1 of
             None \<Rightarrow> None
           | Some y2 \<Rightarrow> xgcd_loop b r x1 y1 x2 y2)
      else Some (a, x0, y0))"
  by pat_completeness auto
termination
  by (relation "measure (\<lambda>(a, b, _). unat b)") (auto simp: unat_mod word_neq_0_conv unat_gt_0)

declare xgcd_loop.simps [simp del]

definition xgcd :: "u64 \<Rightarrow> u64 \<Rightarrow> (u64 \<times> int \<times> int) option" where
  "xgcd a b = xgcd_loop a b 1 0 0 1"

definition try_invert_uint64_mod :: "u64 \<Rightarrow> modulus \<Rightarrow> u64 option option" where
  "try_invert_uint64_mod v m =
     (if v = 0 then Some None
      else case xgcd v (mod_value m) of
          None \<Rightarrow> None
        | Some (cd, a, b) \<Rightarrow>
            if cd \<noteq> 1 then Some None
            else if a < 0 then map_option (\<lambda>s. Some (word_of_int s)) (int64 (sint (mod_value m) + a))
            else Some (Some (word_of_int a)))"

subsection \<open>Primitive roots\<close>

definition TRY_PRIMITIVE_ROOT_NUM_ROUNDS :: nat where "TRY_PRIMITIVE_ROOT_NUM_ROUNDS = 100"

definition is_primitive_root :: "u64 \<Rightarrow> u64 \<Rightarrow> modulus \<Rightarrow> bool" where
  "is_primitive_root r degree m =
     (if r = 0 then False else exponentiate_uint64_mod r (drop_bit 1 degree) m = mod_value m - 1)"

function primitive_root_loop :: "(nat \<Rightarrow> u64) \<Rightarrow> u64 \<Rightarrow> modulus \<Rightarrow> u64 \<Rightarrow> nat \<Rightarrow> u64" where
  "primitive_root_loop rands degree m size_quotient_group attempt_counter =
     (let attempt_counter' = attempt_counter + 1;
          destination = reduce m (rands attempt_counter);
          destination = exponentiate_uint64_mod destination size_quotient_group m
      in if \<not> is_primitive_root destination degree m \<and> attempt_counter' < TRY_PRIMITIVE_ROOT_NUM_ROUNDS
         then primitive_root_loop rands degree m size_quotient_group attempt_counter'
         else destination)"
  by pat_completeness auto
termination
  by (relation "measure (\<lambda>(_, _, _, _, c). TRY_PRIMITIVE_ROOT_NUM_ROUNDS - c)") auto

declare primitive_root_loop.simps [simp del]

text \<open>The outer option is the trap of a division by zero; the inner one the returned flag.\<close>

definition try_primitive_root :: "(nat \<Rightarrow> u64) \<Rightarrow> u64 \<Rightarrow> modulus \<Rightarrow> u64 option option" where
  "try_primitive_root rands degree m =
     (let size_entire_group = mod_value m - 1 in
      if degree = 0 then None else
      let size_quotient_group = size_entire_group div degree in
      if size_entire_group - size_quotient_group * degree \<noteq> 0 then Some None
      else let destination = primitive_root_loop rands degree m size_quotient_group 0
        in Some (if is_primitive_root destination degree m then Some destination else None))"

definition minimal_root_step :: "modulus \<Rightarrow> u64 \<Rightarrow> nat \<Rightarrow> u64 \<times> u64 \<Rightarrow> u64 \<times> u64" where
  "minimal_root_step m generator_sq i = (\<lambda>(current_generator, r).
     let r = (if current_generator < r then current_generator else r)
     in (multiply_uint64_mod current_generator generator_sq m, r))"

definition try_minimal_primitive_root :: "(nat \<Rightarrow> u64) \<Rightarrow> u64 \<Rightarrow> modulus \<Rightarrow> u64 option option" where
  "try_minimal_primitive_root rands degree m =
     (case try_primitive_root rands degree m of
        None \<Rightarrow> None
      | Some None \<Rightarrow> Some None
      | Some (Some r) \<Rightarrow>
          let generator_sq = multiply_uint64_mod r r m
          in Some (Some (snd (fold (minimal_root_step m generator_sq) [0..<unat ((degree + 1) div 2)] (r, r)))))"

subsection \<open>The extended Euclidean algorithm\<close>

text \<open>What holds of the six variables at the head of the loop, for inputs \<open>A\<close> and \<open>B\<close>.\<close>

definition xgcd_inv :: "int \<Rightarrow> int \<Rightarrow> int \<Rightarrow> int \<Rightarrow> int \<Rightarrow> int \<Rightarrow> int \<Rightarrow> int \<Rightarrow> bool" where
  "xgcd_inv A B a b x0 y0 x1 y1 \<longleftrightarrow> 0 < a \<and> 0 \<le> b \<and> a < 2 ^ 63 \<and> b < 2 ^ 63 \<and>
     x0 * A + y0 * B = a \<and> x1 * A + y1 * B = b \<and>
     \<bar>x1\<bar> * a + \<bar>x0\<bar> * b = B \<and> \<bar>y1\<bar> * a + \<bar>y0\<bar> * b = A \<and> x0 * x1 \<le> 0 \<and> y0 * y1 \<le> 0 \<and>
     \<bar>x0\<bar> \<le> B \<and> \<bar>y0\<bar> \<le> A \<and> gcd a b = gcd A B"

lemma abs_sub_opposite: "x * y \<le> 0 \<Longrightarrow> 0 \<le> q \<Longrightarrow> \<bar>x - q * y\<bar> = \<bar>x\<bar> + q * \<bar>y\<bar>" for x y q :: int
proof -
  assume a: "x * y \<le> 0" "0 \<le> q"
  then consider "0 \<le> x" "y \<le> 0" | "x \<le> 0" "0 \<le> y" by (auto simp: mult_le_0_iff)
  then show ?thesis
  proof cases
    case 1
    then have "q * y \<le> 0" using a(2) by (simp add: mult_nonneg_nonpos)
    then show ?thesis using 1 by (simp add: abs_of_nonpos)
  next
    case 2
    then have "0 \<le> q * y" using a(2) by simp
    then show ?thesis using 2 by simp
  qed
qed

lemma xgcd_step:
  assumes "xgcd_inv A B a b x0 y0 x1 y1" "0 < b"
  defines "q \<equiv> a div b" and "r \<equiv> a mod b"
  shows "xgcd_inv A B b r x1 y1 (x0 - q * x1) (y0 - q * y1)"
    and "\<bar>q * x1\<bar> \<le> B" "\<bar>q * y1\<bar> \<le> A" "\<bar>x0 - q * x1\<bar> \<le> B" "\<bar>y0 - q * y1\<bar> \<le> A"
proof -
  note I = assms(1)[unfolded xgcd_inv_def]
  have a: "a = q * b + r" by (simp add: q_def r_def)
  have r: "0 \<le> r" "r < b" using assms(2) by (simp_all add: r_def)
  have q: "0 \<le> q" using I assms(2) by (simp add: q_def pos_imp_zdiv_nonneg_iff)
  have x2: "\<bar>x0 - q * x1\<bar> = \<bar>x0\<bar> + q * \<bar>x1\<bar>" and y2: "\<bar>y0 - q * y1\<bar> = \<bar>y0\<bar> + q * \<bar>y1\<bar>"
    using I q by (intro abs_sub_opposite; simp)+
  have X: "(\<bar>x0\<bar> + q * \<bar>x1\<bar>) * b + \<bar>x1\<bar> * r = B" and Y: "(\<bar>y0\<bar> + q * \<bar>y1\<bar>) * b + \<bar>y1\<bar> * r = A"
    using I unfolding a by (simp_all add: algebra_simps)
  have le: "z \<le> z * b" if "0 \<le> z" for z :: int using that assms(2) by (simp add: mult_le_cancel_left1)
  have xb: "\<bar>x0\<bar> + q * \<bar>x1\<bar> \<le> B" using X le[of "\<bar>x0\<bar> + q * \<bar>x1\<bar>"] q r by simp (smt (verit) mult_nonneg_nonneg abs_ge_zero)
  have yb: "\<bar>y0\<bar> + q * \<bar>y1\<bar> \<le> A" using Y le[of "\<bar>y0\<bar> + q * \<bar>y1\<bar>"] q r by simp (smt (verit) mult_nonneg_nonneg abs_ge_zero)
  show "\<bar>x0 - q * x1\<bar> \<le> B" "\<bar>y0 - q * y1\<bar> \<le> A" using xb yb by (simp_all add: x2 y2)
  show "\<bar>q * x1\<bar> \<le> B" "\<bar>q * y1\<bar> \<le> A" using xb yb q by (simp_all add: abs_mult)
  have x1: "\<bar>x1\<bar> \<le> B" and y1: "\<bar>y1\<bar> \<le> A"
  proof -
    have "\<bar>x1\<bar> \<le> \<bar>x1\<bar> * a" "\<bar>y1\<bar> \<le> \<bar>y1\<bar> * a" "0 \<le> \<bar>x0\<bar> * b" "0 \<le> \<bar>y0\<bar> * b"
      using I by (simp_all add: mult_le_cancel_left1)
    then show "\<bar>x1\<bar> \<le> B" "\<bar>y1\<bar> \<le> A" using I by linarith+
  qed
  have s: "x1 * (x0 - q * x1) \<le> 0" "y1 * (y0 - q * y1) \<le> 0"
  proof -
    have "0 \<le> q * (x1 * x1)" "0 \<le> q * (y1 * y1)" using q by simp_all
    then show "x1 * (x0 - q * x1) \<le> 0" "y1 * (y0 - q * y1) \<le> 0" using I by (simp_all add: algebra_simps)
  qed
  have e: "(x0 - q * x1) * A + (y0 - q * y1) * B = r"
  proof -
    have "(x0 - q * x1) * A + (y0 - q * y1) * B = (x0 * A + y0 * B) - q * (x1 * A + y1 * B)" by (simp add: algebra_simps)
    then show ?thesis using I a by simp
  qed
  have g: "gcd b r = gcd A B" using I by (metis gcd.commute gcd_red_int r_def)
  show "xgcd_inv A B b r x1 y1 (x0 - q * x1) (y0 - q * y1)"
    unfolding xgcd_inv_def x2 y2 using I assms(2) r x1 y1 s e g X Y by (simp add: add.commute mult.commute) 
qed

lemma int64_within: "\<bar>z\<bar> \<le> n \<Longrightarrow> n < 2 ^ 63 \<Longrightarrow> int64 z = Some z"
  by (auto simp: int64_def)

lemma sint_small: "uint w < 2 ^ 63 \<Longrightarrow> sint w = uint w" for w :: u64
proof -
  assume "uint w < 2 ^ 63"
  then have "signed_take_bit 63 (uint w) = uint w" using uint_ge_0[of w] by (intro signed_take_bit_int_eq_self) linarith+
  then show ?thesis by (simp add: sint_uint)
qed

lemma div_le_dividend_pos: "0 \<le> a \<Longrightarrow> 0 < b \<Longrightarrow> a div b \<le> a" for a b :: int
  by (metis div_by_1 int_one_le_iff_zero_less zdiv_mono2 zero_less_one)

lemma xgcd_loop_result:
  assumes "xgcd_inv A B (uint a) (uint b) x0 y0 x1 y1" "A < 2 ^ 63" "B < 2 ^ 63"
  shows "\<exists>g x y. xgcd_loop a b x0 y0 x1 y1 = Some (g, x, y) \<and> uint g = gcd A B \<and> x * A + y * B = gcd A B \<and>
    \<bar>x\<bar> \<le> B \<and> \<bar>y\<bar> \<le> A"
  using assms(1)
proof (induction "unat b" arbitrary: a b x0 y0 x1 y1 rule: less_induct)
  case less
  note I = less.prems[unfolded xgcd_inv_def]
  show ?case
  proof (cases "b = 0")
    case True
    then have "uint a = gcd A B" using I by simp
    moreover have "xgcd_loop a b x0 y0 x1 y1 = Some (a, x0, y0)" by (simp add: True xgcd_loop.simps[of a 0])
    ultimately show ?thesis using I by auto
  next
    case False
    then have b: "0 < uint b" by (simp add: word_neq_0_conv uint_gt_0_iff)
    have dv: "uint (a div b) = uint a div uint b" by (rule uint_div)
    also have "\<dots> \<le> uint a" using b I by (intro div_le_dividend_pos) simp_all
    finally have q: "sint (a div b) = uint a div uint b" using I dv by (subst sint_small) simp_all
    note S = xgcd_step[OF less.prems b]
    have i: "int64_sub_mult x0 (sint (a div b)) x1 = Some (x0 - uint a div uint b * x1)"
      "int64_sub_mult y0 (sint (a div b)) y1 = Some (y0 - uint a div uint b * y1)"
      unfolding int64_sub_mult_def q
      using int64_within[OF S(2) assms(3)] int64_within[OF S(3) assms(2)]
        int64_within[OF S(4) assms(3)] int64_within[OF S(5) assms(2)] by simp_all
    have e: "xgcd_loop a b x0 y0 x1 y1
        = xgcd_loop b (a mod b) x1 y1 (x0 - uint a div uint b * x1) (y0 - uint a div uint b * y1)"
      using False i by (simp add: xgcd_loop.simps[of a b] Let_def)
    have "unat (a mod b) < unat b" using False by (simp add: unat_mod word_neq_0_conv unat_gt_0)
    from less.hyps[OF this] S(1) show ?thesis unfolding e uint_mod by blast
  qed
qed

lemma xgcd_result:
  assumes "0 < uint a" "uint a < 2 ^ 63" "0 < uint b" "uint b < 2 ^ 63"
  shows "\<exists>g x y. xgcd a b = Some (g, x, y) \<and> uint g = gcd (uint a) (uint b) \<and> x * uint a + y * uint b = gcd (uint a) (uint b) \<and>
    \<bar>x\<bar> \<le> uint b \<and> \<bar>y\<bar> \<le> uint a"
  unfolding xgcd_def by (rule xgcd_loop_result) (use assms in \<open>simp_all add: xgcd_inv_def\<close>)

text \<open>Inversion: an inverse, fully reduced, exactly when there is one.\<close>

lemma try_invert_result:
  assumes "wf_modulus m" "0 < uint v" "uint v < 2 ^ 63"
  shows "if coprime (uint v) (uint (mod_value m))
    then \<exists>r. try_invert_uint64_mod v m = Some (Some r) \<and> residue m r \<and> uint r * uint v mod uint (mod_value m) = 1
    else try_invert_uint64_mod v m = Some None"
proof -
  note q = wf_modulusD[OF assms(1)]
  let ?m = "uint (mod_value m)"
  have m63: "?m < 2 ^ 63" using q(3) by simp
  obtain g x y where X: "xgcd v (mod_value m) = Some (g, x, y)" "uint g = gcd (uint v) ?m"
    "x * uint v + y * ?m = gcd (uint v) ?m" "\<bar>x\<bar> \<le> ?m"
    using xgcd_result[OF assms(2,3) q(2) m63] by blast
  have v: "v \<noteq> 0" using assms(2) by auto
  have g: "g \<noteq> 1 \<longleftrightarrow> \<not> coprime (uint v) ?m"
    using X(2) by (metis coprime_iff_gcd_eq_1 uint_1 word_uint_eq_iff)
  show ?thesis
  proof (cases "coprime (uint v) ?m")
    case False
    then show ?thesis using v X(1) g by (simp add: try_invert_uint64_mod_def)
  next
    case True
    define r where "r = (if x < 0 then ?m + x else x)"
    have one: "x * uint v + y * ?m = 1" using X(3) True by (simp add: coprime_iff_gcd_eq_1)
    have xv: "x * uint v mod ?m = 1"
    proof -
      have "x * uint v = 1 + - y * ?m" using one by simp
      then show ?thesis using q(1) by (metis mod_mult_self1 mod_pos_pos_trivial zero_le_one)
    qed
    have "x \<noteq> ?m" "x \<noteq> - ?m" using xv by (auto simp: mult_minus_left)
    then have r: "0 \<le> r" "r < ?m" using X(4) by (auto simp: r_def)
    have rv: "r * uint v mod ?m = 1" using xv by (simp add: r_def distrib_right)
    have u: "uint (word_of_int r :: u64) = r" using r m63 by (simp add: uint_word_of_int)
    have "int64 (?m + x) = Some (?m + x)" if "x < 0" by (rule int64_within[of _ ?m]) (use that r m63 in \<open>simp_all add: r_def\<close>)
    then have "try_invert_uint64_mod v m = Some (Some (word_of_int r))"
      using v X(1) g True sint_small[OF m63] by (simp add: try_invert_uint64_mod_def r_def)
    then show ?thesis using True u rv r by (simp add: residue_def)
  qed
qed

subsection \<open>Roots of \<open>-1\<close>\<close>

definition minus_one_root :: "modulus \<Rightarrow> nat \<Rightarrow> u64 \<Rightarrow> bool" where
  "minus_one_root m n r \<longleftrightarrow> residue m r \<and> uint r ^ n mod uint (mod_value m) = uint (mod_value m) - 1"

lemma is_primitive_root_iff:
  assumes "wf_modulus m" "residue m r" "0 < n" "n < 2 ^ 63"
  shows "is_primitive_root r (of_nat (2 * n)) m \<longleftrightarrow> minus_one_root m n r"
proof -
  note q = wf_modulusD[OF assms(1)]
  have n: "unat (of_nat (2 * n) :: u64) = 2 * n" using assms(4) by (simp add: unat_of_nat del: of_nat_mult)
  have h: "unat (drop_bit 1 (of_nat (2 * n) :: u64)) = n" unfolding unat_shiftr_one n by simp
  have z: "uint (0 :: u64) ^ n mod uint (mod_value m) \<noteq> uint (mod_value m) - 1" using q(1) assms(3) by (simp add: power_0_left)
  have "exponentiate_uint64_mod r (drop_bit 1 (of_nat (2 * n))) m = mod_value m - 1 \<longleftrightarrow>
      uint r ^ n mod uint (mod_value m) = uint (mod_value m) - 1"
    using exponentiate_uint64_mod_correct[OF assms(1,2), of "drop_bit 1 (of_nat (2 * n))"] uint_minus_one[OF q(2)]
    unfolding h by (metis word_uint_eq_iff)
  then show ?thesis using assms(2) z unfolding is_primitive_root_def minus_one_root_def by auto
qed

lemma reduce_residue: "wf_modulus m \<Longrightarrow> residue m (reduce m x)"
  by (rule residue_intro[OF _ reduce_correct])

lemma primitive_root_loop_residue:
  assumes "wf_modulus m"
  shows "residue m (primitive_root_loop rands degree m k c)"
  using assms
proof (induction rands degree m k c rule: primitive_root_loop.induct)
  case (1 rands degree m k c)
  have "residue m (exponentiate_uint64_mod (reduce m (rands c)) k m)"
    using exponentiate_uint64_mod_correct[OF 1(2) reduce_residue[OF 1(2)], of "rands c" k] wf_modulusD(2)[OF 1(2)]
    by (simp add: residue_def)
  then show ?case using 1 by (simp add: primitive_root_loop.simps[of rands degree m k c] Let_def)
qed

lemma try_primitive_root_result:
  assumes "wf_modulus m" "0 < n" "n < 2 ^ 63" "try_primitive_root rands (of_nat (2 * n)) m = Some (Some r)"
  shows "minus_one_root m n r" 
proof -
  have "residue m r \<and> is_primitive_root r (of_nat (2 * n)) m"
    using assms(4) primitive_root_loop_residue[OF assms(1)] by (auto simp: try_primitive_root_def Let_def split: if_splits)
  then show ?thesis using is_primitive_root_iff[OF assms(1) _ assms(2,3)] by blast
qed

text \<open>The loop of the minimal root visits the odd powers of the root it was given.\<close>

lemma minimal_root_loop:
  assumes "wf_modulus m" "residue m r"
  shows "fold (minimal_root_step m (multiply_uint64_mod r r m)) [0..<k] (r, r) = (g, z) \<Longrightarrow>
    residue m g \<and> uint g = uint r ^ (2 * k + 1) mod uint (mod_value m) \<and>
    residue m z \<and> (\<exists>i<Suc k. uint z = uint r ^ (2 * i + 1) mod uint (mod_value m)) \<and>
    (\<forall>i<k. uint z \<le> uint r ^ (2 * i + 1) mod uint (mod_value m))"
proof (induction k arbitrary: g z)
  case 0
  then show ?case using assms(2) by (auto simp: residue_mod)
next
  case (Suc k)
  let ?q = "uint (mod_value m)"
  obtain g' z' where f: "fold (minimal_root_step m (multiply_uint64_mod r r m)) [0..<k] (r, r) = (g', z')" by fastforce
  note I = Suc.IH[OF f]
  have gz: "g = multiply_uint64_mod g' (multiply_uint64_mod r r m) m" "z = (if g' < z' then g' else z')"
  proof -
    have "minimal_root_step m (multiply_uint64_mod r r m) k (g', z') = (g, z)" using Suc.prems f by simp
    then show "g = multiply_uint64_mod g' (multiply_uint64_mod r r m) m" "z = (if g' < z' then g' else z')"
      by (simp_all add: minimal_root_step_def Let_def split: if_splits)
  qed
  have g: "uint g = uint r ^ (2 * Suc k + 1) mod ?q"
  proof -
    have "uint g = uint r ^ (2 * k + 1) * (uint r * uint r) mod ?q"
      unfolding gz(1) multiply_uint64_mod_correct[OF assms(1)] conjunct1[OF conjunct2[OF I]] mod_mult_left_eq mod_mult_right_eq ..
    then show ?thesis by (simp add: mult_ac)
  qed
  have rg: "residue m g" using g wf_modulusD(2)[OF assms(1)] by (simp add: residue_def)
  have z: "uint z = min (uint g') (uint z')" unfolding gz(2) by (auto simp: word_less_def min_def)
  have "residue m z" using I gz(2) by simp
  moreover have "\<exists>i<Suc (Suc k). uint z = uint r ^ (2 * i + 1) mod ?q"
  proof (cases "g' < z'")
    case True
    then show ?thesis using I gz(2) by (intro exI[of _ k]) simp
  next
    case False
    obtain i where "i < Suc k" "uint z' = uint r ^ (2 * i + 1) mod ?q" using I by blast
    then show ?thesis using False gz(2) less_SucI[of i "Suc k"] by (intro exI[of _ i]) simp
  qed
  moreover have "uint z \<le> uint r ^ (2 * i + 1) mod ?q" if "i < Suc k" for i
  proof (cases "i = k")
    case True
    then show ?thesis using I z by simp
  next
    case False
    then have "uint z' \<le> uint r ^ (2 * i + 1) mod ?q" using I that by simp
    then show ?thesis using z by simp
  qed
  ultimately show ?case using g rg by blast
qed

text \<open>Modulo a prime every root of \<open>x^(2^L) = -1\<close> is an odd power of any other.\<close>

lemma prime_roots:
  assumes "prime_number p" "s * s mod p = t * t mod p"
  shows "s mod p = t mod p \<or> s mod p = - t mod p"
proof -
  have "p dvd s * s - t * t" using assms(2) by (simp add: mod_eq_dvd_iff)
  then have "p dvd (s - t) * (s + t)" by (simp add: algebra_simps)
  then have "p dvd s - t \<or> p dvd s - - t" using prime_dvd_mult[OF assms(1)] by auto
  then show ?thesis by (simp only: mod_eq_dvd_iff)
qed

lemma odd_power_of_root:
  fixes r s p :: int
  assumes "prime_number p" "r ^ 2 ^ L mod p = - 1 mod p" "s ^ 2 ^ L mod p = - 1 mod p"
  shows "\<exists>k. s mod p = r ^ (2 * k + 1) mod p"
proof -
  have "\<exists>k. s ^ 2 ^ (L - l) mod p = r ^ ((2 * k + 1) * 2 ^ (L - l)) mod p" if "l \<le> L" for l
    using that
  proof (induction l)
    case 0
    show ?case by (intro exI[of _ 0]) (simp add: assms(2,3))
  next
    case (Suc l)
    then obtain k where k: "s ^ 2 ^ (L - l) mod p = r ^ ((2 * k + 1) * 2 ^ (L - l)) mod p" by auto
    let ?h = "2 ^ (L - Suc l) :: nat"
    have e: "2 ^ (L - l) = ?h * 2" using Suc.prems by (simp add: Suc_diff_Suc flip: power_Suc2)
    have sq: "x ^ (n * 2) = x ^ n * x ^ n" for x :: int and n by (simp add: power_mult power2_eq_square)
    have "s ^ ?h * s ^ ?h mod p = r ^ ((2 * k + 1) * ?h) * r ^ ((2 * k + 1) * ?h) mod p"
      using k unfolding e mult.assoc[symmetric] sq .
    from prime_roots[OF assms(1) this] show ?case
    proof
      assume "s ^ ?h mod p = - (r ^ ((2 * k + 1) * ?h)) mod p"
      also have "\<dots> = - 1 * r ^ ((2 * k + 1) * ?h) mod p" by simp
      also have "\<dots> = r ^ 2 ^ L * r ^ ((2 * k + 1) * ?h) mod p"
        by (rule mod_mult_cong[OF assms(2)[symmetric] refl])
      also have "r ^ 2 ^ L * r ^ ((2 * k + 1) * ?h) = r ^ ((2 * (k + 2 ^ l) + 1) * ?h)"
      proof -
        have "2 ^ L = 2 * 2 ^ l * ?h" using Suc.prems by (simp flip: power_Suc power_add)
        then show ?thesis by (simp add: algebra_simps flip: power_add)
      qed
      finally show ?thesis by blast
    qed blast
  qed
  from this[of L] show ?thesis by simp
qed

lemma power_mod_period:
  fixes r p :: int
  assumes "r ^ n mod p = - 1 mod p" "0 < n"
  shows "r ^ (2 * k + 1) mod p = r ^ (2 * (k mod n) + 1) mod p"
proof -
  have "r ^ n * r ^ n mod p = (- 1) * (- 1) mod p" by (rule mod_mult_cong[OF assms(1) assms(1)])
  then have one: "r ^ (2 * n) mod p = 1 mod p" by (simp add: mult_2 power_add)
  have "2 * (n * (k div n) + k mod n) = 2 * n * (k div n) + 2 * (k mod n)" by (simp only: distrib_left mult.assoc)
  then have "2 * k + 1 = 2 * n * (k div n) + (2 * (k mod n) + 1)" unfolding mult_div_mod_eq by simp
  then have "r ^ (2 * k + 1) = (r ^ (2 * n)) ^ (k div n) * r ^ (2 * (k mod n) + 1)" by (metis power_add power_mult)
  also have "\<dots> mod p = 1 ^ (k div n) * r ^ (2 * (k mod n) + 1) mod p"
    by (rule mod_mult_cong[OF _ refl]) (metis one power_mod)
  finally show ?thesis by simp
qed

text \<open>The least of all roots of \<open>-1\<close>.\<close>

lemma try_minimal_result:
  assumes "wf_modulus m" "L < 63" "try_minimal_primitive_root rands (of_nat (2 * 2 ^ L)) m = Some (Some r)"
  shows "minus_one_root m (2 ^ L) r"
    and "prime_number (uint (mod_value m)) \<Longrightarrow> minus_one_root m (2 ^ L) s \<Longrightarrow> uint r \<le> uint s"
proof -
  let ?q = "uint (mod_value m)" and ?n = "2 ^ L :: nat"
  have n: "0 < ?n" "?n < 2 ^ 63" using power_strict_increasing[OF assms(2), of "2 :: nat"] by simp_all
  obtain g where t: "try_primitive_root rands (of_nat (2 * ?n)) m = Some (Some g)"
    using assms(3) by (auto simp: try_minimal_primitive_root_def split: option.splits)
  note G = try_primitive_root_result[OF assms(1) n t]
  have rg: "residue m g" and gn: "uint g ^ ?n mod ?q = ?q - 1" using G by (simp_all add: minus_one_root_def)
  have q: "1 < ?q" by (rule wf_modulusD(1)[OF assms(1)])
  have m1: "- 1 mod ?q = ?q - 1" using q mod_neg_residue[of 1 ?q] by simp
  have c: "unat ((of_nat (2 * ?n) + 1) div 2 :: u64) = ?n"
  proof -
    have "unat (of_nat (2 * ?n) + 1 :: u64) = 2 * ?n + 1"
      using n(2) by (subst unat_add_no_overflow) (simp_all add: unat_of_nat del: of_nat_mult)
    then show ?thesis by (simp add: unat_div)
  qed
  obtain h z where f: "fold (minimal_root_step m (multiply_uint64_mod g g m)) [0..<?n] (g, g) = (h, z)" by fastforce
  note M = minimal_root_loop[OF assms(1) rg f]
  have z: "z = r" using assms(3) t f c by (simp add: try_minimal_primitive_root_def Let_def)
  obtain i where i: "uint r = uint g ^ (2 * i + 1) mod ?q" using M z by blast
  have odd: "(- 1) ^ (2 * i + 1) = (- 1 :: int)" by simp
  have "uint r ^ ?n mod ?q = uint g ^ ((2 * i + 1) * ?n) mod ?q" unfolding i power_mod power_mult ..
  also have "\<dots> = (uint g ^ ?n) ^ (2 * i + 1) mod ?q" by (simp only: power_mult[symmetric] mult.commute)
  also have "\<dots> = (- 1) ^ (2 * i + 1) mod ?q" by (metis gn m1 power_mod)
  finally show "minus_one_root m ?n r" using M z m1 unfolding odd minus_one_root_def by simp
  assume p: "prime_number ?q" and s: "minus_one_root m ?n s"
  have s': "residue m s" "uint s ^ ?n mod ?q = - 1 mod ?q" using s m1 by (simp_all add: minus_one_root_def)
  obtain k where "uint s mod ?q = uint g ^ (2 * k + 1) mod ?q"
    using odd_power_of_root[OF p _ s'(2), of "uint g"] gn m1 by auto
  then have "uint s = uint g ^ (2 * (k mod ?n) + 1) mod ?q"
    using power_mod_period[of "uint g" ?n ?q k] gn m1 n(1) s'(1) by (simp add: residue_mod)
  moreover have "k mod ?n < ?n" using n(1) by simp
  ultimately show "uint r \<le> uint s" using M z by metis
qed

section \<open>Results\<close>

text \<open>
  C27: Modular inversion of a non-zero value below \<open>2^63\<close> returns without signed overflow: a fully
  reduced inverse when value and modulus are coprime, failure otherwise. (Larger values can
  overflow the signed coefficients of the extended gcd; the library passes residues of moduli of
  at most 61 bits.)
\<close>

theorem try_invert_uint64_mod_correct:
  assumes "wf_modulus m" "0 < uint v" "uint v < 2 ^ 63"
  shows "if coprime (uint v) (uint (mod_value m))
    then \<exists>r. try_invert_uint64_mod v m = Some (Some r) \<and> residue m r \<and> uint r * uint v mod uint (mod_value m) = 1
    else try_invert_uint64_mod v m = Some None"
  by (rule try_invert_result[OF assms])

theorem try_invert_uint64_mod_correct_witness:
  "(\<exists>r. try_invert_uint64_mod 5 (sample_modulus 17) = Some (Some r) \<and> uint r * 5 mod 17 = 1) \<and>
   try_invert_uint64_mod 6 (sample_modulus 15) = Some None"
proof -
  have m: "wf_modulus (sample_modulus 17)" "wf_modulus (sample_modulus 15)"
    by (simp_all add: wf_modulus_def sample_modulus_def uint_word_of_int)
  have "gcd 5 17 = (1 :: int)" "gcd 6 15 = (3 :: int)" by code_simp+
  then have "coprime (5 :: int) 17" "\<not> coprime (6 :: int) 15" by (simp_all add: coprime_iff_gcd_eq_1)
  then show ?thesis
    using try_invert_uint64_mod_correct[OF m(1), of 5] try_invert_uint64_mod_correct[OF m(2), of 6] by auto
qed

text \<open>The bound is needed: an inverse of \<open>2^64 - 3\<close> exists, but computing it overflows.\<close>

lemma try_invert_uint64_mod_overflow: "try_invert_uint64_mod 18446744073709551613 (sample_modulus 17) = None"
  by code_simp

end
