(* ===== verification/Bitrev.thy ===== *)
theory Bitrev
  imports Limb_Shift
begin

unbundle bit_operations_syntax

definition swap_stage :: "nat \<Rightarrow> u32 \<Rightarrow> u32 \<Rightarrow> u32 \<Rightarrow> u32" where
  "swap_stage s M N x = drop_bit s (x AND M) OR push_bit s (x AND N)"

lemma bit_swap_stage:
  "bit (swap_stage s M N x) k \<longleftrightarrow> (bit x (k + s) \<and> bit M (k + s)) \<or> (s \<le> k \<and> k < 32 \<and> bit x (k - s) \<and> bit N (k - s))"
  by (auto simp: swap_stage_def bit_simps add.commute)

lemma less_32_cases:
  fixes k :: nat
  assumes "k < 32"
  shows "k \<in> {0, 1, 2, 3, 4, 5, 6, 7, 8, 9, 10, 11, 12, 13, 14, 15, 16, 17, 18, 19, 20, 21, 22, 23, 24, 25, 26, 27, 28, 29, 30, 31}"
  unfolding insert_iff empty_iff using assms by presburger

lemma stage_1:
  assumes "k < 32"
  shows "bit (swap_stage 1 0xaaaaaaaa 0x55555555 x) k = bit x (if k mod 2 = 0 then k + 1 else k - 1)"
  using less_32_cases[OF assms] by (elim insertE emptyE; hypsubst; simp add: bit_swap_stage)

lemma stage_2:
  assumes "k < 32"
  shows "bit (swap_stage 2 0xcccccccc 0x33333333 x) k = bit x (if k div 2 mod 2 = 0 then k + 2 else k - 2)"
  using less_32_cases[OF assms] by (elim insertE emptyE; hypsubst; simp add: bit_swap_stage)

lemma stage_4:
  assumes "k < 32"
  shows "bit (swap_stage 4 0xf0f0f0f0 0x0f0f0f0f x) k = bit x (if k div 4 mod 2 = 0 then k + 4 else k - 4)"
  using less_32_cases[OF assms] by (elim insertE emptyE; hypsubst; simp add: bit_swap_stage)

lemma stage_8:
  assumes "k < 32"
  shows "bit (swap_stage 8 0xff00ff00 0x00ff00ff x) k = bit x (if k div 8 mod 2 = 0 then k + 8 else k - 8)"
  using less_32_cases[OF assms] by (elim insertE emptyE; hypsubst; simp add: bit_swap_stage)

lemma stage_16:
  fixes x :: u32
  assumes "k < 32"
  shows "bit (drop_bit 16 x OR push_bit 16 x) k = bit x (if k < 16 then k + 16 else k - 16)"
proof (cases "k < 16")
  case True
  then show ?thesis by (simp add: bit_simps add.commute)
next
  case False
  then have "\<not> bit x (16 + k)" by (auto dest: bit_imp_le_length)
  then show ?thesis using assms False by (simp add: bit_simps)
qed

lemma reverse_bits_uint32_stages:
  "reverse_bits_uint32 x = (let x = swap_stage 8 0xff00ff00 0x00ff00ff (swap_stage 4 0xf0f0f0f0 0x0f0f0f0f
     (swap_stage 2 0xcccccccc 0x33333333 (swap_stage 1 0xaaaaaaaa 0x55555555 x))) in drop_bit 16 x OR push_bit 16 x)"
  by (simp only: reverse_bits_uint32_def swap_stage_def Let_def)

lemma bit_reverse_32:
  assumes "k < 32"
  shows "bit (reverse_bits_uint32 x) k = bit x (31 - k)"
  unfolding reverse_bits_uint32_stages Let_def stage_16[OF assms]
  using less_32_cases[OF assms] by (elim insertE emptyE; hypsubst; simp add: stage_1[unfolded One_nat_def] stage_2 stage_4 stage_8; simp only: eval_nat_numeral BitM.simps pred_numeral_simps)

lemma bit_reverse_64:
  assumes "k < 64"
  shows "bit (reverse_bits_uint64 x) k = bit x (63 - k)"
proof (cases "k < 32")
  case True
  then have "bit (reverse_bits_uint64 x) k = bit (drop_bit 32 x) (31 - k)"
    by (auto simp: reverse_bits_uint64_def bit_simps bit_reverse_32)
  also have "\<dots> = bit x (63 - k)" using True by (simp add: bit_simps)
  finally show ?thesis .
next
  case False
  then have "\<not> bit (ucast (reverse_bits_uint32 (ucast (drop_bit 32 x))) :: u64) k"
    by (auto simp: bit_simps dest: bit_imp_le_length)
  moreover have "bit (ucast (x AND 0xFFFFFFFF) :: u32) (63 - k) = bit x (63 - k)"
  proof -
    have "(0xFFFFFFFF :: u64) = 2 ^ 32 - 1" by simp
    then have "x AND 0xFFFFFFFF = take_bit 32 x" by (simp only: take_bit_eq_mask mask_eq_exp_minus_1)
    moreover have "63 - k < 32" using False by simp
    ultimately show ?thesis by (simp add: bit_simps)
  qed
  moreover have "bit (reverse_bits_uint64 x) k \<longleftrightarrow> bit (ucast (x AND 0xFFFFFFFF) :: u32) (63 - k)"
  proof -
    have "k - 32 < 32" "31 - (k - 32) = 63 - k" using False assms by simp_all
    then show ?thesis using calculation(1) False assms
      by (simp add: reverse_bits_uint64_def bit_or_iff bit_push_bit_iff bit_unsigned_iff bit_reverse_32)
  qed
  ultimately show ?thesis by simp
qed

subsection \<open>Reversal of the low bits of a number\<close>

fun bitrev :: "nat \<Rightarrow> nat \<Rightarrow> nat" where
  "bitrev 0 i = 0"
| "bitrev (Suc L) i = (i mod 2) * 2 ^ L + bitrev L (i div 2)"

lemma bitrev_less: "bitrev L i < 2 ^ L"
proof (induction L arbitrary: i)
  case (Suc L)
  have "i mod 2 * 2 ^ L \<le> 1 * 2 ^ L" by (rule mult_right_mono) simp_all
  then show ?case using Suc[of "i div 2"] unfolding bitrev.simps power_Suc by linarith
qed simp

lemma bit_bitrev: "bit (bitrev L i) k \<longleftrightarrow> k < L \<and> bit i (L - 1 - k)"
proof (induction L arbitrary: i k)
  case (Suc L)
  have "bitrev (Suc L) i = push_bit L (of_bool (odd i)) + bitrev L (i div 2)"
    by (simp add: push_bit_eq_mult odd_iff_mod_2_eq_one)
  also have "\<dots> = push_bit L (of_bool (odd i)) OR bitrev L (i div 2)"
    by (rule disjunctive_add_eq_or, rule bit_eqI) (auto simp: bit_simps Suc)
  finally have "bit (bitrev (Suc L) i) k \<longleftrightarrow> (k = L \<and> odd i) \<or> (k < L \<and> bit (i div 2) (L - 1 - k))"
    by (auto simp: bit_simps Suc)
  also have "\<dots> \<longleftrightarrow> k < Suc L \<and> bit i (Suc L - 1 - k)"
  proof (cases "k < L")
    case True
    then have "L - k = Suc (L - 1 - k)" by simp
    then show ?thesis using True by (simp add: bit_Suc)
  qed (auto simp: bit_0)
  finally show ?case .
qed (simp add: bit_simps)

lemma reverse_low_bits_bitrev:
  assumes "L \<le> 64" "i < 2 ^ L"
  shows "unat (reverse_low_bits_uint64 (of_nat i) L) = bitrev L i"
proof (cases "L = 0")
  case False
  have "unat (reverse_low_bits_uint64 (of_nat i) L) = bitrev L i"
  proof (rule bit_eqI)
    fix k
    have i: "bit (of_nat i :: u64) j = bit i j" if "j < 64" for j
      using that by (simp add: bit_of_nat_iff)
    show "bit (unat (reverse_low_bits_uint64 (of_nat i) L)) k = bit (bitrev L i) k"
    proof (cases "k < L")
      case True
      then have "bit (unat (reverse_low_bits_uint64 (of_nat i) L)) k = bit (reverse_bits_uint64 (of_nat i)) (64 - L + k)"
        using False by (simp add: reverse_low_bits_uint64_def bit_unsigned_iff bit_drop_bit_eq)
      also have "\<dots> = bit i (L - 1 - k)"
        using True assms(1) by (subst bit_reverse_64) (simp_all add: i)
      finally show ?thesis using True by (simp add: bit_bitrev)
    next
      case False
      then have "64 \<le> 64 - L + k" using assms(1) by simp
      then show ?thesis using False \<open>L \<noteq> 0\<close>
        by (auto simp: reverse_low_bits_uint64_def bit_unsigned_iff bit_drop_bit_eq bit_bitrev dest: bit_imp_le_length)
    qed
  qed
  then show ?thesis .
qed (simp add: reverse_low_bits_uint64_def)

end
