(* ===== verification/Ntt_Tables.thy ===== *)
theory Ntt_Tables
  imports Ntt_Correct Number_Theory Bitrev
begin

text \<open>
  The constructor of \<open>NTTTables\<close> in \<open>src/encryption/utils/ntt.cu\<close>: the powers of the least root of
  \<open>-1\<close> in bit-reversed order, those of its inverse in the order the inverse transform consumes them,
  and the inverse of the degree. The tables it builds satisfy what the transforms rely on.
\<close>

text \<open>\<open>pw\<close> runs through the powers of the root; the \<open>i\<close>-th goes to position \<open>index i\<close>.\<close>

definition fill_power :: "(nat \<Rightarrow> nat) \<Rightarrow> modulus \<Rightarrow> MultiplyUint64Operand \<Rightarrow> nat \<Rightarrow>
    (MultiplyUint64Operand list \<times> u64) option \<Rightarrow> (MultiplyUint64Operand list \<times> u64) option" where
  "fill_power index m root_operand i s =
     (case s of
        None \<Rightarrow> None
      | Some (powers, pw) \<Rightarrow>
          (case make_operand pw m of
             None \<Rightarrow> None
           | Some x \<Rightarrow> Some (powers[index i := x], multiply_uint64operand_mod pw root_operand m)))"

definition fill_powers :: "(nat \<Rightarrow> nat) \<Rightarrow> nat \<Rightarrow> u64 \<Rightarrow> modulus \<Rightarrow> MultiplyUint64Operand list option" where
  "fill_powers index coeff_count r m =
     (case (make_operand r m, make_operand 1 m) of
        (Some root_operand, Some one) \<Rightarrow>
          (case fold (fill_power index m root_operand) [1..<coeff_count]
              (Some (replicate coeff_count \<lparr>op_operand = 0, op_quotient = 0\<rparr>, r)) of
             None \<Rightarrow> None
           | Some (powers, _) \<Rightarrow> Some (powers[0 := one]))
      | _ \<Rightarrow> None)"

text \<open>\<open>rands\<close> feeds the search for a root.\<close>

definition NTTTables :: "(nat \<Rightarrow> u64) \<Rightarrow> nat \<Rightarrow> modulus \<Rightarrow> (error + ntt_tables) option" where
  "NTTTables rands coeff_count_power m =
     (if 64 \<le> coeff_count_power then None else
      let coeff_count = 2 ^ coeff_count_power in
      case try_minimal_primitive_root rands (of_nat (2 * coeff_count)) m of
        None \<Rightarrow> None
      | Some None \<Rightarrow> Some (Inl (InvalidArgument ''[NTTTables::NTTTables] Invalid modulus, unable to find primitive root.''))
      | Some (Some r) \<Rightarrow>
      case try_invert_uint64_mod r m of
        None \<Rightarrow> None
      | Some None \<Rightarrow> Some (Inl (InvalidArgument ''[NTTTables::NTTTables] Invalid modulus, unable to invert.''))
      | Some (Some inv_root) \<Rightarrow>
      case (fill_powers (\<lambda>i. unat (reverse_low_bits_uint64 (of_nat i) coeff_count_power)) coeff_count r m,
            fill_powers (\<lambda>i. unat (reverse_low_bits_uint64 (of_nat (i - 1)) coeff_count_power) + 1) coeff_count inv_root m) of
        (Some rp, Some irp) \<Rightarrow>
          (case try_invert_uint64_mod (of_nat coeff_count) m of
             None \<Rightarrow> None
           | Some None \<Rightarrow> Some (Inl (InvalidArgument ''[NTTTables::NTTTables] Invalid modulus, unable to invert degree.''))
           | Some (Some d) \<Rightarrow>
             (case make_operand d m of
                None \<Rightarrow> None
              | Some inv_degree \<Rightarrow> Some (Inr \<lparr>nt_root = r, nt_coeff_count_power = coeff_count_power, nt_coeff_count = coeff_count,
                  nt_modulus = m, inv_degree_modulo = inv_degree, root_powers = rp, inv_root_powers = irp\<rparr>)))
      | _ \<Rightarrow> None)"

definition table_step :: "(nat \<Rightarrow> u64) \<Rightarrow> nat \<Rightarrow> modulus \<Rightarrow> (error + ntt_tables list) option \<Rightarrow> (error + ntt_tables list) option" where
  "table_step rands coeff_count_power m s =
     (case s of
        Some (Inr ts) \<Rightarrow> map_option (map_sum id (\<lambda>t. ts @ [t])) (NTTTables rands coeff_count_power m)
      | _ \<Rightarrow> s)"

text \<open>The calls draw from one stream; \<open>rands i\<close> is the stream of the \<open>i\<close>-th table.\<close>

definition create_ntt_tables :: "(nat \<Rightarrow> nat \<Rightarrow> u64) \<Rightarrow> nat \<Rightarrow> modulus list \<Rightarrow> (error + ntt_tables list) option" where
  "create_ntt_tables rands coeff_count_power moduli =
     fold (\<lambda>i. table_step (rands i) coeff_count_power (moduli ! i)) [0..<length moduli] (Some (Inr []))"

subsection \<open>Filling a table\<close>

lemma fill_loop:
  assumes "wf_modulus m" "residue m r" "wf_operand m x" "op_operand x = r" "inj_on index {1..<n}"
    "\<And>i. 1 \<le> i \<Longrightarrow> i < n \<Longrightarrow> index i < length ps"
  shows "k < n \<Longrightarrow> \<exists>ps' p. fold (fill_power index m x) [1..<Suc k] (Some (ps, r)) = Some (ps', p) \<and>
    length ps' = length ps \<and> residue m p \<and> uint p = uint r ^ Suc k mod uint (mod_value m) \<and>
    (\<forall>i. 1 \<le> i \<longrightarrow> i \<le> k \<longrightarrow> wf_operand m (ps' ! index i) \<and>
      uint (op_operand (ps' ! index i)) = uint r ^ i mod uint (mod_value m))"
proof (induction k)
  case 0
  then show ?case using assms(2) by (simp add: residue_mod)
next
  case (Suc k)
  let ?q = "uint (mod_value m)"
  obtain ps' p where I: "fold (fill_power index m x) [1..<Suc k] (Some (ps, r)) = Some (ps', p)"
    "length ps' = length ps" "residue m p" "uint p = uint r ^ Suc k mod ?q"
    "\<forall>i. 1 \<le> i \<longrightarrow> i \<le> k \<longrightarrow> wf_operand m (ps' ! index i) \<and> uint (op_operand (ps' ! index i)) = uint r ^ i mod ?q"
    using Suc by auto
  obtain y where y: "make_operand p m = Some y" "op_operand y = p" "wf_operand m y"
    using make_operand_correct[OF assms(1) I(3)] by blast
  let ?p = "multiply_uint64operand_mod p x m" and ?ps = "ps'[index (Suc k) := y]"
  have f: "fold (fill_power index m x) [1..<Suc (Suc k)] (Some (ps, r)) = Some (?ps, ?p)"
    using I(1) y(1) by (simp add: fill_power_def)
  have p: "uint ?p = uint r ^ Suc (Suc k) mod ?q"
    using multiply_uint64operand_mod_correct[OF assms(1,3), of p]
    unfolding I(4) assms(4) mod_mult_left_eq by (simp add: mult.commute)
  have "residue m ?p" using p wf_modulusD(2)[OF assms(1)] by (simp add: residue_def)
  moreover have "wf_operand m (?ps ! index i) \<and> uint (op_operand (?ps ! index i)) = uint r ^ i mod ?q" if i: "1 \<le> i" "i \<le> Suc k" for i
  proof (cases "i = Suc k")
    case True
    then show ?thesis using y I(2,4) assms(6)[of "Suc k"] Suc.prems by simp
  next
    case False
    then have "index i \<noteq> index (Suc k)"
      using assms(5) i Suc.prems by (auto simp: inj_on_def)
    then show ?thesis using I(5) i False by simp
  qed
  ultimately show ?case using f p I(2) by auto
qed

lemma fill_powers_result:
  assumes "wf_modulus m" "residue m r" "0 < n" "inj_on index {1..<n}" "\<And>i. 1 \<le> i \<Longrightarrow> i < n \<Longrightarrow> 0 < index i \<and> index i < n"
  shows "\<exists>ps. fill_powers index n r m = Some ps \<and> length ps = n \<and>
    wf_operand m (ps ! 0) \<and> uint (op_operand (ps ! 0)) = 1 \<and>
    (\<forall>i. 1 \<le> i \<longrightarrow> i < n \<longrightarrow> wf_operand m (ps ! index i) \<and>
      uint (op_operand (ps ! index i)) = uint r ^ i mod uint (mod_value m))"
proof -
  let ?q = "uint (mod_value m)" and ?z = "replicate n \<lparr>op_operand = 0, op_quotient = 0\<rparr>"
  have q: "1 < ?q" by (rule wf_modulusD(1)[OF assms(1)])
  obtain x where x: "make_operand r m = Some x" "op_operand x = r" "wf_operand m x"
    using make_operand_correct[OF assms(1,2)] by blast
  have "residue m 1" using q by (simp add: residue_def)
  then obtain y where y: "make_operand 1 m = Some y" "op_operand y = 1" "wf_operand m y"
    using make_operand_correct[OF assms(1)] by blast
  have n: "[1..<n] = [1..<Suc (n - 1)]" using assms(3) by simp
  obtain ps p where f: "fold (fill_power index m x) [1..<n] (Some (?z, r)) = Some (ps, p)" "length ps = n"
    "\<forall>i. 1 \<le> i \<longrightarrow> i \<le> n - 1 \<longrightarrow> wf_operand m (ps ! index i) \<and> uint (op_operand (ps ! index i)) = uint r ^ i mod ?q"
    using fill_loop[OF assms(1,2) x(3,2) assms(4), of ?z "n - 1"] assms(3,5) unfolding n by auto
  have "fill_powers index n r m = Some (ps[0 := y])" by (simp add: fill_powers_def x(1) y(1) f(1)[unfolded One_nat_def])
  then show ?thesis using f(2,3) y assms(3,5) by (auto simp: nth_list_update)
qed

subsection \<open>The order of the powers\<close>

lemma bitrev_bitrev: "i < 2 ^ L \<Longrightarrow> bitrev L (bitrev L i) = i"
proof (rule bit_eqI)
  fix k
  assume "i < 2 ^ L"
  then have "take_bit L i = i" by (simp add: take_bit_nat_eq_self)
  then have no: "\<not> bit i k" if "L \<le> k" using that by (metis bit_take_bit_iff not_le)
  show "bit (bitrev L (bitrev L i)) k = bit i k"
  proof (cases "k < L")
    case True
    then have "L - 1 - (L - 1 - k) = k" "L - 1 - k < L" by simp_all
    then show ?thesis using True by (simp only: bit_bitrev simp_thms)
  next
    case False
    then show ?thesis using no by (simp add: bit_bitrev)
  qed
qed

lemma bitrev_0 [simp]: "bitrev L 0 = 0"
  by (induction L) simp_all

lemma bitrev_twice: "i < 2 ^ L \<Longrightarrow> bitrev (Suc L) i = 2 * bitrev L i"
proof (induction L arbitrary: i)
  case (Suc L)
  have "bitrev (Suc L) (i div 2) = 2 * bitrev L (i div 2)" by (rule Suc.IH) (use Suc.prems in simp)
  then show ?case by (simp only: bitrev.simps[of "Suc L"] bitrev.simps(2)[of L i]) simp
qed simp

lemma bitrev_all_ones: "bitrev L (2 ^ L - 1) = 2 ^ L - 1"
proof (induction L)
  case (Suc L)
  obtain n where n: "(2 :: nat) ^ L = Suc n" by (cases "(2 :: nat) ^ L") simp_all
  have "(2 ^ Suc L - 1) mod 2 = (1 :: nat)" "(2 ^ Suc L - 1) div 2 = (2 :: nat) ^ L - 1" by (simp_all add: n)
  then show ?case using Suc by (simp only: bitrev.simps) (simp add: n)
qed simp

lemma bitrev_inverse_order:
  "l < L \<Longrightarrow> b < 2 ^ l \<Longrightarrow> bitrev L (2 ^ L - 2 ^ Suc l + b) + 1 = bitrev L (2 ^ l + b)"
proof (induction L arbitrary: l b)
  case (Suc L)
  show ?case
  proof (cases l)
    case 0
    have "(2 * 2 ^ L - 2) div 2 = (2 :: nat) ^ L - 1" by simp
    then show ?thesis using 0 Suc.prems bitrev_all_ones[of L] by simp
  next
    case (Suc l')
    have e: "2 ^ Suc L - 2 ^ Suc l + b = 2 * (2 ^ L - 2 ^ Suc l') + b" "2 ^ l + b = 2 * 2 ^ l' + b"
      by (simp_all add: Suc right_diff_distrib')
    have b: "b div 2 < 2 ^ l'" using Suc.prems Suc by simp
    have "l' < L" using Suc.prems Suc by simp
    from Suc.IH[OF this b] show ?thesis unfolding e bitrev.simps by simp
  qed
qed simp

subsection \<open>The tables are well formed\<close>

text \<open>The squares of the bit-reversed powers form the tree of roots.\<close>

lemma bitrev_root_tree:
  assumes "1 < q" "r ^ 2 ^ L mod q = - 1 mod q" "\<And>i. i < 2 ^ L \<Longrightarrow> w i mod q = r ^ bitrev L i mod q"
  shows "root_tree q (2 ^ L) w"
  unfolding root_tree_def
proof (intro allI impI)
  fix i :: nat
  assume i: "0 < i" "i < 2 ^ L"
  then obtain l where L: "L = Suc l" by (cases L) auto
  define j where "j = i div 2"
  have j: "j < 2 ^ l" using i(2) by (simp add: j_def L)
  have wj: "w j mod q = r ^ bitrev L j mod q" by (rule assms(3)) (use j in \<open>simp add: L\<close>)
  have tw: "bitrev L j = 2 * bitrev l j" unfolding L by (rule bitrev_twice[OF j])
  have "w i * w i mod q = r ^ bitrev L i * r ^ bitrev L i mod q" by (rule mod_mult_cong[OF assms(3)[OF i(2)] assms(3)[OF i(2)]])
  also have "r ^ bitrev L i * r ^ bitrev L i = r ^ (2 * bitrev L i)" by (simp add: mult_2 power_add)
  also have "2 * bitrev L i = (i mod 2) * 2 ^ L + bitrev L j" unfolding tw by (simp add: L j_def)
  also have "r ^ ((i mod 2) * 2 ^ L + bitrev L j) mod q = root w i mod q"
  proof (cases "even i")
    case True
    then have "i mod 2 = 0" "i \<noteq> 1" by auto
    then show ?thesis using wj True by (simp add: root_def j_def)
  next
    case False
    then have "i mod 2 = 1" by (simp add: odd_iff_mod_2_eq_one)
    then have "r ^ ((i mod 2) * 2 ^ L + bitrev L j) mod q = r ^ 2 ^ L * r ^ bitrev L j mod q" by (simp add: power_add)
    also have "\<dots> = - 1 * w j mod q" by (rule mod_mult_cong[OF assms(2) wj[symmetric]])
    also have "\<dots> = root w i mod q"
    proof (cases "i = 1")
      case True
      have "w 0 mod q = 1" using assms(1) assms(3)[of 0] by simp
      then have "- 1 * w 0 mod q = - 1 mod q" by (metis mod_minus_eq mult_minus1)
      then show ?thesis by (simp add: True root_def j_def)
    next
      case False
      then show ?thesis using \<open>odd i\<close> by (simp add: root_def j_def)
    qed
    finally show ?thesis .
  qed
  finally show "w i * w i mod q = root w i mod q" .
qed

lemma power_inverse:
  fixes s r q :: int
  assumes "s * r mod q = 1" "1 < q"
  shows "s ^ k * r ^ k mod q = 1"
proof -
  have "s ^ k * r ^ k mod q = (s * r mod q) ^ k mod q" unfolding power_mod power_mult_distrib ..
  also have "\<dots> = 1" unfolding assms(1) power_one using assms(2) by (rule mod_pos_pos_trivial[OF zero_le_one])
  finally show ?thesis .
qed

lemma minus_one_root_coprime:
  assumes "wf_modulus m" "minus_one_root m n r" "0 < n"
  shows "coprime (uint r) (uint (mod_value m))" "0 < uint r"
proof -
  let ?q = "uint (mod_value m)"
  have q: "1 < ?q" by (rule wf_modulusD(1)[OF assms(1)])
  have e: "uint r ^ n mod ?q = ?q - 1" using assms(2) by (simp add: minus_one_root_def)
  have "coprime (?q - 1) ?q" by (metis coprime_diff_one_left coprime_commute q zero_less_one less_trans)
  then have "coprime (uint r ^ n) ?q" using e by (metis coprime_mod_left_iff q not_one_less_zero)
  then show "coprime (uint r) ?q" using assms(3) by (simp add: coprime_power_left_iff)
  show "0 < uint r"
  proof (rule ccontr)
    assume "\<not> 0 < uint r"
    then have "uint r = 0" using uint_ge_0[of r] by linarith
    then show False using e q assms(3) by (simp add: power_0_left)
  qed
qed

lemma of_nat_pow_uint: "L < 64 \<Longrightarrow> uint (of_nat (2 ^ L) :: u64) = 2 ^ L"
proof -
  assume "L < 64"
  then have "(2 :: nat) ^ L < 2 ^ 64" by (intro power_strict_increasing) simp_all
  then have "unat (of_nat (2 ^ L) :: u64) = 2 ^ L" by (simp add: unat_of_nat del: of_nat_power)
  then show ?thesis unfolding uint_nat by (simp only: of_nat_power of_nat_numeral)
qed

lemma try_minimal_not_none: "L < 63 \<Longrightarrow> try_minimal_primitive_root rands (of_nat (2 * 2 ^ L)) m \<noteq> None"
proof -
  assume L: "L < 63"
  have "(2 :: nat) ^ L < 2 ^ 63" using L by (intro power_strict_increasing) simp_all
  then have "unat (of_nat (2 * 2 ^ L) :: u64) = 2 * 2 ^ L" by (simp add: unat_of_nat del: of_nat_mult)
  then have "(of_nat (2 * 2 ^ L) :: u64) \<noteq> 0" by (metis mult_eq_0_iff power_not_zero unsigned_0 zero_neq_numeral)
  then show ?thesis
    by (simp add: try_minimal_primitive_root_def try_primitive_root_def Let_def split: option.splits del: of_nat_mult)
qed

lemma reverse_index: "L < 64 \<Longrightarrow> i < 2 ^ L \<Longrightarrow> unat (reverse_low_bits_uint64 (of_nat i) L) = bitrev L i"
  by (rule reverse_low_bits_bitrev) simp_all

lemma bitrev_pos: "0 < i \<Longrightarrow> i < 2 ^ L \<Longrightarrow> 0 < bitrev L i"
  by (metis bitrev_0 bitrev_bitrev gr0I less_irrefl)

lemma bitrev_inject: "i < 2 ^ L \<Longrightarrow> j < 2 ^ L \<Longrightarrow> bitrev L i = bitrev L j \<Longrightarrow> i = j"
  by (metis bitrev_bitrev)

lemma bitrev_not_last: "Suc i < 2 ^ L \<Longrightarrow> Suc (bitrev L i) < 2 ^ L"
proof -
  assume i: "Suc i < 2 ^ L"
  have "bitrev L i \<noteq> 2 ^ L - 1"
  proof
    assume "bitrev L i = 2 ^ L - 1"
    then have "i = 2 ^ L - 1" using bitrev_bitrev[of i L] bitrev_all_ones[of L] i by simp
    then show False using i by simp
  qed
  then show ?thesis using bitrev_less[of L i] by linarith
qed

text \<open>The entries of both tables, by position.\<close>

lemma root_powers_order:
  assumes "wf_modulus m" "residue m r" "L < 64"
  shows "\<exists>ps. fill_powers (\<lambda>i. unat (reverse_low_bits_uint64 (of_nat i) L)) (2 ^ L) r m = Some ps \<and> length ps = 2 ^ L \<and>
    (\<forall>j<2 ^ L. wf_operand m (ps ! j) \<and> uint (op_operand (ps ! j)) = uint r ^ bitrev L j mod uint (mod_value m))"
proof -
  let ?n = "2 ^ L" and ?q = "uint (mod_value m)"
  let ?i = "\<lambda>i. unat (reverse_low_bits_uint64 (of_nat i) L)"
  have e: "?i i = bitrev L i" if "i < ?n" for i by (rule reverse_index[OF assms(3) that])
  have "inj_on ?i {1..<?n}" by (rule inj_onI) (use e bitrev_inject in auto)
  moreover have "0 < ?i i \<and> ?i i < ?n" if "1 \<le> i" "i < ?n" for i
    using bitrev_pos[of i L] bitrev_less[of L i] that e by simp
  ultimately obtain ps where ps: "fill_powers ?i ?n r m = Some ps" "length ps = ?n"
    "wf_operand m (ps ! 0)" "uint (op_operand (ps ! 0)) = 1"
    "\<forall>i. 1 \<le> i \<longrightarrow> i < ?n \<longrightarrow> wf_operand m (ps ! ?i i) \<and> uint (op_operand (ps ! ?i i)) = uint r ^ i mod ?q"
    using fill_powers_result[OF assms(1,2), of ?n ?i] by auto
  have "wf_operand m (ps ! j) \<and> uint (op_operand (ps ! j)) = uint r ^ bitrev L j mod ?q" if j: "j < ?n" for j
  proof (cases "j = 0")
    case True
    then show ?thesis using ps(3,4) wf_modulusD(1)[OF assms(1)] by simp
  next
    case False
    have b: "bitrev L j < ?n" "1 \<le> bitrev L j" "?i (bitrev L j) = j"
      using bitrev_less[of L j] bitrev_pos[OF _ j] False e[of "bitrev L j"] bitrev_bitrev[OF j] by simp_all
    from ps(5)[rule_format, OF b(2,1)] show ?thesis unfolding b(3) .
  qed
  then show ?thesis using ps(1,2) by blast
qed

lemma inv_root_powers_order:
  assumes "wf_modulus m" "residue m r" "L < 64"
  shows "\<exists>ps. fill_powers (\<lambda>i. unat (reverse_low_bits_uint64 (of_nat (i - 1)) L) + 1) (2 ^ L) r m = Some ps \<and> length ps = 2 ^ L \<and>
    (\<forall>j<2 ^ L. wf_operand m (ps ! j)) \<and>
    (\<forall>j. Suc j < 2 ^ L \<longrightarrow> uint (op_operand (ps ! Suc j)) = uint r ^ Suc (bitrev L j) mod uint (mod_value m))"
proof -
  let ?n = "2 ^ L" and ?q = "uint (mod_value m)"
  let ?i = "\<lambda>i. unat (reverse_low_bits_uint64 (of_nat (i - 1)) L) + 1"
  have e: "?i (Suc i) = Suc (bitrev L i)" if "i < ?n" for i using reverse_index[OF assms(3) that] by simp
  have "inj_on ?i {1..<?n}"
  proof (rule inj_onI)
    fix i j
    assume "i \<in> {1..<?n}" "j \<in> {1..<?n}" "?i i = ?i j"
    moreover obtain i' j' where "i = Suc i'" "j = Suc j'" using calculation(1,2) by (cases i; cases j) auto
    ultimately show "i = j" using e[of i'] e[of j'] bitrev_inject[of i' L j'] by simp
  qed
  moreover have "0 < ?i i \<and> ?i i < ?n" if i: "1 \<le> i" "i < ?n" for i
  proof -
    obtain i' where "i = Suc i'" using i(1) by (cases i) auto
    then show ?thesis using e[of i'] bitrev_not_last[of i' L] i by simp
  qed
  ultimately obtain ps where ps: "fill_powers ?i ?n r m = Some ps" "length ps = ?n" "wf_operand m (ps ! 0)"
    "\<forall>i. 1 \<le> i \<longrightarrow> i < ?n \<longrightarrow> wf_operand m (ps ! ?i i) \<and> uint (op_operand (ps ! ?i i)) = uint r ^ i mod ?q"
    using fill_powers_result[OF assms(1,2), of ?n ?i] by auto
  have J: "wf_operand m (ps ! Suc j) \<and> uint (op_operand (ps ! Suc j)) = uint r ^ Suc (bitrev L j) mod ?q" if j: "Suc j < ?n" for j
  proof -
    have b: "Suc (bitrev L j) < ?n" "1 \<le> Suc (bitrev L j)" "?i (Suc (bitrev L j)) = Suc j"
      using bitrev_not_last[OF j] e[of "bitrev L j"] bitrev_bitrev[of j L] j by simp_all
    from ps(4)[rule_format, OF b(2,1)] show ?thesis unfolding b(3) .
  qed
  have "wf_operand m (ps ! j)" if "j < ?n" for j using J ps(3) that by (cases j) auto
  then show ?thesis using J ps(1,2) by blast
qed

text \<open>
  Success: with a root, a well-formed table for the least root; the only other outcome is the exception
  that no root was found. (An odd modulus makes the degree invertible.)
\<close>

lemma NTTTables_result:
  assumes "wf_modulus m" "L < 63" "odd (uint (mod_value m))"
  shows "(\<exists>e. NTTTables rands L m = Some (Inl e) \<and>
      try_minimal_primitive_root rands (of_nat (2 * 2 ^ L)) m = Some None) \<or>
    (\<exists>t. NTTTables rands L m = Some (Inr t) \<and> wf_ntt_tables L t \<and> nt_modulus t = m \<and>
      try_minimal_primitive_root rands (of_nat (2 * 2 ^ L)) m = Some (Some (nt_root t)) \<and>
      length (root_powers t) = 2 ^ L \<and> length (inv_root_powers t) = 2 ^ L)"
proof -
  let ?q = "uint (mod_value m)" and ?n = "2 ^ L :: nat"
  have q: "1 < ?q" by (rule wf_modulusD(1)[OF assms(1)])
  have m1: "?q - 1 = - 1 mod ?q" using q mod_neg_residue[of 1 ?q] by simp
  have L64: "L < 64" using assms(2) by simp
  obtain t where t: "try_minimal_primitive_root rands (of_nat (2 * ?n)) m = Some t"
    using try_minimal_not_none[OF assms(2), of rands m] by blast
  show ?thesis
  proof (cases t)
    case None
    then show ?thesis using t L64 by (simp add: NTTTables_def Let_def)
  next
    case (Some r)
    have R: "minus_one_root m ?n r" by (rule try_minimal_result(1)[OF assms(1,2) t[unfolded Some]])
    have r: "residue m r" "uint r ^ ?n mod ?q = - 1 mod ?q" using R m1 by (simp_all add: minus_one_root_def)
    note c = minus_one_root_coprime[OF assms(1) R]
    have r63: "uint r < 2 ^ 63" using r(1) wf_modulusD(3)[OF assms(1)] by (simp add: residue_def)
    obtain s where s: "try_invert_uint64_mod r m = Some (Some s)" "residue m s" "uint s * uint r mod ?q = 1"
      using try_invert_result[OF assms(1) c(2) r63] c(1) by auto
    have n63: "(2 :: int) ^ L < 2 ^ 63" using assms(2) by (intro power_strict_increasing) simp_all
    have un: "uint (of_nat ?n :: u64) = 2 ^ L" by (rule of_nat_pow_uint[OF L64])
    have "coprime (uint (of_nat ?n :: u64)) ?q" unfolding un using assms(3) by (simp add: coprime_power_left_iff)
    then obtain d where d: "try_invert_uint64_mod (of_nat ?n) m = Some (Some d)" "residue m d" "uint d * 2 ^ L mod ?q = 1"
      using try_invert_result[OF assms(1), of "of_nat ?n"] n63 unfolding un by auto
    obtain y where y: "make_operand d m = Some y" "op_operand y = d" "wf_operand m y"
      using make_operand_correct[OF assms(1) d(2)] by blast
    obtain ps where ps: "fill_powers (\<lambda>i. unat (reverse_low_bits_uint64 (of_nat i) L)) ?n r m = Some ps" "length ps = ?n"
      "\<forall>j<?n. wf_operand m (ps ! j) \<and> uint (op_operand (ps ! j)) = uint r ^ bitrev L j mod ?q"
      using root_powers_order[OF assms(1) r(1) L64] by blast
    obtain qs where qs: "fill_powers (\<lambda>i. unat (reverse_low_bits_uint64 (of_nat (i - 1)) L) + 1) ?n s m = Some qs" "length qs = ?n"
      "\<forall>j<?n. wf_operand m (qs ! j)"
      "\<forall>j. Suc j < ?n \<longrightarrow> uint (op_operand (qs ! Suc j)) = uint s ^ Suc (bitrev L j) mod ?q"
      using inv_root_powers_order[OF assms(1) s(2) L64] by blast
    define T where "T = \<lparr>nt_root = r, nt_coeff_count_power = L, nt_coeff_count = ?n, nt_modulus = m,
      inv_degree_modulo = y, root_powers = ps, inv_root_powers = qs\<rparr>"
    have T: "NTTTables rands L m = Some (Inr T)"
      using L64 t Some s(1) ps(1) qs(1) d(1) y(1) by (simp add: NTTTables_def T_def Let_def del: of_nat_mult)
    have w: "ntt_w T i mod ntt_q T = uint r ^ bitrev L i mod ntt_q T" if "i < ?n" for i
      using ps(3) that by (simp add: ntt_w_def ntt_q_def T_def)
    have tree: "root_tree (ntt_q T) ?n (ntt_w T)"
      by (rule bitrev_root_tree[OF _ _ w]) (use q r(2) in \<open>simp_all add: ntt_q_def T_def\<close>)
    have iw: "ntt_w_inv T (2 ^ L - 2 ^ Suc l + 1 + b) * ntt_w T (2 ^ l + b) mod ntt_q T = 1" if lb: "l < L" "b < 2 ^ l" for l b
    proof -
      let ?j = "2 ^ L - 2 ^ Suc l + b"
      have j: "Suc ?j < ?n" using inv_node_bound[OF lb] by (simp only: add_Suc_right Suc_eq_plus1 add.commute add.left_commute)
      have e: "Suc (bitrev L ?j) = bitrev L (2 ^ l + b)" using bitrev_inverse_order[OF lb] by simp
      have "uint (op_operand (qs ! Suc ?j)) = uint s ^ bitrev L (2 ^ l + b) mod ?q"
        using qs(4)[rule_format, OF j] unfolding e .
      moreover have "2 ^ L - 2 ^ Suc l + 1 + b = Suc ?j" by simp
      ultimately have "ntt_w_inv T (2 ^ L - 2 ^ Suc l + 1 + b) = uint s ^ bitrev L (2 ^ l + b) mod ?q"
        by (simp only: ntt_w_inv_def T_def ntt_tables.select_convs)
      moreover have "ntt_w T (2 ^ l + b) = uint r ^ bitrev L (2 ^ l + b) mod ?q"
        using ps(3) node_bound[OF lb] by (simp add: ntt_w_def T_def)
      moreover have "ntt_q T = ?q" by (simp add: ntt_q_def T_def)
      ultimately show ?thesis using power_inverse[OF s(3) q, of "bitrev L (2 ^ l + b)"] by (simp only: mod_mult_eq)
    qed
    have "wf_ntt_tables L T"
      unfolding wf_ntt_tables_def using assms(1) ps(3) qs(3) tree iw y d(3)
      by (simp add: T_def ntt_q_def)
    then show ?thesis using T t Some ps(2) qs(2) by (intro disjI2 exI[of _ T]) (simp add: T_def)
  qed
qed

text \<open>The constructor uses the draws only to find the root, and the least root of a prime modulus is unique.\<close>

lemma NTTTables_deterministic:
  assumes "wf_modulus m" "L < 63" "odd (uint (mod_value m))" "prime_number (uint (mod_value m))"
    and "NTTTables rands L m = Some (Inr t)" "NTTTables rands' L m = Some (Inr t')"
  shows "t' = t"
proof -
  have R: "try_minimal_primitive_root rands (of_nat (2 * 2 ^ L)) m = Some (Some (nt_root t))"
    using NTTTables_result[OF assms(1-3), of rands] assms(5) by auto
  have R': "try_minimal_primitive_root rands' (of_nat (2 * 2 ^ L)) m = Some (Some (nt_root t'))"
    using NTTTables_result[OF assms(1-3), of rands'] assms(6) by auto
  note m = try_minimal_result[OF assms(1,2) R] and m' = try_minimal_result[OF assms(1,2) R']
  have "nt_root t' = nt_root t"
    using m(2)[OF assms(4) m'(1)] m'(2)[OF assms(4) m(1)] by (simp add: word_uint_eq_iff)
  then have "try_minimal_primitive_root rands' (of_nat (2 * 2 ^ L)) m = try_minimal_primitive_root rands (of_nat (2 * 2 ^ L)) m"
    using R R' by simp
  then have "NTTTables rands' L m = NTTTables rands L m" unfolding NTTTables_def Let_def by simp
  then show ?thesis using assms(5,6) by simp
qed

section \<open>Results\<close>

text \<open>
  C26: For an odd modulus and a degree \<open>2^L\<close> with \<open>L < 63\<close> the constructor of the tables never traps: it throws
  because the search met no root of -1, or it returns tables on which both transforms are correct.
  For a prime modulus the stored root is the least one, and the tables do not depend on the random draws: any
  other draws that succeed give the same tables. (For composite moduli neither holds.)
\<close>

theorem NTTTables_well_formed:
  assumes "wf_modulus m" "L < 63" "odd (uint (mod_value m))"
  shows "(\<exists>e. NTTTables rands L m = Some (Inl e) \<and> try_minimal_primitive_root rands (of_nat (2 * 2 ^ L)) m = Some None) \<or>
    (\<exists>t. NTTTables rands L m = Some (Inr t) \<and> wf_ntt_tables L t \<and> nt_modulus t = m \<and> minus_one_root m (2 ^ L) (nt_root t) \<and>
      (prime_number (uint (mod_value m)) \<longrightarrow> (\<forall>s. minus_one_root m (2 ^ L) s \<longrightarrow> uint (nt_root t) \<le> uint s) \<and>
        (\<forall>rands' t'. NTTTables rands' L m = Some (Inr t') \<longrightarrow> t' = t)))"
proof (cases "\<exists>e. NTTTables rands L m = Some (Inl e)")
  case True
  then show ?thesis using NTTTables_result[OF assms, of rands] by force
next
  case False
  then obtain t where t: "NTTTables rands L m = Some (Inr t)" "wf_ntt_tables L t" "nt_modulus t = m"
    "try_minimal_primitive_root rands (of_nat (2 * 2 ^ L)) m = Some (Some (nt_root t))"
    using NTTTables_result[OF assms, of rands] by blast
  note root = try_minimal_result[OF assms(1,2) t(4)]
  have "t' = t" if p: "prime_number (uint (mod_value m))" and t': "NTTTables rands' L m = Some (Inr t')" for rands' t'
    by (rule NTTTables_deterministic[OF assms p t(1) t'])
  with t root show ?thesis by blast
qed

definition tables_17 :: ntt_tables where
  "tables_17 = \<lparr>nt_root = 2, nt_coeff_count_power = 2, nt_coeff_count = 4, nt_modulus = sample_modulus 17,
     inv_degree_modulo = \<lparr>op_operand = 13, op_quotient = word_of_int (13 * 2 ^ 64 div 17)\<rparr>,
     root_powers = map (\<lambda>x. \<lparr>op_operand = word_of_int x, op_quotient = word_of_int (x * 2 ^ 64 div 17)\<rparr>) [1, 4, 2, 8],
     inv_root_powers = map (\<lambda>x. \<lparr>op_operand = word_of_int x, op_quotient = word_of_int (x * 2 ^ 64 div 17)\<rparr>) [1, 9, 15, 13]\<rparr>"

lemma tables_17_built: "NTTTables (\<lambda>_. 3) 2 (sample_modulus 17) = Some (Inr tables_17)"
  by code_simp

theorem NTTTables_well_formed_witness:
  "wf_ntt_tables 2 tables_17 \<and> nt_modulus tables_17 = sample_modulus 17"
proof -
  have "wf_modulus (sample_modulus 17)" by (simp add: wf_modulus_def sample_modulus_def uint_word_of_int)
  from NTTTables_well_formed[OF this, of 2 "\<lambda>_. 3"] show ?thesis by (simp add: tables_17_built)
qed

end
