(* ===== verification/Ntt_Ring.thy ===== *)
theory Ntt_Ring
  imports Ntt_Tables "HOL-Library.FuncSet"
begin

text \<open>
  The transform as an isomorphism of \<open>Z_q[x]/(x^n + 1)\<close> onto the values at the roots: it is additive,
  injective and onto. Then the wrappers of \<open>src/encryption/utils/ntt.h\<close> for the tables of one modulus,
  as the encryption code calls them.
\<close>

lemma transform_add: "transform L t (\<lambda>i. a i + b i) pos = (transform L t a pos + transform L t b pos) mod ntt_q t"
  by (simp add: transform_def evaluate_at_def distrib_right sum.distrib mod_add_eq)

lemma transform_minus: "transform L t (\<lambda>i. - a i) pos = (- transform L t a pos) mod ntt_q t"
  by (simp add: transform_def evaluate_at_def sum_negf mod_minus_eq)

lemma transform_range:
  assumes "wf_ntt_tables L t"
  shows "0 \<le> transform L t a pos" "transform L t a pos < ntt_q t"
  using ntt_q_bounds(1)[OF wf_ntt_tablesD(1)[OF assms]] by (simp_all add: transform_def)

lemma transform_mod [simp]: "transform L t a pos mod ntt_q t = transform L t a pos"
  by (simp add: transform_def)

subsection \<open>Injective and onto\<close>

definition words_of :: "nat \<Rightarrow> (nat \<Rightarrow> int) \<Rightarrow> u64 list" where
  "words_of n x = map (\<lambda>i. word_of_int (x i)) [0..<n]"

lemma words_of_nth:
  assumes "wf_modulus m" "i < n" "0 \<le> x i" "x i < uint (mod_value m)"
  shows "uint (words_of n x ! i) = x i"
  using assms wf_modulusD(3)[OF assms(1)] by (simp add: words_of_def uint_word_of_int_eq take_bit_int_eq_self)

lemma transform_inject:
  assumes "wf_ntt_tables L t" "0 < L" "L \<le> 64" "\<And>i. i < 2 ^ L \<Longrightarrow> transform L t a i = transform L t b i" "pos < 2 ^ L"
  shows "a pos mod ntt_q t = b pos mod ntt_q t"
proof -
  note T = wf_ntt_tablesD[OF assms(1)]
  let ?x = "words_of (2 ^ L) (transform L t a)" and ?ts = "Componentwise [t]"
  have x: "slice None ?x 0 i = transform L t a i" if "i < 2 ^ L" for i
    using words_of_nth[OF T(1) that] transform_range[OF assms(1)] by (simp add: slice_def read_from_def ntt_q_def)
  have t: "get_table ?ts 0 0 = t" by simp
  have len: "length ?x = 1 * 1 * 2 ^ L" by (simp add: words_of_def)
  note I = intt_inverse[where tables = ?ts and k = 0 and j = 0 and cms = 1 and pcount = 1 and src = None and r = ?x and pos = pos,
      OF assms(2,3) _ _ _ len assms(5), unfolded t]
  have x0: "slice None ?x ((0 * 1 + 0) * 2 ^ L) i = transform L t a i" if "i < 2 ^ L" for i using x[OF that] by simp
  have b: "slice None ?x ((0 * 1 + 0) * 2 ^ L) i \<le> 2 * ntt_q t" if "i < 2 ^ L" for i
    unfolding x0[OF that] using transform_range[OF assms(1), of a i] by linarith
  have "uint (intt None 1 1 L True ?x ?ts ! ((0 * 1 + 0) * 2 ^ L + pos)) = c pos mod ntt_q t"
    if "\<And>i. i < 2 ^ L \<Longrightarrow> transform L t a i = transform L t c i" for c
    by (rule I) (use assms(1) b x0 that in simp_all)
  from this[of a] this[of b] show ?thesis using assms(4) by simp
qed

lemma transform_onto:
  assumes "wf_ntt_tables L t" "0 < L" "L \<le> 64" "\<And>i. i < 2 ^ L \<Longrightarrow> 0 \<le> x i \<and> x i < ntt_q t"
  shows "\<exists>a. \<forall>i<2 ^ L. transform L t a i = x i"
proof -
  let ?S = "PiE {..<2 ^ L :: nat} (\<lambda>_. {0..<ntt_q t})"
  let ?F = "\<lambda>a. restrict (transform L t a) {..<2 ^ L}"
  have fin: "finite ?S" by (intro finite_PiE) simp_all
  have maps: "?F ` ?S \<subseteq> ?S" using transform_range[OF assms(1)] by auto
  have "inj_on ?F ?S"
  proof (rule inj_onI)
    fix a b
    assume a: "a \<in> ?S" and b: "b \<in> ?S" and e: "?F a = ?F b"
    have "transform L t a i = transform L t b i" if "i < 2 ^ L" for i
      using fun_cong[OF e, of i] that by simp
    then have "a i mod ntt_q t = b i mod ntt_q t" if "i < 2 ^ L" for i
      by (rule transform_inject[OF assms(1-3) _ that])
    moreover have "a i mod ntt_q t = a i" "b i mod ntt_q t = b i" if "i < 2 ^ L" for i
      using PiE_mem[OF a, of i] PiE_mem[OF b, of i] that by simp_all
    ultimately have "a i = b i" if "i < 2 ^ L" for i using that by metis
    then show "a = b" by (intro PiE_ext[OF a b]) simp
  qed
  then have "?F ` ?S = ?S" by (rule endo_inj_surj[OF fin maps])
  moreover have "restrict x {..<2 ^ L} \<in> ?S" using assms(4) by simp
  ultimately obtain a where e: "restrict x {..<2 ^ L} = ?F a" by blast
  have "transform L t a i = x i" if "i < 2 ^ L" for i using fun_cong[OF e, of i] that by simp
  then show ?thesis by blast
qed

subsection \<open>The wrappers for one modulus\<close>

definition ntt_inplace_p :: "u64 list \<Rightarrow> nat \<Rightarrow> ntt_tables list \<Rightarrow> error + u64 list" where
  "ntt_inplace_p operand degree tables = ntt_inplace_ps operand 1 (length tables) degree (Componentwise tables)"

definition intt_inplace_p :: "u64 list \<Rightarrow> nat \<Rightarrow> ntt_tables list \<Rightarrow> error + u64 list" where
  "intt_inplace_p operand degree tables = intt_inplace_ps operand 1 (length tables) degree (Componentwise tables)"

lemma get_power_of_two_power:
  assumes "L < 64"
  shows "get_power_of_two (of_nat (2 ^ L)) = int L"
proof -
  have x: "(of_nat (2 ^ L) :: u64) = 2 ^ L" by simp
  have "(2 ^ L :: u64) AND (2 ^ L - 1) = 0"
    unfolding mask_eq_exp_minus_1[symmetric] by (rule bit_word_eqI) (auto simp: bit_and_iff bit_exp_iff bit_mask_iff)
  moreover have u: "uint (2 ^ L :: u64) = 2 ^ L"
    unfolding x[symmetric] by (rule of_nat_pow_uint[OF assms])
  moreover have "(2 ^ L :: u64) \<noteq> 0" using u by (metis power_not_zero unsigned_0 zero_neq_numeral)
  moreover have "get_significant_bit_count (2 ^ L :: u64) = Suc L"
  proof -
    let ?b = "get_significant_bit_count (2 ^ L :: u64)"
    have "has_bits (2 ^ L) ?b" using significant_bits_word[of "2 ^ L"] unfolding u .
    then have "?b \<noteq> 0" "(2 :: int) ^ (?b - 1) \<le> 2 ^ L" "(2 :: int) ^ L < 2 ^ ?b" by (auto simp: has_bits_def split: if_splits)
    then have "?b - 1 \<le> L" "L < ?b" by (simp_all add: power_le_imp_le_exp)
    then show ?thesis using \<open>?b \<noteq> 0\<close> by simp
  qed
  ultimately show ?thesis unfolding get_power_of_two_def x by simp
qed

lemma ntt_inplace_ps_power: "L < 64 \<Longrightarrow> ntt_inplace_ps xs p c (2 ^ L) ts = Inr (ntt None p c L False xs ts)"
  unfolding ntt_inplace_ps_def Let_def get_power_of_two_power by simp

lemma intt_inplace_ps_power: "L < 64 \<Longrightarrow> intt_inplace_ps xs p c (2 ^ L) ts = Inr (intt None p c L True xs ts)"
  unfolding intt_inplace_ps_def Let_def get_power_of_two_power by simp

lemma ntt_inplace_p_result:
  assumes "wf_ntt_tables L t" "0 < L" "L < 64" "length xs = 2 ^ L" "\<And>i. i < 2 ^ L \<Longrightarrow> uint (xs ! i) < 4 * ntt_q t"
  shows "\<exists>ys. ntt_inplace_p xs (2 ^ L) [t] = Inr ys \<and> length ys = 2 ^ L \<and>
    (\<forall>i<2 ^ L. uint (ys ! i) = transform L t (\<lambda>k. uint (xs ! k)) i)"
proof -
  have t: "get_table (Componentwise [t]) 0 0 = t" by simp
  have s: "slice None xs ((0 * 1 + 0) * 2 ^ L) = (\<lambda>k. uint (xs ! k))" by (intro ext) (simp add: slice_def read_from_def)
  have "uint (ntt None 1 1 L False xs (Componentwise [t]) ! ((0 * 1 + 0) * 2 ^ L + i)) = transform L t (\<lambda>k. uint (xs ! k)) i" if "i < 2 ^ L" for i
    using ntt_transform[where tables = "Componentwise [t]" and k = 0 and j = 0 and cms = 1 and pcount = 1 and src = None and r = xs and pos = i,
        OF assms(2) _ _ _ _ that, unfolded t s] assms by simp
  then show ?thesis unfolding ntt_inplace_p_def length_Cons list.size using assms(3,4) by (simp add: ntt_inplace_ps_power)
qed

lemma intt_inplace_ps_result:
  assumes "wf_ntt_tables L t" "0 < L" "L < 64" "length xs = p * 2 ^ L"
    "\<And>i. i < 2 ^ L \<Longrightarrow> uint (xs ! (k * 2 ^ L + i)) \<le> 2 * ntt_q t \<and> uint (xs ! (k * 2 ^ L + i)) mod ntt_q t = transform L t a i"
    "k < p" "pos < 2 ^ L"
  shows "uint (intt None p 1 L True xs (Componentwise [t]) ! (k * 2 ^ L + pos)) = a pos mod ntt_q t"
proof -
  have t: "get_table (Componentwise [t]) k 0 = t" by simp
  show ?thesis
    using intt_inverse[where tables = "Componentwise [t]" and k = k and j = 0 and cms = 1 and pcount = p and src = None and r = xs and pos = pos,
        OF assms(2) _ _ _ _ _ assms(7), unfolded t] assms by (simp add: slice_def read_from_def)
qed

end
