(* ===== verification/Random_Generator.thy ===== *)
theory Random_Generator
  imports Negacyclic Limb_Shift
begin

unbundle bit_operations_syntax

text \<open>
  \<open>src/encryption/utils/random_generator.cu\<close> and its header on the host: the counter-mode generator
  and the samplers of the encryption scheme. The AES of \<open>aes_impl.inc\<close> (a vendored copy of tiny-AES-c)
  is an argument: \<open>aes value seed\<close> is the encryption of the 128-bit \<open>value\<close>.
\<close>

record ruint128 =
  low :: u64
  high :: u64

record random_generator =
  rg_seed :: ruint128
  rg_counter :: ruint128

type_synonym block_cipher = "ruint128 \<Rightarrow> ruint128 \<Rightarrow> ruint128"

definition reset_seed :: "ruint128 \<Rightarrow> random_generator" where
  "reset_seed s = \<lparr>rg_seed = s, rg_counter = \<lparr>low = 0, high = 0\<rparr>\<rparr>"

definition increase_inplace :: "ruint128 \<Rightarrow> ruint128" where
  "increase_inplace c = (let l = low c + 1 in \<lparr>low = l, high = (if l = 0 then high c + 1 else high c)\<rparr>)"

definition add_ruint128 :: "ruint128 \<Rightarrow> u64 \<Rightarrow> ruint128" where
  "add_ruint128 c v = (let l = low c + v in \<lparr>low = l, high = high c + (if l < low c then 1 else 0)\<rparr>)"

definition host_generate_uint128 :: "block_cipher \<Rightarrow> random_generator \<Rightarrow> ruint128 \<times> random_generator" where
  "host_generate_uint128 aes g = (aes (rg_counter g) (rg_seed g), g\<lparr>rg_counter := increase_inplace (rg_counter g)\<rparr>)"

definition sample_uint64 :: "block_cipher \<Rightarrow> random_generator \<Rightarrow> u64 \<times> random_generator" where
  "sample_uint64 aes g = (let (v, g) = host_generate_uint128 aes g in (low v, g))"

text \<open>Filling 64-bit words: whole blocks first (low word, high word), then half a block if the count is odd.\<close>

primrec fill_uint128s :: "block_cipher \<Rightarrow> nat \<Rightarrow> random_generator \<Rightarrow> u64 list \<times> random_generator" where
  "fill_uint128s aes 0 g = ([], g)"
| "fill_uint128s aes (Suc n) g =
     (let (v, g) = host_generate_uint128 aes g; (rest, g) = fill_uint128s aes n g in (low v # high v # rest, g))"

definition fill_uint64s :: "block_cipher \<Rightarrow> nat \<Rightarrow> random_generator \<Rightarrow> u64 list \<times> random_generator" where
  "fill_uint64s aes n g =
     (let (blocks, g) = (if n div 2 > 0 then fill_uint128s aes (n div 2) g else ([], g))
      in if n mod 2 > 0 then let (v, g) = host_generate_uint128 aes g in (blocks @ [low v], g)
         else (blocks, g))"

subsection \<open>The samplers\<close>

text \<open>\<open>hamming_weight\<close> takes a byte: the masked 34-bit words are cut to their low eight bits at the call.\<close>

definition uint64_to_cbd :: "ruint128 \<Rightarrow> int" where
  "uint64_to_cbd rf =
     (let lo = low rf; hi = high rf;
          pos = uint (hamming_weight (ucast (lo AND 0x3FFFFFFFF)));
          neg = uint (hamming_weight (ucast (hi AND 0x3FFFFFFFF)))
      in pos - neg)"

definition sample_ternary_step :: "block_cipher \<Rightarrow> nat \<Rightarrow> modulus list \<Rightarrow> nat \<Rightarrow> u64 list \<times> random_generator \<Rightarrow> u64 list \<times> random_generator" where
  "sample_ternary_step aes degree moduli j = (\<lambda>(destination, g).
     let (rf, g) = host_generate_uint128 aes g; s = uint64_to_cbd rf
     in (fold (\<lambda>i destination. destination[i * degree + j :=
            if s \<ge> 0 then word_of_int s else mod_value (moduli ! i) - word_of_int (- s)])
          [0..<length moduli] destination, g))"

definition sample_poly_ternary :: "block_cipher \<Rightarrow> random_generator \<Rightarrow> u64 list \<Rightarrow> nat \<Rightarrow> modulus list \<Rightarrow> u64 list \<times> random_generator" where
  "sample_poly_ternary aes g destination degree moduli =
     fold (sample_ternary_step aes degree moduli) [0..<degree] (destination, g)"

definition sample_cbd_step :: "block_cipher \<Rightarrow> nat \<Rightarrow> modulus list \<Rightarrow> nat \<Rightarrow> u64 list \<times> random_generator \<Rightarrow> u64 list \<times> random_generator" where
  "sample_cbd_step aes degree moduli j = (\<lambda>(destination, g).
     let (full_word, g) = host_generate_uint128 aes g; r = uint64_to_cbd full_word
     in (fold (\<lambda>i destination. destination[i * degree + j :=
            if r \<ge> 0 then word_of_int r else mod_value (moduli ! i) + word_of_int r])
          [0..<length moduli] destination, g))"

definition sample_poly_centered_binomial :: "block_cipher \<Rightarrow> random_generator \<Rightarrow> u64 list \<Rightarrow> nat \<Rightarrow> modulus list \<Rightarrow> u64 list \<times> random_generator" where
  "sample_poly_centered_binomial aes g destination degree moduli =
     fold (sample_cbd_step aes degree moduli) [0..<degree] (destination, g)"

definition host_modulo_ps :: "u64 list \<Rightarrow> nat \<Rightarrow> nat \<Rightarrow> modulus list \<Rightarrow> u64 list \<Rightarrow> u64 list" where
  "host_modulo_ps polys pcount degree moduli =
     for_ps pcount (length moduli) degree (\<lambda>i j k result.
       let idx = ps_idx (length moduli) degree i j k in result[idx := reduce (moduli ! j) (polys ! idx)])"

definition sample_poly_uniform :: "block_cipher \<Rightarrow> random_generator \<Rightarrow> u64 list \<Rightarrow> nat \<Rightarrow> modulus list \<Rightarrow> u64 list \<times> random_generator" where
  "sample_poly_uniform aes g destination degree moduli =
     (let (words, g) = fill_uint64s aes (length destination) g
      in (host_modulo_ps words 1 degree moduli words, g))"

subsection \<open>The weight of a byte\<close>

definition weighs :: "u8 \<Rightarrow> bool" where
  "weighs x \<longleftrightarrow> hamming_weight x = of_bool (bit x 0) + of_bool (bit x 1) + of_bool (bit x 2) + of_bool (bit x 3) +
     of_bool (bit x 4) + of_bool (bit x 5) + of_bool (bit x 6) + of_bool (bit x 7)"

lemma weighs_table: "list_all (\<lambda>h. list_all (\<lambda>l. weighs (16 * h + l)) [0, 1, 2, 3, 4, 5, 6, 7, 8, 9, 10, 11, 12, 13, 14, 15])
    [0, 1, 2, 3, 4, 5, 6, 7, 8, 9, 10, 11, 12, 13, 14, 15]"
  by code_simp

lemma u8_below_16:
  fixes x :: u8
  assumes "unat x < 16"
  shows "x \<in> set [0, 1, 2, 3, 4, 5, 6, 7, 8, 9, 10, 11, 12, 13, 14, 15]"
proof -
  have "unat x \<in> {0, 1, 2, 3, 4, 5, 6, 7, 8, 9, 10, 11, 12, 13, 14, 15}"
    using assms unfolding insert_iff empty_iff by presburger
  then have "(of_nat (unat x) :: u8) \<in> of_nat ` {0, 1, 2, 3, 4, 5, 6, 7, 8, 9, 10, 11, 12, 13, 14, 15}" by (rule imageI)
  then show ?thesis by simp
qed

text \<open>The weight of a byte is the number of its bits that are set.\<close>

lemma hamming_weight_bits: "uint (hamming_weight x) = (\<Sum>k<8. of_bool (bit x k))"
proof -
  have "unat x < 256" using unsigned_less[of x] by simp
  then have "unat (x div 16) < 16" "unat (x mod 16) < 16" by (simp_all add: unat_div unat_mod)
  then have "weighs (16 * (x div 16) + x mod 16)"
    using weighs_table u8_below_16 unfolding list_all_iff by blast
  then have "weighs x" unfolding mult.commute[of 16 "x div 16"] word_mod_div_equality .
  then have "hamming_weight x = of_nat (\<Sum>k<8. of_bool (bit x k))"
    by (simp add: weighs_def lessThan_nat_numeral lessThan_Suc add.commute add.left_commute add.assoc)
  moreover have "(\<Sum>k<8. of_bool (bit x k)) \<le> (\<Sum>k<8 :: nat. 1 :: nat)" by (rule sum_mono) simp
  ultimately have "unat (hamming_weight x) = (\<Sum>k<8. of_bool (bit x k))" by (simp only: unat_of_nat) simp
  then show ?thesis unfolding uint_nat by simp
qed

lemma hamming_weight_bound: "uint (hamming_weight x) \<le> 8"
proof -
  have "(\<Sum>k<8. of_bool (bit x k)) \<le> (\<Sum>k<8 :: nat. 1 :: int)" by (rule sum_mono) simp
  then show ?thesis unfolding hamming_weight_bits by simp
qed

lemma uint64_to_cbd_bound: "\<bar>uint64_to_cbd rf\<bar> \<le> 8"
  using hamming_weight_bound[of "ucast (low rf AND 0x3FFFFFFFF)"] hamming_weight_bound[of "ucast (high rf AND 0x3FFFFFFFF)"]
    uint_ge_0[of "hamming_weight (ucast (low rf AND 0x3FFFFFFFF))"] uint_ge_0[of "hamming_weight (ucast (high rf AND 0x3FFFFFFFF))"]
  unfolding uint64_to_cbd_def Let_def by linarith

lemma low_byte_masked: "(ucast (x AND 0x3FFFFFFFF) :: u8) = ucast (x AND 0xFF)" for x :: u64
proof (rule bit_word_eqI)
  fix n
  assume "n < LENGTH(8)"
  then have n: "n < 8" by simp
  have m: "(0x3FFFFFFFF :: u64) = Bit_Operations.mask 34" "(0xFF :: u64) = Bit_Operations.mask 8" by (simp_all add: mask_numeral)
  show "bit (ucast (x AND 0x3FFFFFFFF) :: u8) n = bit (ucast (x AND 0xFF) :: u8) n"
    unfolding m using n by (simp add: bit_unsigned_iff bit_and_iff bit_mask_iff)
qed

lemma uint64_to_cbd_low_bytes:
  "uint64_to_cbd \<lparr>low = lo, high = hi\<rparr> = uint64_to_cbd \<lparr>low = lo AND 0xFF, high = hi AND 0xFF\<rparr>"
proof -
  have "(ucast ((x AND 0xFF) AND 0x3FFFFFFFF) :: u8) = ucast (x AND 0x3FFFFFFFF)" for x :: u64
    unfolding low_byte_masked by (simp add: and.assoc)
  then show ?thesis unfolding uint64_to_cbd_def Let_def ruint128.simps by (simp only:)
qed

subsection \<open>What the samplers write\<close>

text \<open>On the host the ternary sampler is the centered binomial one.\<close>

lemma samplers_agree: "sample_poly_ternary = sample_poly_centered_binomial"
proof -
  have "sample_ternary_step = sample_cbd_step"
    by (intro ext) (simp add: sample_ternary_step_def sample_cbd_step_def Let_def wi_hom_neg[symmetric] cong: if_cong split: prod.split)
  then show ?thesis by (intro ext) (simp add: sample_poly_ternary_def sample_poly_centered_binomial_def)
qed

text \<open>A buffer that holds small signed coefficients modulo \<open>q\<close>.\<close>

definition holds_small :: "modulus \<Rightarrow> nat \<Rightarrow> int \<Rightarrow> (nat \<Rightarrow> int) \<Rightarrow> u64 list \<Rightarrow> bool" where
  "holds_small m n B e xs \<longleftrightarrow> length xs = n \<and> (\<forall>j. \<bar>e j\<bar> \<le> B) \<and> (\<forall>j<n. uint (xs ! j) = e j mod uint (mod_value m))"

lemma uint_small_int: "0 \<le> z \<Longrightarrow> z \<le> 8 \<Longrightarrow> uint (word_of_int z :: u64) = z"
  by (simp add: uint_word_of_int_eq take_bit_int_eq_self)

lemma signed_entry:
  assumes "wf_modulus m" "\<bar>s\<bar> \<le> 8" "8 < uint (mod_value m)"
  shows "uint (if s \<ge> 0 then word_of_int s else mod_value m - word_of_int (- s)) = s mod uint (mod_value m)"
proof (cases "s \<ge> 0")
  case True
  then have "uint (word_of_int s :: u64) = s" using assms(2) uint_small_int by simp
  then show ?thesis using True assms(2,3) by simp
next
  case False
  then have w: "uint (word_of_int (- s) :: u64) = - s" using assms(2) by (intro uint_small_int) linarith+
  have "(word_of_int (- s) :: u64) \<le> mod_value m" unfolding word_le_def w using assms(2,3) by linarith
  then have "uint (mod_value m - word_of_int (- s)) = uint (mod_value m) + s"
    using uint_sub_no_borrow[of "word_of_int (- s)" "mod_value m"] w by simp
  moreover have "s mod uint (mod_value m) = uint (mod_value m) + s"
    using mod_neg_residue[of "- s" "uint (mod_value m)"] False assms(2,3) by simp
  ultimately show ?thesis using False by (simp only: if_False)
qed

lemma sample_loop:
  assumes "wf_modulus m" "8 < uint (mod_value m)" "length xs = n"
  shows "k \<le> n \<Longrightarrow> \<exists>e. length (fst (fold (sample_ternary_step aes n [m]) [0..<k] (xs, g))) = n \<and> (\<forall>j. \<bar>e j\<bar> \<le> 8) \<and>
    (\<forall>j<k. uint (fst (fold (sample_ternary_step aes n [m]) [0..<k] (xs, g)) ! j) = e j mod uint (mod_value m))"
proof (induction k)
  case 0
  then show ?case using assms(3) by (auto intro: exI[of _ "\<lambda>_. 0"])
next
  case (Suc k)
  obtain ys h where f: "fold (sample_ternary_step aes n [m]) [0..<k] (xs, g) = (ys, h)" by fastforce
  obtain e where e: "length ys = n" "\<forall>j. \<bar>e j\<bar> \<le> 8" "\<forall>j<k. uint (ys ! j) = e j mod uint (mod_value m)"
    using Suc unfolding f by auto
  define s where "s = uint64_to_cbd (fst (host_generate_uint128 aes h))"
  define x where "x = (if s \<ge> 0 then word_of_int s else mod_value m - word_of_int (- s))"
  have s: "\<bar>s\<bar> \<le> 8" unfolding s_def by (rule uint64_to_cbd_bound)
  have r: "fst (fold (sample_ternary_step aes n [m]) [0..<Suc k] (xs, g)) = ys[k := x]"
    by (simp add: f sample_ternary_step_def s_def x_def Let_def split: prod.split)
  have x: "uint x = s mod uint (mod_value m)" unfolding x_def by (rule signed_entry[OF assms(1) s assms(2)])
  show ?case
    by (rule exI[of _ "e(k := s)"]) (use r e s x Suc.prems in \<open>auto simp: nth_list_update less_Suc_eq\<close>)
qed

lemma sample_poly_ternary_small:
  assumes "wf_modulus m" "8 < uint (mod_value m)" "length xs = n"
  shows "\<exists>e. holds_small m n 8 e (fst (sample_poly_ternary aes g xs n [m]))"
  using sample_loop[OF assms order_refl, of aes g] by (auto simp: holds_small_def sample_poly_ternary_def)

lemma sample_poly_centered_binomial_small:
  assumes "wf_modulus m" "8 < uint (mod_value m)" "length xs = n"
  shows "\<exists>e. holds_small m n 8 e (fst (sample_poly_centered_binomial aes g xs n [m]))"
  unfolding samplers_agree[symmetric] by (rule sample_poly_ternary_small[OF assms])

lemma holds_small_wf:
  assumes "wf_modulus m" "holds_small m n B e xs"
  shows "wf_polys m n 1 xs"
proof -
  have "residue m x" if "x \<in> set xs" for x
    using that assms by (auto simp: holds_small_def in_set_conv_nth intro: residue_intro)
  then show ?thesis using assms(2) by (simp add: wf_polys_def holds_small_def list_all_iff)
qed

lemma length_fill_uint128s: "length (fst (fill_uint128s aes n g)) = 2 * n"
  by (induction n arbitrary: g) (simp_all add: split_def Let_def)

lemma length_fill_uint64s: "length (fst (fill_uint64s aes n g)) = n"
proof -
  obtain ws h where f: "(if n div 2 > 0 then fill_uint128s aes (n div 2) g else ([], g)) = (ws, h)" by fastforce
  have ws: "length ws = 2 * (n div 2)"
  proof (cases "n div 2 > 0")
    case True
    then show ?thesis using f length_fill_uint128s[of aes "n div 2" g] by simp
  qed (use f in simp)
  show ?thesis
  proof (cases "n mod 2 > 0")
    case True
    then have "n = 2 * (n div 2) + 1" by presburger
    then show ?thesis using True ws by (simp add: fill_uint64s_def f Let_def split_def)
  next
    case False
    then have "n = 2 * (n div 2)" by presburger
    then show ?thesis using False ws by (simp add: fill_uint64s_def f Let_def split_def)
  qed
qed

lemma host_modulo_ps_correct:
  assumes "wf_modulus m" "length r = pcount * degree" "0 < degree"
  shows "wf_polys m degree pcount (host_modulo_ps a pcount degree [m] r)"
    and "i < pcount \<Longrightarrow> k < degree \<Longrightarrow> coeff degree (host_modulo_ps a pcount degree [m] r) i k
       = coeff degree a i k mod uint (mod_value m)"
proof -
  note R = for_one_mod[OF assms _ reduce_correct[OF assms(1)], of _ "\<lambda>i k. a ! (i * degree + k)"]
  show "wf_polys m degree pcount (host_modulo_ps a pcount degree [m] r)"
    unfolding host_modulo_ps_def length_Cons list.size by (rule R(1)) (simp add: ps_idx_one Let_def)
  show "i < pcount \<Longrightarrow> k < degree \<Longrightarrow> coeff degree (host_modulo_ps a pcount degree [m] r) i k
       = coeff degree a i k mod uint (mod_value m)"
    unfolding host_modulo_ps_def length_Cons list.size coeff_def
    by (rule R(2)[unfolded coeff_def]) (simp_all add: ps_idx_one Let_def)
qed

lemma sample_poly_uniform_wf:
  assumes "wf_modulus m" "length xs = n" "0 < n"
  shows "wf_polys m n 1 (fst (sample_poly_uniform aes g xs n [m]))"
proof -
  obtain ws h where f: "fill_uint64s aes n g = (ws, h)" by fastforce
  then have "length ws = n" using length_fill_uint64s[of aes n g] by simp
  then show ?thesis
    using host_modulo_ps_correct(1)[OF assms(1), of ws 1 n ws] assms(2,3) by (simp add: sample_poly_uniform_def f)
qed

end
