(* ===== verification/Rlwe.thy ===== *)
theory Rlwe
  imports Ntt_Ring Random_Generator Phase
begin

text \<open>
  Key generation, public-key encryption and decryption of the BFV scheme, for the one coefficient
  modulus the program sets up: \<open>src/encryption/utils/rlwe.cu\<close>, \<open>key_generator.cu\<close>, \<open>encryptor.cu\<close> and
  \<open>decryptor.cu\<close>. A generator argument \<open>None\<close> is the null pointer: the generator of the context is used,
  and so the same stream feeds mask and noise.
\<close>

definition poly_at :: "nat \<Rightarrow> u64 list \<Rightarrow> nat \<Rightarrow> u64 list" where
  "poly_at n data j = take n (drop (j * n) data)"

definition set_poly :: "nat \<Rightarrow> u64 list \<Rightarrow> nat \<Rightarrow> u64 list \<Rightarrow> u64 list" where
  "set_poly n data j p = take (j * n) data @ p @ drop ((j + 1) * n) data"

subsection \<open>Encryptions of zero\<close>

text \<open>The seed of \<open>c_1\<close> is redrawn until it is not 0.\<close>

partial_function (option) nonzero_seed :: "block_cipher \<Rightarrow> random_generator \<Rightarrow> (u64 \<times> random_generator) option" where
  "nonzero_seed aes g =
     (let (s, g) = sample_uint64 aes g in if s = 0 then nonzero_seed aes g else Some (s, g))"

declare nonzero_seed.simps [code]

definition symmetric_with_c1_prng ::
  "block_cipher \<Rightarrow> he_context \<Rightarrow> ntt_tables list \<Rightarrow> u64 list \<Rightarrow> bool \<Rightarrow> random_generator option \<Rightarrow> bool \<Rightarrow> random_generator \<Rightarrow>
    (error + ciphertext \<times> u64 \<times> random_generator option \<times> random_generator) option" where
  "symmetric_with_c1_prng aes C tables sk is_ntt_form c1_prng save_seed context_prng =
     (let n = he_degree C; moduli = [he_q C] in
      case nonzero_seed aes (case c1_prng of None \<Rightarrow> context_prng | Some g \<Rightarrow> g) of
        None \<Rightarrow> None
      | Some (seed, g) \<Rightarrow>
        let (c1_prng, context_prng) = (case c1_prng of None \<Rightarrow> (None, g) | Some _ \<Rightarrow> (Some g, context_prng));
            c1_new_prng = reset_seed \<lparr>low = seed, high = 0\<rparr>;
            c1 = fst (sample_poly_uniform aes c1_new_prng (replicate n 0) n moduli)
        in Some (case (if is_ntt_form \<or> \<not> save_seed then Inr c1 else ntt_inplace_p c1 n tables) of
            Inl e \<Rightarrow> Inl e
          | Inr c1 \<Rightarrow>
            let (noise, context_prng) = sample_poly_centered_binomial aes context_prng (replicate n 0) n moduli;
                c0 = host_dyadic_product_ps sk c1 1 n moduli (replicate n 0)
            in case (if is_ntt_form then map_sum id (\<lambda>noise. (c0, noise)) (ntt_inplace_p noise n tables)
                     else map_sum id (\<lambda>c0. (c0, noise)) (intt_inplace_p c0 n tables)) of
                 Inl e \<Rightarrow> Inl e
               | Inr (c0, noise) \<Rightarrow>
                 let c0 = host_add_ps c0 noise 1 n moduli c0;
                     c0 = host_negate_ps c0 1 n moduli c0
                 in map_sum id (\<lambda>c1. (\<lparr>polynomial_count = 2, ct_data = c0 @ c1\<rparr>, if save_seed then seed else 0, c1_prng, context_prng))
                      (if \<not> is_ntt_form \<and> \<not> save_seed then intt_inplace_p c1 n tables else Inr c1)))"

definition noise_step :: "block_cipher \<Rightarrow> he_context \<Rightarrow> ntt_tables list \<Rightarrow> bool \<Rightarrow> nat \<Rightarrow>
    error + u64 list \<times> u64 list \<times> random_generator \<Rightarrow> error + u64 list \<times> u64 list \<times> random_generator" where
  "noise_step aes C tables is_ntt_form j s =
     (case s of
        Inl e \<Rightarrow> Inl e
      | Inr (data, u, context_prng) \<Rightarrow>
        let n = he_degree C; (u, context_prng) = sample_poly_centered_binomial aes context_prng u n [he_q C]
        in map_sum id (\<lambda>u. (set_poly n data j (host_add_ps (poly_at n data j) u 1 n [he_q C] (poly_at n data j)), u, context_prng))
             (if is_ntt_form then ntt_inplace_p u n tables else Inr u))"

definition asymmetric_with_u_prng ::
  "block_cipher \<Rightarrow> he_context \<Rightarrow> ntt_tables list \<Rightarrow> ciphertext \<Rightarrow> bool \<Rightarrow> random_generator option \<Rightarrow> random_generator \<Rightarrow>
    error + ciphertext \<times> random_generator option \<times> random_generator" where
  "asymmetric_with_u_prng aes C tables public_key is_ntt_form u_prng context_prng =
     (let n = he_degree C; moduli = [he_q C]; encrypted_size = polynomial_count public_key;
          (u, u_prng, context_prng) = (case u_prng of
              None \<Rightarrow> let (u, g) = sample_poly_ternary aes context_prng (replicate n 0) n moduli in (u, None, g)
            | Some g \<Rightarrow> let (u, g) = sample_poly_ternary aes g (replicate n 0) n moduli in (u, Some g, context_prng))
      in case ntt_inplace_p u n tables of
           Inl e \<Rightarrow> Inl e
         | Inr u \<Rightarrow>
           let data = concat (map (\<lambda>j. host_dyadic_product_ps u (poly_at n (ct_data public_key) j) 1 n moduli (replicate n 0)) [0..<encrypted_size])
           in case (if \<not> is_ntt_form then intt_inplace_ps data encrypted_size (length tables) n (Componentwise tables) else Inr data) of
                Inl e \<Rightarrow> Inl e
              | Inr data \<Rightarrow>
                map_sum id (\<lambda>(data, _, context_prng). (\<lparr>polynomial_count = encrypted_size, ct_data = data\<rparr>, u_prng, context_prng))
                  (fold (noise_step aes C tables is_ntt_form) [0..<encrypted_size] (Inr (data, u, context_prng))))"

subsection \<open>Keys\<close>

definition KeyGenerator :: "block_cipher \<Rightarrow> he_context \<Rightarrow> ntt_tables list \<Rightarrow> random_generator \<Rightarrow> error + u64 list \<times> random_generator" where
  "KeyGenerator aes C tables rng =
     (let n = he_degree C; (sk, rng) = sample_poly_ternary aes rng (replicate n 0) n [he_q C]
      in map_sum id (\<lambda>sk. (sk, rng)) (ntt_inplace_p sk n tables))"

definition generate_pk ::
  "block_cipher \<Rightarrow> he_context \<Rightarrow> ntt_tables list \<Rightarrow> u64 list \<Rightarrow> bool \<Rightarrow> random_generator option \<Rightarrow> random_generator \<Rightarrow>
    (error + ciphertext \<times> u64 \<times> random_generator option \<times> random_generator) option" where
  "generate_pk aes C tables sk save_seed u_prng rng = symmetric_with_c1_prng aes C tables sk True u_prng save_seed rng"

subsection \<open>The encryptor\<close>

record encryptor =
  en_public_key :: "ciphertext option"
  en_secret_key :: "u64 list option"

definition encrypt_zero_internal ::
  "block_cipher \<Rightarrow> he_context \<Rightarrow> ntt_tables list \<Rightarrow> encryptor \<Rightarrow> bool \<Rightarrow> bool \<Rightarrow> bool \<Rightarrow> random_generator option \<Rightarrow> random_generator \<Rightarrow>
    (error + ciphertext \<times> u64 \<times> random_generator option \<times> random_generator) option" where
  "encrypt_zero_internal aes C tables en is_ntt_form is_asymmetric save_seed u_prng rng =
     (if is_asymmetric \<and> en_public_key en = None then
        Some (Inl (InvalidArgument ''[Encryptor::encrypt_zero_internal] Public key not set for asymmetric encryption.''))
      else if \<not> is_asymmetric \<and> en_secret_key en = None then
        Some (Inl (InvalidArgument ''[Encryptor::encrypt_zero_internal] Secret key not set for symmetric encryption.''))
      else if save_seed \<and> is_asymmetric then
        Some (Inl (InvalidArgument ''[Encryptor::encrypt_zero_internal] Cannot save seed when using asymmetric encryption.''))
      else if is_asymmetric then
        Some (map_sum id (\<lambda>(ct, u_prng, rng). (ct, 0, u_prng, rng))
          (asymmetric_with_u_prng aes C tables (the (en_public_key en)) is_ntt_form u_prng rng))
      else symmetric_with_c1_prng aes C tables (the (en_secret_key en)) is_ntt_form u_prng save_seed rng)"

text \<open>The BFV branch, for a plaintext modulo \<open>t\<close>: it is scaled and added to the first polynomial.\<close>

definition encrypt_internal ::
  "block_cipher \<Rightarrow> he_context \<Rightarrow> ntt_tables list \<Rightarrow> encryptor \<Rightarrow> u64 list \<Rightarrow> bool \<Rightarrow> bool \<Rightarrow> random_generator option \<Rightarrow> random_generator \<Rightarrow>
    (error + ciphertext \<times> u64 \<times> random_generator option \<times> random_generator) option" where
  "encrypt_internal aes C tables en plain is_asymmetric save_seed u_prng rng =
     (case encrypt_zero_internal aes C tables en False is_asymmetric save_seed u_prng rng of
        None \<Rightarrow> None
      | Some (Inl e) \<Rightarrow> Some (Inl e)
      | Some (Inr (ct, seed, u_prng, rng)) \<Rightarrow>
          map_option (map_sum id (\<lambda>ct. (ct, seed, u_prng, rng))) (add_plain C ct plain))"

subsection \<open>The decryptor\<close>

definition dot_product_ct_sk_array ::
  "he_context \<Rightarrow> ntt_tables list \<Rightarrow> u64 list \<Rightarrow> bool \<Rightarrow> ciphertext \<Rightarrow> error + u64 list" where
  "dot_product_ct_sk_array C tables secret_key_array is_ntt_form encrypted =
     (let n = he_degree C; moduli = [he_q C]; c0 = poly_at n (ct_data encrypted) 0; c1 = poly_at n (ct_data encrypted) 1;
          s = take n secret_key_array
      in if is_ntt_form then
           let destination = host_dyadic_product_ps c1 s 1 n moduli (replicate n 0)
           in Inr (host_add_ps destination c0 1 n moduli destination)
         else case ntt_inplace_p c1 n tables of
             Inl e \<Rightarrow> Inl e
           | Inr destination \<Rightarrow>
             map_sum id (\<lambda>destination. host_add_ps destination c0 1 n moduli destination)
               (intt_inplace_p (host_dyadic_product_ps destination s 1 n moduli destination) n tables))"

definition bfv_decrypt_without_scaling_down ::
  "he_context \<Rightarrow> ntt_tables list \<Rightarrow> u64 list \<Rightarrow> bool \<Rightarrow> ciphertext \<Rightarrow> error + u64 list" where
  "bfv_decrypt_without_scaling_down C tables secret_key_array is_ntt_form encrypted =
     (if is_ntt_form then Inl (InvalidArgument ''[Decryptor::bfv_decrypt] Ciphertext is in NTT form.'')
      else dot_product_ct_sk_array C tables secret_key_array is_ntt_form encrypted)"

end
