(* ===== verification/Rlwe_Poly.thy ===== *)
theory Rlwe_Poly
  imports Ntt_Ring Random_Generator Phase
begin

text \<open>
  The polynomials the encryption code handles, with what they stand for: a buffer \<open>holds\<close> the
  coefficients of \<open>a\<close> modulo \<open>q\<close>, or it is the \<open>image_of a\<close> under the transform. One lemma per
  polynomial routine, so that the scheme is verified on integer polynomials.
\<close>

definition holds :: "ntt_tables \<Rightarrow> nat \<Rightarrow> u64 list \<Rightarrow> (nat \<Rightarrow> int) \<Rightarrow> bool" where
  "holds t L xs a \<longleftrightarrow> length xs = 2 ^ L \<and> (\<forall>i<2 ^ L. uint (xs ! i) = a i mod ntt_q t)"

definition image_of :: "ntt_tables \<Rightarrow> nat \<Rightarrow> u64 list \<Rightarrow> (nat \<Rightarrow> int) \<Rightarrow> bool" where
  "image_of t L xs a \<longleftrightarrow> length xs = 2 ^ L \<and> (\<forall>i<2 ^ L. uint (xs ! i) = transform L t a i)"

definition ready_tables :: "ntt_tables \<Rightarrow> nat \<Rightarrow> bool" where
  "ready_tables t L \<longleftrightarrow> wf_ntt_tables L t \<and> 0 < L \<and> L < 63"

lemma ready_tablesD:
  assumes "ready_tables t L"
  shows "wf_ntt_tables L t" "0 < L" "L < 64" "wf_modulus (nt_modulus t)" "1 < ntt_q t" "(0 :: nat) < 2 ^ L"
  using assms wf_ntt_tablesD(1)[of L t] ntt_q_bounds(1)[of t] by (auto simp: ready_tables_def)

lemma holds_wf:
  assumes "ready_tables t L" "holds t L xs a"
  shows "wf_polys (nt_modulus t) (2 ^ L) 1 xs"
  using assms(2) ready_tablesD[OF assms(1)]
  by (intro wf_polys_intro) (auto simp: holds_def residue_def ntt_q_def)

lemma image_wf:
  assumes "ready_tables t L" "image_of t L xs a"
  shows "wf_polys (nt_modulus t) (2 ^ L) 1 xs"
  using assms(2) ready_tablesD(4,6)[OF assms(1)] transform_range[OF ready_tablesD(1)[OF assms(1)], of a]
  by (intro wf_polys_intro) (auto simp: image_of_def residue_def ntt_q_def)

lemma holds_small_holds: "holds_small (nt_modulus t) (2 ^ L) B e xs \<Longrightarrow> holds t L xs e"
  by (simp add: holds_small_def holds_def ntt_q_def)

lemma image_unfold: "image_of t L xs a \<Longrightarrow> i < 2 ^ L \<Longrightarrow> coeff (2 ^ L) xs 0 i = transform L t a i"
  by (simp add: image_of_def coeff_def)

lemma holds_unfold: "holds t L xs a \<Longrightarrow> i < 2 ^ L \<Longrightarrow> coeff (2 ^ L) xs 0 i = a i mod ntt_q t"
  by (simp add: holds_def coeff_def)

lemma image_intro:
  "wf_polys m (2 ^ L) 1 xs \<Longrightarrow> (\<And>i. i < 2 ^ L \<Longrightarrow> coeff (2 ^ L) xs 0 i = transform L t a i) \<Longrightarrow> image_of t L xs a"
  by (simp add: image_of_def coeff_def wf_polys_def)

lemma holds_intro:
  "wf_polys m (2 ^ L) 1 xs \<Longrightarrow> (\<And>i. i < 2 ^ L \<Longrightarrow> coeff (2 ^ L) xs 0 i = a i mod ntt_q t) \<Longrightarrow> holds t L xs a"
  by (simp add: holds_def coeff_def wf_polys_def)

text \<open>Every reduced buffer is an image: the transform is onto.\<close>

lemma image_exists:
  assumes "ready_tables t L" "wf_polys (nt_modulus t) (2 ^ L) 1 xs"
  shows "\<exists>a. image_of t L xs a"
proof -
  have "uint (xs ! i) < ntt_q t" if "i < 2 ^ L" for i
    using wf_polys_residue[OF assms(2) zero_less_one that] by (simp add: residue_def ntt_q_def)
  then obtain a where "\<forall>i<2 ^ L. transform L t a i = uint (xs ! i)"
    using transform_onto[OF ready_tablesD(1,2)[OF assms(1)], of "\<lambda>i. uint (xs ! i)"] ready_tablesD(3)[OF assms(1)] by auto
  then show ?thesis using assms(2) by (auto simp: image_of_def wf_polys_def intro!: exI[of _ a])
qed

lemma ntt_image:
  assumes "ready_tables t L" "holds t L xs a"
  shows "\<exists>ys. ntt_inplace_p xs (2 ^ L) [t] = Inr ys \<and> image_of t L ys a"
proof -
  note R = ready_tablesD[OF assms(1)]
  have "uint (xs ! i) < 4 * ntt_q t" if "i < 2 ^ L" for i
  proof -
    have "uint (xs ! i) < ntt_q t" using assms(2) R(5) that by (simp add: holds_def)
    then show ?thesis using R(5) by linarith
  qed
  moreover have "transform L t (\<lambda>k. uint (xs ! k)) = transform L t a"
    using assms(2) by (intro transform_cong) (simp add: holds_def)
  ultimately show ?thesis
    using ntt_inplace_p_result[OF R(1-3), of xs] assms(2) by (auto simp: holds_def image_of_def)
qed

lemma length_intt_result:
  assumes "length xs = p * 2 ^ L"
  shows "length (intt None p 1 L True xs ts) = p * 2 ^ L"
  using assms by simp

lemma intt_holds:
  assumes "ready_tables t L" "image_of t L xs a"
  shows "\<exists>ys. intt_inplace_p xs (2 ^ L) [t] = Inr ys \<and> holds t L ys a"
proof -
  note R = ready_tablesD[OF assms(1)]
  let ?ys = "intt None 1 1 L True xs (Componentwise [t])"
  have len: "length xs = 1 * 2 ^ L" using assms(2) by (simp add: image_of_def)
  have i: "uint (xs ! (0 * 2 ^ L + i)) \<le> 2 * ntt_q t \<and> uint (xs ! (0 * 2 ^ L + i)) mod ntt_q t = transform L t a i" if "i < 2 ^ L" for i
    using assms(2) that transform_range[OF R(1), of a i] R(5) by (simp add: image_of_def)
  have "uint (?ys ! (0 * 2 ^ L + pos)) = a pos mod ntt_q t" if "pos < 2 ^ L" for pos
    by (rule intt_inplace_ps_result[OF R(1-3) len i zero_less_one that])
  then show ?thesis
    using length_intt_result[OF len] R(3) by (simp add: intt_inplace_p_def intt_inplace_ps_power holds_def)
qed

subsection \<open>The ring operations\<close>

lemma image_dyadic:
  assumes "ready_tables t L" "image_of t L x a" "image_of t L y b" "length r = 2 ^ L"
  shows "image_of t L (host_dyadic_product_ps x y 1 (2 ^ L) [nt_modulus t] r) (nmul (2 ^ L) a b)"
proof -
  note R = ready_tablesD[OF assms(1)] and D = host_dyadic_product_ps_correct[OF ready_tablesD(4)[OF assms(1)], where r = r and pcount = 1 and degree = "2 ^ L" and a = x and b = y]
  show ?thesis
    by (rule image_intro[OF D(1)])
      (simp_all add: assms(4) D(2) image_unfold[OF assms(2)] image_unfold[OF assms(3)] transform_nmul[OF R(1)] del: One_nat_def flip: ntt_q_def)
qed

lemma image_add:
  assumes "ready_tables t L" "image_of t L x a" "image_of t L y b" "length r = 2 ^ L"
  shows "image_of t L (host_add_ps x y 1 (2 ^ L) [nt_modulus t] r) (\<lambda>i. a i + b i)"
proof -
  note D = host_add_ps_correct[OF ready_tablesD(4)[OF assms(1)] image_wf[OF assms(1,2)] image_wf[OF assms(1,3)], of r]
  show ?thesis
    by (rule image_intro[OF D(1)])
      (simp_all add: assms(4) D(2) image_unfold[OF assms(2)] image_unfold[OF assms(3)] transform_add del: One_nat_def flip: ntt_q_def)
qed

lemma image_negate:
  assumes "ready_tables t L" "image_of t L x a" "length r = 2 ^ L"
  shows "image_of t L (host_negate_ps x 1 (2 ^ L) [nt_modulus t] r) (\<lambda>i. - a i)"
proof -
  note D = host_negate_ps_correct[OF ready_tablesD(4)[OF assms(1)] image_wf[OF assms(1,2)], of r]
  show ?thesis
    by (rule image_intro[OF D(1)])
      (simp_all add: assms(3) D(2) image_unfold[OF assms(2)] transform_minus del: One_nat_def flip: ntt_q_def)
qed

lemma holds_add:
  assumes "ready_tables t L" "holds t L x a" "holds t L y b" "length r = 2 ^ L"
  shows "holds t L (host_add_ps x y 1 (2 ^ L) [nt_modulus t] r) (\<lambda>i. a i + b i)"
proof -
  note D = host_add_ps_correct[OF ready_tablesD(4)[OF assms(1)] holds_wf[OF assms(1,2)] holds_wf[OF assms(1,3)], of r]
  show ?thesis
    by (rule holds_intro[OF D(1)])
      (simp_all add: assms(4) D(2) holds_unfold[OF assms(2)] holds_unfold[OF assms(3)] mod_add_eq del: One_nat_def flip: ntt_q_def)
qed

lemma holds_negate:
  assumes "ready_tables t L" "holds t L x a" "length r = 2 ^ L"
  shows "holds t L (host_negate_ps x 1 (2 ^ L) [nt_modulus t] r) (\<lambda>i. - a i)"
proof -
  note D = host_negate_ps_correct[OF ready_tablesD(4)[OF assms(1)] holds_wf[OF assms(1,2)], of r]
  show ?thesis
    by (rule holds_intro[OF D(1)])
      (simp_all add: assms(3) D(2) holds_unfold[OF assms(2)] mod_minus_eq del: One_nat_def flip: ntt_q_def)
qed

section \<open>Results\<close>

text \<open>
  C25: Transforming a reduced polynomial and transforming back gives the polynomial, word for word, for every degree
  \<open>2^L\<close> and every modulus with well-formed tables.
\<close>

theorem ntt_round_trip:
  assumes "ready_tables t L" "wf_polys (nt_modulus t) (2 ^ L) 1 xs"
  shows "\<exists>ys. ntt_inplace_p xs (2 ^ L) [t] = Inr ys \<and> intt_inplace_p ys (2 ^ L) [t] = Inr xs"
proof -
  have q: "uint (xs ! i) < ntt_q t" if "i < 2 ^ L" for i
    using wf_polys_residue[OF assms(2) zero_less_one that] by (simp add: residue_def ntt_q_def)
  have h: "holds t L xs (\<lambda>i. uint (xs ! i))" using assms(2) q by (simp add: holds_def wf_polys_def)
  obtain ys zs where r: "ntt_inplace_p xs (2 ^ L) [t] = Inr ys" "intt_inplace_p ys (2 ^ L) [t] = Inr zs" "holds t L zs (\<lambda>i. uint (xs ! i))"
    using ntt_image[OF assms(1) h] intt_holds[OF assms(1)] by blast
  have "zs = xs" by (rule nth_equalityI) (use r(3) h in \<open>auto simp: holds_def word_uint_eq_iff\<close>)
  with r(1,2) show ?thesis by blast
qed

text \<open>
  C24: Multiplying two polynomials value by value in the transformed domain and transforming back gives their product
  modulo \<open>x^n + 1\<close> and \<open>q\<close>.
\<close>

theorem ntt_multiplies:
  assumes "ready_tables t L" "wf_polys (nt_modulus t) (2 ^ L) 1 xs" "wf_polys (nt_modulus t) (2 ^ L) 1 ys" "length r = 2 ^ L"
  shows "\<exists>x' y' zs. ntt_inplace_p xs (2 ^ L) [t] = Inr x' \<and> ntt_inplace_p ys (2 ^ L) [t] = Inr y' \<and>
    intt_inplace_p (host_dyadic_product_ps x' y' 1 (2 ^ L) [nt_modulus t] r) (2 ^ L) [t] = Inr zs \<and>
    (\<forall>k<2 ^ L. uint (zs ! k) = nmul (2 ^ L) (\<lambda>i. uint (xs ! i)) (\<lambda>i. uint (ys ! i)) k mod ntt_q t)"
proof -
  have h: "holds t L xs (\<lambda>i. uint (xs ! i))" if "wf_polys (nt_modulus t) (2 ^ L) 1 xs" for xs
    using that wf_polys_residue[OF that zero_less_one] by (simp add: holds_def wf_polys_def residue_def ntt_q_def)
  obtain x' y' where x: "ntt_inplace_p xs (2 ^ L) [t] = Inr x'" "image_of t L x' (\<lambda>i. uint (xs ! i))"
    and y: "ntt_inplace_p ys (2 ^ L) [t] = Inr y'" "image_of t L y' (\<lambda>i. uint (ys ! i))"
    using ntt_image[OF assms(1) h[OF assms(2)]] ntt_image[OF assms(1) h[OF assms(3)]] by blast
  from intt_holds[OF assms(1) image_dyadic[OF assms(1) x(2) y(2) assms(4)]] x(1) y(1)
  show ?thesis unfolding holds_def by blast
qed

lemma tables_17_ready: "ready_tables tables_17 2"
proof -
  have "wf_modulus (sample_modulus 17)" by (simp add: wf_modulus_def sample_modulus_def uint_word_of_int)
  from NTTTables_result[OF this, of 2 "\<lambda>_. 3"] show ?thesis by (simp add: tables_17_built ready_tables_def)
qed

lemma polys_17: "wf_polys (nt_modulus tables_17) 4 1 [1, 2, 3, 4]" "wf_polys (nt_modulus tables_17) 4 1 [0, 0, 1, 0]"
  by (simp_all add: wf_polys_def tables_17_def residue_def)

theorem ntt_round_trip_witness:
  "\<exists>ys. ntt_inplace_p [1, 2, 3, 4] 4 [tables_17] = Inr ys \<and> intt_inplace_p ys 4 [tables_17] = Inr [1, 2, 3, 4]"
  using ntt_round_trip[OF tables_17_ready, of "[1, 2, 3, 4]"] polys_17 by simp

theorem ntt_multiplies_witness:
  "\<exists>x' y' zs. ntt_inplace_p [1, 2, 3, 4] 4 [tables_17] = Inr x' \<and> ntt_inplace_p [0, 0, 1, 0] 4 [tables_17] = Inr y' \<and>
    intt_inplace_p (host_dyadic_product_ps x' y' 1 4 [sample_modulus 17] [0, 0, 0, 0]) 4 [tables_17] = Inr zs \<and> uint (zs ! 0) = 14"
proof -
  have "nmul 4 (\<lambda>i. uint ([1, 2, 3, 4 :: u64] ! i)) (\<lambda>i. uint ([0, 0, 1, 0 :: u64] ! i)) 0 mod 17 = 14" by code_simp
  moreover have "ntt_q tables_17 = 17" "nt_modulus tables_17 = sample_modulus 17" by (simp_all add: ntt_q_def tables_17_def)
  ultimately show ?thesis
    using ntt_multiplies[OF tables_17_ready, of "[1, 2, 3, 4]" "[0, 0, 1, 0]" "[0, 0, 0, 0]"] polys_17 by fastforce
qed

end
