(* ===== verification/Rlwe_Correct.thy ===== *)
theory Rlwe_Correct
  imports Rlwe Rlwe_Poly
begin

text \<open>
  Keys, encryption and decryption are correct: for every block cipher and every state of the generators,
  an encryption of zero has a phase of size at most \<open>fresh_noise L\<close>, a public-key encryption encodes
  its plaintext, and decryption computes the phase.
\<close>

definition ntt_ready :: "he_context \<Rightarrow> ntt_tables \<Rightarrow> nat \<Rightarrow> bool" where
  "ntt_ready C t L \<longleftrightarrow> wf_context C \<and> he_degree C = 2 ^ L \<and> ready_tables t L \<and> nt_modulus t = he_q C \<and> 8 < q_of C"

lemma ntt_readyD:
  assumes "ntt_ready C t L"
  shows "wf_context C" "he_degree C = 2 ^ L" "ready_tables t L" "nt_modulus t = he_q C" "8 < q_of C" "ntt_q t = q_of C"
    "wf_modulus (he_q C)" "8 < uint (mod_value (nt_modulus t))"
  using assms wf_contextD(1)[of C] by (simp_all add: ntt_ready_def ntt_q_def)

definition small :: "(nat \<Rightarrow> int) \<Rightarrow> bool" where
  "small e \<longleftrightarrow> (\<forall>j. \<bar>e j\<bar> \<le> 8)"

definition fresh_noise :: "nat \<Rightarrow> int" where
  "fresh_noise L = 8 + 128 * 2 ^ L"

subsection \<open>Buffers of one and two polynomials\<close>

lemma poly_at_append:
  "length a = n \<Longrightarrow> poly_at n (a @ b) 0 = a"
  "length a = n \<Longrightarrow> length b = n \<Longrightarrow> poly_at n (a @ b) (Suc 0) = b"
  by (simp_all add: poly_at_def)

lemma set_poly_append:
  "length a = n \<Longrightarrow> set_poly n (a @ b) 0 p = p @ b"
  "length a = n \<Longrightarrow> length b = n \<Longrightarrow> set_poly n (a @ b) (Suc 0) p = a @ p"
  by (simp_all add: set_poly_def)

lemma sampled:
  assumes "ntt_ready C t L" "length xs = 2 ^ L"
  obtains ys g' e where "sample_poly_ternary aes g xs (2 ^ L) [he_q C] = (ys, g')" "holds t L ys e" "small e"
proof -
  note R = ntt_readyD[OF assms(1)]
  obtain ys g' where s: "sample_poly_ternary aes g xs (2 ^ L) [he_q C] = (ys, g')" by fastforce
  obtain e where "holds_small (he_q C) (2 ^ L) 8 e ys"
    using sample_poly_ternary_small[OF R(7) R(5) assms(2), of aes g] s by auto
  then have "holds t L ys e" "small e"
    using holds_small_holds[of t L 8 e ys] R(4) by (auto simp: holds_small_def small_def)
  with s show thesis by (rule that)
qed

lemma length_dyadic: "wf_modulus m \<Longrightarrow> length r = n \<Longrightarrow> 0 < n \<Longrightarrow> length (host_dyadic_product_ps x y 1 n [m] r) = n"
  using host_dyadic_product_ps_correct(1)[of m r 1 n x y] by (simp add: wf_polys_def)

lemma noise_step_adds:
  assumes "ntt_ready C t L" "length u = 2 ^ L" "holds t L (poly_at (2 ^ L) data j) b" "data = x @ y" "length x = 2 ^ L" "length y = 2 ^ L"
    "j = 0 \<or> j = 1"
  obtains p u' g' e where "noise_step aes C [t] False j (Inr (data, u, g)) = Inr (set_poly (2 ^ L) data j p, u', g')"
    "length u' = 2 ^ L" "length p = 2 ^ L" "holds t L p (\<lambda>i. b i + e i)" "small e"
proof -
  note R = ntt_readyD[OF assms(1)]
  obtain u' g' e where s: "sample_poly_ternary aes g u (2 ^ L) [he_q C] = (u', g')" "holds t L u' e" "small e"
    by (rule sampled[OF assms(1,2)])
  let ?p = "host_add_ps (poly_at (2 ^ L) data j) u' 1 (2 ^ L) [he_q C] (poly_at (2 ^ L) data j)"
  have len: "length (poly_at (2 ^ L) data j) = 2 ^ L" using assms(3) by (simp add: holds_def)
  have p: "holds t L ?p (\<lambda>i. b i + e i)" using holds_add[OF R(3) assms(3) s(2) len] by (simp add: R(4))
  have "noise_step aes C [t] False j (Inr (data, u, g)) = Inr (set_poly (2 ^ L) data j ?p, u', g')"
    using s(1) by (simp add: noise_step_def R(2) samplers_agree[symmetric] Let_def)
  then show thesis by (rule that[OF _ _ _ p s(3)]) (use s(2) p in \<open>simp_all add: holds_def\<close>)
qed

lemma noise_added:
  assumes "ntt_ready C t L" "length u = 2 ^ L" "holds t L x a" "holds t L y b"
  obtains x' y' u' g' e0 e1 where
    "fold (noise_step aes C [t] False) [0..<2] (Inr (x @ y, u, g)) = Inr (x' @ y', u', g')"
    "holds t L x' (\<lambda>i. a i + e0 i)" "holds t L y' (\<lambda>i. b i + e1 i)" "small e0" "small e1"
proof -
  have l: "length x = 2 ^ L" "length y = 2 ^ L" using assms(3,4) by (simp_all add: holds_def)
  have h0: "holds t L (poly_at (2 ^ L) (x @ y) 0) a" using assms(3) l by (simp add: poly_at_append)
  obtain x' u1 g1 e0 where s0: "noise_step aes C [t] False 0 (Inr (x @ y, u, g)) = Inr (set_poly (2 ^ L) (x @ y) 0 x', u1, g1)"
    "length u1 = 2 ^ L" "length x' = 2 ^ L" "holds t L x' (\<lambda>i. a i + e0 i)" "small e0"
    by (rule noise_step_adds[OF assms(1,2) h0 refl l]) simp
  have h1: "holds t L (poly_at (2 ^ L) (x' @ y) 1) b" using assms(4) l s0(3) by (simp add: poly_at_append)
  obtain y' u2 g2 e1 where s1: "noise_step aes C [t] False 1 (Inr (x' @ y, u1, g1)) = Inr (set_poly (2 ^ L) (x' @ y) 1 y', u2, g2)"
    "length u2 = 2 ^ L" "length y' = 2 ^ L" "holds t L y' (\<lambda>i. b i + e1 i)" "small e1"
    by (rule noise_step_adds[OF assms(1) s0(2) h1 refl s0(3) l(2)]) simp
  have "[0..<2] = [0, Suc 0]" by (simp add: upt_rec)
  then have "fold (noise_step aes C [t] False) [0..<2] (Inr (x @ y, u, g)) = Inr (x' @ y', u2, g2)"
    using s0(1) s1(1) l s0(3) by (simp add: set_poly_append)
  then show thesis by (rule that[OF _ s0(4) s1(4) s0(5) s1(5)])
qed

subsection \<open>Keys\<close>

definition secret_key_of :: "ntt_tables \<Rightarrow> nat \<Rightarrow> secret \<Rightarrow> u64 list \<Rightarrow> bool" where
  "secret_key_of t L s sk \<longleftrightarrow> image_of t L sk s \<and> small s"

definition public_key_of :: "ntt_tables \<Rightarrow> nat \<Rightarrow> secret \<Rightarrow> ciphertext \<Rightarrow> bool" where
  "public_key_of t L s pk \<longleftrightarrow> polynomial_count pk = 2 \<and> (\<exists>p0 p1 a e. ct_data pk = p0 @ p1 \<and>
     image_of t L p1 a \<and> image_of t L p0 (\<lambda>i. - (nmul (2 ^ L) s a i + e i)) \<and> small e)"

lemma KeyGenerator_result:
  assumes "ntt_ready C t L"
  shows "\<exists>sk rng' s. KeyGenerator aes C [t] rng = Inr (sk, rng') \<and> secret_key_of t L s sk"
proof -
  note R = ntt_readyD[OF assms]
  obtain xs g' s where x: "sample_poly_ternary aes rng (replicate (2 ^ L) 0) (2 ^ L) [he_q C] = (xs, g')" "holds t L xs s" "small s"
    by (rule sampled[OF assms]) auto
  obtain sk where "ntt_inplace_p xs (2 ^ L) [t] = Inr sk" "image_of t L sk s" using ntt_image[OF R(3) x(2)] by blast
  then show ?thesis using x by (auto simp: KeyGenerator_def R(2) secret_key_of_def)
qed

lemma generate_pk_result:
  assumes "ntt_ready C t L" "secret_key_of t L s sk"
    "nonzero_seed aes (case u_prng of None \<Rightarrow> rng | Some g \<Rightarrow> g) = Some (seed, g)"
  shows "\<exists>pk u_prng' rng'. generate_pk aes C [t] sk save_seed u_prng rng = Some (Inr (pk, if save_seed then seed else 0, u_prng', rng')) \<and>
    public_key_of t L s pk"
proof -
  note R = ntt_readyD[OF assms(1)]
  let ?n = "2 ^ L :: nat" and ?z = "replicate (2 ^ L) (0 :: u64)"
  obtain u_prng' rng1 where gs: "(case u_prng of None \<Rightarrow> (None, g) | Some _ \<Rightarrow> (Some g, rng)) = (u_prng', rng1)" by fastforce
  define c1 where "c1 = fst (sample_poly_uniform aes (reset_seed \<lparr>low = seed, high = 0\<rparr>) ?z ?n [he_q C])"
  have "wf_polys (nt_modulus t) ?n 1 c1" unfolding c1_def R(4) by (rule sample_poly_uniform_wf[OF R(7)]) simp_all
  then obtain a where a: "image_of t L c1 a" using image_exists[OF R(3)] by blast
  obtain noise rng2 e where no: "sample_poly_ternary aes rng1 ?z ?n [he_q C] = (noise, rng2)" "holds t L noise e" "small e"
    by (rule sampled[OF assms(1)]) auto
  obtain noise' where n': "ntt_inplace_p noise ?n [t] = Inr noise'" "image_of t L noise' e" using ntt_image[OF R(3) no(2)] by blast
  define d where "d = host_dyadic_product_ps sk c1 1 ?n [he_q C] ?z"
  define c0 where "c0 = host_add_ps d noise' 1 ?n [he_q C] d"
  have sk: "image_of t L sk s" using assms(2) by (simp add: secret_key_of_def)
  have d: "image_of t L d (nmul ?n s a)" unfolding d_def using image_dyadic[OF R(3) sk a] by (simp add: R(4))
  then have "length d = ?n" by (simp add: image_of_def)
  from image_add[OF R(3) d n'(2) this] have c0: "image_of t L c0 (\<lambda>i. nmul ?n s a i + e i)" by (simp add: c0_def R(4))
  then have "length c0 = ?n" by (simp add: image_of_def)
  from image_negate[OF R(3) c0 this]
  have n0: "image_of t L (host_negate_ps c0 1 ?n [he_q C] c0) (\<lambda>i. - (nmul ?n s a i + e i))" by (simp add: R(4))
  let ?pk = "\<lparr>polynomial_count = 2, ct_data = host_negate_ps c0 1 ?n [he_q C] c0 @ c1\<rparr>"
  have "generate_pk aes C [t] sk save_seed u_prng rng = Some (Inr (?pk, if save_seed then seed else 0, u_prng', rng2))"
    unfolding generate_pk_def symmetric_with_c1_prng_def Let_def R(2) assms(3)
    by (simp add: gs samplers_agree[symmetric] no(1) n'(1) c1_def[symmetric] d_def c0_def)
  moreover have "public_key_of t L s ?pk" unfolding public_key_of_def using a n0 no(3) by auto
  ultimately show ?thesis by blast
qed

subsection \<open>Public-key encryption of zero\<close>

text \<open>The public key times \<open>u\<close>, back in coefficient form.\<close>

lemma public_key_times:
  assumes "ntt_ready C t L" "image_of t L v u" "image_of t L p0 a0" "image_of t L p1 a1"
  obtains x y where
    "intt_inplace_ps (concat (map (\<lambda>j. host_dyadic_product_ps v (poly_at (2 ^ L) (p0 @ p1) j) 1 (2 ^ L) [he_q C] (replicate (2 ^ L) 0)) [0..<2]))
       2 1 (2 ^ L) (Componentwise [t]) = Inr (x @ y)"
    "holds t L x (nmul (2 ^ L) u a0)" "holds t L y (nmul (2 ^ L) u a1)"
proof -
  note R = ntt_readyD[OF assms(1)] and T = ready_tablesD[OF ntt_readyD(3)[OF assms(1)]]
  let ?n = "2 ^ L :: nat" and ?z = "replicate (2 ^ L) (0 :: u64)"
  define d0 d1 where "d0 = host_dyadic_product_ps v p0 1 ?n [he_q C] ?z" and "d1 = host_dyadic_product_ps v p1 1 ?n [he_q C] ?z"
  have d: "image_of t L d0 (nmul ?n u a0)" "image_of t L d1 (nmul ?n u a1)"
    unfolding d0_def d1_def using image_dyadic[OF R(3) assms(2,3), of ?z] image_dyadic[OF R(3) assms(2,4), of ?z]
    by (simp_all add: R(4))
  have pl: "length p0 = ?n" "length p1 = ?n" "length d0 = ?n" "length d1 = ?n" using assms(3,4) d by (simp_all add: image_of_def)
  have data: "concat (map (\<lambda>j. host_dyadic_product_ps v (poly_at ?n (p0 @ p1) j) 1 ?n [he_q C] ?z) [0..<2]) = d0 @ d1"
  proof -
    have "[0..<2] = [0, Suc 0]" by (simp add: upt_rec)
    then show ?thesis using pl by (simp add: poly_at_append d0_def d1_def)
  qed
  define ys where "ys = intt None 2 1 L True (d0 @ d1) (Componentwise [t])"
  have len: "length (d0 @ d1) = 2 * 2 ^ L" using pl by simp
  have le: "transform L t a pos \<le> 2 * ntt_q t" for a pos using transform_range[OF T(1), of a pos] by linarith
  have i: "uint ((d0 @ d1) ! (k * 2 ^ L + i)) \<le> 2 * ntt_q t \<and> uint ((d0 @ d1) ! (k * 2 ^ L + i)) mod ntt_q t
      = transform L t (if k = 0 then nmul ?n u a0 else nmul ?n u a1) i" if "k < 2" "i < 2 ^ L" for k i
    using that d pl le by (auto simp: image_of_def nth_append less_2_cases_iff)
  have r: "uint (ys ! (k * 2 ^ L + pos)) = (if k = 0 then nmul ?n u a0 else nmul ?n u a1) pos mod ntt_q t"
    if "k < 2" "pos < 2 ^ L" for k pos
    unfolding ys_def by (rule intt_inplace_ps_result[OF T(1-3) len i[OF that(1)] that])
  have h: "holds t L (take ?n ys) (nmul ?n u a0)" "holds t L (drop ?n ys) (nmul ?n u a1)"
    using r[of 0] r[of 1] len by (simp_all add: holds_def ys_def)
  have "intt_inplace_ps (d0 @ d1) 2 1 ?n (Componentwise [t]) = Inr (take ?n ys @ drop ?n ys)"
    by (simp add: intt_inplace_ps_power[OF T(3)] ys_def)
  then show thesis unfolding data[symmetric] by (rule that[OF _ h])
qed

text \<open>The two polynomials of an encryption of zero under public key \<open>(p_0, p_1)\<close>.\<close>

lemma asymmetric_result:
  assumes "ntt_ready C t L" "public_key_of t L s pk"
  shows "\<exists>c0 c1 u_prng' rng' a e u e0 e1.
    asymmetric_with_u_prng aes C [t] pk False u_prng rng = Inr (\<lparr>polynomial_count = 2, ct_data = c0 @ c1\<rparr>, u_prng', rng') \<and>
    holds t L c0 (\<lambda>i. nmul (2 ^ L) u (\<lambda>i. - (nmul (2 ^ L) s a i + e i)) i + e0 i) \<and>
    holds t L c1 (\<lambda>i. nmul (2 ^ L) u a i + e1 i) \<and> small e \<and> small u \<and> small e0 \<and> small e1"
proof -
  note R = ntt_readyD[OF assms(1)]
  let ?n = "2 ^ L :: nat" and ?z = "replicate (2 ^ L) (0 :: u64)"
  obtain p0 p1 a e where pk: "polynomial_count pk = 2" "ct_data pk = p0 @ p1" "image_of t L p1 a"
    "image_of t L p0 (\<lambda>i. - (nmul ?n s a i + e i))" "small e"
    using assms(2) by (auto simp: public_key_of_def)
  obtain u0 g' u where u: "sample_poly_ternary aes (case u_prng of None \<Rightarrow> rng | Some g \<Rightarrow> g) ?z ?n [he_q C] = (u0, g')"
    "holds t L u0 u" "small u"
    by (rule sampled[OF assms(1)]) auto
  obtain u_prng' rng1 where gs: "(case u_prng of None \<Rightarrow> (case sample_poly_ternary aes rng ?z ?n [he_q C] of (u, g) \<Rightarrow> (u, None, g))
      | Some g \<Rightarrow> (case sample_poly_ternary aes g ?z ?n [he_q C] of (u, g) \<Rightarrow> (u, Some g, rng))) = (u0, u_prng', rng1)"
    using u(1) by (cases u_prng) simp_all
  obtain v where v: "ntt_inplace_p u0 ?n [t] = Inr v" "image_of t L v u" using ntt_image[OF R(3) u(2)] by blast
  obtain x y where y: "intt_inplace_ps (concat (map (\<lambda>j. host_dyadic_product_ps v (poly_at ?n (p0 @ p1) j) 1 ?n [he_q C] ?z) [0..<2]))
      2 1 ?n (Componentwise [t]) = Inr (x @ y)"
    and h: "holds t L x (nmul ?n u (\<lambda>i. - (nmul ?n s a i + e i)))" "holds t L y (nmul ?n u a)"
    by (rule public_key_times[OF assms(1) v(2) pk(4,3)])
  have "length v = ?n" using v(2) by (simp add: image_of_def)
  from noise_added[OF assms(1) this h]
  obtain c0 c1 u' g2 e0 e1 where c: "fold (noise_step aes C [t] False) [0..<2] (Inr (x @ y, v, rng1)) = Inr (c0 @ c1, u', g2)"
    "holds t L c0 (\<lambda>i. nmul ?n u (\<lambda>i. - (nmul ?n s a i + e i)) i + e0 i)" "holds t L c1 (\<lambda>i. nmul ?n u a i + e1 i)" "small e0" "small e1"
    by blast
  have "asymmetric_with_u_prng aes C [t] pk False u_prng rng = Inr (\<lparr>polynomial_count = 2, ct_data = c0 @ c1\<rparr>, u_prng', g2)"
    unfolding asymmetric_with_u_prng_def Let_def R(2) gs pk(1,2)
    using v(1) y c(1) by simp
  then show ?thesis using c(2-5) pk(5) u(3) by blast
qed

subsection \<open>The phase of an encryption\<close>

lemma halves:
  assumes "ntt_ready C t L" "holds t L c0 a" "holds t L c1 b"
  shows "wf_ct C \<lparr>polynomial_count = 2, ct_data = c0 @ c1\<rparr>"
    and "k < 2 ^ L \<Longrightarrow> phase C s \<lparr>polynomial_count = 2, ct_data = c0 @ c1\<rparr> k = (a k + nmul (2 ^ L) b s k) mod q_of C"
proof -
  note R = ntt_readyD[OF assms(1)]
  have l: "length c0 = 2 ^ L" "length c1 = 2 ^ L" using assms(2,3) by (simp_all add: holds_def)
  have "wf_polys (he_q C) (2 ^ L) 1 c0" "wf_polys (he_q C) (2 ^ L) 1 c1"
    using holds_wf[OF R(3) assms(2)] holds_wf[OF R(3) assms(3)] by (simp_all add: R(4))
  then show "wf_ct C \<lparr>polynomial_count = 2, ct_data = c0 @ c1\<rparr>" by (simp add: wf_ct_def wf_polys_def R(2))
  have c: "coeff (2 ^ L) (c0 @ c1) 0 k = a k mod q_of C" "coeff (2 ^ L) (c0 @ c1) 1 k = b k mod q_of C" if "k < 2 ^ L" for k
    using that l assms(2,3) by (simp_all add: coeff_def nth_append holds_def R(6))
  have "nmul (2 ^ L) (coeff (2 ^ L) (c0 @ c1) 1) s k mod q_of C = nmul (2 ^ L) b s k mod q_of C"
    by (rule nmul_cong_mod) (simp only: c(2) mod_mod_trivial)
  then show "k < 2 ^ L \<Longrightarrow> phase C s \<lparr>polynomial_count = 2, ct_data = c0 @ c1\<rparr> k = (a k + nmul (2 ^ L) b s k) mod q_of C"
    unfolding phase_def ciphertext.simps R(2) using c(1)[of k] by (intro mod_add_cong) simp_all
qed

text \<open>\<open>u p_0 + e_0 + (u a + e_1) s = e_0 + e_1 s - u e\<close>, compared at the roots.\<close>

lemma masks_cancel:
  assumes "ready_tables t L" "k < 2 ^ L"
  shows "(nmul (2 ^ L) u (\<lambda>i. - (nmul (2 ^ L) s a i + e i)) k + e0 k + nmul (2 ^ L) (\<lambda>i. nmul (2 ^ L) u a i + e1 i) s k) mod ntt_q t
    = (e0 k + nmul (2 ^ L) e1 s k + - nmul (2 ^ L) u e k) mod ntt_q t"
proof -
  note T = ready_tablesD[OF assms(1)]
  have m: "transform L t (\<lambda>k. nmul (2 ^ L) u (\<lambda>i. - (nmul (2 ^ L) s a i + e i)) k + e0 k + nmul (2 ^ L) (\<lambda>i. nmul (2 ^ L) u a i + e1 i) s k) i
      = transform L t (\<lambda>k. e0 k + nmul (2 ^ L) e1 s k + - nmul (2 ^ L) u e k) i" if "i < 2 ^ L" for i
    by (simp only: transform_add transform_minus transform_nmul[OF T(1) that] mod_simps)
      (rule arg_cong[of _ _ "\<lambda>x. x mod ntt_q t"], simp add: algebra_simps)
  show ?thesis using transform_inject[OF T(1,2) _ m assms(2)] T(3) by simp
qed

lemma fresh_noise_bound:
  assumes "small e" "small u" "small s" "small e0" "small e1"
  shows "\<bar>e0 k + nmul (2 ^ L) e1 s k + - nmul (2 ^ L) u e k\<bar> \<le> fresh_noise L"
proof -
  have "\<bar>nmul (2 ^ L) x y k\<bar> \<le> int (2 ^ L) * (8 * 8)" if "small x" "small y" for x y
    by (rule nmul_bound) (use that in \<open>simp_all add: small_def\<close>)
  from this[OF assms(5,3)] this[OF assms(2,1)]
  have "\<bar>nmul (2 ^ L) e1 s k\<bar> \<le> 64 * 2 ^ L" "\<bar>nmul (2 ^ L) u e k\<bar> \<le> 64 * 2 ^ L" by simp_all
  moreover have "\<bar>e0 k\<bar> \<le> 8" using assms(4) by (simp add: small_def)
  ultimately show ?thesis unfolding fresh_noise_def by linarith
qed

lemma encodes_zero:
  assumes "wf_context C" "wf_ct C ct" "k < he_degree C" "phase C s ct k = v mod q_of C" "\<bar>v\<bar> \<le> B"
  shows "encodes C s ct k 0 (t_of C * B)"
proof -
  have "t_of C * phase C s ct k = q_of C * 0 + t_of C * v + t_of C * q_of C * (- (v div q_of C))"
    unfolding assms(4) minus_mult_div_eq_mod[symmetric] by (simp only: algebra_simps)
  moreover have "\<bar>t_of C * v\<bar> \<le> t_of C * B" using assms(5) by (simp add: abs_mult mult_left_mono)
  ultimately show ?thesis using assms(1-3) unfolding encodes_def by blast
qed

lemma zero_parts_encode:
  assumes "ntt_ready C t L" "holds t L c0 (\<lambda>i. nmul (2 ^ L) u (\<lambda>i. - (nmul (2 ^ L) s a i + e i)) i + e0 i)"
    "holds t L c1 (\<lambda>i. nmul (2 ^ L) u a i + e1 i)" "small e" "small u" "small s" "small e0" "small e1"
  shows "wf_ct C \<lparr>polynomial_count = 2, ct_data = c0 @ c1\<rparr>"
    and "k < he_degree C \<Longrightarrow> encodes C s \<lparr>polynomial_count = 2, ct_data = c0 @ c1\<rparr> k 0 (t_of C * fresh_noise L)"
proof -
  note R = ntt_readyD[OF assms(1)]
  note H = halves[OF assms(1-3)]
  show "wf_ct C \<lparr>polynomial_count = 2, ct_data = c0 @ c1\<rparr>" by (rule H(1))
  assume that: "k < he_degree C"
  show "encodes C s \<lparr>polynomial_count = 2, ct_data = c0 @ c1\<rparr> k 0 (t_of C * fresh_noise L)"
  proof (rule encodes_zero[OF R(1) H(1) that])
    have k: "k < 2 ^ L" using that R(2) by simp
    show "phase C s \<lparr>polynomial_count = 2, ct_data = c0 @ c1\<rparr> k = (e0 k + nmul (2 ^ L) e1 s k + - nmul (2 ^ L) u e k) mod q_of C"
      unfolding H(2)[OF k] using masks_cancel[OF R(3) k] by (simp only: R(6))
    show "\<bar>e0 k + nmul (2 ^ L) e1 s k + - nmul (2 ^ L) u e k\<bar> \<le> fresh_noise L"
      by (rule fresh_noise_bound[OF assms(4-8)])
  qed
qed

lemma asymmetric_encodes_zero:
  assumes "ntt_ready C t L" "public_key_of t L s pk" "small s"
  shows "\<exists>ct u_prng' rng'. asymmetric_with_u_prng aes C [t] pk False u_prng rng = Inr (ct, u_prng', rng') \<and>
    wf_ct C ct \<and> (\<forall>k<he_degree C. encodes C s ct k 0 (t_of C * fresh_noise L))"
proof -
  obtain c0 c1 u_prng' rng' a e u e0 e1 where r: "asymmetric_with_u_prng aes C [t] pk False u_prng rng = Inr (\<lparr>polynomial_count = 2, ct_data = c0 @ c1\<rparr>, u_prng', rng')"
    "holds t L c0 (\<lambda>i. nmul (2 ^ L) u (\<lambda>i. - (nmul (2 ^ L) s a i + e i)) i + e0 i)"
    "holds t L c1 (\<lambda>i. nmul (2 ^ L) u a i + e1 i)" "small e" "small u" "small e0" "small e1"
    using asymmetric_result[OF assms(1,2), of aes u_prng rng] by (elim exE conjE) (rule that)
  with zero_parts_encode[OF assms(1) r(2-5) assms(3) r(6,7)] show ?thesis by blast
qed

text \<open>The whole public-key encryption.\<close>

lemma encrypt_internal_result:
  assumes "ntt_ready C t L" "en_public_key en = Some pk" "public_key_of t L s pk" "small s" "length plain \<le> he_degree C"
  shows "\<exists>ct u_prng' rng'. encrypt_internal aes C [t] en plain True False u_prng rng = Some (Inr (ct, 0, u_prng', rng')) \<and>
    wf_ct C ct \<and> (\<forall>k<length plain. encodes C s ct k (uint (plain ! k)) (t_of C * fresh_noise L + (t_of C + 1) div 2))"
proof -
  note R = ntt_readyD[OF assms(1)]
  obtain z u_prng' rng' where z: "asymmetric_with_u_prng aes C [t] pk False u_prng rng = Inr (z, u_prng', rng')" "wf_ct C z"
    "\<And>k. k < he_degree C \<Longrightarrow> encodes C s z k 0 (t_of C * fresh_noise L)"
    using asymmetric_encodes_zero[OF assms(1,3,4)] by blast
  obtain ct where ct: "add_plain C z plain = Some (Inr ct)" "wf_ct C ct" using add_plain_result[OF R(1) z(2) assms(5)] by blast
  have e: "encodes C s ct k (uint (plain ! k)) (t_of C * fresh_noise L + (t_of C + 1) div 2)" if "k < length plain" for k
    using encodes_add_plain[OF z(3) assms(5) that] that assms(5) ct by auto
  have "encrypt_internal aes C [t] en plain True False u_prng rng = Some (Inr (ct, 0, u_prng', rng'))"
    using z(1) ct assms(2) by (simp add: encrypt_internal_def encrypt_zero_internal_def)
  with e ct(2) show ?thesis by blast
qed

subsection \<open>Decryption\<close>

lemma decrypt_result:
  assumes "ntt_ready C t L" "secret_key_of t L s sk" "wf_ct C ct"
  shows "\<exists>xs. bfv_decrypt_without_scaling_down C [t] sk False ct = Inr xs \<and> length xs = he_degree C \<and>
    (\<forall>k<he_degree C. uint (xs ! k) = phase C s ct k)"
proof -
  note R = ntt_readyD[OF assms(1)]
  let ?n = "2 ^ L :: nat" and ?c = "\<lambda>i. poly_at (2 ^ L) (ct_data ct) i" and ?f = "\<lambda>i. coeff (2 ^ L) (ct_data ct) i"
  have w: "wf_polys (he_q C) ?n 2 (ct_data ct)" "length (ct_data ct) = 2 * ?n" using assms(3) R(2) by (simp_all add: wf_ct_def wf_polys_def)
  have h: "holds t L (?c j) (?f j)" if "j < 2" for j
  proof -
    have j: "j * 2 ^ L + 2 ^ L \<le> 2 * 2 ^ L" "min (2 * 2 ^ L - j * 2 ^ L) (2 ^ L) = (2 ^ L :: nat)"
      using that by (auto simp: less_2_cases_iff)
    have "uint (?c j ! i) = ?f j i mod ntt_q t" if "i < 2 ^ L" for i
      using wf_polys_residue[OF w(1) \<open>j < 2\<close> that] j that w(2) by (simp add: poly_at_def coeff_def R(6) residue_def)
    then show ?thesis using j w(2) by (simp add: holds_def poly_at_def)
  qed
  have sk: "image_of t L sk s" using assms(2) by (simp add: secret_key_of_def)
  have s: "take ?n sk = sk" using sk by (simp add: image_of_def)
  obtain d where d: "ntt_inplace_p (?c 1) ?n [t] = Inr d" "image_of t L d (?f 1)" using ntt_image[OF R(3) h[of 1]] by auto
  have "length d = ?n" using d(2) by (simp add: image_of_def)
  from image_dyadic[OF R(3) d(2) sk this]
  obtain x where x: "intt_inplace_p (host_dyadic_product_ps d sk 1 ?n [he_q C] d) ?n [t] = Inr x" "holds t L x (nmul ?n (?f 1) s)"
    using intt_holds[OF R(3)] by (auto simp: R(4))
  let ?y = "host_add_ps x (?c 0) 1 ?n [he_q C] x"
  have "length x = ?n" using x(2) by (simp add: holds_def)
  from holds_add[OF R(3) x(2) h[of 0] this]
  have y: "holds t L ?y (\<lambda>i. nmul ?n (?f 1) s i + ?f 0 i)" by (simp add: R(4))
  have "bfv_decrypt_without_scaling_down C [t] sk False ct = Inr ?y"
    using d(1) x(1) by (simp add: bfv_decrypt_without_scaling_down_def dot_product_ct_sk_array_def R(2) s Let_def)
  moreover have "uint (?y ! k) = phase C s ct k" if "k < 2 ^ L" for k
    using y that by (simp add: holds_def phase_def R(2,6) add.commute)
  ultimately show ?thesis using y by (simp add: holds_def R(2))
qed

end
