(* ===== verification/Rlwe_Batch.thy ===== *)
theory Rlwe_Batch
  imports Rlwe_Correct
begin

text \<open>
  The batched public-key encryption of \<open>rlwe.cu\<close> and \<open>encryptor.cu\<close> on the host, as server and client call it.
  On the host every batched routine runs the single one for each element; the order of the random draws
  differs from single encryptions: first all masks, then all noise of the first polynomials, and so on.
\<close>

definition BATCH_OP_THRESHOLD :: nat where "BATCH_OP_THRESHOLD = 4"

subsection \<open>Batched samplers\<close>

primrec sample_each :: "(random_generator \<Rightarrow> u64 list \<Rightarrow> u64 list \<times> random_generator) \<Rightarrow> random_generator \<Rightarrow> u64 list list \<Rightarrow> u64 list list \<times> random_generator" where
  "sample_each f g [] = ([], g)"
| "sample_each f g (d # ds) = (let (x, g) = f g d; (xs, g) = sample_each f g ds in (x # xs, g))"

definition sample_poly_ternary_batched :: "block_cipher \<Rightarrow> random_generator \<Rightarrow> u64 list list \<Rightarrow> nat \<Rightarrow> modulus list \<Rightarrow> u64 list list \<times> random_generator" where
  "sample_poly_ternary_batched aes g destination degree moduli = sample_each (\<lambda>g d. sample_poly_ternary aes g d degree moduli) g destination"

definition sample_poly_centered_binomial_batched :: "block_cipher \<Rightarrow> random_generator \<Rightarrow> u64 list list \<Rightarrow> nat \<Rightarrow> modulus list \<Rightarrow> u64 list list \<times> random_generator" where
  "sample_poly_centered_binomial_batched aes g destination degree moduli = sample_each (\<lambda>g d. sample_poly_centered_binomial aes g d degree moduli) g destination"

subsection \<open>Encryptions of zero\<close>

definition noise_step_batched :: "block_cipher \<Rightarrow> he_context \<Rightarrow> ntt_tables list \<Rightarrow> bool \<Rightarrow> nat \<Rightarrow>
    error + u64 list list \<times> u64 list list \<times> random_generator \<Rightarrow> error + u64 list list \<times> u64 list list \<times> random_generator" where
  "noise_step_batched aes C tables is_ntt_form j s =
     (case s of
        Inl e \<Rightarrow> Inl e
      | Inr (data, u, context_prng) \<Rightarrow>
        let n = he_degree C; (u, context_prng) = sample_poly_centered_binomial_batched aes context_prng u n [he_q C]
        in map_sum id (\<lambda>u. (map2 (\<lambda>data u. set_poly n data j (host_add_ps (poly_at n data j) u 1 n [he_q C] (poly_at n data j))) data u, u, context_prng))
             (if is_ntt_form then sum_those (map (\<lambda>u. ntt_inplace_p u n tables) u) else Inr u))"

definition asymmetric_with_u_prng_batched ::
  "block_cipher \<Rightarrow> he_context \<Rightarrow> ntt_tables list \<Rightarrow> ciphertext \<Rightarrow> bool \<Rightarrow> nat \<Rightarrow> random_generator option \<Rightarrow> random_generator \<Rightarrow>
    error + ciphertext list \<times> random_generator option \<times> random_generator" where
  "asymmetric_with_u_prng_batched aes C tables public_key is_ntt_form count u_prng context_prng =
     (if count = 0 then Inr ([], u_prng, context_prng) else
      let n = he_degree C; moduli = [he_q C]; encrypted_size = polynomial_count public_key; buffers = replicate count (replicate n 0);
          (u, u_prng, context_prng) = (case u_prng of
              None \<Rightarrow> let (u, g) = sample_poly_ternary_batched aes context_prng buffers n moduli in (u, None, g)
            | Some g \<Rightarrow> let (u, g) = sample_poly_ternary_batched aes g buffers n moduli in (u, Some g, context_prng))
      in case sum_those (map (\<lambda>u. ntt_inplace_p u n tables) u) of
           Inl e \<Rightarrow> Inl e
         | Inr u \<Rightarrow>
           let data = map (\<lambda>u. concat (map (\<lambda>j. host_dyadic_product_ps u (poly_at n (ct_data public_key) j) 1 n moduli (replicate n 0)) [0..<encrypted_size])) u
           in case (if \<not> is_ntt_form then sum_those (map (\<lambda>data. intt_inplace_ps data encrypted_size (length tables) n (Componentwise tables)) data) else Inr data) of
                Inl e \<Rightarrow> Inl e
              | Inr data \<Rightarrow>
                map_sum id (\<lambda>(data, _, context_prng). (map (\<lambda>data. \<lparr>polynomial_count = encrypted_size, ct_data = data\<rparr>) data, u_prng, context_prng))
                  (fold (noise_step_batched aes C tables is_ntt_form) [0..<encrypted_size] (Inr (data, u, context_prng))))"

text \<open>
  The public-key branch of \<open>encrypt_zero_internal_batched\<close>: small batches are a loop of single encryptions.
\<close>

primrec encrypt_zero_each ::
  "block_cipher \<Rightarrow> he_context \<Rightarrow> ntt_tables list \<Rightarrow> encryptor \<Rightarrow> bool \<Rightarrow> nat \<Rightarrow> random_generator option \<Rightarrow> random_generator \<Rightarrow>
    (error + ciphertext list \<times> random_generator option \<times> random_generator) option" where
  "encrypt_zero_each aes C tables en is_ntt_form 0 u_prng rng = Some (Inr ([], u_prng, rng))"
| "encrypt_zero_each aes C tables en is_ntt_form (Suc k) u_prng rng =
     (case encrypt_zero_internal aes C tables en is_ntt_form True False u_prng rng of
        None \<Rightarrow> None
      | Some (Inl e) \<Rightarrow> Some (Inl e)
      | Some (Inr (ct, _, u_prng, rng)) \<Rightarrow>
          map_option (map_sum id (\<lambda>(cts, u_prng, rng). (ct # cts, u_prng, rng))) (encrypt_zero_each aes C tables en is_ntt_form k u_prng rng))"

definition encrypt_zero_asymmetric_batched ::
  "block_cipher \<Rightarrow> he_context \<Rightarrow> ntt_tables list \<Rightarrow> encryptor \<Rightarrow> bool \<Rightarrow> nat \<Rightarrow> random_generator option \<Rightarrow> random_generator \<Rightarrow>
    (error + ciphertext list \<times> random_generator option \<times> random_generator) option" where
  "encrypt_zero_asymmetric_batched aes C tables en is_ntt_form count u_prng rng =
     (if count < BATCH_OP_THRESHOLD then encrypt_zero_each aes C tables en is_ntt_form count u_prng rng
      else if en_public_key en = None then
        Some (Inl (InvalidArgument ''[Encryptor::encrypt_zero_internal] Public key not set for asymmetric encryption.''))
      else Some (asymmetric_with_u_prng_batched aes C tables (the (en_public_key en)) is_ntt_form count u_prng rng))"

text \<open>The BFV branch of \<open>encrypt_internal_batched\<close> with the public key.\<close>

primrec encrypt_each ::
  "block_cipher \<Rightarrow> he_context \<Rightarrow> ntt_tables list \<Rightarrow> encryptor \<Rightarrow> u64 list list \<Rightarrow> random_generator option \<Rightarrow> random_generator \<Rightarrow>
    (error + ciphertext list \<times> random_generator option \<times> random_generator) option" where
  "encrypt_each aes C tables en [] u_prng rng = Some (Inr ([], u_prng, rng))"
| "encrypt_each aes C tables en (plain # plains) u_prng rng =
     (case encrypt_internal aes C tables en plain True False u_prng rng of
        None \<Rightarrow> None
      | Some (Inl e) \<Rightarrow> Some (Inl e)
      | Some (Inr (ct, _, u_prng, rng)) \<Rightarrow>
          map_option (map_sum id (\<lambda>(cts, u_prng, rng). (ct # cts, u_prng, rng))) (encrypt_each aes C tables en plains u_prng rng))"

primrec add_plain_each :: "he_context \<Rightarrow> (ciphertext \<times> u64 list) list \<Rightarrow> ciphertext list outcome" where
  "add_plain_each C [] = Some (Inr [])"
| "add_plain_each C (x # xs) =
     (case add_plain C (fst x) (snd x) of
        None \<Rightarrow> None
      | Some (Inl e) \<Rightarrow> Some (Inl e)
      | Some (Inr ct) \<Rightarrow> map_option (map_sum id (Cons ct)) (add_plain_each C xs))"

definition encrypt_asymmetric_batched ::
  "block_cipher \<Rightarrow> he_context \<Rightarrow> ntt_tables list \<Rightarrow> encryptor \<Rightarrow> u64 list list \<Rightarrow> random_generator option \<Rightarrow> random_generator \<Rightarrow>
    (error + ciphertext list \<times> random_generator option \<times> random_generator) option" where
  "encrypt_asymmetric_batched aes C tables en plain u_prng rng =
     (if length plain < BATCH_OP_THRESHOLD then encrypt_each aes C tables en plain u_prng rng
      else if \<exists>p\<in>set plain. length p \<noteq> length (plain ! 0) then
        Some (Inl (InvalidArgument ''[Encryptor::encrypt_internal_batched] BFV - Plaintexts have different coeff_count.''))
      else case encrypt_zero_asymmetric_batched aes C tables en False (length plain) u_prng rng of
          None \<Rightarrow> None
        | Some (Inl e) \<Rightarrow> Some (Inl e)
        | Some (Inr (cts, u_prng, rng)) \<Rightarrow>
            if \<exists>p\<in>set plain. length p > he_degree C then
              Some (Inl (InvalidArgument ''[scaling_variant::scale_up_batched] destination_coeff_count should no less than plain_coeff_count.''))
            else map_option (map_sum id (\<lambda>cts. (cts, u_prng, rng))) (add_plain_each C (zip cts plain)))"

subsection \<open>Every buffer of a batch\<close>

lemma sum_those_all:
  assumes "list_all (\<lambda>x. \<exists>y. f x = Inr y \<and> P y) xs"
  shows "\<exists>ys. sum_those (map f xs) = Inr ys \<and> length ys = length xs \<and> list_all P ys"
  using assms
proof (induction xs)
  case (Cons x xs)
  then obtain y ys where "f x = Inr y" "P y" "sum_those (map f xs) = Inr ys" "length ys = length xs" "list_all P ys" by auto
  then show ?case by (intro exI[of _ "y # ys"]) simp
qed simp

definition small_poly :: "ntt_tables \<Rightarrow> nat \<Rightarrow> u64 list \<Rightarrow> bool" where
  "small_poly t L x \<longleftrightarrow> (\<exists>e. holds t L x e \<and> small e)"

lemma small_poly_length: "small_poly t L x \<Longrightarrow> length x = 2 ^ L"
  by (auto simp: small_poly_def holds_def)

lemma sample_each_small:
  assumes "ntt_ready C t L" "list_all (\<lambda>d. length d = 2 ^ L) ds"
  obtains xs g' where "sample_each (\<lambda>g d. sample_poly_ternary aes g d (2 ^ L) [he_q C]) g ds = (xs, g')" "length xs = length ds"
    "list_all (small_poly t L) xs"
  using assms(2)
proof (induction ds arbitrary: g thesis)
  case (Cons d ds)
  obtain x g1 e where x: "sample_poly_ternary aes g d (2 ^ L) [he_q C] = (x, g1)" "holds t L x e" "small e"
    by (rule sampled[OF assms(1), of d]) (use Cons.prems(2) in auto)
  obtain xs g2 where "sample_each (\<lambda>g d. sample_poly_ternary aes g d (2 ^ L) [he_q C]) g1 ds = (xs, g2)" "length xs = length ds"
    "list_all (small_poly t L) xs"
    by (rule Cons.IH[of g1]) (use Cons.prems(2) in auto)
  moreover have "small_poly t L x" using x(2,3) by (auto simp: small_poly_def)
  ultimately show ?case using x(1) by (intro Cons.prems(1)[of "x # xs" g2]) simp_all
qed simp

text \<open>An encryption of zero after \<open>j\<close> of its two noise steps.\<close>

definition masked :: "ntt_tables \<Rightarrow> nat \<Rightarrow> (nat \<Rightarrow> int) \<Rightarrow> (nat \<Rightarrow> int) \<Rightarrow> nat \<Rightarrow> u64 list \<Rightarrow> bool" where
  "masked t L a0 a1 j d \<longleftrightarrow> (\<exists>x y u e0 e1. d = x @ y \<and> small u \<and> small e0 \<and> small e1 \<and> (j = 0 \<longrightarrow> e0 = (\<lambda>_. 0)) \<and> (j < 2 \<longrightarrow> e1 = (\<lambda>_. 0)) \<and>
     holds t L x (\<lambda>i. nmul (2 ^ L) u a0 i + e0 i) \<and> holds t L y (\<lambda>i. nmul (2 ^ L) u a1 i + e1 i))"

lemma masked_step:
  assumes "ntt_ready C t L" "masked t L a0 a1 j d" "small_poly t L w" "j < 2"
  shows "masked t L a0 a1 (Suc j) (set_poly (2 ^ L) d j (host_add_ps (poly_at (2 ^ L) d j) w 1 (2 ^ L) [he_q C] (poly_at (2 ^ L) d j)))"
proof -
  note R = ntt_readyD[OF assms(1)]
  obtain x y u e0 e1 where m: "d = x @ y" "small u" "small e0" "small e1" "j = 0 \<longrightarrow> e0 = (\<lambda>_. 0)" "e1 = (\<lambda>_. 0)"
    "holds t L x (\<lambda>i. nmul (2 ^ L) u a0 i + e0 i)" "holds t L y (\<lambda>i. nmul (2 ^ L) u a1 i + e1 i)"
    using assms(2,4) unfolding masked_def by blast
  obtain e where e: "holds t L w e" "small e" using assms(3) by (auto simp: small_poly_def)
  have l: "length x = 2 ^ L" "length y = 2 ^ L" using m(7,8) by (simp_all add: holds_def)
  consider "j = 0" | "j = Suc 0" using assms(4) by linarith
  then show ?thesis
  proof cases
    case 1
    have h: "holds t L (host_add_ps x w 1 (2 ^ L) [he_q C] x) (\<lambda>i. nmul (2 ^ L) u a0 i + e0 i + e i)"
      using holds_add[OF R(3) m(7) e(1) l(1)] by (simp add: R(4))
    then have "length (host_add_ps x w 1 (2 ^ L) [he_q C] x) = 2 ^ L" by (simp add: holds_def)
    then show ?thesis
      using 1 m h e(2) l unfolding masked_def
      by (intro exI[of _ "host_add_ps x w 1 (2 ^ L) [he_q C] x"] exI[of _ y] exI[of _ u] exI[of _ e] exI[of _ e1])
        (simp add: poly_at_append set_poly_append del: One_nat_def)
  next
    case 2
    have h: "holds t L (host_add_ps y w 1 (2 ^ L) [he_q C] y) (\<lambda>i. nmul (2 ^ L) u a1 i + e1 i + e i)"
      using holds_add[OF R(3) m(8) e(1) l(2)] by (simp add: R(4))
    then show ?thesis
      using 2 m h e(2) l unfolding masked_def
      by (intro exI[of _ x] exI[of _ "host_add_ps y w 1 (2 ^ L) [he_q C] y"] exI[of _ u] exI[of _ e0] exI[of _ e])
        (simp add: poly_at_append set_poly_append)
  qed
qed

lemma noise_step_batched_result:
  assumes "ntt_ready C t L" "list_all (masked t L a0 a1 j) data" "length us = length data" "list_all (\<lambda>u. length u = 2 ^ L) us" "j < 2"
  obtains data' us' g' where "noise_step_batched aes C [t] False j (Inr (data, us, g)) = Inr (data', us', g')"
    "list_all (masked t L a0 a1 (Suc j)) data'" "length data' = length data" "length us' = length data" "list_all (\<lambda>u. length u = 2 ^ L) us'"
proof -
  note R = ntt_readyD[OF assms(1)]
  obtain ws g' where w: "sample_each (\<lambda>g d. sample_poly_ternary aes g d (2 ^ L) [he_q C]) g us = (ws, g')" "length ws = length us"
    "list_all (small_poly t L) ws"
    by (rule sample_each_small[OF assms(1,4)])
  let ?f = "\<lambda>data u. set_poly (2 ^ L) data j (host_add_ps (poly_at (2 ^ L) data j) u 1 (2 ^ L) [he_q C] (poly_at (2 ^ L) data j))"
  have "noise_step_batched aes C [t] False j (Inr (data, us, g)) = Inr (map2 ?f data ws, ws, g')"
    using w(1) by (simp add: noise_step_batched_def sample_poly_centered_binomial_batched_def R(2) samplers_agree[symmetric] Let_def)
  moreover have "list_all (masked t L a0 a1 (Suc j)) (map2 ?f data ws)"
    using assms(2,3) w(2,3) masked_step[OF assms(1) _ _ assms(5)] by (auto simp: list_all_length)
  moreover have "length (map2 ?f data ws) = length data" "length ws = length data" using assms(3) w(2) by simp_all
  moreover have "list_all (\<lambda>u. length u = 2 ^ L) ws" using w(3) small_poly_length by (auto simp: list_all_iff)
  ultimately show thesis by (rule that)
qed

lemma noise_steps_batched:
  assumes "ntt_ready C t L" "list_all (masked t L a0 a1 0) data" "length us = length data" "list_all (\<lambda>u. length u = 2 ^ L) us"
  obtains data' us' g' where "fold (noise_step_batched aes C [t] False) [0..<2] (Inr (data, us, g)) = Inr (data', us', g')"
    "list_all (masked t L a0 a1 2) data'" "length data' = length data"
proof -
  obtain d1 u1 g1 where s1: "noise_step_batched aes C [t] False 0 (Inr (data, us, g)) = Inr (d1, u1, g1)"
    "list_all (masked t L a0 a1 (Suc 0)) d1" "length d1 = length data" "length u1 = length data" "list_all (\<lambda>u. length u = 2 ^ L) u1"
    by (rule noise_step_batched_result[OF assms]) simp_all
  obtain d2 u2 g2 where s2: "noise_step_batched aes C [t] False (Suc 0) (Inr (d1, u1, g1)) = Inr (d2, u2, g2)"
    "list_all (masked t L a0 a1 (Suc (Suc 0))) d2" "length d2 = length d1"
    by (rule noise_step_batched_result[OF assms(1) s1(2) _ s1(5), of aes g1]) (use s1(3,4) in simp_all)
  have "[0..<2] = [0, Suc 0]" by (simp add: upt_rec)
  then show thesis using s1(1,3) s2 by (intro that[of d2 u2 g2]) (simp_all add: numeral_2_eq_2)
qed

subsection \<open>Batches of encryptions of zero\<close>

definition zero_under :: "he_context \<Rightarrow> secret \<Rightarrow> nat \<Rightarrow> ciphertext \<Rightarrow> bool" where
  "zero_under C s L ct \<longleftrightarrow> wf_ct C ct \<and> (\<forall>k<he_degree C. encodes C s ct k 0 (t_of C * fresh_noise L))"

lemma asymmetric_batched_result:
  assumes "ntt_ready C t L" "public_key_of t L s pk" "small s"
  obtains cts u_prng' rng' where "asymmetric_with_u_prng_batched aes C [t] pk False count u_prng rng = Inr (cts, u_prng', rng')"
    "length cts = count" "list_all (zero_under C s L) cts"
proof (cases "count = 0")
  case True
  then show ?thesis using that by (simp add: asymmetric_with_u_prng_batched_def)
next
  case False
  note R = ntt_readyD[OF assms(1)]
  let ?n = "2 ^ L :: nat" and ?z = "replicate (2 ^ L) (0 :: u64)"
  let ?s = "\<lambda>g. sample_poly_ternary_batched aes g (replicate count ?z) ?n [he_q C]"
  obtain p0 p1 a e where pk: "polynomial_count pk = 2" "ct_data pk = p0 @ p1" "image_of t L p1 a"
    "image_of t L p0 (\<lambda>i. - (nmul ?n s a i + e i))" "small e"
    using assms(2) by (auto simp: public_key_of_def)
  let ?a = "\<lambda>i. - (nmul ?n s a i + e i)"
  obtain us g' where u: "?s (case u_prng of None \<Rightarrow> rng | Some g \<Rightarrow> g) = (us, g')" "length us = count" "list_all (small_poly t L) us"
    using sample_each_small[OF assms(1), of "replicate count ?z" aes "case u_prng of None \<Rightarrow> rng | Some g \<Rightarrow> g"]
    by (auto simp: sample_poly_ternary_batched_def list_all_iff)
  obtain u_prng' rng1 where gs: "(case u_prng of None \<Rightarrow> (case ?s rng of (u, g) \<Rightarrow> (u, None, g))
      | Some g \<Rightarrow> (case ?s g of (u, g) \<Rightarrow> (u, Some g, rng))) = (us, u_prng', rng1)"
    using u(1) by (cases u_prng) simp_all
  have "list_all (\<lambda>x. \<exists>v. ntt_inplace_p x ?n [t] = Inr v \<and> (\<exists>u. image_of t L v u \<and> small u)) us"
    using u(3) ntt_image[OF R(3)] by (fastforce simp: list_all_iff small_poly_def)
  from sum_those_all[OF this] obtain vs where v: "sum_those (map (\<lambda>u. ntt_inplace_p u ?n [t]) us) = Inr vs" "length vs = length us"
    "list_all (\<lambda>v. \<exists>u. image_of t L v u \<and> small u) vs"
    by blast
  let ?p = "\<lambda>v. concat (map (\<lambda>j. host_dyadic_product_ps v (poly_at ?n (p0 @ p1) j) 1 ?n [he_q C] ?z) [0..<2])"
  have p: "\<exists>d. intt_inplace_ps (?p w) 2 1 ?n (Componentwise [t]) = Inr d \<and> masked t L ?a a 0 d" if w: "image_of t L w u" "small u" for w u
  proof -
    obtain x y where xy: "intt_inplace_ps (?p w) 2 1 ?n (Componentwise [t]) = Inr (x @ y)" "holds t L x (nmul ?n u ?a)" "holds t L y (nmul ?n u a)"
      by (rule public_key_times[OF assms(1) w(1) pk(4,3)])
    have "masked t L ?a a 0 (x @ y)" unfolding masked_def
      using xy(2,3) w(2) by (intro exI[of _ x] exI[of _ y] exI[of _ u] exI[of _ "\<lambda>_. 0"]) (simp add: small_def)
    with xy(1) show ?thesis by blast
  qed
  have "list_all (\<lambda>d. \<exists>d'. intt_inplace_ps d 2 1 ?n (Componentwise [t]) = Inr d' \<and> masked t L ?a a 0 d') (map ?p vs)"
    using v(3) p by (auto simp: list_all_iff)
  from sum_those_all[OF this] obtain ds where d: "sum_those (map (\<lambda>d. intt_inplace_ps d 2 1 ?n (Componentwise [t])) (map ?p vs)) = Inr ds"
    "length ds = length vs" "list_all (masked t L ?a a 0) ds"
    by auto
  have vl: "list_all (\<lambda>v. length v = ?n) vs" using v(3) by (auto simp: list_all_iff image_of_def)
  obtain ds' us' g2 where r: "fold (noise_step_batched aes C [t] False) [0..<2] (Inr (ds, vs, rng1)) = Inr (ds', us', g2)"
    "list_all (masked t L ?a a 2) ds'" "length ds' = length ds"
    by (rule noise_steps_batched[OF assms(1) d(3) d(2)[symmetric] vl])
  let ?cts = "map (\<lambda>data. \<lparr>polynomial_count = 2, ct_data = data\<rparr>) ds'"
  have "asymmetric_with_u_prng_batched aes C [t] pk False count u_prng rng = Inr (?cts, u_prng', g2)"
    unfolding asymmetric_with_u_prng_batched_def Let_def R(2) gs pk(1,2) using False v(1) d(1) r(1) by simp
  moreover have "list_all (zero_under C s L) ?cts"
  proof (clarsimp simp: list_all_iff)
    fix x assume "x \<in> set ds'"
    then obtain c0 c1 u e0 e1 where "x = c0 @ c1" "small u" "small e0" "small e1" "holds t L c0 (\<lambda>i. nmul ?n u ?a i + e0 i)"
      "holds t L c1 (\<lambda>i. nmul ?n u a i + e1 i)"
      using r(2) unfolding list_all_iff masked_def by blast
    then show "zero_under C s L \<lparr>polynomial_count = 2, ct_data = x\<rparr>"
      using zero_parts_encode[OF assms(1) _ _ pk(5) _ assms(3)] by (simp add: zero_under_def)
  qed
  ultimately show ?thesis using that r(3) d(2) v(2) u(2) by (metis length_map)
qed

lemma encrypt_zero_each_result:
  assumes "ntt_ready C t L" "en_public_key en = Some pk" "public_key_of t L s pk" "small s"
  obtains cts u_prng' rng' where "encrypt_zero_each aes C [t] en False count u_prng rng = Some (Inr (cts, u_prng', rng'))"
    "length cts = count" "list_all (zero_under C s L) cts"
proof (induction count arbitrary: u_prng rng thesis)
  case (Suc k)
  obtain z u1 g1 where z: "asymmetric_with_u_prng aes C [t] pk False u_prng rng = Inr (z, u1, g1)" "zero_under C s L z"
    using asymmetric_encodes_zero[OF assms(1,3,4), of aes u_prng rng] by (auto simp: zero_under_def)
  obtain cts u2 g2 where "encrypt_zero_each aes C [t] en False k u1 g1 = Some (Inr (cts, u2, g2))" "length cts = k" "list_all (zero_under C s L) cts"
    by (rule Suc.IH)
  then show ?case using z assms(2) by (intro Suc.prems[of "z # cts" u2 g2]) (simp_all add: encrypt_zero_internal_def)
qed simp

lemma encrypt_zero_batched_result:
  assumes "ntt_ready C t L" "en_public_key en = Some pk" "public_key_of t L s pk" "small s"
  obtains cts u_prng' rng' where "encrypt_zero_asymmetric_batched aes C [t] en False count u_prng rng = Some (Inr (cts, u_prng', rng'))"
    "length cts = count" "list_all (zero_under C s L) cts"
proof (cases "count < BATCH_OP_THRESHOLD")
  case True
  obtain cts u2 g2 where "encrypt_zero_each aes C [t] en False count u_prng rng = Some (Inr (cts, u2, g2))" "length cts = count"
    "list_all (zero_under C s L) cts"
    by (rule encrypt_zero_each_result[OF assms])
  then show ?thesis using True by (intro that[of cts u2 g2]) (simp_all add: encrypt_zero_asymmetric_batched_def)
next
  case False
  obtain cts u2 g2 where "asymmetric_with_u_prng_batched aes C [t] pk False count u_prng rng = Inr (cts, u2, g2)" "length cts = count"
    "list_all (zero_under C s L) cts"
    by (rule asymmetric_batched_result[OF assms(1,3,4)])
  then show ?thesis using False assms(2) by (intro that[of cts u2 g2]) (simp_all add: encrypt_zero_asymmetric_batched_def)
qed

subsection \<open>Batches of plaintexts\<close>

definition encrypts_to :: "he_context \<Rightarrow> secret \<Rightarrow> nat \<Rightarrow> u64 list \<Rightarrow> ciphertext \<Rightarrow> bool" where
  "encrypts_to C s L plain ct \<longleftrightarrow> wf_ct C ct \<and>
     (\<forall>k<length plain. encodes C s ct k (uint (plain ! k)) (t_of C * fresh_noise L + (t_of C + 1) div 2))"

lemma add_plain_encrypts:
  assumes "wf_context C" "zero_under C s L z" "length plain \<le> he_degree C"
  obtains ct where "add_plain C z plain = Some (Inr ct)" "encrypts_to C s L plain ct"
proof -
  have z: "wf_ct C z" "\<And>k. k < he_degree C \<Longrightarrow> encodes C s z k 0 (t_of C * fresh_noise L)" using assms(2) by (simp_all add: zero_under_def)
  obtain ct where ct: "add_plain C z plain = Some (Inr ct)" "wf_ct C ct" using add_plain_result[OF assms(1) z(1) assms(3)] by blast
  have "encodes C s ct k (uint (plain ! k)) (t_of C * fresh_noise L + (t_of C + 1) div 2)" if "k < length plain" for k
    using encodes_add_plain[OF z(2) assms(3) that] that assms(3) ct by auto
  then show thesis using ct by (intro that[of ct]) (simp_all add: encrypts_to_def)
qed

lemma add_plain_each_result:
  assumes "wf_context C" "list_all (zero_under C s L) cts" "length cts = length plain" "list_all (\<lambda>p. length p \<le> he_degree C) plain"
  obtains cts' where "add_plain_each C (zip cts plain) = Some (Inr cts')" "list_all2 (encrypts_to C s L) plain cts'"
  using assms(2-4)
proof (induction plain arbitrary: cts thesis)
  case (Cons p plain)
  obtain z zs where c: "cts = z # zs" using Cons.prems(3) by (auto simp: length_Suc_conv)
  obtain ct where "add_plain C z p = Some (Inr ct)" "encrypts_to C s L p ct"
    by (rule add_plain_encrypts[OF assms(1), of s L z p]) (use Cons.prems(2,4) c in auto)
  moreover obtain cts' where "add_plain_each C (zip zs plain) = Some (Inr cts')" "list_all2 (encrypts_to C s L) plain cts'"
    by (rule Cons.IH[of zs]) (use Cons.prems(2-4) c in auto)
  ultimately show ?case unfolding c by (intro Cons.prems(1)[of "ct # cts'"]) (simp_all add: c)
qed simp

lemma encrypt_each_result:
  assumes "ntt_ready C t L" "en_public_key en = Some pk" "public_key_of t L s pk" "small s" "list_all (\<lambda>p. length p \<le> he_degree C) plain"
  obtains cts u_prng' rng' where "encrypt_each aes C [t] en plain u_prng rng = Some (Inr (cts, u_prng', rng'))"
    "list_all2 (encrypts_to C s L) plain cts"
  using assms(5)
proof (induction plain arbitrary: u_prng rng thesis)
  case (Cons p plain)
  have "length p \<le> he_degree C" using Cons.prems(2) by simp
  then obtain ct u1 g1 where ct: "encrypt_internal aes C [t] en p True False u_prng rng = Some (Inr (ct, 0, u1, g1))" "encrypts_to C s L p ct"
    using encrypt_internal_result[OF assms(1-4), of p aes u_prng rng] by (auto simp: encrypts_to_def)
  obtain cts u2 g2 where "encrypt_each aes C [t] en plain u1 g1 = Some (Inr (cts, u2, g2))" "list_all2 (encrypts_to C s L) plain cts"
    by (rule Cons.IH[of u1 g1]) (use Cons.prems(2) in auto)
  then show ?case using ct by (intro Cons.prems(1)[of "ct # cts" u2 g2]) simp_all
qed simp

lemma encrypt_batched_result:
  assumes "ntt_ready C t L" "en_public_key en = Some pk" "public_key_of t L s pk" "small s" "list_all (\<lambda>p. length p = n) plain" "n \<le> he_degree C"
  obtains cts u_prng' rng' where "encrypt_asymmetric_batched aes C [t] en plain u_prng rng = Some (Inr (cts, u_prng', rng'))"
    "list_all2 (encrypts_to C s L) plain cts"
proof -
  have le: "list_all (\<lambda>p. length p \<le> he_degree C) plain" using assms(5,6) by (simp add: list_all_iff)
  show thesis
  proof (cases "length plain < BATCH_OP_THRESHOLD")
    case True
    obtain cts u' g' where "encrypt_each aes C [t] en plain u_prng rng = Some (Inr (cts, u', g'))" "list_all2 (encrypts_to C s L) plain cts"
      by (rule encrypt_each_result[OF assms(1-4) le])
    then show ?thesis using True by (intro that[of cts u' g']) (simp_all add: encrypt_asymmetric_batched_def)
  next
    case False
    obtain zs u' g' where z: "encrypt_zero_asymmetric_batched aes C [t] en False (length plain) u_prng rng = Some (Inr (zs, u', g'))"
      "length zs = length plain" "list_all (zero_under C s L) zs"
      by (rule encrypt_zero_batched_result[OF assms(1-4)])
    obtain cts where c: "add_plain_each C (zip zs plain) = Some (Inr cts)" "list_all2 (encrypts_to C s L) plain cts"
      by (rule add_plain_each_result[OF ntt_readyD(1)[OF assms(1)] z(3,2) le])
    have "plain ! 0 \<in> set plain" using False by (intro nth_mem) (auto simp: BATCH_OP_THRESHOLD_def)
    then have "\<not> (\<exists>p\<in>set plain. length p \<noteq> length (plain ! 0))" "\<not> (\<exists>p\<in>set plain. length p > he_degree C)"
      using assms(5,6) by (auto simp: list_all_iff)
    then have "encrypt_asymmetric_batched aes C [t] en plain u_prng rng = Some (Inr (cts, u', g'))"
      using False z(1) c(1) unfolding encrypt_asymmetric_batched_def by simp
    then show ?thesis using c(2) by (rule that)
  qed
qed

end
