(* ===== verification/Scheme.thy ===== *)
theory Scheme
  imports Rlwe_Batch Example
begin

text \<open>
  The encryption scheme and the protocol together: what public-key encryption writes, decryption and decoding
  read back, and with the keys, encryption and decryption of the library in the place of the
  parameters \<open>encrypt\<close>, \<open>enc0\<close> and \<open>env_decrypt\<close> the assumptions of the protocol proofs hold.
\<close>

abbreviation "encryption_noise C L \<equiv> t_of C * fresh_noise L + (t_of C + 1) div 2"

abbreviation public_encryptor :: "ciphertext \<Rightarrow> encryptor" where
  "public_encryptor pk \<equiv> \<lparr>en_public_key = Some pk, en_secret_key = None\<rparr>"

definition scheme_decrypt :: "he_context \<Rightarrow> ntt_tables list \<Rightarrow> u64 list \<Rightarrow> ciphertext \<Rightarrow> u64 list" where
  "scheme_decrypt C tables sk ct = (case bfv_decrypt_without_scaling_down C tables sk False ct of Inr xs \<Rightarrow> xs | Inl e \<Rightarrow> [])"

text \<open>
  How the programs come by a ciphertext: alone, or as an element of a batch of equally long plaintexts;
  the masks from a generator of the caller or of the context, in any state.
\<close>

definition encrypted_by :: "Random_Generator.block_cipher \<Rightarrow> he_context \<Rightarrow> ntt_tables \<Rightarrow> ciphertext \<Rightarrow> u64 list \<Rightarrow> ciphertext \<Rightarrow> bool" where
  "encrypted_by aes C t pk plain ct \<longleftrightarrow>
     (\<exists>u g u' g'. encrypt_internal aes C [t] (public_encryptor pk) plain True False u g = Some (Inr (ct, 0, u', g'))) \<or>
     (\<exists>plains i cts u g u' g'. encrypt_asymmetric_batched aes C [t] (public_encryptor pk) plains u g = Some (Inr (cts, u', g')) \<and>
        list_all (\<lambda>p. length p = length plain) plains \<and> i < length plains \<and> plains ! i = plain \<and> cts ! i = ct)"

definition zero_encrypted_by :: "Random_Generator.block_cipher \<Rightarrow> he_context \<Rightarrow> ntt_tables \<Rightarrow> ciphertext \<Rightarrow> ciphertext \<Rightarrow> bool" where
  "zero_encrypted_by aes C t pk ct \<longleftrightarrow>
     (\<exists>n i cts u g u' g'. encrypt_zero_asymmetric_batched aes C [t] (public_encryptor pk) False n u g = Some (Inr (cts, u', g')) \<and> i < n \<and> cts ! i = ct)"

lemma encrypted_by_encrypts:
  assumes "ntt_ready C t L" "public_key_of t L s pk" "small s" "length plain \<le> he_degree C" "encrypted_by aes C t pk plain ct"
  shows "encrypts_to C s L plain ct"
  using assms(5) unfolding encrypted_by_def
proof (elim disjE exE conjE)
  fix u g u' g' assume "encrypt_internal aes C [t] (public_encryptor pk) plain True False u g = Some (Inr (ct, 0, u', g'))"
  then show ?thesis
    using encrypt_internal_result[OF assms(1) _ assms(2-4), of "public_encryptor pk" aes u g] by (auto simp: encrypts_to_def)
next
  fix plains i cts u g u' g'
  assume b: "encrypt_asymmetric_batched aes C [t] (public_encryptor pk) plains u g = Some (Inr (cts, u', g'))"
    "list_all (\<lambda>p. length p = length plain) plains" "i < length plains" "plains ! i = plain" "cts ! i = ct"
  obtain cts' u1 g1 where "encrypt_asymmetric_batched aes C [t] (public_encryptor pk) plains u g = Some (Inr (cts', u1, g1))"
    "list_all2 (encrypts_to C s L) plains cts'"
    by (rule encrypt_batched_result[OF assms(1) _ assms(2,3) b(2) assms(4), of "public_encryptor pk"]) simp_all
  then have "list_all2 (encrypts_to C s L) plains cts" using b(1) by simp
  from list_all2_nthD[OF this b(3)] show ?thesis by (simp only: b(4,5))
qed

lemma zero_encrypted_by_encodes:
  assumes "ntt_ready C t L" "public_key_of t L s pk" "small s" "zero_encrypted_by aes C t pk ct"
  shows "zero_under C s L ct"
proof -
  obtain n i cts u g u' g' where b: "encrypt_zero_asymmetric_batched aes C [t] (public_encryptor pk) False n u g = Some (Inr (cts, u', g'))" "i < n" "cts ! i = ct"
    using assms(4) unfolding zero_encrypted_by_def by blast
  obtain cts' u1 g1 where "encrypt_zero_asymmetric_batched aes C [t] (public_encryptor pk) False n u g = Some (Inr (cts', u1, g1))"
    "length cts' = n" "list_all (zero_under C s L) cts'"
    by (rule encrypt_zero_batched_result[OF assms(1) _ assms(2,3), of "public_encryptor pk"]) simp_all
  then show ?thesis using b by (auto simp: list_all_length)
qed

lemma keys_of:
  assumes "ntt_ready C t L" "KeyGenerator aes C [t] g0 = Inr (sk, g1)" "generate_pk aes C [t] sk save_seed None g1 = Some (Inr (pk, seed, u, g2))"
  obtains s where "secret_key_of t L s sk" "public_key_of t L s pk" "small s"
proof -
  obtain s where s: "secret_key_of t L s sk" using KeyGenerator_result[OF assms(1), of aes g0] assms(2) by auto
  obtain sd g where "nonzero_seed aes (case None of None \<Rightarrow> g1 | Some g \<Rightarrow> g) = Some (sd, g)"
    using assms(3) by (cases "nonzero_seed aes g1") (auto simp: generate_pk_def symmetric_with_c1_prng_def)
  from generate_pk_result[OF assms(1) s this, of save_seed] assms(3) have "public_key_of t L s pk" by auto
  then show thesis by (rule that[OF s]) (use s in \<open>simp add: secret_key_of_def\<close>)
qed

lemma decode_encoded:
  assumes "encodes C s ct k m E" "uint x = phase C s ct k" "wf_rns_tool R" "rns_q R = he_q C" "rns_t R = he_t C"
    "2 * uint (mod_value (gamma R)) * E \<le> (uint (mod_value (gamma R)) - 3) * q_of C"
  shows "map uint (decrypt_scale_and_round R [x] 1) = [m mod t_of C]"
proof -
  obtain e j where e: "t_of C * phase C s ct k = q_of C * m + e + t_of C * q_of C * j" "\<bar>e\<bar> \<le> E"
    using assms(1) by (auto simp: encodes_def)
  have "2 * uint (mod_value (gamma R)) * \<bar>e\<bar> \<le> 2 * uint (mod_value (gamma R)) * E" by (rule mult_left_mono[OF e(2)]) simp
  then have "2 * uint (mod_value (gamma R)) * \<bar>e\<bar> \<le> (uint (mod_value (gamma R)) - 3) * q_of C" using assms(6) by linarith
  then show ?thesis
    using decrypt_scale_and_round_value[OF assms(3), of x m e j] e(1) by (simp add: assms(2,4,5))
qed

lemma scheme_meets_assumptions:
  fixes V :: environment
  defines "C \<equiv> env_C V"
  assumes "wf_client cl" "ntt_ready C t L" "matching C (env_R V) (env_sv V) cl" "transfers_chosen (env_ot V)"
    "dummies_hit (env_aes V) cl (\<lambda>h. fst (FindCutoff ne (select_values (env_aes V) (unat (cl_PartNum cl)) h) (unat (cl_PartNum cl))))"
    "KeyGenerator aes C [t] g0 = Inr (sk, g1)" "generate_pk aes C [t] sk save_seed None g1 = Some (Inr (pk, seed, u, g2))"
    "\<And>i plain. length plain \<le> he_degree C \<Longrightarrow> encrypted_by aes C t pk plain (encrypt i plain)"
    "\<And>i. zero_encrypted_by aes C t pk (enc0 i)"
    "env_decrypt V = scheme_decrypt C [t] sk"
    "2 * uint (mod_value (gamma (env_R V))) * (backup_noise cl (encryption_noise C L) + (t_of C + 1) div 2 + encryption_noise C L + t_of C * (D + 13))
       \<le> (uint (mod_value (gamma (env_R V))) - 3) * q_of C"
  shows "\<exists>s. protocol_assumptions V s ne enc0 encrypt (encryption_noise C L) D cl"
proof -
  note R = ntt_readyD[OF assms(3)]
  obtain s where s: "secret_key_of t L s sk" "public_key_of t L s pk" "small s" by (rule keys_of[OF assms(3,7,8)])
  have enc: "encrypts C s encrypt (encryption_noise C L)"
    unfolding encrypts_def
  proof (intro allI impI)
    fix i k and plain :: "u64 list" assume p: "length plain \<le> he_degree C" "k < length plain"
    show "encodes C s (encrypt i plain) k (uint (plain ! k)) (encryption_noise C L)"
      using encrypted_by_encrypts[OF assms(3) s(2,3) p(1) assms(9)[OF p(1)]] p(2) by (simp add: encrypts_to_def)
  qed
  have z: "encodes C s (enc0 i) (unat (cl_PartSize cl) - 1) 0 (encryption_noise C L)" for i
  proof -
    have k: "unat (cl_PartSize cl) - 1 < he_degree C"
      using assms(4) wf_client_PartSize[OF assms(2)] unfolding matching_def by linarith
    have "encodes C s (enc0 i) (unat (cl_PartSize cl) - 1) 0 (t_of C * fresh_noise L)"
      using zero_encrypted_by_encodes[OF assms(3) s(2,3) assms(10)] k by (auto simp: zero_under_def)
    then show ?thesis by (rule encodes_mono) (use wf_contextD(6)[OF R(1)] in simp)
  qed
  have dec: "decrypts_to_phase C s (env_decrypt V)"
    unfolding decrypts_to_phase_def assms(11)
  proof (intro allI impI)
    fix ct assume "wf_ct C ct"
    from decrypt_result[OF assms(3) s(1) this]
    show "length (scheme_decrypt C [t] sk ct) = he_degree C \<and> (\<forall>k<he_degree C. uint (scheme_decrypt C [t] sk ct ! k) = phase C s ct k)"
      by (auto simp: scheme_decrypt_def)
  qed
  show ?thesis
    using R(1) assms(4-6,12) enc z dec unfolding protocol_assumptions_def library_assumptions_def extras_exist_def Let_def C_def[symmetric] by blast
qed

section \<open>Results\<close>

text \<open>
  C4: Keys, encryption and decryption fit together, for every block cipher and all generator states: key
  generation returns a secret key; when a non-zero seed is found it returns a public key; every
  plaintext is then encrypted without failure, and decrypting and decoding coefficient by coefficient
  gives the plaintext modulo \<open>t\<close>, provided \<open>q\<close> leaves room for the fresh noise \<open>8 + 128 n\<close>.
\<close>

theorem encryption_round_trip:
  assumes "ntt_ready C t L" "wf_rns_tool R" "rns_q R = he_q C" "rns_t R = he_t C"
    "2 * uint (mod_value (gamma R)) * encryption_noise C L \<le> (uint (mod_value (gamma R)) - 3) * q_of C"
  shows "\<exists>sk g1. KeyGenerator aes C [t] g0 = Inr (sk, g1) \<and>
    (nonzero_seed aes g1 \<noteq> None \<longrightarrow>
      (\<exists>pk seed u g2. generate_pk aes C [t] sk save_seed None g1 = Some (Inr (pk, seed, u, g2)) \<and>
        (\<forall>plain g3. length plain \<le> he_degree C \<longrightarrow>
          (\<exists>ct u g4 xs. encrypt_internal aes C [t] (public_encryptor pk) plain True False None g3 = Some (Inr (ct, 0, u, g4)) \<and>
            bfv_decrypt_without_scaling_down C [t] sk False ct = Inr xs \<and>
            (\<forall>k<length plain. map uint (decrypt_scale_and_round R [xs ! k] 1) = [uint (plain ! k) mod t_of C])))))"
proof -
  obtain sk g1 s where s: "KeyGenerator aes C [t] g0 = Inr (sk, g1)" "secret_key_of t L s sk"
    using KeyGenerator_result[OF assms(1)] by blast
  have small: "small s" using s(2) by (simp add: secret_key_of_def)
  have "\<exists>pk seed u g2. generate_pk aes C [t] sk save_seed None g1 = Some (Inr (pk, seed, u, g2)) \<and> public_key_of t L s pk"
    if "nonzero_seed aes g1 \<noteq> None"
    using generate_pk_result[OF assms(1) s(2), where aes = aes and u_prng = None and rng = g1 and save_seed = save_seed] that by auto
  moreover have "\<exists>ct u g4 xs. encrypt_internal aes C [t] (public_encryptor pk) plain True False None g3 = Some (Inr (ct, 0, u, g4)) \<and>
      bfv_decrypt_without_scaling_down C [t] sk False ct = Inr xs \<and>
      (\<forall>k<length plain. map uint (decrypt_scale_and_round R [xs ! k] 1) = [uint (plain ! k) mod t_of C])"
    if p: "public_key_of t L s pk" "length plain \<le> he_degree C" for pk plain g3
  proof -
    obtain ct u g4 where ct: "encrypt_internal aes C [t] (public_encryptor pk) plain True False None g3 = Some (Inr (ct, 0, u, g4))" "wf_ct C ct"
      "\<And>k. k < length plain \<Longrightarrow> encodes C s ct k (uint (plain ! k)) (encryption_noise C L)"
      using encrypt_internal_result[OF assms(1) _ p(1) small p(2), of "public_encryptor pk" aes None g3] by auto
    obtain xs where xs: "bfv_decrypt_without_scaling_down C [t] sk False ct = Inr xs" "\<And>k. k < he_degree C \<Longrightarrow> uint (xs ! k) = phase C s ct k"
      using decrypt_result[OF assms(1) s(2) ct(2)] by auto
    have "map uint (decrypt_scale_and_round R [xs ! k] 1) = [uint (plain ! k) mod t_of C]" if "k < length plain" for k
      using decode_encoded[OF ct(3)[OF that] xs(2) assms(2-5)] that p(2) by simp
    then show ?thesis using ct(1) xs(1) by blast
  qed
  ultimately show ?thesis using s(1) by blast
qed

text \<open>
  C5: A batch of encryptions decrypts element by element: with generated keys, encrypting equally long
  plaintexts in one batch, of whatever size, returns as many ciphertexts, and decrypting and decoding
  each gives its plaintext modulo \<open>t\<close>, within the noise of single encryptions.
\<close>

theorem batch_round_trip:
  assumes "ntt_ready C t L" "wf_rns_tool R" "rns_q R = he_q C" "rns_t R = he_t C"
    "2 * uint (mod_value (gamma R)) * encryption_noise C L \<le> (uint (mod_value (gamma R)) - 3) * q_of C"
    "KeyGenerator aes C [t] g0 = Inr (sk, g1)" "generate_pk aes C [t] sk save_seed None g1 = Some (Inr (pk, seed, u, g2))"
    "\<forall>p\<in>set plains. length p = n" "n \<le> he_degree C"
  shows "\<exists>cts u_prng' g3. encrypt_asymmetric_batched aes C [t] (public_encryptor pk) plains u_prng g = Some (Inr (cts, u_prng', g3)) \<and>
    length cts = length plains \<and>
    (\<forall>i<length plains. \<exists>xs. bfv_decrypt_without_scaling_down C [t] sk False (cts ! i) = Inr xs \<and>
      (\<forall>k<n. map uint (decrypt_scale_and_round R [xs ! k] 1) = [uint (plains ! i ! k) mod t_of C]))"
proof -
  obtain s where s: "secret_key_of t L s sk" "public_key_of t L s pk" "small s" by (rule keys_of[OF assms(1,6,7)])
  obtain cts u' g3 where c: "encrypt_asymmetric_batched aes C [t] (public_encryptor pk) plains u_prng g = Some (Inr (cts, u', g3))"
    "list_all2 (encrypts_to C s L) plains cts"
    by (rule encrypt_batched_result[OF assms(1) _ s(2,3) _ assms(9), of "public_encryptor pk" plains])
      (use assms(8) in \<open>simp_all add: list_all_iff\<close>)
  have "\<exists>xs. bfv_decrypt_without_scaling_down C [t] sk False (cts ! i) = Inr xs \<and>
      (\<forall>k<n. map uint (decrypt_scale_and_round R [xs ! k] 1) = [uint (plains ! i ! k) mod t_of C])" if i: "i < length plains" for i
  proof -
    have e: "encrypts_to C s L (plains ! i) (cts ! i)" "length (plains ! i) = n"
      using list_all2_nthD[OF c(2) i] assms(8) i by simp_all
    obtain xs where xs: "bfv_decrypt_without_scaling_down C [t] sk False (cts ! i) = Inr xs" "\<And>k. k < he_degree C \<Longrightarrow> uint (xs ! k) = phase C s (cts ! i) k"
      using decrypt_result[OF assms(1) s(1), of "cts ! i"] e(1) by (auto simp: encrypts_to_def)
    have "map uint (decrypt_scale_and_round R [xs ! k] 1) = [uint (plains ! i ! k) mod t_of C]" if "k < n" for k
      using decode_encoded[OF _ xs(2) assms(2-5), of k "uint (plains ! i ! k)"] that assms(9) e by (simp add: encrypts_to_def)
    with xs(1) show ?thesis by blast
  qed
  then show ?thesis using c list_all2_lengthD[OF c(2)] by auto
qed

text \<open>
  C6: The set-up of the protocol with the library's own scheme: with keys from the key generator, a database and a
  zero cache encrypted by the encryptor, alone or in batches and in whatever generator states, parities started from
  batches of encryptions of zero, and answers decrypted by the decryptor, the set-up returns a client that is ready for queries, for a noise budget stated in the parameters.
\<close>

theorem scheme_set_up_ready:
  fixes V :: environment
  assumes "wf_client cl" "dummy_ok (env_aes V) cl" "nth_element_spec ne"
    "ntt_ready (env_C V) t L" "matching (env_C V) (env_R V) (env_sv V) cl" "transfers_chosen (env_ot V)"
    "dummies_hit (env_aes V) cl (\<lambda>h. fst (FindCutoff ne (select_values (env_aes V) (unat (cl_PartNum cl)) h) (unat (cl_PartNum cl))))"
    "KeyGenerator aes (env_C V) [t] g0 = Inr (sk, g1)" "generate_pk aes (env_C V) [t] sk save_seed None g1 = Some (Inr (pk, seed, u, g2))"
    "\<And>i plain. length plain \<le> he_degree (env_C V) \<Longrightarrow> encrypted_by aes (env_C V) t pk plain (encrypt i plain)"
    "\<And>i. zero_encrypted_by aes (env_C V) t pk (enc0 i)"
    "env_decrypt V = scheme_decrypt (env_C V) [t] sk"
    "2 * uint (mod_value (gamma (env_R V))) * (backup_noise cl (encryption_noise (env_C V) L) + (t_of (env_C V) + 1) div 2 +
         encryption_noise (env_C V) L + t_of (env_C V) * (D + 13)) \<le> (uint (mod_value (gamma (env_R V))) - 3) * q_of (env_C V)"
  shows "\<exists>s cl'. set_up V ne enc0 encrypt n cl = Some (Inr cl') \<and>
    ready V s (backup_noise cl (encryption_noise (env_C V) L)) (encryption_noise (env_C V) L) D cl' \<and> length (encZeroCache cl') = n"
proof -
  have "\<exists>s. protocol_assumptions V s ne enc0 encrypt (encryption_noise (env_C V) L) D cl"
    by (rule scheme_meets_assumptions[OF assms(1,4-9)]) (rule assms(10-13), assumption?)+
  then obtain s where "protocol_assumptions V s ne enc0 encrypt (encryption_noise (env_C V) L) D cl" ..
  from nth_element_spec.set_up_ready[OF assms(3,1,2) refl this, of n] show ?thesis by blast
qed

subsection \<open>A concrete instance: degree 2, \<open>q = 1048589\<close>\<close>

definition sc_C :: he_context where
  "sc_C = ex_C\<lparr>he_q := sample_modulus 1048589, coeff_div_plain_modulus := ex_operand 61681 1048589, coeff_modulus_mod_plain_modulus := 12\<rparr>"

definition sc_R :: rns_tool where
  "sc_R = ex_R\<lparr>rns_q := sample_modulus 1048589, inv_punctured_q := [ex_operand 1 1048589], prod_t_gamma_mod_q := ex_operand 1649 1048589,
     neg_inv_q_mod_t_gamma := [ex_operand 7 17, ex_operand 51 97]\<rparr>"

definition sc_tables :: ntt_tables where
  "sc_tables = \<lparr>nt_root = 38993, nt_coeff_count_power = 1, nt_coeff_count = 2, nt_modulus = sample_modulus 1048589,
     inv_degree_modulo = ex_operand 524295 1048589, root_powers = [ex_operand 1 1048589, ex_operand 38993 1048589],
     inv_root_powers = [ex_operand 1 1048589, ex_operand 1009596 1048589]\<rparr>"

definition sc_aes :: Random_Generator.block_cipher where
  "sc_aes = (\<lambda>c s. \<lparr>low = 7, high = 1\<rparr>)"

definition sc_start :: random_generator where "sc_start = reset_seed \<lparr>low = 1, high = 0\<rparr>"

lemma sc_ready: "ntt_ready sc_C sc_tables 1"
proof -
  have "root_tree 1048589 2 (ntt_w sc_tables)"
    unfolding root_tree_def by (auto simp: less_2_cases_iff Ntt_Spec.root_def ntt_w_def sc_tables_def ex_operand_def)
  then have "wf_ntt_tables 1 sc_tables"
    by (simp add: wf_ntt_tables_def ntt_q_def ntt_w_def ntt_w_inv_def sc_tables_def ex_operand_def less_2_cases_iff
        wf_modulus_def sample_modulus_def wf_operand_def residue_def uint_word_of_int)
  moreover have "wf_context sc_C"
    by (simp add: wf_context_def sc_C_def ex_C_def sample_modulus_def ex_operand_def wf_modulus_def wf_operand_def residue_def
        uint_word_of_int exI[of _ 1])
  ultimately show ?thesis by (simp add: ntt_ready_def ready_tables_def sc_C_def ex_C_def sc_tables_def)
qed

lemma sc_R_wf: "wf_rns_tool sc_R"
  by (simp add: wf_rns_tool_def sc_R_def ex_R_def sample_modulus_def ex_operand_def wf_modulus_def wf_operand_def residue_def
      neg_inverse_operand_def uint_word_of_int)

lemma sc_sizes: "he_degree sc_C = 2" "t_of sc_C = 17" "q_of sc_C = 1048589" "rns_q sc_R = he_q sc_C" "rns_t sc_R = he_t sc_C"
    "uint (mod_value (gamma sc_R)) = 97" "fresh_noise (Suc 0) = 264"
  by (simp_all add: sc_C_def ex_C_def sc_R_def ex_R_def fresh_noise_def)

lemma sc_seed: "\<exists>g. nonzero_seed sc_aes g1 = Some (7, g)"
  by (subst nonzero_seed.simps) (simp add: sample_uint64_def host_generate_uint128_def sc_aes_def)

theorem encryption_round_trip_witness:
  "\<exists>sk g1 pk seed u g2 ct u' g4 xs. KeyGenerator sc_aes sc_C [sc_tables] sc_start = Inr (sk, g1) \<and>
     generate_pk sc_aes sc_C [sc_tables] sk False None g1 = Some (Inr (pk, seed, u, g2)) \<and>
     encrypt_internal sc_aes sc_C [sc_tables] (public_encryptor pk) [5, 20] True False None g2 = Some (Inr (ct, 0, u', g4)) \<and>
     bfv_decrypt_without_scaling_down sc_C [sc_tables] sk False ct = Inr xs \<and>
     map uint (decrypt_scale_and_round sc_R [xs ! 0] 1) = [5] \<and> map uint (decrypt_scale_and_round sc_R [xs ! 1] 1) = [3]"
proof -
  have b: "2 * uint (mod_value (gamma sc_R)) * encryption_noise sc_C 1 \<le> (uint (mod_value (gamma sc_R)) - 3) * q_of sc_C"
    by (simp add: sc_sizes)
  obtain sk g1 where k: "KeyGenerator sc_aes sc_C [sc_tables] sc_start = Inr (sk, g1)"
    and r: "\<exists>pk seed u g2. generate_pk sc_aes sc_C [sc_tables] sk False None g1 = Some (Inr (pk, seed, u, g2)) \<and>
        (\<forall>plain g3. length plain \<le> he_degree sc_C \<longrightarrow>
          (\<exists>ct u g4 xs. encrypt_internal sc_aes sc_C [sc_tables] (public_encryptor pk) plain True False None g3 = Some (Inr (ct, 0, u, g4)) \<and>
            bfv_decrypt_without_scaling_down sc_C [sc_tables] sk False ct = Inr xs \<and>
            (\<forall>k<length plain. map uint (decrypt_scale_and_round sc_R [xs ! k] 1) = [uint (plain ! k) mod t_of sc_C])))"
    using encryption_round_trip[OF sc_ready sc_R_wf sc_sizes(4,5) b, of sc_aes sc_start False] sc_seed by fastforce
  obtain pk seed u g2 where p: "generate_pk sc_aes sc_C [sc_tables] sk False None g1 = Some (Inr (pk, seed, u, g2))"
    "\<And>plain g3. length plain \<le> he_degree sc_C \<Longrightarrow>
          (\<exists>ct u g4 xs. encrypt_internal sc_aes sc_C [sc_tables] (public_encryptor pk) plain True False None g3 = Some (Inr (ct, 0, u, g4)) \<and>
            bfv_decrypt_without_scaling_down sc_C [sc_tables] sk False ct = Inr xs \<and>
            (\<forall>k<length plain. map uint (decrypt_scale_and_round sc_R [xs ! k] 1) = [uint (plain ! k) mod t_of sc_C]))"
    using r by blast
  obtain ct u' g4 xs where c: "encrypt_internal sc_aes sc_C [sc_tables] (public_encryptor pk) [5, 20] True False None g2 = Some (Inr (ct, 0, u', g4))"
    "bfv_decrypt_without_scaling_down sc_C [sc_tables] sk False ct = Inr xs"
    "\<And>k. k < length [5, 20 :: u64] \<Longrightarrow> map uint (decrypt_scale_and_round sc_R [xs ! k] 1) = [uint ([5, 20 :: u64] ! k) mod t_of sc_C]"
    using p(2)[of "[5, 20]" g2] by (auto simp: sc_sizes(1))
  show ?thesis using k p(1) c(1,2) c(3)[of 0] c(3)[of 1] by (simp add: sc_sizes(2))
qed

theorem batch_round_trip_witness:
  "\<exists>sk g1 pk seed u g2 cts u' g3 xs. KeyGenerator sc_aes sc_C [sc_tables] sc_start = Inr (sk, g1) \<and>
     generate_pk sc_aes sc_C [sc_tables] sk False None g1 = Some (Inr (pk, seed, u, g2)) \<and>
     encrypt_asymmetric_batched sc_aes sc_C [sc_tables] (public_encryptor pk) [[1, 2], [3, 4], [5, 6], [7, 20]] None g2 = Some (Inr (cts, u', g3)) \<and>
     bfv_decrypt_without_scaling_down sc_C [sc_tables] sk False (cts ! 3) = Inr xs \<and> map uint (decrypt_scale_and_round sc_R [xs ! 1] 1) = [3]"
proof -
  have b: "2 * uint (mod_value (gamma sc_R)) * encryption_noise sc_C 1 \<le> (uint (mod_value (gamma sc_R)) - 3) * q_of sc_C"
    by (simp add: sc_sizes)
  obtain sk g1 s where k: "KeyGenerator sc_aes sc_C [sc_tables] sc_start = Inr (sk, g1)" "secret_key_of sc_tables 1 s sk"
    using KeyGenerator_result[OF sc_ready] by blast
  obtain g where "nonzero_seed sc_aes (case None of None \<Rightarrow> g1 | Some g \<Rightarrow> g) = Some (7, g)" using sc_seed by auto
  from generate_pk_result[OF sc_ready k(2) this, of False]
  obtain pk u g2 where p: "generate_pk sc_aes sc_C [sc_tables] sk False None g1 = Some (Inr (pk, 0, u, g2))" by auto
  let ?p = "[[1, 2], [3, 4], [5, 6], [7, 20]] :: u64 list list"
  have l: "\<forall>x\<in>set ?p. length x = 2" "2 \<le> he_degree sc_C" by (simp_all add: sc_sizes(1))
  obtain cts u' g3 where c: "encrypt_asymmetric_batched sc_aes sc_C [sc_tables] (public_encryptor pk) ?p None g2 = Some (Inr (cts, u', g3))"
    "\<forall>i<length ?p. \<exists>xs. bfv_decrypt_without_scaling_down sc_C [sc_tables] sk False (cts ! i) = Inr xs \<and>
      (\<forall>k<2. map uint (decrypt_scale_and_round sc_R [xs ! k] 1) = [uint (?p ! i ! k) mod t_of sc_C])"
    using batch_round_trip[OF sc_ready sc_R_wf sc_sizes(4,5) b k(1) p l, of None g2] by blast
  have i: "3 < length ?p" "1 < (2 :: nat)" by simp_all
  obtain xs where x: "bfv_decrypt_without_scaling_down sc_C [sc_tables] sk False (cts ! 3) = Inr xs"
    "\<forall>k<2. map uint (decrypt_scale_and_round sc_R [xs ! k] 1) = [uint (?p ! 3 ! k) mod t_of sc_C]"
    using c(2)[rule_format, OF i(1)] by blast
  have "map uint (decrypt_scale_and_round sc_R [xs ! 1] 1) = [3]" using x(2)[rule_format, OF i(2)] by (simp add: sc_sizes(2) del: One_nat_def)
  then show ?thesis by (intro exI conjI) (rule k(1), rule p, rule c(1), rule x(1))
qed

definition sc_env :: "u64 list \<Rightarrow> environment" where
  "sc_env sk = ex_env\<lparr>env_C := sc_C, env_R := sc_R, env_decrypt := scheme_decrypt sc_C [sc_tables] sk\<rparr>"

theorem scheme_set_up_ready_witness:
  "\<exists>sk g1 enc0 encrypt s cl'. KeyGenerator sc_aes sc_C [sc_tables] sc_start = Inr (sk, g1) \<and>
     set_up (sc_env sk) std_nth_element enc0 encrypt 2 ex_client = Some (Inr cl') \<and> ready (sc_env sk) s 13491 4497 4 cl'"
proof -
  obtain sk g1 s where k: "KeyGenerator sc_aes sc_C [sc_tables] sc_start = Inr (sk, g1)" "secret_key_of sc_tables 1 s sk"
    using KeyGenerator_result[OF sc_ready] by blast
  obtain g where "nonzero_seed sc_aes (case None of None \<Rightarrow> g1 | Some g \<Rightarrow> g) = Some (7, g)" using sc_seed by auto
  from generate_pk_result[OF sc_ready k(2) this, of False]
  obtain pk u g2 where p: "generate_pk sc_aes sc_C [sc_tables] sk False None g1 = Some (Inr (pk, 0, u, g2))" "public_key_of sc_tables 1 s pk"
    by auto
  let ?enc = "\<lambda>plain. encrypt_internal sc_aes sc_C [sc_tables] (public_encryptor pk) plain True False None g2"
  define encrypt :: "nat \<Rightarrow> u64 list \<Rightarrow> ciphertext" where "encrypt i plain = (case ?enc plain of Some (Inr (ct, _)) \<Rightarrow> ct | _ \<Rightarrow> ex_zero)" for i plain
  have small: "small s" using k(2) by (simp add: secret_key_of_def)
  obtain zs u3 g3 where zs: "encrypt_zero_asymmetric_batched sc_aes sc_C [sc_tables] (public_encryptor pk) False 4 None g2 = Some (Inr (zs, u3, g3))"
    by (rule encrypt_zero_batched_result[OF sc_ready _ p(2) small, of "public_encryptor pk"]) simp_all
  define enc0 :: "nat \<Rightarrow> ciphertext" where "enc0 i = zs ! (i mod 4)" for i
  have V: "env_C (sc_env sk) = sc_C" "env_R (sc_env sk) = sc_R" "env_aes (sc_env sk) = ex_aes" "env_sv (sc_env sk) = ex_server"
    "env_decrypt (sc_env sk) = scheme_decrypt sc_C [sc_tables] sk" "transfers_chosen (env_ot (sc_env sk))"
    by (simp_all add: sc_env_def ex_env_def transfers_chosen_def)
  have m: "matching sc_C sc_R ex_server ex_client"
    using ex_match sc_R_wf by (simp add: matching_def sc_sizes) (simp add: ex_C_def sc_C_def)
  have e: "encrypted_by sc_aes sc_C sc_tables pk plain (encrypt i plain)" if "length plain \<le> he_degree sc_C" for i plain
    using encrypt_internal_result[OF sc_ready _ p(2) small that, of "public_encryptor pk" sc_aes None g2]
    by (auto simp: encrypt_def encrypted_by_def)
  have z: "zero_encrypted_by sc_aes sc_C sc_tables pk (enc0 i)" for i
    unfolding zero_encrypted_by_def enc0_def using zs by (intro exI[of _ 4] exI[of _ "i mod 4"] exI[of _ zs]) auto
  have n: "encryption_noise sc_C 1 = 4497" "backup_noise ex_client 4497 = 13491"
    by (simp_all add: backup_noise_def sc_sizes ex_sizes)
  have b: "2 * uint (mod_value (gamma sc_R)) * (backup_noise ex_client (encryption_noise sc_C 1) + (t_of sc_C + 1) div 2 +
         encryption_noise sc_C 1 + t_of sc_C * (4 + 13)) \<le> (uint (mod_value (gamma sc_R)) - 3) * q_of sc_C"
    unfolding n by (simp add: sc_sizes)
  have "\<exists>s cl'. set_up (sc_env sk) std_nth_element enc0 encrypt 2 ex_client = Some (Inr cl') \<and>
      ready (sc_env sk) s (backup_noise ex_client (encryption_noise sc_C 1)) (encryption_noise sc_C 1) 4 cl' \<and>
      length (encZeroCache cl') = 2"
    by (rule scheme_set_up_ready[where V = "sc_env sk" and aes = sc_aes and t = sc_tables and pk = pk and sk = sk, unfolded V,
          OF ex_client_wf ex_client_dummy_ok std.nth_element_spec_axioms sc_ready m _ _ k(1) p(1) e z _ b])
      (use V ex_assumptions in \<open>simp_all add: protocol_assumptions_def library_assumptions_def extras_exist_def Let_def ex_env_def\<close>)
  then show ?thesis using k(1) unfolding n by blast
qed

end
