(* ===== verification/Random_Device.thy ===== *)
theory Random_Device
  imports Random_Generator
begin

text \<open>
  The samplers of \<open>src/encryption/utils/random_generator.cu\<close> on a CUDA device. A kernel is its thread body
  run for every thread index; the threads write disjoint positions, so their order does not matter.
  Shown: what a kernel writes, that the counter advances by less than the noise kernel uses, and
  that the ternary sampler of the device is not the one of the host.
\<close>

definition KERNEL_THREAD_COUNT :: nat where "KERNEL_THREAD_COUNT = 256"

definition ceil_div :: "nat \<Rightarrow> nat \<Rightarrow> nat" where "ceil_div a b = (a + b - 1) div b"

definition device_generate_uint128 :: "block_cipher \<Rightarrow> ruint128 \<Rightarrow> ruint128 \<Rightarrow> ruint128" where
  "device_generate_uint128 aes seed counter = aes counter seed"

definition byte_at :: "ruint128 \<Rightarrow> nat \<Rightarrow> u8" where
  "byte_at x index = (if index < 8 then ucast (drop_bit (index * 8) (low x)) else ucast (drop_bit ((index - 8) * 8) (high x)))"

subsection \<open>Thread bodies and kernels\<close>

text \<open>The loop over the moduli: the \<open>i\<close>-th round writes position \<open>idx + i * degree\<close>.\<close>

function store_residues :: "(nat \<Rightarrow> u64) \<Rightarrow> nat \<Rightarrow> nat \<Rightarrow> nat \<Rightarrow> u64 list \<Rightarrow> u64 list" where
  "store_residues f degree index i destination =
     (if index < length destination \<and> 0 < degree
      then store_residues f degree (index + degree) (i + 1) (destination[index := f i]) else destination)"
  by pat_completeness auto
termination by (relation "measure (\<lambda>(f, degree, index, i, destination). length destination - index)") auto

declare store_residues.simps [simp del]

definition device_sample_poly_centered_binomial :: "block_cipher \<Rightarrow> nat \<Rightarrow> modulus list \<Rightarrow> ruint128 \<Rightarrow> ruint128 \<Rightarrow> nat \<Rightarrow> u64 list \<Rightarrow> u64 list" where
  "device_sample_poly_centered_binomial aes degree moduli seed counter idx destination =
     (if idx < degree then
        let rf = device_generate_uint128 aes seed (add_ruint128 counter (of_nat idx)); r = uint64_to_cbd rf
        in store_residues (\<lambda>i. if r \<ge> 0 then word_of_int r else mod_value (moduli ! i) + word_of_int r) degree idx 0 destination
      else destination)"

definition device_sample_poly_ternary :: "block_cipher \<Rightarrow> nat \<Rightarrow> modulus list \<Rightarrow> ruint128 \<Rightarrow> ruint128 \<Rightarrow> nat \<Rightarrow> u64 list \<Rightarrow> u64 list" where
  "device_sample_poly_ternary aes degree moduli seed counter idx destination =
     (if idx < degree then
        let r = byte_at (device_generate_uint128 aes seed (add_ruint128 counter (of_nat (idx div 16)))) (idx mod 16) mod 3
        in store_residues (\<lambda>i. if r = 2 then mod_value (moduli ! i) - 1 else ucast r) degree idx 0 destination
      else destination)"

definition launch :: "nat \<Rightarrow> (nat \<Rightarrow> u64 list \<Rightarrow> u64 list) \<Rightarrow> u64 list \<Rightarrow> u64 list" where
  "launch block_count body destination = fold body [0..<block_count * KERNEL_THREAD_COUNT] destination"

definition sample_poly_ternary_on_device :: "block_cipher \<Rightarrow> random_generator \<Rightarrow> u64 list \<Rightarrow> nat \<Rightarrow> modulus list \<Rightarrow> u64 list \<times> random_generator" where
  "sample_poly_ternary_on_device aes g destination degree moduli =
     (launch (ceil_div degree KERNEL_THREAD_COUNT) (device_sample_poly_ternary aes degree moduli (rg_seed g) (rg_counter g)) destination,
      g\<lparr>rg_counter := add_ruint128 (rg_counter g) (of_nat (ceil_div degree 16))\<rparr>)"

definition sample_poly_centered_binomial_on_device :: "block_cipher \<Rightarrow> random_generator \<Rightarrow> u64 list \<Rightarrow> nat \<Rightarrow> modulus list \<Rightarrow> u64 list \<times> random_generator" where
  "sample_poly_centered_binomial_on_device aes g destination degree moduli =
     (launch (ceil_div degree KERNEL_THREAD_COUNT) (device_sample_poly_centered_binomial aes degree moduli (rg_seed g) (rg_counter g)) destination,
      g\<lparr>rg_counter := add_ruint128 (rg_counter g) (of_nat (ceil_div degree 2))\<rparr>)"

text \<open>The batched kernels, for batches of four or more: block row \<open>idx\<close> starts at its own counter.\<close>

definition sample_poly_ternary_batched_on_device :: "block_cipher \<Rightarrow> random_generator \<Rightarrow> u64 list list \<Rightarrow> nat \<Rightarrow> modulus list \<Rightarrow> u64 list list \<times> random_generator" where
  "sample_poly_ternary_batched_on_device aes g destination degree moduli =
     (map (\<lambda>idx. launch (ceil_div degree KERNEL_THREAD_COUNT)
            (device_sample_poly_ternary aes degree moduli (rg_seed g) (add_ruint128 (rg_counter g) (of_nat ((degree + 15) div 16 * idx))))
            (destination ! idx)) [0..<length destination],
      g\<lparr>rg_counter := add_ruint128 (rg_counter g) (of_nat (ceil_div degree 16 * length destination))\<rparr>)"

definition sample_poly_centered_binomial_batched_on_device :: "block_cipher \<Rightarrow> random_generator \<Rightarrow> u64 list list \<Rightarrow> nat \<Rightarrow> modulus list \<Rightarrow> u64 list list \<times> random_generator" where
  "sample_poly_centered_binomial_batched_on_device aes g destination degree moduli =
     (map (\<lambda>idx. launch (ceil_div degree KERNEL_THREAD_COUNT)
            (device_sample_poly_centered_binomial aes degree moduli (rg_seed g) (add_ruint128 (rg_counter g) (of_nat ((degree + 1) div 2 * idx))))
            (destination ! idx)) [0..<length destination],
      g\<lparr>rg_counter := add_ruint128 (rg_counter g) (of_nat (ceil_div degree 2 * length destination))\<rparr>)"

subsection \<open>What a kernel writes\<close>

lemma length_store_residues [simp]: "length (store_residues f degree index i destination) = length destination"
proof (induction f degree index i destination rule: store_residues.induct)
  case (1 f degree index i destination)
  then show ?case by (subst store_residues.simps) simp
qed

lemma store_residues_nth:
  assumes "p < length destination" "0 < degree"
  shows "store_residues f degree index i destination ! p =
    (if index \<le> p \<and> (p - index) mod degree = 0 then f (i + (p - index) div degree) else destination ! p)"
  using assms
proof (induction f degree index i destination rule: store_residues.induct)
  case (1 f degree index i destination)
  show ?case
  proof (cases "index < length destination \<and> 0 < degree")
    case False
    then show ?thesis using 1(2,3) by (subst store_residues.simps) auto
  next
    case True
    have r: "store_residues f degree index i destination ! p =
        (if index + degree \<le> p \<and> (p - (index + degree)) mod degree = 0 then f (i + 1 + (p - (index + degree)) div degree)
         else destination[index := f i] ! p)"
      using 1(1)[OF True] 1(2,3) True by (subst store_residues.simps) simp
    consider "p = index" | "p < index" | "index < p" "p < index + degree" | "index + degree \<le> p" by linarith
    then show ?thesis
    proof cases
      case 4
      then obtain d where d: "p = index + degree + d" by (auto simp: le_iff_add)
      have "(degree + d) mod degree = d mod degree" "(degree + d) div degree = 1 + d div degree" using True by (simp_all add: div_add_self1)
      then show ?thesis using r True unfolding d by simp
    next
      case 3
      then have "(p - index) mod degree = p - index" by simp
      then show ?thesis unfolding r using 3 True by simp
    qed (use 1(2) True r in simp_all)
  qed
qed

text \<open>A thread body that, below the degree, writes \<open>f idx i\<close> at \<open>idx + i * degree\<close>.\<close>

lemma launch_nth:
  assumes "p < length destination" "0 < degree"
    and body: "\<And>idx xs. body idx xs = (if idx < degree then store_residues (f idx) degree idx 0 xs else xs)"
  shows "launch (ceil_div degree KERNEL_THREAD_COUNT) body destination ! p = f (p mod degree) (p div degree)"
proof -
  have len: "length (fold body ks destination) = length destination" for ks
    by (induction ks arbitrary: destination) (simp_all add: body)
  have step: "fold body [0..<k] destination ! p = (if p mod degree < k then f (p mod degree) (p div degree) else destination ! p)" for k
  proof (induction k)
    case (Suc k)
    show ?case
    proof (cases "k < degree")
      case False
      have "p mod degree < degree" using assms(2) by simp
      then show ?thesis using Suc False by (simp add: body)
    next
      case True
      have hit: "k \<le> p \<and> (p - k) mod degree = 0 \<longleftrightarrow> p mod degree = k"
      proof
        assume h: "k \<le> p \<and> (p - k) mod degree = 0"
        then obtain d where "p = k + degree * d" by (metis le_add_diff_inverse mod_0_imp_dvd dvd_def)
        then show "p mod degree = k" using True by simp
      next
        assume h: "p mod degree = k"
        then show "k \<le> p \<and> (p - k) mod degree = 0" by (metis mod_less_eq_dividend minus_mod_eq_mult_div mod_mult_self1_is_0)
      qed
      have q: "(p - k) div degree = p div degree" if "p mod degree = k"
        using that assms(2) by (metis minus_mod_eq_mult_div nonzero_mult_div_cancel_left neq0_conv)
      have "fold body [0..<Suc k] destination ! p = (if p mod degree = k then f k (p div degree) else fold body [0..<k] destination ! p)"
        using store_residues_nth[of p "fold body [0..<k] destination" degree "f k" k 0] True assms(1,2) hit q
        by (simp add: body len)
      then show ?thesis using Suc by (auto simp: less_Suc_eq)
    qed
  qed simp
  have "degree \<le> ceil_div degree KERNEL_THREAD_COUNT * KERNEL_THREAD_COUNT"
  proof -
    have "(degree + 256 - 1) div 256 * 256 + (degree + 256 - 1) mod 256 = degree + 256 - 1" by (rule div_mult_mod_eq)
    moreover have "(degree + 256 - 1) mod 256 < 256" by simp
    ultimately show ?thesis unfolding ceil_div_def KERNEL_THREAD_COUNT_def by linarith
  qed
  moreover have "p mod degree < degree" using assms(2) by simp
  ultimately show ?thesis unfolding launch_def step by simp
qed

definition cbd_entry :: "modulus \<Rightarrow> int \<Rightarrow> u64" where
  "cbd_entry m r = (if r \<ge> 0 then word_of_int r else mod_value m + word_of_int r)"

lemma cbd_kernel:
  assumes "p < length destination" "0 < degree"
  shows "launch (ceil_div degree KERNEL_THREAD_COUNT) (device_sample_poly_centered_binomial aes degree moduli seed counter) destination ! p
    = cbd_entry (moduli ! (p div degree)) (uint64_to_cbd (aes (add_ruint128 counter (of_nat (p mod degree))) seed))"
  by (subst launch_nth[OF assms, where f = "\<lambda>idx i. cbd_entry (moduli ! i) (uint64_to_cbd (aes (add_ruint128 counter (of_nat idx)) seed))"])
    (simp_all add: device_sample_poly_centered_binomial_def device_generate_uint128_def Let_def cbd_entry_def cong: if_cong)

subsection \<open>The counters overlap\<close>

definition counter_value :: "ruint128 \<Rightarrow> int" where
  "counter_value c = uint (low c) + 2 ^ 64 * uint (high c)"

lemma counter_value_bounds: "0 \<le> counter_value c" "counter_value c < 2 ^ 128"
  using uint_ge_0[of "low c"] uint_ge_0[of "high c"] uint_lt2p[of "low c"] uint_lt2p[of "high c"]
  by (simp_all add: counter_value_def)

lemma counter_value_inject: "counter_value c = counter_value d \<longleftrightarrow> c = d"
proof
  assume e: "counter_value c = counter_value d"
  have r: "uint (low x) = counter_value x mod 2 ^ 64" "uint (high x) = counter_value x div 2 ^ 64" for x
    using uint_ge_0[of "low x"] uint_lt2p[of "low x"] by (simp_all add: counter_value_def)
  show "c = d" using r[of c] r[of d] e by (simp add: word_uint_eq_iff)
qed simp

lemma counter_value_add: "counter_value (add_ruint128 c v) = (counter_value c + uint v) mod 2 ^ 128"
proof -
  let ?H = "uint (high c)" and ?k = "of_bool (low c + v < low c) :: int"
  define d where "d = (?H + ?k) div 2 ^ 64"
  have "uint (high c + (if low c + v < low c then 1 else 0)) = (?H + ?k) mod 2 ^ 64"
    by (simp add: uint_word_ariths)
  also have "\<dots> = ?H + ?k - 2 ^ 64 * d" unfolding d_def by (simp add: minus_mult_div_eq_mod)
  finally have h: "uint (high (add_ruint128 c v)) = ?H + ?k - 2 ^ 64 * d" by (simp add: add_ruint128_def Let_def)
  have "uint (low (add_ruint128 c v)) = uint (low c) + uint v - 2 ^ 64 * ?k"
    using uint_add_wrap[of "low c" v] by (simp add: add_ruint128_def Let_def)
  then have "counter_value (add_ruint128 c v) = counter_value c + uint v + 2 ^ 128 * (- d)"
    unfolding counter_value_def[of "add_ruint128 c v"] h by (simp add: counter_value_def)
  then have "counter_value (add_ruint128 c v) mod 2 ^ 128 = (counter_value c + uint v) mod 2 ^ 128"
    by (simp only: mod_mult_self2)
  then show ?thesis using counter_value_bounds[of "add_ruint128 c v"] by simp
qed

lemma add_ruint128_add:
  assumes "a + b < 2 ^ 64"
  shows "add_ruint128 (add_ruint128 c (of_nat a)) (of_nat b) = add_ruint128 c (of_nat (a + b))"
proof -
  have "uint (of_nat x :: u64) = int x" if "x < 2 ^ 64" for x
    using that by (simp add: uint_nat unat_of_nat)
  then show ?thesis using assms
    unfolding counter_value_inject[symmetric] counter_value_add
    by (simp del: of_nat_add add: mod_add_left_eq) (simp add: add.assoc)
qed

text \<open>
  The noise kernel uses one block per coefficient, but the counter advances by half the degree: the next
  polynomial starts with the second half of this one.
\<close>

lemma device_noise_overlaps:
  assumes "0 < h" "h < 2 ^ 63" "length destination = length destination'" "i * (2 * h) + j + h < length destination" "j < h"
    "sample_poly_centered_binomial_on_device aes g destination (2 * h) moduli = (e0, g')"
    "sample_poly_centered_binomial_on_device aes g' destination' (2 * h) moduli = (e1, g'')"
  shows "e1 ! (i * (2 * h) + j) = e0 ! (i * (2 * h) + j + h)"
proof -
  let ?p = "i * (2 * h) + j" and ?b = "ceil_div (2 * h) KERNEL_THREAD_COUNT"
  have m: "?p mod (2 * h) = j" "?p div (2 * h) = i" "(?p + h) mod (2 * h) = h + j" "(?p + h) div (2 * h) = i"
    using assms(1,5) by (simp_all add: add.assoc)
  have l: "?p < length destination'" "?p + h < length destination" and n: "0 < 2 * h" using assms(1,3,4) by simp_all
  have "ceil_div (2 * h) 2 = h" unfolding ceil_div_def by presburger
  then have g: "rg_seed g' = rg_seed g" "rg_counter g' = add_ruint128 (rg_counter g) (of_nat h)"
    "e0 = launch ?b (device_sample_poly_centered_binomial aes (2 * h) moduli (rg_seed g) (rg_counter g)) destination"
    "e1 = launch ?b (device_sample_poly_centered_binomial aes (2 * h) moduli (rg_seed g') (rg_counter g')) destination'"
    using assms(6,7) by (auto simp: sample_poly_centered_binomial_on_device_def)
  have "add_ruint128 (rg_counter g') (of_nat j) = add_ruint128 (rg_counter g) (of_nat (h + j))"
    unfolding g(2) by (rule add_ruint128_add) (use assms(2,5) in simp)
  then have "e1 ! ?p = cbd_entry (moduli ! i) (uint64_to_cbd (aes (add_ruint128 (rg_counter g) (of_nat (h + j))) (rg_seed g)))"
    unfolding g(4) cbd_kernel[OF l(1) n] m g(1) by simp
  also have "\<dots> = e0 ! (?p + h)"
    unfolding g(3) cbd_kernel[OF l(2) n] m ..
  finally show ?thesis .
qed

text \<open>So do consecutive polynomials of a batch.\<close>

lemma device_batch_overlaps:
  assumes "0 < h" "h < 2 ^ 63" "Suc b < length destination" "h * Suc (Suc b) < 2 ^ 64" "length (destination ! b) = 2 * h" "length (destination ! Suc b) = 2 * h" "j < h"
    "sample_poly_centered_binomial_batched_on_device aes g destination (2 * h) moduli = (es, g')"
  shows "es ! Suc b ! j = es ! b ! (j + h)"
proof -
  let ?k = "ceil_div (2 * h) KERNEL_THREAD_COUNT"
  have h: "(2 * h + 1) div 2 = h" by presburger
  have e: "es ! x = launch ?k (device_sample_poly_centered_binomial aes (2 * h) moduli (rg_seed g) (add_ruint128 (rg_counter g) (of_nat (h * x)))) (destination ! x)"
    if "x < length destination" for x
    using assms(8) that unfolding h sample_poly_centered_binomial_batched_on_device_def by auto
  have l: "b < length destination" using assms(3) by simp
  have m: "j mod (2 * h) = j" "j div (2 * h) = 0" "(j + h) mod (2 * h) = j + h" "(j + h) div (2 * h) = 0" using assms(1,7) by simp_all
  have o: "h * Suc b + j < 2 ^ 64" "h * b + (j + h) < 2 ^ 64"
    using assms(4,7) by simp_all
  have "add_ruint128 (add_ruint128 (rg_counter g) (of_nat (h * Suc b))) (of_nat j) = add_ruint128 (rg_counter g) (of_nat (h * Suc b + j))"
    by (rule add_ruint128_add[OF o(1)])
  also have "h * Suc b + j = h * b + (j + h)" by simp
  also have "add_ruint128 (rg_counter g) (of_nat (h * b + (j + h))) = add_ruint128 (add_ruint128 (rg_counter g) (of_nat (h * b))) (of_nat (j + h))"
    by (rule add_ruint128_add[OF o(2), symmetric])
  finally have c: "add_ruint128 (add_ruint128 (rg_counter g) (of_nat (h * Suc b))) (of_nat j)
      = add_ruint128 (add_ruint128 (rg_counter g) (of_nat (h * b))) (of_nat (j + h))" .
  show ?thesis
    unfolding e[OF assms(3)] e[OF l]
    using cbd_kernel[of j "destination ! Suc b" "2 * h"] cbd_kernel[of "j + h" "destination ! b" "2 * h"] assms(1,5-7) c
    by (simp only: m)
qed

subsection \<open>The ternary sampler of the device\<close>

lemma ternary_kernel:
  assumes "p < length destination" "0 < degree"
  shows "\<exists>r. r < 3 \<and> launch (ceil_div degree KERNEL_THREAD_COUNT) (device_sample_poly_ternary aes degree moduli seed counter) destination ! p
    = (if r = 2 then mod_value (moduli ! (p div degree)) - 1 else ucast (r :: u8))"
proof -
  define r where "r idx = byte_at (aes (add_ruint128 counter (of_nat (idx div 16))) seed) (idx mod 16) mod 3" for idx
  have "launch (ceil_div degree KERNEL_THREAD_COUNT) (device_sample_poly_ternary aes degree moduli seed counter) destination ! p
      = (if r (p mod degree) = 2 then mod_value (moduli ! (p div degree)) - 1 else ucast (r (p mod degree)))"
    by (subst launch_nth[OF assms, where f = "\<lambda>idx i. if r idx = 2 then mod_value (moduli ! i) - 1 else ucast (r idx)"])
      (simp_all add: device_sample_poly_ternary_def device_generate_uint128_def Let_def r_def cong: if_cong)
  moreover have "r x < 3" for x unfolding r_def by (rule word_mod_less_divisor) simp
  ultimately show ?thesis by blast
qed

lemma device_ternary_values:
  assumes "wf_modulus m" "length destination = n" "0 < n" "p < n"
  shows "uint (fst (sample_poly_ternary_on_device aes g destination n [m]) ! p) \<in> {0, 1, uint (mod_value m) - 1}"
proof -
  have l: "p < length destination" using assms(2,4) by simp
  obtain r :: u8 where r: "r < 3" "fst (sample_poly_ternary_on_device aes g destination n [m]) ! p = (if r = 2 then mod_value m - 1 else ucast r)"
    using ternary_kernel[OF l assms(3), of aes "[m]" "rg_seed g" "rg_counter g"] assms(4)
    by (auto simp: sample_poly_ternary_on_device_def)
  have "uint r < 3" using r(1) by (simp add: word_less_def)
  then have "uint r = 0 \<or> uint r = 1 \<or> uint r = 2" using uint_ge_0[of r] by arith
  moreover have "uint (ucast r :: u64) = uint r" using uint_lt2p[of r] by (simp add: unsigned_ucast_eq take_bit_int_eq_self)
  moreover have "r \<noteq> 2 \<Longrightarrow> uint r \<noteq> 2" by (auto simp: word_uint_eq_iff)
  moreover have "uint (mod_value m - 1) = uint (mod_value m) - 1" using wf_modulusD(1)[OF assms(1)] by (simp add: uint_sub_no_borrow word_le_def)
  ultimately show ?thesis unfolding r(2) by auto
qed

section \<open>Results\<close>

text \<open>
  A coefficient sampled from the centered binomial distribution depends on the low byte of each half of
  its random block only, and lies between -8 and 8: the masks of 34 bits are cut to 8 by the
  parameter type of \<open>hamming_weight\<close>.
\<close>

theorem cbd_reads_low_bytes:
  "uint64_to_cbd \<lparr>low = lo, high = hi\<rparr> = uint64_to_cbd \<lparr>low = lo AND 0xFF, high = hi AND 0xFF\<rparr> \<and>
   \<bar>uint64_to_cbd \<lparr>low = lo, high = hi\<rparr>\<bar> \<le> 8"
  using uint64_to_cbd_low_bytes uint64_to_cbd_bound by blast

text \<open>
  C31: The ternary sampler of the host is the centered binomial sampler, whatever the state of the
  generator; the kernel of the device yields only 0, 1 and -1.
\<close>

theorem ternary_sampler_diverges:
  assumes "wf_modulus m" "length destination = n" "0 < n" "p < n"
  shows "sample_poly_ternary aes g destination n [m] = sample_poly_centered_binomial aes g destination n [m] \<and>
    uint (fst (sample_poly_ternary_on_device aes g destination n [m]) ! p) \<in> {0, 1, uint (mod_value m) - 1}"
  using device_ternary_values[OF assms] samplers_agree by simp

theorem ternary_sampler_diverges_witness:
  "uint (fst (sample_poly_ternary (\<lambda>c s. \<lparr>low = 7, high = 0\<rparr>) (reset_seed \<lparr>low = 1, high = 0\<rparr>) [0] 1 [sample_modulus 17]) ! 0) = 3 \<and>
   uint (fst (sample_poly_ternary_on_device (\<lambda>c s. \<lparr>low = 7, high = 0\<rparr>) (reset_seed \<lparr>low = 1, high = 0\<rparr>) [0] 1 [sample_modulus 17]) ! 0) \<in> {0, 1, 16}"
proof -
  have m: "wf_modulus (sample_modulus 17)" by (simp add: wf_modulus_def sample_modulus_def uint_word_of_int)
  have "uint (fst (sample_poly_ternary (\<lambda>c s. \<lparr>low = 7, high = 0\<rparr>) (reset_seed \<lparr>low = 1, high = 0\<rparr>) [0] 1 [sample_modulus 17]) ! 0) = 3"
    by code_simp
  then show ?thesis
    using ternary_sampler_diverges[OF m, of "[0]" 1 0 "\<lambda>c s. \<lparr>low = 7, high = 0\<rparr>" "reset_seed \<lparr>low = 1, high = 0\<rparr>"] by simp
qed

text \<open>
  C30: On a device two noise polynomials drawn one after the other share half of their coefficients, and so
  do neighbours in a batch, because the counter advances by half the number of blocks used: the
  first half of the second is the second half of the first.
\<close>

theorem device_noise_reused:
  assumes "0 < h" "h < 2 ^ 60" "j < h" "length x = 2 * h" "length y = 2 * h"
  shows "let (e0, g') = sample_poly_centered_binomial_on_device aes g x (2 * h) [m];
             (e1, g'') = sample_poly_centered_binomial_on_device aes g' y (2 * h) [m];
             (es, _) = sample_poly_centered_binomial_batched_on_device aes g [x, y, x, y] (2 * h) [m]
         in e1 ! j = e0 ! (j + h) \<and> (\<forall>b < 3. es ! (b + 1) ! j = es ! b ! (j + h))"
proof -
  obtain e0 g' where e0: "sample_poly_centered_binomial_on_device aes g x (2 * h) [m] = (e0, g')" by fastforce
  obtain e1 g'' where e1: "sample_poly_centered_binomial_on_device aes g' y (2 * h) [m] = (e1, g'')" by fastforce
  obtain es gs where es: "sample_poly_centered_binomial_batched_on_device aes g [x, y, x, y] (2 * h) [m] = (es, gs)" by fastforce
  have "e1 ! (0 * (2 * h) + j) = e0 ! (0 * (2 * h) + j + h)"
    by (rule device_noise_overlaps[OF assms(1) _ _ _ assms(3) e0 e1]) (use assms in simp_all)
  moreover have "es ! Suc b ! j = es ! b ! (j + h)" if "b < 3" for b
  proof (rule device_batch_overlaps[OF assms(1) _ _ _ _ _ assms(3) es])
    have "h * Suc (Suc b) \<le> 2 ^ 60 * 4" by (rule mult_le_mono) (use assms(2) that in simp_all)
    then show "h * Suc (Suc b) < 2 ^ 64" by simp
    have "b \<in> {0, 1, 2}" using that by auto
    then show "length ([x, y, x, y] ! b) = 2 * h" "length ([x, y, x, y] ! Suc b) = 2 * h" using assms(4,5) by auto
  qed (use assms(2) that in simp_all)
  ultimately show ?thesis by (simp add: e0 e1 es)
qed

theorem device_noise_reused_witness:
  "let (e0, g') = sample_poly_centered_binomial_on_device (\<lambda>c s. c) (reset_seed \<lparr>low = 1, high = 0\<rparr>) [0, 0] 2 [sample_modulus 17];
       (e1, g'') = sample_poly_centered_binomial_on_device (\<lambda>c s. c) g' [0, 0] 2 [sample_modulus 17]
   in e1 ! 0 = e0 ! 1"
  using device_noise_reused[of 1 0 "[0, 0]" "[0, 0]" "\<lambda>c s. c" "reset_seed \<lparr>low = 1, high = 0\<rparr>" "sample_modulus 17"]
  by (simp add: Let_def split_def)

end
