(* ===== verification/Coeff_Modulus.thy ===== *)
theory Coeff_Modulus
  imports Number_Theory
begin

text \<open>
  Choosing the moduli: \<open>get_primes\<close> of \<open>src/encryption/utils/number_theory.cu\<close> and \<open>CoeffModulus::create\<close> of
  \<open>src/encryption/coeff_modulus.cu\<close>. \<open>rands a\<close> are the numbers \<open>rand()\<close> returns for candidate \<open>a\<close>: first for
  the test in the constructor of the modulus, then for the test in the loop.
\<close>

definition HE_COEFF_MOD_COUNT_MAX :: nat where "HE_COEFF_MOD_COUNT_MAX = 64"
definition HE_POLY_MOD_DEGREE_MAX :: nat where "HE_POLY_MOD_DEGREE_MAX = 131072"
definition HE_POLY_MOD_DEGREE_MIN :: nat where "HE_POLY_MOD_DEGREE_MIN = 2"
definition HE_USER_MOD_BIT_COUNT_MAX :: nat where "HE_USER_MOD_BIT_COUNT_MAX = 60"
definition HE_USER_MOD_BIT_COUNT_MIN :: nat where "HE_USER_MOD_BIT_COUNT_MIN = 2"

partial_function (option) get_primes_loop ::
  "(nat \<Rightarrow> bool \<Rightarrow> nat \<Rightarrow> u64) \<Rightarrow> u64 \<Rightarrow> u64 \<Rightarrow> u64 \<Rightarrow> nat \<Rightarrow> nat \<Rightarrow> modulus list \<Rightarrow> (error + nat \<times> modulus list) option" where
  "get_primes_loop rands factor lower_bound v count a ret =
     (if 0 < count \<and> v > lower_bound then
        case set_value (rands a False) v of
          None \<Rightarrow> None
        | Some (Inl e) \<Rightarrow> Some (Inl e)
        | Some (Inr m) \<Rightarrow>
            (case is_prime (rands a True) m of
               None \<Rightarrow> None
             | Some p \<Rightarrow> get_primes_loop rands factor lower_bound (v - factor) (if p then count - 1 else count) (a + 1)
                 (if p then ret @ [m] else ret))
      else Some (Inr (count, ret)))"

declare get_primes_loop.simps [code]

text \<open>Shifts by 64 and more, and by \<open>bit_size - 1\<close> for size 0, are undefined.\<close>

definition get_primes :: "(nat \<Rightarrow> bool \<Rightarrow> nat \<Rightarrow> u64) \<Rightarrow> u64 \<Rightarrow> nat \<Rightarrow> nat \<Rightarrow> (error + modulus list) option" where
  "get_primes rands factor bit_size count =
     (if factor = 0 \<or> bit_size = 0 \<or> 64 \<le> bit_size then None else
      let v = (push_bit bit_size 1 - 1) div factor * factor + 1; lower_bound = push_bit (bit_size - 1) 1
      in case get_primes_loop rands factor lower_bound v count 0 [] of
           None \<Rightarrow> None
         | Some (Inl e) \<Rightarrow> Some (Inl e)
         | Some (Inr (count, ret)) \<Rightarrow>
             Some (if 0 < count then Inl (LogicError ''[get_primes] Failed to find enough qualifying primes.'') else Inr ret))"

definition fill_prime_table :: "(nat \<Rightarrow> nat \<Rightarrow> bool \<Rightarrow> nat \<Rightarrow> u64) \<Rightarrow> u64 \<Rightarrow> nat list \<Rightarrow> nat \<Rightarrow>
    (error + (nat \<Rightarrow> modulus list)) option \<Rightarrow> (error + (nat \<Rightarrow> modulus list)) option" where
  "fill_prime_table rands factor bit_sizes key s =
     (case s of
        Some (Inr table) \<Rightarrow> map_option (map_sum id (\<lambda>primes. table(key := primes))) (get_primes (rands key) factor key (count_list bit_sizes key))
      | _ \<Rightarrow> s)"

definition take_prime :: "nat \<Rightarrow> (nat \<Rightarrow> modulus list) \<times> modulus list \<Rightarrow> (nat \<Rightarrow> modulus list) \<times> modulus list" where
  "take_prime key = (\<lambda>(table, result). (table(key := butlast (table key)), result @ [last (table key)]))"

text \<open>\<open>rands key\<close> is the stream for the search of primes of \<open>key\<close> bits; the map is walked in the order of its keys.\<close>

definition CoeffModulus_create :: "(nat \<Rightarrow> nat \<Rightarrow> bool \<Rightarrow> nat \<Rightarrow> u64) \<Rightarrow> nat \<Rightarrow> nat list \<Rightarrow> (error + modulus list) option" where
  "CoeffModulus_create rands poly_modulus_degree bit_sizes =
     (if poly_modulus_degree > HE_POLY_MOD_DEGREE_MAX \<or> poly_modulus_degree < HE_POLY_MOD_DEGREE_MIN then
        Some (Inl (InvalidArgument ''[CoeffModulus::create] Invalid poly_modulus_degree.''))
      else if length bit_sizes > HE_COEFF_MOD_COUNT_MAX \<or> length bit_sizes < 1 then
        Some (Inl (InvalidArgument ''[CoeffModulus::create] Invalid bit_sizes length.''))
      else
        let max_bit_size = fold max bit_sizes (bit_sizes ! 0) in
        if max_bit_size > HE_USER_MOD_BIT_COUNT_MAX \<or> max_bit_size < HE_USER_MOD_BIT_COUNT_MIN then
          Some (Inl (InvalidArgument ''[CoeffModulus::create] Invalid max_bit_size.''))
        else
          let factor = of_nat (2 * poly_modulus_degree)
          in map_option (map_sum id (\<lambda>table. snd (fold take_prime bit_sizes (table, []))))
               (fold (fill_prime_table rands factor bit_sizes) (sort (remdups bit_sizes)) (Some (Inr (\<lambda>_. [])))))"

definition PlainModulus_batching :: "(nat \<Rightarrow> nat \<Rightarrow> bool \<Rightarrow> nat \<Rightarrow> u64) \<Rightarrow> nat \<Rightarrow> nat \<Rightarrow> (error + modulus) option" where
  "PlainModulus_batching rands poly_modulus_degree bit_size = map_option (map_sum id (\<lambda>r. r ! 0)) (CoeffModulus_create rands poly_modulus_degree [bit_size])"

subsection \<open>The search\<close>

lemma next_congruent_below:
  fixes p v f :: int
  assumes "p mod f = v mod f" "p < v" "0 < f"
  shows "p \<le> v - f"
proof -
  obtain j where j: "v - p = f * j" using assms(1) by (metis mod_eq_dvd_iff dvd_def)
  then have "0 < f * j" using assms(2) by linarith
  then have "1 \<le> j" using assms(3) by (simp add: zero_less_mult_iff)
  then have "f * 1 \<le> f * j" using assms(3) by (intro mult_left_mono) simp_all
  then show ?thesis using j by linarith
qed

text \<open>
  The candidates are \<open>k f + 1\<close> for falling \<open>k\<close>. No prime is skipped: a prime in the range is found, or
  the search ended before it.
\<close>

lemma get_primes_loop_result:
  assumes "1 < uint factor" "1 \<le> uint lower" "uint v = int k * uint factor + 1" "uint v < 2 ^ 61"
  shows "\<exists>ms rest. get_primes_loop rands factor lower v count a ret = Some (Inr (rest, ret @ ms)) \<and> length ms + rest = count \<and>
    (\<forall>m\<in>set ms. wf_modulus m \<and> uint lower < uint (mod_value m) \<and> uint (mod_value m) \<le> uint v \<and> uint (mod_value m) mod uint factor = 1) \<and>
    distinct (map mod_value ms) \<and>
    (\<forall>p. prime_number p \<longrightarrow> p mod uint factor = 1 \<longrightarrow> uint lower < p \<longrightarrow> p \<le> uint v \<longrightarrow>
      (\<exists>m\<in>set ms. uint (mod_value m) = p) \<or> rest = 0 \<and> (\<forall>m\<in>set ms. p < uint (mod_value m)))"
  using assms(3,4)
proof (induction k arbitrary: v count a ret)
  case 0
  then have "\<not> lower < v" using assms(2) by (simp add: word_less_def)
  then show ?case using 0 assms(2) by (subst get_primes_loop.simps) (auto intro!: exI[of _ "[]"])
next
  case (Suc k)
  let ?f = "uint factor"
  show ?case
  proof (cases "0 < count \<and> lower < v")
    case False
    then have "count = 0 \<or> uint v \<le> uint lower" by (auto simp: word_less_def)
    then show ?thesis using False by (subst get_primes_loop.simps) (auto intro!: exI[of _ "[]"])
  next
    case True
    have lv: "uint lower < uint v" using True by (simp add: word_less_def)
    obtain m where m: "set_value (rands a False) v = Some (Inr m)" "wf_modulus m" "mod_value m = v"
      using set_value_result[OF _ Suc.prems(2), of "rands a False"] lv assms(2) by auto
    obtain t where t: "is_prime (rands a True) m = Some t" using is_prime_some[of "rands a True" m] by auto
    have v1: "uint v mod ?f = 1" using Suc.prems(1) assms(1) by simp
    have "?f \<le> uint v" using Suc.prems(1) assms(1) by (simp add: distrib_right)
    then have "uint (v - factor) = uint v - ?f" by (intro uint_sub_no_borrow) (simp add: word_le_def)
    then have d: "uint (v - factor) = int k * ?f + 1" "uint (v - factor) = uint v - ?f" "uint (v - factor) < 2 ^ 61"
      using Suc.prems assms(1) by (simp_all add: distrib_right)
    obtain ms rest where r: "get_primes_loop rands factor lower (v - factor) (if t then count - 1 else count) (a + 1) (if t then ret @ [m] else ret)
          = Some (Inr (rest, (if t then ret @ [m] else ret) @ ms))" "length ms + rest = (if t then count - 1 else count)"
      "\<forall>m\<in>set ms. wf_modulus m \<and> uint lower < uint (mod_value m) \<and> uint (mod_value m) \<le> uint (v - factor) \<and> uint (mod_value m) mod ?f = 1"
      "distinct (map mod_value ms)"
      "\<forall>p. prime_number p \<longrightarrow> p mod ?f = 1 \<longrightarrow> uint lower < p \<longrightarrow> p \<le> uint (v - factor) \<longrightarrow>
        (\<exists>m\<in>set ms. uint (mod_value m) = p) \<or> rest = 0 \<and> (\<forall>m\<in>set ms. p < uint (mod_value m))"
      using Suc.IH[OF d(1,3), of "if t then count - 1 else count" "a + 1" "if t then ret @ [m] else ret"] by blast
    let ?ms = "(if t then [m] else []) @ ms"
    have "get_primes_loop rands factor lower v count a ret = Some (Inr (rest, ret @ ?ms))"
      using True m(1) t r(1) by (subst get_primes_loop.simps) auto
    moreover have "length ?ms + rest = count" using r(2) True by auto
    moreover have "\<forall>m\<in>set ?ms. wf_modulus m \<and> uint lower < uint (mod_value m) \<and> uint (mod_value m) \<le> uint v \<and> uint (mod_value m) mod ?f = 1"
      using r(3) m(2,3) lv v1 d(2) assms(1) by fastforce
    moreover have "distinct (map mod_value ?ms)"
      using r(3,4) m(3) d(2) assms(1) by (fastforce simp: word_uint_eq_iff)
    moreover have "(\<exists>m\<in>set ?ms. uint (mod_value m) = p) \<or> rest = 0 \<and> (\<forall>m\<in>set ?ms. p < uint (mod_value m))"
      if p: "prime_number p" "p mod ?f = 1" "uint lower < p" "p \<le> uint v" for p
    proof (cases "p = uint v")
      case True
      then have "t" using is_prime_prime[OF m(2), of "rands a True"] t m(3) p(1) by simp
      then show ?thesis using True m(3) by auto
    next
      case False
      then have "p \<le> uint (v - factor)" unfolding d(2)
        using next_congruent_below[of p ?f "uint v"] p(2,4) v1 assms(1) by simp
      then show ?thesis using r(5) p(1-3) m(3) False p(4) by auto
    qed
    ultimately show ?thesis by blast
  qed
qed

text \<open>A modulus of \<open>b\<close> bits for transforms of length \<open>f / 2\<close>.\<close>

definition ntt_modulus :: "int \<Rightarrow> nat \<Rightarrow> modulus \<Rightarrow> bool" where
  "ntt_modulus f b m \<longleftrightarrow> wf_modulus m \<and> 2 ^ (b - 1) < uint (mod_value m) \<and> uint (mod_value m) < 2 ^ b \<and> uint (mod_value m) mod f = 1"

definition suitable_prime :: "int \<Rightarrow> nat \<Rightarrow> int \<Rightarrow> bool" where
  "suitable_prime f b p \<longleftrightarrow> prime_number p \<and> p mod f = 1 \<and> 2 ^ (b - 1) < p \<and> p < 2 ^ b"

lemma uint_push_one: "b < 64 \<Longrightarrow> uint (push_bit b 1 :: u64) = 2 ^ b"
proof -
  assume b: "b < 64"
  have "(2 :: int) ^ b < 2 ^ 64" using power_strict_increasing[OF b, of "2 :: int"] by simp
  moreover have "(push_bit b 1 :: u64) = word_of_int (2 ^ b)" by simp
  ultimately show "uint (push_bit b 1 :: u64) = 2 ^ b" by (simp only: uint_word_of_int_eq) (rule take_bit_int_eq_self, simp_all)
qed

lemma first_candidate:
  fixes factor :: u64
  assumes "1 < uint factor" "even (uint factor)" "0 < b" "b < 64"
  defines "v \<equiv> (push_bit b 1 - 1) div factor * factor + 1"
  shows "uint v = int (nat ((2 ^ b - 1) div uint factor)) * uint factor + 1" "uint v < 2 ^ b"
    and "p mod uint factor = 1 \<Longrightarrow> p < 2 ^ b \<Longrightarrow> p \<le> uint v"
proof -
  let ?f = "uint factor" and ?x = "(2 :: int) ^ b - 1"
  have b: "(2 :: int) ^ b < 2 ^ 64" using power_strict_increasing[OF assms(4), of "2 :: int"] by simp
  have x: "0 \<le> ?x" by simp
  have p: "uint (push_bit b 1 :: u64) = 2 ^ b" using assms(4) by (intro uint_push_one) simp
  have "(1 :: u64) \<le> push_bit b 1" unfolding word_le_def p by simp
  then have x1: "uint (push_bit b 1 - 1 :: u64) = ?x" unfolding p[symmetric] by (simp only: uint_sub_no_borrow uint_1)
  have d: "uint ((push_bit b 1 - 1) div factor) = ?x div ?f" unfolding uint_div x1 ..
  have le: "?x div ?f * ?f \<le> ?x" using assms(1) by (metis minus_mod_eq_div_mult pos_mod_sign diff_le_eq le_add_same_cancel1 less_trans zero_less_one)
  have nn: "0 \<le> ?x div ?f" using assms(1) x by (simp add: pos_imp_zdiv_nonneg_iff)
  then have z: "0 \<le> ?x div ?f * ?f" using assms(1) by simp
  have m: "uint ((push_bit b 1 - 1) div factor * factor) = ?x div ?f * ?f"
    unfolding uint_word_ariths d using le b z by (simp add: mod_pos_pos_trivial)
  have "uint v = ?x div ?f * ?f + 1"
    unfolding v_def using m le b by (subst uint_add_no_overflow) simp_all
  then show e: "uint v = int (nat (?x div ?f)) * ?f + 1" using nn by simp
  have "odd (uint v)" unfolding e using assms(2) by simp
  moreover have "even ((2 :: int) ^ b)" using assms(3) by simp
  moreover have "uint v \<le> 2 ^ b" using le e nn by simp
  ultimately show "uint v < 2 ^ b" by (metis order_le_less)
  assume p: "p mod ?f = 1" "p < 2 ^ b"
  have "p = p div ?f * ?f + 1" using p(1) by (metis div_mult_mod_eq)
  moreover have "p div ?f \<le> ?x div ?f" using p(2) assms(1) by (intro zdiv_mono1) simp_all
  then have "p div ?f * ?f \<le> ?x div ?f * ?f" using assms(1) by (intro mult_right_mono) simp_all
  ultimately show "p \<le> uint v" using e nn by simp
qed

lemma get_primes_result:
  assumes "1 < uint factor" "even (uint factor)" "0 < b" "b \<le> 61"
  shows "(\<exists>e. get_primes rands factor b count = Some (Inl e) \<and>
      (\<forall>ps. distinct ps \<longrightarrow> (\<forall>p\<in>set ps. suitable_prime (uint factor) b p) \<longrightarrow> length ps < count)) \<or>
    (\<exists>ms. get_primes rands factor b count = Some (Inr ms) \<and> length ms = count \<and> distinct (map mod_value ms) \<and>
      (\<forall>m\<in>set ms. ntt_modulus (uint factor) b m) \<and>
      (\<forall>p. suitable_prime (uint factor) b p \<longrightarrow>
        (\<exists>m\<in>set ms. uint (mod_value m) = p) \<or> (\<forall>m\<in>set ms. p < uint (mod_value m))))"
proof -
  let ?v = "(push_bit b 1 - 1) div factor * factor + 1" and ?l = "push_bit (b - 1) 1 :: u64"
  have b64: "b < 64" using assms(4) by simp
  note v = first_candidate[OF assms(1-3) b64]
  have l: "uint ?l = 2 ^ (b - 1)" using assms(4) by (intro uint_push_one) simp
  have b: "(2 :: int) ^ b \<le> 2 ^ 61" using power_increasing[OF assms(4), of "2 :: int"] by simp
  have f: "factor \<noteq> 0" using assms(1) by auto
  have l1: "1 \<le> uint ?l" unfolding l by simp
  have v61: "uint ?v < 2 ^ 61" using v(2) b by linarith
  obtain ms rest where r: "get_primes_loop rands factor ?l ?v count 0 [] = Some (Inr (rest, ms))" "length ms + rest = count"
    "\<forall>m\<in>set ms. wf_modulus m \<and> uint ?l < uint (mod_value m) \<and> uint (mod_value m) \<le> uint ?v \<and> uint (mod_value m) mod uint factor = 1"
    "distinct (map mod_value ms)"
    "\<forall>p. prime_number p \<longrightarrow> p mod uint factor = 1 \<longrightarrow> uint ?l < p \<longrightarrow> p \<le> uint ?v \<longrightarrow>
      (\<exists>m\<in>set ms. uint (mod_value m) = p) \<or> rest = 0 \<and> (\<forall>m\<in>set ms. p < uint (mod_value m))"
    using get_primes_loop_result[OF assms(1) l1 v(1) v61, of rands count 0 "[]"]
    unfolding append_Nil by (elim exE conjE) (rule that)
  have g: "get_primes rands factor b count
      = Some (if 0 < rest then Inl (LogicError ''[get_primes] Failed to find enough qualifying primes.'') else Inr ms)"
    unfolding get_primes_def Let_def r(1) using f assms(3,4) by (simp del: push_bit_of_1)
  show ?thesis
  proof (cases "0 < rest")
    case True
    have "length ps < count" if ps: "distinct ps" "\<forall>p\<in>set ps. suitable_prime (uint factor) b p" for ps
    proof -
      have "set ps \<subseteq> (\<lambda>m. uint (mod_value m)) ` set ms"
      proof
        fix p assume "p \<in> set ps"
        then show "p \<in> (\<lambda>m. uint (mod_value m)) ` set ms"
          using ps(2) r(5)[rule_format, of p] v(3)[of p] True unfolding l suitable_prime_def by auto
      qed
      then have "card (set ps) \<le> card (set ms)" by (rule surj_card_le[OF finite_set])
      then show ?thesis using distinct_card[OF ps(1)] card_length[of ms] r(2) True by simp
    qed
    then show ?thesis using True unfolding g by simp
  next
    case False
    have "\<forall>m\<in>set ms. ntt_modulus (uint factor) b m"
      using r(3) v(2) unfolding l ntt_modulus_def by fastforce
    then show ?thesis using False r(2,4,5) v(3) unfolding g l suitable_prime_def by auto
  qed
qed

text \<open>
  For sizes 62 and 63 every candidate above the lower bound is too large for \<open>Modulus\<close>, whose
  constructor throws.
\<close>

lemma get_primes_loop_stop:
  "\<not> (0 < c \<and> l < v) \<Longrightarrow> get_primes_loop rands factor l v c a ret = Some (Inr (c, ret))"
  by (subst get_primes_loop.simps) auto

lemma get_primes_loop_throws:
  "0 < c \<Longrightarrow> l < v \<Longrightarrow> set_value (rands a False) v = Some (Inl e) \<Longrightarrow> get_primes_loop rands factor l v c a ret = Some (Inl e)"
  by (subst get_primes_loop.simps) simp

lemma get_primes_too_large:
  assumes "1 < uint factor" "even (uint factor)" "61 < b" "b < 64"
  shows "get_primes rands factor b 0 = Some (Inr [])" "0 < count \<Longrightarrow> \<exists>e. get_primes rands factor b count = Some (Inl e)"
proof -
  let ?v = "(push_bit b 1 - 1) div factor * factor + 1" and ?l = "push_bit (b - 1) 1 :: u64"
  have f: "\<not> (factor = 0 \<or> b = 0 \<or> 64 \<le> b)" using assms by auto
  have l: "uint ?l = 2 ^ (b - 1)" using assms(4) by (intro uint_push_one) simp
  have "(2 :: int) ^ 61 \<le> 2 ^ (b - 1)" using assms(3) by (intro power_increasing) simp_all
  then have big: "\<exists>e. set_value (rands 0 False) ?v = Some (Inl e)" if "?l < ?v"
    using that set_value_refused[of ?v] unfolding word_less_def l by simp
  have g: "get_primes rands factor b c =
     (case get_primes_loop rands factor ?l ?v c 0 [] of
           None \<Rightarrow> None
         | Some (Inl e) \<Rightarrow> Some (Inl e)
         | Some (Inr (count, ret)) \<Rightarrow>
             Some (if 0 < count then Inl (LogicError ''[get_primes] Failed to find enough qualifying primes.'') else Inr ret))" for c
    unfolding get_primes_def Let_def if_not_P[OF f] ..
  have stop: "get_primes_loop rands factor ?l ?v c 0 [] = Some (Inr (c, []))" if "\<not> (0 < c \<and> ?l < ?v)" for c
    using that by (rule get_primes_loop_stop)
  have zero: "\<not> (0 < (0 :: nat) \<and> ?l < ?v)" by blast
  show "get_primes rands factor b 0 = Some (Inr [])" unfolding g stop[OF zero] by simp
  assume c: "0 < count"
  show "\<exists>e. get_primes rands factor b count = Some (Inl e)"
  proof (cases "?l < ?v")
    case True
    obtain e where e: "set_value (rands 0 False) ?v = Some (Inl e)" using big[OF True] by blast
    have "get_primes_loop rands factor ?l ?v count 0 [] = Some (Inl e)"
      by (rule get_primes_loop_throws[where rands = rands and a = 0, OF c True e])
    then show ?thesis unfolding g by simp
  next
    case False
    then have "\<not> (0 < count \<and> ?l < ?v)" by blast
    show ?thesis unfolding g stop[OF \<open>\<not> (0 < count \<and> ?l < ?v)\<close>] using c by simp
  qed
qed

subsection \<open>The moduli of the parameters\<close>

lemma fold_max_ge: "x \<in> set xs \<or> x \<le> y \<Longrightarrow> x \<le> fold max xs y" for x y :: nat
proof (induction xs arbitrary: y)
  case (Cons a xs)
  have "x \<in> set xs \<or> x \<le> max a y" using Cons.prems by auto
  then have "x \<le> fold max xs (max a y)" by (rule Cons.IH)
  then show ?case by simp
qed simp

lemma fill_prime_table_result:
  assumes "1 < uint factor" "even (uint factor)" "\<forall>k\<in>set keys. 0 < k \<and> k < 61"
  shows "(\<exists>e. fold (fill_prime_table rands factor bs) keys (Some (Inr table)) = Some (Inl e)) \<or>
    (\<exists>table'. fold (fill_prime_table rands factor bs) keys (Some (Inr table)) = Some (Inr table') \<and>
      (\<forall>k. k \<notin> set keys \<longrightarrow> table' k = table k) \<and>
      (\<forall>k\<in>set keys. length (table' k) = count_list bs k \<and> (\<forall>m\<in>set (table' k). ntt_modulus (uint factor) k m)))"
  using assms(3)
proof (induction keys arbitrary: table)
  case (Cons k keys)
  have stop: "fold (fill_prime_table rands factor bs) ks (Some (Inl e)) = Some (Inl e)" for ks e
    by (induction ks) (simp_all add: fill_prime_table_def)
  consider e where "get_primes (rands k) factor k (count_list bs k) = Some (Inl e)"
    | ms where "get_primes (rands k) factor k (count_list bs k) = Some (Inr ms)" "length ms = count_list bs k" "\<forall>m\<in>set ms. ntt_modulus (uint factor) k m"
    using get_primes_result[OF assms(1,2), of k "rands k" "count_list bs k"] Cons.prems by auto
  then show ?case
  proof cases
    case 1
    then have "fill_prime_table rands factor bs k (Some (Inr table)) = Some (Inl e)" by (simp add: fill_prime_table_def)
    then show ?thesis by (simp add: stop)
  next
    case 2
    have "fill_prime_table rands factor bs k (Some (Inr table)) = Some (Inr (table(k := ms)))" using 2(1) by (simp add: fill_prime_table_def)
    then have "fold (fill_prime_table rands factor bs) (k # keys) (Some (Inr table)) = fold (fill_prime_table rands factor bs) keys (Some (Inr (table(k := ms))))"
      by simp
    then show ?thesis using Cons.IH[of "table(k := ms)"] Cons.prems 2(2,3) by fastforce
  qed
qed simp

lemma take_prime_result:
  assumes "\<forall>k. count_list bs k \<le> length (table k) \<and> (\<forall>m\<in>set (table k). P k m)"
  shows "\<exists>ms. snd (fold take_prime bs (table, res)) = res @ ms \<and> length ms = length bs \<and> (\<forall>i<length bs. P (bs ! i) (ms ! i))"
  using assms
proof (induction bs arbitrary: table res)
  case (Cons b bs)
  have ne: "table b \<noteq> []" using Cons.prems[rule_format, of b] by auto
  have Q: "\<forall>k. count_list bs k \<le> length ((table(b := butlast (table b))) k) \<and> (\<forall>m\<in>set ((table(b := butlast (table b))) k). P k m)"
    using Cons.prems by (auto dest: in_set_butlastD split: if_splits)
  have step: "take_prime b (table, res) = (table(b := butlast (table b)), res @ [last (table b)])" by (simp add: take_prime_def)
  obtain ms where ms: "snd (fold take_prime bs (table(b := butlast (table b)), res @ [last (table b)])) = (res @ [last (table b)]) @ ms"
    "length ms = length bs" "\<forall>i<length bs. P (bs ! i) (ms ! i)"
    using Cons.IH[OF Q, of "res @ [last (table b)]"] by blast
  have "snd (fold take_prime (b # bs) (table, res)) = res @ last (table b) # ms" using ms(1) by (simp only: fold_simps step) simp
  moreover have "P b (last (table b))" using Cons.prems last_in_set[OF ne] by blast
  ultimately show ?case using ms(2,3) by (intro exI[of _ "last (table b) # ms"]) (auto simp: less_Suc_eq_0_disj)
qed simp

lemma CoeffModulus_create_result:
  assumes "\<forall>b\<in>set bs. 0 < b"
  shows "(\<exists>e. CoeffModulus_create rands n bs = Some (Inl e)) \<or>
    (\<exists>ms. CoeffModulus_create rands n bs = Some (Inr ms) \<and> length ms = length bs \<and> 2 \<le> n \<and> n \<le> 131072 \<and>
      (\<forall>i<length bs. ntt_modulus (2 * int n) (bs ! i) (ms ! i)))"
proof (cases "HE_POLY_MOD_DEGREE_MAX < n \<or> n < HE_POLY_MOD_DEGREE_MIN \<or> HE_COEFF_MOD_COUNT_MAX < length bs \<or> length bs < 1 \<or>
    HE_USER_MOD_BIT_COUNT_MAX < fold max bs (bs ! 0) \<or> fold max bs (bs ! 0) < HE_USER_MOD_BIT_COUNT_MIN")
  case True
  then show ?thesis by (auto simp: CoeffModulus_create_def Let_def)
next
  case False
  then have n: "2 \<le> n" "n \<le> 131072" and top: "fold max bs (bs ! 0) \<le> 60"
    by (simp_all add: HE_POLY_MOD_DEGREE_MAX_def HE_POLY_MOD_DEGREE_MIN_def HE_USER_MOD_BIT_COUNT_MAX_def)
  have "unat (of_nat (2 * n) :: u64) = 2 * n" unfolding unat_of_nat by (rule mod_less) (use n in simp)
  then have f: "uint (of_nat (2 * n) :: u64) = 2 * int n" unfolding uint_nat by simp
  have keys: "\<forall>k\<in>set (sort (remdups bs)). 0 < k \<and> k < 61"
    using assms top fold_max_ge[of _ bs "bs ! 0"] by fastforce
  have c: "CoeffModulus_create rands n bs = map_option (map_sum id (\<lambda>table. snd (fold take_prime bs (table, []))))
      (fold (fill_prime_table rands (of_nat (2 * n)) bs) (sort (remdups bs)) (Some (Inr (\<lambda>_. []))))"
    using False by (simp add: CoeffModulus_create_def Let_def del: of_nat_mult)
  have f1: "1 < uint (of_nat (2 * n) :: u64)" "even (uint (of_nat (2 * n) :: u64))" unfolding f using n by simp_all
  consider e where "fold (fill_prime_table rands (of_nat (2 * n)) bs) (sort (remdups bs)) (Some (Inr (\<lambda>_. []))) = Some (Inl e)"
    | table where "fold (fill_prime_table rands (of_nat (2 * n)) bs) (sort (remdups bs)) (Some (Inr (\<lambda>_. []))) = Some (Inr table)"
      "\<forall>k. k \<notin> set bs \<longrightarrow> table k = []" "\<forall>k\<in>set bs. length (table k) = count_list bs k \<and> (\<forall>m\<in>set (table k). ntt_modulus (2 * int n) k m)"
    using fill_prime_table_result[OF f1 keys, of rands bs "\<lambda>_. []"] unfolding f by auto
  then show ?thesis
  proof cases
    case 1
    then show ?thesis unfolding c by simp
  next
    case 2
    have "\<forall>k. count_list bs k \<le> length (table k) \<and> (\<forall>m\<in>set (table k). ntt_modulus (2 * int n) k m)"
      using 2(2,3) by (metis count_notin empty_iff empty_set le_refl list.size(3))
    from take_prime_result[OF this, of "[]"] show ?thesis unfolding c 2(1) using n by auto
  qed
qed

section \<open>Results\<close>

text \<open>
  C28: For positive bit sizes the choice of the coefficient moduli never traps and never loops. It throws, or it returns
  one well-formed modulus per size, of exactly that size and congruent to 1 modulo twice the degree, as
  the transform needs.
\<close>

theorem CoeffModulus_create_suits:
  assumes "\<forall>b\<in>set bit_sizes. 0 < b"
  shows "(\<exists>e. CoeffModulus_create rands n bit_sizes = Some (Inl e)) \<or>
    (\<exists>ms. CoeffModulus_create rands n bit_sizes = Some (Inr ms) \<and> length ms = length bit_sizes \<and>
      (\<forall>i<length bit_sizes. wf_modulus (ms ! i) \<and> 2 ^ (bit_sizes ! i - 1) < uint (mod_value (ms ! i)) \<and>
        uint (mod_value (ms ! i)) < 2 ^ (bit_sizes ! i) \<and> uint (mod_value (ms ! i)) mod (2 * int n) = 1))"
  using CoeffModulus_create_result[OF assms, of rands n] unfolding ntt_modulus_def by blast

lemma suitable_41: "suitable_prime 8 6 41"
proof -
  have "\<forall>d \<in> set [1..41]. d dvd (41 :: int) \<longrightarrow> d = 1 \<or> d = 41" by (simp add: upto_rec1)
  moreover have "d \<in> set [1..41]" if "d dvd 41" "0 < d" for d :: int using zdvd_imp_le[OF that(1)] that(2) by simp
  ultimately have "prime_number 41" unfolding prime_number_def by auto
  then show ?thesis by (simp add: suitable_prime_def)
qed

theorem CoeffModulus_create_suits_witness:
  "\<exists>ms. CoeffModulus_create (\<lambda>_ _ _ _. 5) 4 [6] = Some (Inr ms) \<and> length ms = 1 \<and> uint (mod_value (ms ! 0)) mod 8 = 1"
proof -
  have "\<forall>ps. distinct ps \<longrightarrow> (\<forall>p\<in>set ps. suitable_prime (uint (8 :: u64)) 6 p) \<longrightarrow> length ps < 1 \<Longrightarrow> False"
    using suitable_41 by (auto dest: spec[of _ "[41]"])
  then obtain m where "get_primes (\<lambda>_ _ _. 5) 8 6 1 = Some (Inr [m])"
    using get_primes_result[of 8 6 "\<lambda>_ _ _. 5" 1] by (auto simp: length_Suc_conv)
  then have "\<exists>ms. CoeffModulus_create (\<lambda>_ _ _ _. 5) 4 [6] = Some (Inr ms)"
    by (simp add: CoeffModulus_create_def Let_def HE_POLY_MOD_DEGREE_MAX_def HE_POLY_MOD_DEGREE_MIN_def HE_COEFF_MOD_COUNT_MAX_def
        HE_USER_MOD_BIT_COUNT_MAX_def HE_USER_MOD_BIT_COUNT_MIN_def fill_prime_table_def)
  then show ?thesis using CoeffModulus_create_suits[of "[6]" "\<lambda>_ _ _ _. 5" 4] by auto
qed

text \<open>
  C29: The search for \<open>count\<close> primes of \<open>b\<close> bits congruent to 1 modulo an even factor above 1. From 1 to 61 bits
  it returns and skips no prime: it throws only when there are fewer than \<open>count\<close> such primes;
  otherwise it returns that many distinct moduli, and a prime it did not return is smaller than all
  of them. For 62 and 63 bits, which a modulus cannot have, it throws whenever it is asked for any
  prime; a size of 0 or at least 64 is an undefined shift.
\<close>

theorem get_primes_complete:
  assumes "1 < uint factor" "even (uint factor)"
  shows "if b = 0 \<or> 64 \<le> b then get_primes rands factor b count = None
    else if 61 < b then (if count = 0 then get_primes rands factor b count = Some (Inr []) else \<exists>e. get_primes rands factor b count = Some (Inl e))
    else (\<exists>e. get_primes rands factor b count = Some (Inl e) \<and>
      (\<forall>ps. distinct ps \<longrightarrow> (\<forall>p\<in>set ps. suitable_prime (uint factor) b p) \<longrightarrow> length ps < count)) \<or>
    (\<exists>ms. get_primes rands factor b count = Some (Inr ms) \<and> length ms = count \<and> distinct (map mod_value ms) \<and>
      (\<forall>m\<in>set ms. ntt_modulus (uint factor) b m) \<and>
      (\<forall>p. suitable_prime (uint factor) b p \<longrightarrow>
        (\<exists>m\<in>set ms. uint (mod_value m) = p) \<or> (\<forall>m\<in>set ms. p < uint (mod_value m))))"
proof -
  consider "b = 0 \<or> 64 \<le> b" | "61 < b" "\<not> (b = 0 \<or> 64 \<le> b)" | "\<not> 61 < b" "\<not> (b = 0 \<or> 64 \<le> b)" by blast
  then show ?thesis
  proof cases
    case 1
    then show ?thesis unfolding if_P[OF 1] by (auto simp: get_primes_def)
  next
    case 2
    then show ?thesis
      unfolding if_not_P[OF 2(2)] if_P[OF 2(1)] using get_primes_too_large[where rands = rands and b = b, OF assms 2(1)] 2(2) by simp
  next
    case 3
    then show ?thesis
      unfolding if_not_P[OF 3(2)] if_not_P[OF 3(1)] by (intro get_primes_result[OF assms]) simp_all
  qed
qed

theorem get_primes_complete_witness:
  "\<exists>m. get_primes (\<lambda>_ _ _. 5) 8 6 1 = Some (Inr [m]) \<and> 41 \<le> uint (mod_value m)"
proof -
  have "\<forall>ps. distinct ps \<longrightarrow> (\<forall>p\<in>set ps. suitable_prime (uint (8 :: u64)) 6 p) \<longrightarrow> length ps < 1 \<Longrightarrow> False"
    using suitable_41 by (auto dest: spec[of _ "[41]"])
  then show ?thesis
    using get_primes_complete[of 8 6 "\<lambda>_ _ _. 5" 1] suitable_41 by (fastforce simp: length_Suc_conv)
qed

text \<open>A size of 0 beside a larger one passes the range check, which looks at the largest only, and shifts by \<open>-1\<close>.\<close>

lemma zero_size_traps: "CoeffModulus_create rands 4 [2, 0] = None"
proof -
  have "sort (remdups [2, 0]) = [0, 2 :: nat]" by (simp add: insort_key.simps)
  then show ?thesis
    by (simp add: CoeffModulus_create_def Let_def HE_POLY_MOD_DEGREE_MAX_def HE_POLY_MOD_DEGREE_MIN_def HE_COEFF_MOD_COUNT_MAX_def
        HE_USER_MOD_BIT_COUNT_MAX_def HE_USER_MOD_BIT_COUNT_MIN_def fill_prime_table_def get_primes_def)
qed

end
