(* ===== verification/Spec2Isabelle.thy ===== *)
theory Spec2Isabelle
  imports Distributed Sockets In_Process Options Scheme Random_Device Coeff_Modulus
begin

text \<open>
  PPFE: single-server private information retrieval with client-side hints over BFV ciphertexts.

  \<^bold>\<open>The program.\<close> A server holds \<open>2^LogN\<close> eight-byte entries in \<open>PartNum\<close> partitions of
  \<open>PartSize\<close> entries and encrypts each partition into one ciphertext
  (\<open>src/src/server.cpp\<close>). In the offline phase the client (\<open>src/src/client.cpp\<close>) builds
  \<open>M = 30 * PartSize\<close> hints and \<open>M/2\<close> pairs of backups: a PRF and a cutoff choose half of the
  partitions, and the parity ciphertext of the hint accumulates one shifted database ciphertext
  per chosen partition. Online (\<open>src/src/client_main.cpp\<close>) it finds a hint covering the query,
  sends selection bits, offsets and the masked parity; the server answers with two candidate
  words of which the client learns one by oblivious transfer, unmasks and decodes it, and replaces
  the spent hint by a backup.

  \<^bold>\<open>Theories of the protocol.\<close> Prelude: words, bytes, loops. Utils: \<open>src/src/utils.cpp\<close> (sampling,
  noise, parameter checks). Database: entry access. Prf: the two PRF classes of \<open>utils.h\<close>. Cutoff:
  \<open>FindCutoff\<close>. Double: IEEE rounding, for the server's scaling. Server: \<open>server.cpp\<close>. Client,
  Offline_Phase, Extras, Parities, Hints: \<open>client.cpp\<close> and the invariant the offline phase
  establishes. Online, Retrieval, Session, Protocol, Client_Run: \<open>client_main.cpp\<close>, from one query over
  runs of queries to the program's own schedule and final verification. In_Process:
  \<open>OneSVClient::Online\<close> and the benchmark of \<open>main.cpp\<close>. Options: \<open>std::stoi\<close> and the command lines of
  the three programs. Example: a concrete instance, used for the witnesses. Serialize:
  \<open>serialize.h\<close> and the ciphertext format; Transport, Framing, Messages, Wire, Sockets: \<open>network.cpp\<close>,
  from the partial \<open>send\<close>/\<open>recv\<close> loops over framed arrays and messages to the socket life cycle.
  Server_Main, Serving: \<open>server_main.cpp\<close> as a state machine and its serving loop; Client_Main: the
  client's network code; Distributed: the two programs talking over the byte streams, which ties
  the network to the protocol.

  \<^bold>\<open>Theories of the encryption library\<close> (\<open>src/encryption\<close>). Uint64, Small_Mod, Mod_Ops: \<open>utils/basics.h\<close>,
  \<open>modulus.h\<close> and \<open>utils/uint_small_mod.h\<close>. Multi_Limb, Limb_Mult, Limb_Shift, Limb_Div: the multi-word
  integers of \<open>basics.h\<close> and \<open>basics.cu\<close> (arithmetic modulo \<open>2^(64 n)\<close>, schoolbook products, shifts, long
  division). Modulus_Setup: the primality test and \<open>Modulus::set_value\<close>; Number_Theory: inversion and
  roots of -1; Coeff_Modulus: the search for primes and \<open>CoeffModulus::create\<close>. Poly, Negacyclic: the host
  loops of \<open>poly_small_mod.cu\<close> and the ring they compute in. Ntt_Spec, Ntt, Ntt_Correct, Bitrev,
  Ntt_Tables, Ntt_Ring, Rlwe_Poly: the number-theoretic transform of \<open>fgk/ntt_grouped.cu\<close>, its tables, and
  that it evaluates at the roots of \<open>x^n + 1\<close>, so that dyadic products are products of the ring.
  Random_Generator, Random_Device: the counter-mode generator with the samplers of the host and of
  a device. Rlwe, Rlwe_Correct, Rlwe_Batch: keys, encryption, alone and in batches, and decryption
  (\<open>rlwe.cu\<close>, \<open>key_generator.cu\<close>, \<open>encryptor.cu\<close>, \<open>decryptor.cu\<close>). Rns_Decode: \<open>decrypt_scale_and_round\<close>. Bfv,
  Phase: the evaluator operations the program calls and what they do to the phase of a
  ciphertext. Scheme: encryption and decryption fit together, and instantiate the parameters of
  the protocol.

  \<^bold>\<open>Conventions.\<close> A machine word is a \<open>word\<close> of its width. \<open>None\<close> stands for a trap, an
  out-of-bounds access or a loop that does not end; \<open>Inl\<close> for a C++ exception. Code outside
  the repository is a parameter: AES, \<open>std::nth_element\<close> (locale \<open>nth_element_spec\<close>), the random
  source, \<open>rand()\<close> and the oblivious transfer (\<open>transfers_chosen\<close>). The theorems of the protocol
  take encryption and decryption as parameters with the contracts \<open>encrypts\<close> and
  \<open>decrypts_to_phase\<close>; Scheme discharges both for the library's own code, for every block cipher and
  all generator states. Loops that may not end are partial functions: the search for the extra
  partitions of the offline phase ends exactly under \<open>dummies_hit\<close>, which the theorems on the set-up state
  in both directions, and the rejection sampler as soon as an accepted draw occurs; loops over a
  finite range recurse on it, so no fuel is used. A stream is the list of the bytes it holds, and a
  stream count is signed, as in the library: a negative one writes nothing. An assertion that fails is
  a trap; an exception that leaves the server's \<open>main\<close> ends the process without its destructors
  (\<open>Aborted\<close> in Sockets). Floating point is IEEE double with round-to-even for the server's scaling
  and the reals for the transcendental functions of the noise sampler; the build flag
  \<open>-Ofast\<close> permits other rounding, which is outside the model.

  \<^bold>\<open>Not modelled.\<close> Statistics, timing and printing; the CUDA kernels other than the samplers, which
  compute the host loops in parallel, and the memory pools; the block cipher itself; in the library
  CKKS and BGV, several coefficient moduli and modulus switching, relinearisation, Galois and
  key-switching keys, matrix helpers and compression, none of which the programs call.
  \<open>src/troy-nova/src\<close> is a copy of \<open>src/encryption\<close>.
\<close>

section \<open>The protocol\<close>

text \<open>
  C1: Retrieval is correct. After the set-up, in every run of online queries each completed query
  returned exactly the database entry it asked for, every query consumed a fresh encryption of
  zero, and the client state still satisfies the invariant.
\<close>

theorem retrieval_correct:
  assumes "wf_client cl" "dummy_ok (env_aes V) cl" "nth_element_spec ne"
    and "protocol_assumptions V s ne enc0 encrypt E D cl"
    and "set_up V ne enc0 encrypt n cl = Some (Inr cl1)" "queries V D cl1 tr cl2"
  shows "(\<forall>(query, r) \<in> set tr. r = sv_DB (env_sv V) ! unat query) \<and>
    encZeroNext cl2 = length tr \<and> length tr \<le> n \<and> ready V s (backup_noise cl E) E D cl2"
proof -
  have r: "ready V s (backup_noise cl E) E D cl1" "encZeroNext cl1 = 0" "length (encZeroCache cl1) = n"
    using nth_element_spec.set_up_ready[OF assms(3,1,2) refl assms(4), of n] assms(5) by auto
  show ?thesis using queries_invariant[OF assms(6) r(1)] r(2,3) by (cases "tr = []") auto
qed

theorem retrieval_correct_witness:
  "\<exists>cl1 cl2. set_up ex_env std_nth_element (\<lambda>_. ex_zero) ex_encryption 2 ex_client = Some (Inr cl1) \<and>
     queries ex_env 4 cl1 [(2, 7)] cl2 \<and> sv_DB ex_server ! 2 = 7 \<and> encZeroNext cl2 = 1"
proof -
  have V: "env_aes ex_env = ex_aes" "env_sv ex_env = ex_server" by (simp_all add: ex_env_def)
  obtain cl1 cl2 where r: "set_up ex_env std_nth_element (\<lambda>_. ex_zero) ex_encryption 2 ex_client = Some (Inr cl1)"
    "queries ex_env 4 cl1 [(2, 7)] cl2"
    using ex_run by metis
  from retrieval_correct[OF ex_client_wf _ std.nth_element_spec_axioms ex_assumptions r]
  have "7 = sv_DB ex_server ! 2" "encZeroNext cl2 = 1" by (simp_all add: V ex_client_dummy_ok)
  with r show ?thesis by metis
qed

text \<open>
  C2: One online query returns. When the search finds a hint, an encryption of zero is left, and the next
  valid backup is not the last one of the table, the query completes with the entry asked for,
  whatever flip bit, mask and (bounded) noise are drawn, and the client is ready for the next one.
  With the last backup it does not complete: the assertion on the index behind it ends the program.
\<close>

theorem online_query_returns:
  assumes "ready V s E E1 D cl" "unat query < unat (cl_PartNum cl) * unat (cl_PartSize cl)"
    and "find_hint (env_aes V) query (queryPartNum_of cl query) (queryOffset_of cl query) cl False = (h, ind)" "h < unat (cl_M cl)"
    and "next_valid (SelectCutoff cl) (unat (NextHintIndex cl)) = Some j"
    and "encZeroNext cl < length (encZeroCache cl)" "uint rando < uint (mod_value (he_q (env_C V)))" "\<bar>sint noise\<bar> \<le> D"
  shows "if j + 1 < unat (cl_M cl) + unat (cl_M cl) div 2
    then \<exists>cl'. answered V query flip rando noise cl (sv_DB (env_sv V) ! unat query) cl' \<and> ready V s E E1 D cl' \<and>
      encZeroNext cl' = encZeroNext cl + 1
    else online_query (env_C V) (env_aes V) (env_R V) (env_sv V) (env_decrypt V) (env_ot V) (mod_value (he_q (env_C V)))
      query flip rando noise cl = None"
proof (cases "j + 1 < unat (cl_M cl) + unat (cl_M cl) div 2")
  case True
  obtain cl' where "answered V query flip rando noise cl (sv_DB (env_sv V) ! unat query) cl'"
    using ready_answers[OF assms(1-5) True assms(6-8), of flip] by blast
  then show ?thesis unfolding if_P[OF True] using answered_step[OF assms(1,2,7,8)] by blast
next
  case False
  then show ?thesis using ready_last_backup[OF assms(1-5) _ assms(6-8), of flip] by simp
qed

theorem online_query_returns_witness:
  "\<exists>cl1 cl2. set_up ex_env std_nth_element (\<lambda>_. ex_zero) ex_encryption 2 ex_client = Some (Inr cl1) \<and>
     answered ex_env 2 True 5 (- 3) cl1 7 cl2"
proof -
  obtain cl1 where c: "set_up ex_env std_nth_element (\<lambda>_. ex_zero) ex_encryption 2 ex_client = Some (Inr cl1)"
    "ready ex_env ex_secret (backup_noise ex_client 9) 9 4 cl1"
    and q: "unat (2 :: u32) < unat (cl_PartNum cl1) * unat (cl_PartSize cl1)"
    "find_hint (env_aes ex_env) 2 (queryPartNum_of cl1 2) (queryOffset_of cl1 2) cl1 False = (0, True)" "0 < unat (cl_M cl1)"
    "next_valid (SelectCutoff cl1) (unat (NextHintIndex cl1)) = Some 4" "4 + 1 < unat (cl_M cl1) + unat (cl_M cl1) div 2"
    "encZeroNext cl1 < length (encZeroCache cl1)" "uint (5 :: u64) < uint (mod_value (he_q (env_C ex_env)))"
    by (rule ex_first_query)
  have d: "sv_DB (env_sv ex_env) ! unat (2 :: u32) = 7" by (simp add: ex_env_def ex_server_def)
  have n: "\<bar>sint (- 3 :: u64)\<bar> \<le> 4" by simp
  obtain cl2 where "answered ex_env 2 True 5 (- 3) cl1 7 cl2"
    using online_query_returns[OF c(2) q(1-4) q(6,7) n, of True] unfolding if_P[OF q(5)] d by blast
  with c(1) show ?thesis by blast
qed

text \<open>
  C3: When the set-up returns. Under the assumptions on the parameters and the library it returns, ready
  for queries and with \<open>n\<close> cached encryptions of zero, exactly when for every hint some dummy index
  names a partition the hint does not select; otherwise the client's search for the extra
  partition of such a hint never ends. No other step of the set-up fails or loops.
\<close>

theorem set_up_returns:
  assumes "wf_client cl" "dummy_ok (env_aes V) cl" "nth_element_spec ne"
    and "library_assumptions V s enc0 encrypt E D cl"
  shows "if dummies_hit (env_aes V) cl (\<lambda>h. fst (FindCutoff ne (select_values (env_aes V) (unat (cl_PartNum cl)) h) (unat (cl_PartNum cl))))
    then \<exists>cl'. set_up V ne enc0 encrypt n cl = Some (Inr cl') \<and> ready V s (backup_noise cl E) E D cl' \<and>
      encZeroNext cl' = 0 \<and> length (encZeroCache cl') = n
    else set_up V ne enc0 encrypt n cl = None"
  using nth_element_spec.set_up_ready[OF assms(3,1,2) refl, of s enc0 encrypt E D n]
    nth_element_spec.set_up_diverges[OF assms(3,1,2,4), of n] assms(4)
  unfolding protocol_assumptions_def extras_exist_def by (auto split: if_splits)

theorem set_up_returns_witness:
  "\<exists>cl'. set_up ex_env std_nth_element (\<lambda>_. ex_zero) ex_encryption 2 ex_client = Some (Inr cl') \<and>
    length (encZeroCache cl') = 2"
proof -
  have V: "env_aes ex_env = ex_aes" by (simp add: ex_env_def)
  have A: "library_assumptions ex_env ex_secret (\<lambda>_. ex_zero) ex_encryption 9 4 ex_client"
    using ex_assumptions by (simp add: protocol_assumptions_def)
  have "dummy_ok (env_aes ex_env) ex_client" using ex_client_dummy_ok unfolding V .
  from set_up_returns[OF ex_client_wf this std.nth_element_spec_axioms A, of 2]
  show ?thesis unfolding V if_P[OF ex_dummies_hit] by blast
qed

text \<open>
  C8: What the server sees of a query is balanced: exactly half of the selection bits are set, whatever
  the flip bit, and every offset lies inside its partition.
\<close>

theorem query_message_balanced:
  assumes "client_ok C s aes db E cl" "unat query < unat (cl_PartNum cl) * unat (cl_PartSize cl)"
    and "find_hint aes query (queryPartNum_of cl query) (queryOffset_of cl query) cl False = (h, ind)" "h < unat (cl_M cl)"
    and "encZeroNext cl < length (encZeroCache cl)"
      "encodes C s (encZeroCache cl ! encZeroNext cl) (unat (cl_PartSize cl) - 1) 0 E1"
    and "uint rando < q_of C" "even (unat (cl_PartNum cl))"
  shows "\<exists>msg cl'. client_query C aes query flip rando (mod_value (he_q C)) cl = Some (Inr (Some (h, ind, msg, cl'))) \<and>
    card {k. k < unat (cl_PartNum cl) \<and> q_bvec msg ! k} = unat (cl_PartNum cl) div 2 \<and>
    (\<forall>k < unat (cl_PartNum cl). unat (q_Svec msg ! k) < unat (cl_PartSize cl))"
proof -
  let ?p = "unat (queryPartNum_of cl query)" and ?x = "unat (queryOffset_of cl query)"
  have wf: "wf_client cl" using assms(1) by (simp add: client_ok_def Let_def)
  note f = find_hint_sound[OF wf assms(3,4)]
  have p: "?p < unat (cl_PartNum cl)" using unat_queryPartNum[OF wf assms(2)] by simp
  have "hint_ok C s aes db (E + (t_of C + 1) div 2) cl h"
    using assms(1,4) f(1) by (simp add: client_ok_def Let_def)
  then have h: "unat (ExtraPart cl ! h) < unat (cl_PartNum cl)" "evenly_split aes cl (HintID cl ! h) (SelectCutoff cl ! h)"
    "PRF4Select aes (HintID cl ! h) (of_nat (unat (ExtraPart cl ! h))) (SelectCutoff cl ! h) = (\<not> ind)"
    using f(2) by (simp_all add: hint_ok_def Let_def)
  obtain msg cl' where m: "client_query C aes query flip rando (mod_value (he_q C)) cl = Some (Inr (Some (h, ind, msg, cl')))"
    "\<And>k. k < unat (cl_PartNum cl) \<Longrightarrow> q_bvec msg ! k = query_bit aes cl ?p ind flip h k \<and> unat (q_Svec msg ! k) < unat (cl_PartSize cl)"
    using client_query_result[OF assms(1-7), of flip] by blast
  have "{k. k < unat (cl_PartNum cl) \<and> q_bvec msg ! k} = {k. k < unat (cl_PartNum cl) \<and> query_bit aes cl ?p ind flip h k}"
    using m(2) by auto
  with m query_balanced[OF h(1) p h(3) f(3,2) h(2) assms(8), of flip] show ?thesis by auto
qed

theorem query_message_balanced_witness:
  "\<exists>cl1 msg cl'. client_query ex_C ex_aes 2 True 5 10007 cl1 = Some (Inr (Some (0, True, msg, cl'))) \<and>
    card {k. k < 2 \<and> q_bvec msg ! k} = 1"
proof -
  obtain cl1 where r: "ready ex_env ex_secret (backup_noise ex_client 9) 9 4 cl1"
    and q: "unat (2 :: u32) < unat (cl_PartNum cl1) * unat (cl_PartSize cl1)"
    "find_hint (env_aes ex_env) 2 (queryPartNum_of cl1 2) (queryOffset_of cl1 2) cl1 False = (0, True)" "0 < unat (cl_M cl1)"
    "encZeroNext cl1 < length (encZeroCache cl1)" and P: "cl_PartNum cl1 = 2"
    by (rule ex_first_query)
  have V: "env_C ex_env = ex_C" "env_aes ex_env = ex_aes" by (simp_all add: ex_env_def)
  have "client_ok ex_C ex_secret ex_aes (entry (env_sv ex_env)) (backup_noise ex_client 9) cl1"
    "encodes ex_C ex_secret (encZeroCache cl1 ! encZeroNext cl1) (unat (cl_PartSize cl1) - 1) 0 9"
    using r q(4) by (simp_all add: ready_def V Let_def)
  from query_message_balanced[OF this(1) q(1) q(2)[unfolded V(2)] q(3,4) this(2), of 5 True]
  have "\<exists>msg cl'. client_query ex_C ex_aes 2 True 5 (mod_value (he_q ex_C)) cl1 = Some (Inr (Some (0, True, msg, cl'))) \<and>
      card {k. k < 2 \<and> q_bvec msg ! k} = 1"
    by (simp add: P ex_sizes) blast
  moreover have "mod_value (he_q ex_C) = 10007" by (simp add: ex_C_def)
  ultimately show ?thesis by auto
qed

text \<open>
  C9: Replacing the spent hint keeps the client's invariant: the refreshed hint covers the queried
  entry through its extra pair, its parity encodes its half plus that entry, and the next backup
  pointer has moved past the backup used.
\<close>

theorem refresh_keeps_invariant:
  assumes "client_ok C s aes db E cl" "h < unat (cl_M cl)"
    and "next_valid (SelectCutoff cl) (unat (NextHintIndex cl)) = Some j" "j + 1 < unat (cl_M cl) + unat (cl_M cl) div 2"
    and "unat qp < unat (cl_PartNum cl)" "unat qo < unat (cl_PartSize cl)"
    and "uint result mod t_of C = db (unat qp) (unat qo) mod t_of C"
    and "unat (cl_PartSize cl) \<le> he_degree C"
  shows "\<exists>cl'. refresh C aes h qp qo result cl = Some (Inr cl') \<and> client_ok C s aes db E cl' \<and>
    unat (NextHintIndex cl') = j + 1 \<and> cl_M cl' = cl_M cl"
  using refresh_ok[OF assms] by blast

theorem refresh_keeps_invariant_witness:
  "\<exists>cl1 cl'. refresh ex_C ex_aes 0 1 0 7 cl1 = Some (Inr cl') \<and>
    client_ok ex_C ex_secret ex_aes (entry ex_server) (backup_noise ex_client 9) cl' \<and> unat (NextHintIndex cl') = 5"
proof -
  obtain cl1 where r: "ready ex_env ex_secret (backup_noise ex_client 9) 9 4 cl1"
    and q: "0 < unat (cl_M cl1)" "next_valid (SelectCutoff cl1) (unat (NextHintIndex cl1)) = Some 4"
    "4 + 1 < unat (cl_M cl1) + unat (cl_M cl1) div 2" and P: "cl_PartNum cl1 = 2" "cl_PartSize cl1 = 2"
    by (rule ex_first_query)
  have ok: "client_ok ex_C ex_secret ex_aes (entry ex_server) (backup_noise ex_client 9) cl1"
    using r by (simp add: ready_def ex_env_def Let_def)
  have e: "entry ex_server (Suc 0) 0 = 7" by (simp add: entry_def ex_server_def)
  have "\<exists>cl'. refresh ex_C ex_aes 0 1 0 7 cl1 = Some (Inr cl') \<and>
      client_ok ex_C ex_secret ex_aes (entry ex_server) (backup_noise ex_client 9) cl' \<and>
      unat (NextHintIndex cl') = 4 + 1 \<and> cl_M cl' = cl_M cl1"
    by (rule refresh_keeps_invariant[OF ok q]) (simp_all add: P ex_sizes e)
  then obtain cl' where "refresh ex_C ex_aes 0 1 0 7 cl1 = Some (Inr cl')"
    "client_ok ex_C ex_secret ex_aes (entry ex_server) (backup_noise ex_client 9) cl'" "unat (NextHintIndex cl') = 4 + 1"
    by blast
  then show ?thesis by (intro exI[of _ cl1] exI[of _ cl']) simp
qed

text \<open>
  C20: A hint the search returns is usable: it is valid, the reported indicator is its stored bit, and
  it covers the queried entry, through its PRF half or its extra pair.
\<close>

theorem find_hint_covers:
  assumes "wf_client cl" "find_hint aes query (queryPartNum_of cl query) (queryOffset_of cl query) cl b0 = (h, b)"
    and "h < unat (cl_M cl)"
  shows "SelectCutoff cl ! h \<noteq> 0 \<and> b = indicator cl h \<and>
    covers aes cl h (unat (queryPartNum_of cl query)) (unat (queryOffset_of cl query))"
  using find_hint_sound[OF assms] by blast

theorem find_hint_covers_witness:
  "\<exists>cl1. find_hint ex_aes 2 1 0 cl1 False = (0, True) \<and> covers ex_aes cl1 0 1 0"
proof -
  obtain cl1 where r: "ready ex_env ex_secret (backup_noise ex_client 9) 9 4 cl1"
    and q: "find_hint (env_aes ex_env) 2 (queryPartNum_of cl1 2) (queryOffset_of cl1 2) cl1 False = (0, True)" "0 < unat (cl_M cl1)"
    and P: "cl_PartSize cl1 = 2"
    by (rule ex_first_query)
  have V: "env_aes ex_env = ex_aes" by (simp add: ex_env_def)
  have x: "queryPartNum_of cl1 2 = 1" "queryOffset_of cl1 2 = 0"
    by (simp_all add: queryPartNum_of_def queryOffset_of_def P)
  have "wf_client cl1" using r by (simp add: ready_def client_ok_def Let_def)
  from find_hint_covers[OF this q[unfolded V]] show ?thesis using q(1) by (auto simp: V x)
qed

text \<open>
  C21: The client's constructor establishes the shape every operation relies on, for every database
  size it accepts and whatever the fresh arrays contain; larger sizes and entries below eight
  bytes are refused.
\<close>

theorem OneSVClient_established:
  assumes "LogN < 32" "8 \<le> EntryB"
  shows "\<exists>cl. OneSVClient heap LogN EntryB p = Some cl \<and> wf_client cl \<and> dummy_ok aes cl \<and>
    unat (cl_PartNum cl) = 2 ^ (unat LogN div 2) \<and> unat (cl_PartSize cl) = 2 ^ (unat LogN div 2 + unat LogN mod 2) \<and>
    unat (cl_PartNum cl) * unat (cl_PartSize cl) = 2 ^ unat LogN"
proof -
  obtain cl where cl: "OneSVClient heap LogN EntryB p = Some cl" "dummyIdxUsed cl = 0"
    using assms by (auto simp: OneSVClient_def Let_def)
  have "unat LogN div 2 + (unat LogN div 2 + unat LogN mod 2) = unat LogN" by presburger
  then show ?thesis
    using OneSVClient_wf[OF cl(1)] cl by (intro exI[of _ cl]) (simp add: dummy_ok_def power_add[symmetric])
qed

theorem OneSVClient_established_witness:
  "\<exists>cl. OneSVClient ex_client 20 8 17 = Some cl \<and> wf_client cl \<and> unat (cl_PartNum cl) = 1024"
  using OneSVClient_established[of 20 8 ex_client 17 ex_aes] by auto

text \<open>
  C22: Preprocessing encrypts the database without loss: ciphertext \<open>k\<close> carries, at coefficient \<open>x\<close>,
  entry \<open>k * PartSize + x\<close>, because entries are already below the plaintext modulus the encoder
  reduces by.
\<close>

theorem preprocessDatabase_encodes:
  assumes "wf_server sv" "wf_context C" "unat (sv_PartSize sv) \<le> he_degree C"
    and "sv_plainModulus sv = mod_value (he_t C)" "encrypts C s encrypt E"
  shows "\<exists>db. preprocessDatabase C encrypt sv = Some (Inr (sv\<lparr>encryptedDB := db\<rparr>)) \<and> length db = unat (sv_PartNum sv) \<and>
    (\<forall>k < unat (sv_PartNum sv). \<forall>x < unat (sv_PartSize sv). encodes C s (db ! k) x (entry sv k x) E)"
  by (rule preprocessDatabase_result[OF assms])

theorem preprocessDatabase_encodes_witness:
  "\<exists>db. preprocessDatabase ex_C ex_encryption ex_server = Some (Inr (ex_server\<lparr>encryptedDB := db\<rparr>)) \<and>
    encodes ex_C ex_secret (db ! 1) 1 11 9"
proof -
  have sv: "wf_server ex_server" "unat (sv_PartSize ex_server) \<le> he_degree ex_C" "sv_plainModulus ex_server = mod_value (he_t ex_C)"
    using ex_match by (simp_all add: matching_def ex_server_def ex_client_def)
  have e: "entry ex_server 1 1 = 11" "unat (sv_PartNum ex_server) = 2" "unat (sv_PartSize ex_server) = 2"
    by (simp_all add: entry_def ex_server_def)
  obtain db where db: "preprocessDatabase ex_C ex_encryption ex_server = Some (Inr (ex_server\<lparr>encryptedDB := db\<rparr>))"
    "\<forall>k < 2. \<forall>x < 2. encodes ex_C ex_secret (db ! k) x (entry ex_server k x) 9"
    using preprocessDatabase_encodes[OF sv(1) ex_C_wf sv(2,3) ex_encrypts] unfolding e(2,3) by blast
  have "encodes ex_C ex_secret (db ! 1) 1 (entry ex_server 1 1) 9" by (rule db(2)[rule_format]) simp_all
  with db(1) show ?thesis unfolding e(1) by blast
qed

section \<open>Concrete instances\<close>

theorem decrypt_scale_and_round_correct_witness:
  "map uint (decrypt_scale_and_round ex_R [1767] 1) = [3]"
  using decrypt_scale_and_round_correct[OF ex_R_wf, of 1767 3 18 0] by (simp add: ex_R_def)

theorem onlineQuery_answers_witness:
  "\<exists>r0 r1. onlineQuery Default ex_server (\<lambda>_. [100, 200]) 10007 5 [True, False] [1, 0] ex_zero = Some (Inr (r0, r1)) \<and>
    uint r0 < 10007 \<and> uint r1 < 10007"
proof -
  let ?d = "\<lambda>_ :: ciphertext. [100, 200 :: u64]"
  have sv: "wf_server ex_server" using ex_match by (simp add: matching_def)
  have k: "k < unat (sv_PartNum ex_server) \<Longrightarrow> unat ([1, 0 :: u32] ! k) < unat (sv_PartSize ex_server)" for k
    by (auto simp: ex_server_def less_2_cases_iff)
  have "2 * uint (sv_plainModulus ex_server) \<le> uint (10007 :: u64)" "uint (10007 :: u64) < 2 ^ 54"
    "unat (sv_PartSize ex_server) \<le> length (?d ex_zero)" "uint (?d ex_zero ! (unat (sv_PartSize ex_server) - 1)) < 2 ^ 62"
    by (simp_all add: ex_server_def)
  from onlineQuery_answers[where decrypt = ?d and noise = 5 and bvec = "[True, False]", OF sv k this]
  obtain r0 r1 where r: "onlineQuery Default ex_server ?d 10007 5 [True, False] [1, 0] ex_zero = Some (Inr (r0, r1))"
    "\<And>b. uint (if b then r1 else r0) < uint (10007 :: u64)"
    by blast
  show ?thesis using r(1) r(2)[of True] r(2)[of False] by auto
qed

end
